(* ===== verification/Prelude.thy ===== *)
theory Prelude
  imports Main "HOL-Library.Word" "HOL-Library.Sublist"
begin

unbundle bit_operations_syntax

text \<open>
  The vocabulary every component of the library shares.

  \<^item> Go's machine types: \<open>byte\<close>, \<open>u32\<close> and \<open>u64\<close> are words; a Go
    \<open>int\<close> or \<open>int64\<close> is an \<open>int\<close> whose wrap-around is written with
    \<open>swrap64\<close> where it can occur; a \<open>string\<close> or \<open>[]byte\<close> is a list of bytes.
  \<^item> The doubling loop \<open>for sz < n { sz <<= 1 }\<close> that seven constructors of the
    repository contain (\<open>pow2_loop\<close>), with the proof that it returns.
  \<^item> \<open>iter_while\<close>: a callback that may stop an iteration by returning false.
\<close>

type_synonym byte = "8 word"
type_synonym u32 = "32 word"
type_synonym u64 = "64 word"
type_synonym bytes = "byte list"

named_theorems byte_simps "how operations on 64-bit words act on their little-endian bytes"

section \<open>Signed 64-bit integers\<close>

text \<open>The value a Go \<open>int64\<close> holds after an operation whose exact result is \<open>x\<close>.\<close>

definition swrap64 :: "int \<Rightarrow> int" where
  "swrap64 x = (x + 2 ^ 63) mod 2 ^ 64 - 2 ^ 63"

lemma swrap64_id: "- (2 ^ 63) \<le> x \<Longrightarrow> x < 2 ^ 63 \<Longrightarrow> swrap64 x = x"
  by (simp add: swrap64_def)

lemma swrap64_bounds: "- (2 ^ 63) \<le> swrap64 x" "swrap64 x < 2 ^ 63"
proof -
  have "0 \<le> (x + 2 ^ 63) mod 2 ^ 64" "(x + 2 ^ 63) mod 2 ^ 64 < (2 :: int) ^ 64"
    by simp_all
  then show "- (2 ^ 63) \<le> swrap64 x" "swrap64 x < 2 ^ 63"
    by (simp_all add: swrap64_def)
qed

lemma swrap64_add_left: "swrap64 (swrap64 x + y) = swrap64 (x + y)"
proof -
  have "(swrap64 x + y + 2 ^ 63) mod 2 ^ 64 = ((x + 2 ^ 63) mod 2 ^ 64 + y) mod 2 ^ 64"
    by (simp add: swrap64_def)
  also have "\<dots> = (x + y + 2 ^ 63) mod 2 ^ 64"
    by (subst mod_add_left_eq) (simp only: ac_simps)
  finally show ?thesis by (simp only: swrap64_def)
qed

section \<open>The doubling loop of the constructors\<close>

text \<open>
  \<open>sz <<= 1\<close> on a Go \<open>int\<close> wraps, so for a request above \<open>2 ^ 62\<close> the loop passes through
  \<open>- 2 ^ 63\<close> to \<open>0\<close> and never ends; the model says so by being a partial function.
\<close>

partial_function (option) pow2_loop :: "int \<Rightarrow> int \<Rightarrow> int option" where
  "pow2_loop sz n = (if sz < n then pow2_loop (swrap64 (sz * 2)) n else Some sz)"

declare pow2_loop.simps [code]

lemma pow2_loop_done: "n \<le> sz \<Longrightarrow> pow2_loop sz n = Some sz"
  by (simp add: pow2_loop.simps)

text \<open>The loop returns the least power of two at or above the request (and the start).\<close>

lemma pow2_loop_Some:
  assumes "a \<le> 62" and "n \<le> 2 ^ 62"
  shows "\<exists>k. a \<le> k \<and> k \<le> 62 \<and> pow2_loop (2 ^ a) n = Some (2 ^ k) \<and> n \<le> 2 ^ k
    \<and> (a < k \<longrightarrow> 2 ^ (k - 1) < n)"
  using assms
proof (induction "62 - a" arbitrary: a)
  case 0
  then have "a = 62" by simp
  with 0 have "pow2_loop (2 ^ a) n = Some (2 ^ a) \<and> n \<le> 2 ^ a"
    by (simp add: pow2_loop_done)
  with \<open>a = 62\<close> show ?case by (intro exI [of _ a]) auto
next
  case (Suc d)
  show ?case
  proof (cases "(2 :: int) ^ a < n")
    case False
    with Suc show ?thesis by (intro exI [of _ a]) (auto simp: pow2_loop_done)
  next
    case True
    have le: "(2 :: int) ^ Suc a \<le> 2 ^ 62"
      using Suc.hyps(2) by (intro power_increasing) auto
    moreover have "- (2 ^ 63) \<le> (2 :: int) ^ Suc a"
      by (rule order_trans [of _ 0]) simp_all
    ultimately have "swrap64 (2 ^ Suc a) = 2 ^ Suc a"
      by (intro swrap64_id) auto
    then have "swrap64 (2 ^ a * 2) = 2 ^ Suc a"
      by (simp only: power_Suc mult.commute)
    with True have step: "pow2_loop (2 ^ a) n = pow2_loop (2 ^ Suc a) n"
      by (subst pow2_loop.simps) simp
    have "d = 62 - Suc a" "Suc a \<le> 62" using Suc.hyps(2) by auto
    then obtain k where k: "Suc a \<le> k" "k \<le> 62" "pow2_loop (2 ^ Suc a) n = Some (2 ^ k)"
      "n \<le> 2 ^ k" "Suc a < k \<longrightarrow> 2 ^ (k - 1) < n"
      using Suc.hyps(1) Suc.prems(2) by blast
    moreover have "2 ^ (k - 1) < n"
    proof (cases "Suc a < k")
      case True
      with k show ?thesis by simp
    next
      case False
      with k(1) have "k - 1 = a" by simp
      with \<open>2 ^ a < n\<close> show ?thesis by simp
    qed
    ultimately show ?thesis using step by (intro exI [of _ k]) auto
  qed
qed

text \<open>Beyond the range the loop never returns.\<close>

lemma pow2_loop_zero: "0 < n \<Longrightarrow> pow2_loop 0 n = Some r \<Longrightarrow> False"
proof -
  assume n: "0 < n" and r: "pow2_loop 0 n = Some r"
  have "0 = (0 :: int) \<longrightarrow> n \<le> 0"
  proof (rule pow2_loop.raw_induct [where P = "\<lambda>z n r. z = 0 \<longrightarrow> n \<le> 0", OF _ r])
    fix f and z m y :: int
    assume IH: "\<And>z m y. f z m = Some y \<Longrightarrow> z = 0 \<longrightarrow> m \<le> 0"
      and eq: "(if z < m then f (swrap64 (z * 2)) m else Some z) = Some y"
    show "z = 0 \<longrightarrow> m \<le> 0"
      using eq IH [of 0 m y] by (auto simp: swrap64_def split: if_splits)
  qed
  with n show False by simp
qed

section \<open>The first index with a property\<close>

lemma first_index:
  fixes n :: nat
  assumes "\<exists>i < n. P i"
  obtains i where "i < n" "P i" "\<forall>j < i. \<not> P j"
proof -
  obtain i where "P i" "i < n" using assms by blast
  have "P (LEAST i. P i)" using \<open>P i\<close> by (rule LeastI)
  moreover have "(LEAST i. P i) < n"
    using Least_le [of P, OF \<open>P i\<close>] \<open>i < n\<close> by (rule le_less_trans)
  moreover have "\<forall>j < (LEAST i. P i). \<not> P j" by (blast dest: not_less_Least)
  ultimately show thesis by (intro that)
qed

lemma first_index_in_list:
  assumes "\<exists>x \<in> set xs. P x"
  obtains i where "i < length xs" "P (xs ! i)" "\<forall>j < i. \<not> P (xs ! j)"
proof -
  have "\<exists>i < length xs. P (xs ! i)" using assms by (metis in_set_conv_nth)
  then show thesis by (rule first_index) (rule that)
qed

section \<open>Interruptible iteration\<close>

text \<open>
  An iteration with a callback: the callback gets an element and its own state, and its
  boolean says whether to go on. The result says whether the iteration ran to its end.
\<close>

fun iter_while :: "('a \<Rightarrow> 's \<Rightarrow> bool \<times> 's) \<Rightarrow> 'a list \<Rightarrow> 's \<Rightarrow> bool \<times> 's" where
  "iter_while f [] s = (True, s)"
| "iter_while f (x # xs) s =
     (case f x s of (True, s') \<Rightarrow> iter_while f xs s' | (False, s') \<Rightarrow> (False, s'))"

lemma iter_while_append:
  "iter_while f (xs @ ys) s =
     (case iter_while f xs s of (True, s') \<Rightarrow> iter_while f ys s' | (False, s') \<Rightarrow> (False, s'))"
  by (induction xs arbitrary: s) (auto split: prod.splits bool.splits)

lemma iter_while_cong:
  "xs = ys \<Longrightarrow> s = t \<Longrightarrow> (\<And>x u. x \<in> set ys \<Longrightarrow> f x u = g x u) \<Longrightarrow> iter_while f xs s = iter_while g ys t"
proof (induction ys arbitrary: xs s t)
  case (Cons y ys)
  have "iter_while f ys u = iter_while g ys u" for u
    by (rule Cons.IH) (auto intro: Cons.prems)
  with Cons.prems show ?case by (auto split: prod.splits bool.splits)
qed simp

lemma iter_while_fun_cong [fundef_cong]:
  "xs = ys \<Longrightarrow> (\<And>x u. x \<in> set ys \<Longrightarrow> f x u = g x u) \<Longrightarrow> iter_while f xs = iter_while g ys"
  by (intro ext iter_while_cong) auto

text \<open>A callback that always goes on is a fold.\<close>

lemma iter_while_fold: "iter_while (\<lambda>x s. (True, g x s)) xs s = (True, fold g xs s)"
  by (induction xs arbitrary: s) auto

text \<open>Iterating over the pieces an element contributes is iterating over their concatenation.\<close>

lemma iter_while_concat:
  assumes "\<And>x u. x \<in> set xs \<Longrightarrow> f x u = iter_while g (h x) u"
  shows "iter_while f xs s = iter_while g (concat (map h xs)) s"
  using assms
  by (induction xs arbitrary: s) (auto simp: iter_while_append split: prod.splits bool.splits)

section \<open>Slices and copies\<close>

text \<open>\<open>xs[lo:hi]\<close> (in range), and what \<open>copy(dst, src)\<close> leaves in \<open>dst\<close>.\<close>

definition slice :: "'a list \<Rightarrow> nat \<Rightarrow> nat \<Rightarrow> 'a list" where
  "slice xs lo hi = take (hi - lo) (drop lo xs)"

definition go_copy :: "'a list \<Rightarrow> 'a list \<Rightarrow> 'a list" where
  "go_copy dst src = take (length dst) src @ drop (length src) dst"

text \<open>\<open>copy(dst[off:], src)\<close>.\<close>

definition copy_at :: "'a list \<Rightarrow> nat \<Rightarrow> 'a list \<Rightarrow> 'a list" where
  "copy_at dst off src = take off dst @ go_copy (drop off dst) src"

lemma length_slice [simp]: "length (slice xs lo hi) = min (hi - lo) (length xs - lo)"
  by (simp add: slice_def)

lemma length_go_copy [simp]: "length (go_copy dst src) = length dst"
  by (simp add: go_copy_def)

lemma length_copy_at [simp]: "length (copy_at dst off src) = length dst"
  by (simp add: copy_at_def)

section \<open>Rotations: a circular buffer read from a position\<close>

lemma rotate_eq: "p \<le> length xs \<Longrightarrow> rotate p xs = drop p xs @ take p xs"
  by (cases "p = length xs") (simp_all add: rotate_drop_take)

lemma rotate_add_mod: "rotate ((p + n) mod length xs) xs = rotate n (rotate p xs)"
  by (simp add: rotate_rotate rotate_conv_mod [symmetric] add.commute)

lemma wrap_add_mod:
  fixes p c l :: nat
  assumes "p < l" "c \<le> l" shows "(p + c) mod l = (if p + c < l then p + c else p + c - l)"
  using assms by (auto simp: le_mod_geq)

text \<open>Advancing the read position drops what was read.\<close>

lemma take_rotate_advance:
  assumes "n \<le> m" "m \<le> length xs"
  shows "take (m - n) (rotate n xs) = drop n (take m xs)"
  using assms by (simp add: rotate_eq drop_take)

text \<open>Two copies, one up to the end of the buffer and one from its start, write at a position.\<close>

definition circ_write :: "'a list \<Rightarrow> nat \<Rightarrow> 'a list \<Rightarrow> 'a list" where
  "circ_write xs q data = go_copy (copy_at xs q data) (drop (length xs - q) data)"

lemma length_circ_write [simp]: "length (circ_write xs q data) = length xs"
  by (simp add: circ_write_def)

lemma rotate_circ_write:
  assumes q: "q < length xs" and n: "length data \<le> length xs"
  shows "rotate q (circ_write xs q data) = data @ drop (length data) (rotate q xs)"
proof (cases "length data \<le> length xs - q")
  case True
  then have "circ_write xs q data = take q xs @ data @ drop (q + length data) xs"
    using q by (simp add: circ_write_def copy_at_def go_copy_def add.commute)
  with True q show ?thesis
    by (simp add: rotate_eq add.commute)
next
  case False
  let ?f = "length xs - q"
  let ?tl = "drop ?f data"
  have "copy_at xs q data = take q xs @ take ?f data"
    using False by (simp add: copy_at_def go_copy_def)
  moreover have "length ?tl \<le> q" using n by simp
  ultimately have w: "circ_write xs q data = (?tl @ drop (length ?tl) (take q xs)) @ take ?f data"
    using q False by (simp add: circ_write_def go_copy_def)
  have l: "length (?tl @ drop (length ?tl) (take q xs)) = q" using q n False by simp
  have "rotate q (circ_write xs q data) = take ?f data @ ?tl @ drop (length ?tl) (take q xs)"
    unfolding w using rotate_append [of "?tl @ drop (length ?tl) (take q xs)" "take ?f data"]
    by (simp only: l append.assoc)
  also have "\<dots> = data @ drop (length data - ?f) (take q xs)"
    by (metis append.assoc append_take_drop_id length_drop)
  finally show ?thesis using q False n by (simp add: rotate_eq)
qed

text \<open>Writing at the end of the readable part appends to it.\<close>

lemma take_rotate_circ_write:
  assumes p: "p < length xs" and n: "m + length data \<le> length xs"
  shows "take (m + length data) (rotate p (circ_write xs ((p + m) mod length xs) data)) =
    take m (rotate p xs) @ data"
proof -
  let ?q = "(p + m) mod length xs" and ?L = "rotate p xs"
  let ?L' = "rotate p (circ_write xs ?q data)"
  have q: "?q < length xs" using p by (intro mod_less_divisor) auto
  have "rotate m ?L' = rotate ?q (circ_write xs ?q data)"
    using rotate_add_mod [of p m "circ_write xs ?q data"] by simp
  also have "\<dots> = data @ drop (length data) (rotate ?q xs)"
    using q n by (intro rotate_circ_write) auto
  also have "rotate ?q xs = rotate m ?L" by (rule rotate_add_mod)
  finally have "drop m ?L' @ take m ?L' = (data @ drop (m + length data) ?L) @ take m ?L"
    using n by (simp add: rotate_eq [of m] add.commute)
  then have "drop m ?L' = data @ drop (m + length data) ?L" "take m ?L' = take m ?L"
    using n by (subst (asm) append_eq_append_conv; simp)+
  then have "?L' = take m ?L @ data @ drop (m + length data) ?L"
    by (metis append_take_drop_id)
  then show ?thesis using n by simp
qed

end
