(* ===== verification/Words.thy ===== *)
theory Words
  imports Prelude
begin

text \<open>
  64-bit words as the code's bit tricks see them.

  \<^item> \<open>ctz\<close> is \<open>bits.TrailingZeros64\<close>; \<open>bits_asc\<close> is the sequence of bit positions the loop
    \<open>for word != 0 { tz(word); word &= word - 1 }\<close> visits.
  \<^item> \<open>bytes_of\<close> and \<open>le64\<close> are the little-endian bytes of a word and the load
    \<open>binary.LittleEndian.Uint64\<close>; the lemmas \<open>byte_simps\<close> say how the bitwise operations
    and the subtraction (with its borrow, \<open>subb\<close>) act on the bytes.
\<close>

section \<open>Trailing zeros and the set bits of a word\<close>

fun ctz_from :: "nat \<Rightarrow> nat \<Rightarrow> u64 \<Rightarrow> nat" where
  "ctz_from 0 i w = i"
| "ctz_from (Suc n) i w = (if bit w i then i else ctz_from n (Suc i) w)"

definition ctz :: "u64 \<Rightarrow> nat" where
  "ctz w = ctz_from 64 0 w"

lemma ctz_from_le: "i \<le> ctz_from n i w \<and> ctz_from n i w \<le> i + n"
proof (induction n arbitrary: i)
  case (Suc n)
  from Suc [of "Suc i"] show ?case by simp
qed simp

lemma ctz_from_least: "i \<le> j \<Longrightarrow> j < ctz_from n i w \<Longrightarrow> \<not> bit w j"
proof (induction n arbitrary: i)
  case (Suc n)
  from Suc.prems show ?case
    by (cases "j = i") (auto split: if_splits intro: Suc.IH [of "Suc i", THEN notE])
qed simp

lemma ctz_from_bit: "ctz_from n i w < i + n \<Longrightarrow> bit w (ctz_from n i w)"
  by (induction n arbitrary: i) auto

lemma ctz_least: "j < ctz w \<Longrightarrow> \<not> bit w j"
  unfolding ctz_def by (rule ctz_from_least [of 0]) simp_all

lemma bit_u64_less: "bit (w :: u64) n \<Longrightarrow> n < 64"
  using bit_imp_le_length [of w n] by simp

lemma ctz_less_bit:
  assumes "bit w j" shows "ctz w < 64" "bit w (ctz w)" "ctz w \<le> j"
proof -
  show le: "ctz w \<le> j" using assms ctz_least [of j w] by (meson not_le)
  with assms show lt: "ctz w < 64" using bit_u64_less by fastforce
  then show "bit w (ctz w)" unfolding ctz_def by (intro ctz_from_bit) simp
qed

lemma nonzero_bit: "(w :: u64) \<noteq> 0 \<Longrightarrow> \<exists>j. bit w j"
  by (metis bit_0_eq bit_eqI bot_apply bot_bool_def)

lemma ctz_nonzero: "w \<noteq> 0 \<Longrightarrow> ctz w < 64 \<and> bit w (ctz w)"
  using nonzero_bit ctz_less_bit by blast

text \<open>\<open>w & (w - 1)\<close> clears the lowest set bit and nothing else.\<close>

lemma clear_lowest:
  fixes w :: u64
  assumes "w \<noteq> 0"
  shows "w AND (w - 1) = unset_bit (ctz w) w"
proof -
  define k where "k = ctz w"
  have k: "k < 64" "bit w k" and low: "\<And>j. j < k \<Longrightarrow> \<not> bit w j"
    using ctz_nonzero [OF assms] ctz_least by (auto simp: k_def)
  have "w = unset_bit k w OR 2 ^ k"
    using k by (intro bit_word_eqI) (auto simp: bit_simps)
  moreover have "unset_bit k w AND 2 ^ k = 0"
    by (rule bit_word_eqI) (auto simp: bit_simps)
  ultimately have "w = unset_bit k w + 2 ^ k"
    by (metis disjunctive_add_eq_or)
  then have "w - 1 = unset_bit k w + mask k"
    by (simp add: mask_eq_exp_minus_1)
  moreover have "unset_bit k w AND mask k = 0"
    using low by (intro bit_word_eqI) (auto simp: bit_simps)
  ultimately have "w - 1 = unset_bit k w OR mask k"
    by (metis disjunctive_add_eq_or)
  then show ?thesis
    using low unfolding k_def [symmetric] by (intro bit_word_eqI) (auto simp: bit_simps)
qed

lemma bit_clear_lowest: "(w :: u64) \<noteq> 0 \<Longrightarrow> bit (w AND (w - 1)) j \<longleftrightarrow> bit w j \<and> j \<noteq> ctz w"
  by (auto simp: clear_lowest bit_simps)

lemma clear_lowest_less: "(w :: u64) \<noteq> 0 \<Longrightarrow> w AND (w - 1) < w"
proof -
  assume w: "w \<noteq> 0"
  have "w AND (w - 1) \<le> w" by (rule word_and_le2)
  moreover have "w AND (w - 1) \<noteq> w" using bit_clear_lowest [OF w] ctz_nonzero [OF w] by metis
  ultimately show ?thesis by simp
qed

function bits_asc :: "u64 \<Rightarrow> nat list" where
  "bits_asc w = (if w = 0 then [] else ctz w # bits_asc (w AND (w - 1)))"
  by pat_completeness auto
termination
  by (relation "measure unat") (auto simp: word_less_nat_alt [symmetric] clear_lowest_less)

declare bits_asc.simps [simp del]

lemma bits_asc_sound: "set (bits_asc w) = {j. bit w j} \<and> sorted_wrt (<) (bits_asc w)"
proof (induction w rule: bits_asc.induct)
  case (1 w)
  show ?case
  proof (cases "w = 0")
    case True
    then show ?thesis by (simp add: bits_asc.simps)
  next
    case False
    with 1 have IH: "set (bits_asc (w AND (w - 1))) = {j. bit (w AND (w - 1)) j}"
      "sorted_wrt (<) (bits_asc (w AND (w - 1)))" by auto
    have "ctz w < j" if "bit (w AND (w - 1)) j" for j
      using that bit_clear_lowest [OF False] ctz_less_bit(3) [of w j] by fastforce
    with IH False show ?thesis
      using ctz_nonzero [OF False] bit_clear_lowest [OF False]
      by (subst (1 2) bits_asc.simps) auto
  qed
qed

lemmas set_bits_asc = bits_asc_sound [THEN conjunct1]
lemmas sorted_bits_asc = bits_asc_sound [THEN conjunct2]

lemma bits_asc_eq: "bits_asc w = filter (bit w) [0..<64]"
proof (rule sorted_distinct_set_unique)
  show "sorted (bits_asc w)" "distinct (bits_asc w)"
    using sorted_bits_asc [of w] by (simp_all add: strict_sorted_iff)
  show "set (bits_asc w) = set (filter (bit w) [0..<64])"
    using bit_u64_less by (auto simp: set_bits_asc)
qed (auto simp: sorted_wrt_filter)

section \<open>The little-endian bytes of a word\<close>

text \<open>
  Bytes are read off an \<open>int\<close>: floor division keeps a negative number's two's complement
  digits, so a difference that borrows needs no special case.
\<close>

primrec ibytes :: "nat \<Rightarrow> int \<Rightarrow> bytes" where
  "ibytes 0 x = []"
| "ibytes (Suc n) x = word_of_int x # ibytes n (x div 256)"

definition bytes_of :: "u64 \<Rightarrow> bytes" where
  "bytes_of w = ibytes 8 (uint w)"

text \<open>\<open>binary.LittleEndian.Uint64(b)\<close> reads the first eight bytes.\<close>

primrec le_int :: "bytes \<Rightarrow> int" where
  "le_int [] = 0"
| "le_int (b # bs) = uint b + 256 * le_int bs"

definition le64 :: "bytes \<Rightarrow> u64" where
  "le64 bs = word_of_int (le_int (take 8 bs))"

lemma length_ibytes [simp]: "length (ibytes n x) = n"
  by (induction n arbitrary: x) auto

lemma length_bytes_of [simp]: "length (bytes_of w) = 8"
  by (simp add: bytes_of_def)

lemma div_256: "x div 256 = drop_bit 8 (x :: int)"
  by (simp add: drop_bit_eq_div)

lemma word_of_int_byte_eq: "(word_of_int x :: byte) = word_of_int y \<longleftrightarrow> take_bit 8 x = take_bit 8 y"
  by (simp add: word_of_int_eq_iff)

lemma ibytes_take_bit: "8 * n \<le> m \<Longrightarrow> ibytes n (take_bit m x) = ibytes n x"
proof (induction n arbitrary: x m)
  case (Suc n)
  have "take_bit m x div 256 = take_bit (m - 8) (x div 256)"
    by (simp add: div_256 drop_bit_take_bit)
  moreover have "(word_of_int (take_bit m x) :: byte) = word_of_int x"
    using Suc.prems by (simp add: word_of_int_byte_eq)
  ultimately show ?case using Suc by simp
qed simp

lemma ibytes_eqI: "take_bit (8 * n) x = take_bit (8 * n) y \<Longrightarrow> ibytes n x = ibytes n y"
  using ibytes_take_bit [of n "8 * n" x] ibytes_take_bit [of n "8 * n" y] by simp

lemma bytes_of_word_of_int: "bytes_of (word_of_int x) = ibytes 8 x"
  unfolding bytes_of_def by (rule ibytes_eqI) (simp add: uint_word_of_int_eq)

lemma uint_byte_of_int: "uint (word_of_int x :: byte) = x mod 256"
  by (simp add: uint_word_of_int_eq take_bit_eq_mod)

lemma le_int_ibytes: "le_int (ibytes n x) = x mod 256 ^ n"
proof (induction n arbitrary: x)
  case (Suc n)
  then show ?case by (simp add: uint_byte_of_int zmod_zmult2_eq add.commute)
qed simp

lemma le_int_bounds: "0 \<le> le_int bs" "le_int bs < 256 ^ length bs"
proof -
  have "0 \<le> le_int bs \<and> le_int bs < 256 ^ length bs"
  proof (induction bs)
    case (Cons b bs)
    have "uint b < 256" using uint_bounded [of b] by simp
    with Cons show ?case by simp
  qed simp
  then show "0 \<le> le_int bs" "le_int bs < 256 ^ length bs" by auto
qed

lemma ibytes_le_int: "ibytes (length bs) (le_int bs) = bs"
proof (induction bs)
  case (Cons b bs)
  have "0 \<le> uint b" "uint b < 256" using uint_bounded [of b] by auto
  then have "(uint b + 256 * le_int bs) div 256 = le_int bs" by simp
  moreover have "(word_of_int (uint b + 256 * le_int bs) :: byte) = b"
  proof -
    have "(word_of_int (uint b + 256 * le_int bs) :: byte) = word_of_int (uint b)"
      by (subst word_of_int_byte_eq) (simp add: take_bit_eq_mod)
    then show ?thesis by simp
  qed
  ultimately show ?case using Cons by simp
qed simp

text \<open>Loading eight bytes and reading them back.\<close>

lemma bytes_of_le64 [byte_simps]: "8 \<le> length bs \<Longrightarrow> bytes_of (le64 bs) = take 8 bs"
  using ibytes_le_int [of "take 8 bs"] by (simp add: le64_def bytes_of_word_of_int min_absorb2)

lemma le64_bytes_of: "le64 (bytes_of w) = w"
proof -
  have "uint w mod 256 ^ 8 = uint w" using uint_bounded [of w] by simp
  then show ?thesis by (simp add: le64_def bytes_of_def le_int_ibytes)
qed

lemma bytes_of_inject: "bytes_of v = bytes_of w \<longleftrightarrow> v = w"
  by (metis le64_bytes_of)

text \<open>Subtraction of digit lists with a borrow.\<close>

fun subb :: "bool \<Rightarrow> bytes \<Rightarrow> bytes \<Rightarrow> bytes" where
  "subb c (x # xs) (y # ys) = (x - y - of_bool c) # subb (uint x < uint y + of_bool c) xs ys"
| "subb c xs ys = []"

lemma ibytes_diff: "ibytes n (x - y - of_bool c) = subb c (ibytes n x) (ibytes n y)"
proof (induction n arbitrary: x y c)
  case (Suc n)
  let ?c = "x mod 256 < y mod 256 + of_bool c"
  have "(x - y - of_bool c) div 256 = x div 256 - y div 256 - of_bool ?c"
  proof (rule int_div_pos_eq)
    let ?r = "x mod 256 - y mod 256 - of_bool c + 256 * of_bool ?c"
    have "x = 256 * (x div 256) + x mod 256" "y = 256 * (y div 256) + y mod 256" by simp_all
    then show "x - y - of_bool c = 256 * (x div 256 - y div 256 - of_bool ?c) + ?r"
      by (simp add: algebra_simps)
    have "0 \<le> x mod 256" "x mod 256 < 256" "0 \<le> y mod 256" "y mod 256 < 256" by simp_all
    then show "0 \<le> ?r" "?r < 256" by (auto simp: of_bool_def)
  qed
  then have "ibytes n ((x - y - of_bool c) div 256) = subb ?c (ibytes n (x div 256)) (ibytes n (y div 256))"
    using Suc by simp
  then show ?case
    by (simp add: uint_byte_of_int wi_hom_sub [symmetric] of_bool_def)
qed simp

lemma bytes_of_diff [byte_simps]: "bytes_of (x - y) = subb False (bytes_of x) (bytes_of y)"
proof -
  have "bytes_of (x - y) = bytes_of (word_of_int (uint x - uint y))"
    by (simp only: wi_hom_sub [symmetric] word_of_int_uint)
  also have "\<dots> = ibytes 8 (uint x - uint y - of_bool False)"
    by (simp only: bytes_of_word_of_int of_bool_eq diff_zero)
  finally show ?thesis
    unfolding ibytes_diff by (simp add: bytes_of_def)
qed

lemma ibytes_and: "ibytes n (x AND y) = map2 (AND) (ibytes n x) (ibytes n y)"
  by (induction n arbitrary: x y) (simp_all add: div_256 word_wi_log_defs)

lemma ibytes_or: "ibytes n (x OR y) = map2 (OR) (ibytes n x) (ibytes n y)"
  by (induction n arbitrary: x y) (simp_all add: div_256 word_wi_log_defs)

lemma ibytes_xor: "ibytes n (x XOR y) = map2 (XOR) (ibytes n x) (ibytes n y)"
  by (induction n arbitrary: x y) (simp_all add: div_256 word_wi_log_defs)

lemma ibytes_not: "ibytes n (NOT x) = map NOT (ibytes n x)"
proof (induction n arbitrary: x)
  case (Suc n)
  have "drop_bit 8 (NOT x) = NOT (drop_bit 8 x)"
    by (rule bit_eqI) (simp add: bit_simps)
  with Suc show ?case by (simp add: div_256 word_wi_log_defs)
qed simp

lemma bytes_of_logic [byte_simps]:
  "bytes_of (x AND y) = map2 (AND) (bytes_of x) (bytes_of y)"
  "bytes_of (x OR y) = map2 (OR) (bytes_of x) (bytes_of y)"
  "bytes_of (x XOR y) = map2 (XOR) (bytes_of x) (bytes_of y)"
  by (simp_all only: bytes_of_def ibytes_and [symmetric] ibytes_or [symmetric]
      ibytes_xor [symmetric] uint_and uint_or uint_xor)

lemma bytes_of_not [byte_simps]: "bytes_of (NOT x) = map NOT (bytes_of x)"
  unfolding word_not_def bytes_of_word_of_int ibytes_not by (simp add: bytes_of_def)

lemma bit_ibytes: "i < n \<Longrightarrow> j < 8 \<Longrightarrow> bit (ibytes n x ! i) j \<longleftrightarrow> bit x (8 * i + j)"
proof (induction n arbitrary: i x)
  case (Suc n)
  then show ?case
    by (cases i) (simp_all add: div_256 bit_simps add.assoc)
qed simp

lemma bit_bytes_of: "i < 8 \<Longrightarrow> j < 8 \<Longrightarrow> bit (bytes_of w ! i) j \<longleftrightarrow> bit w (8 * i + j)"
  by (simp add: bytes_of_def bit_ibytes bit_uint_iff)

lemma bytes_of_zero: "bytes_of 0 = replicate 8 0"
  by (simp add: bytes_of_def numeral_eq_Suc)

lemma nonzero_iff_byte: "w \<noteq> 0 \<longleftrightarrow> (\<exists>b \<in> set (bytes_of w). b \<noteq> 0)"
proof -
  have "w = 0 \<longleftrightarrow> bytes_of w = replicate 8 0"
    by (simp add: bytes_of_zero [symmetric] bytes_of_inject)
  also have "\<dots> \<longleftrightarrow> (\<forall>b \<in> set (bytes_of w). b = 0)"
    using replicate_length_same [of "bytes_of w" 0] by (metis in_set_replicate length_bytes_of)
  finally show ?thesis by blast
qed

lemma nonzero_iff_nth: "w \<noteq> 0 \<longleftrightarrow> (\<exists>i < 8. bytes_of w ! i \<noteq> 0)"
  unfolding nonzero_iff_byte Bex_def in_set_conv_nth length_bytes_of by blast

text \<open>The index of the lowest byte that is not zero is \<open>ctz w >> 3\<close>.\<close>

lemma ctz_byte:
  assumes i: "i < 8" and nz: "bytes_of w ! i \<noteq> 0" and low: "\<And>j. j < i \<Longrightarrow> bytes_of w ! j = 0"
  shows "ctz w div 8 = i"
proof -
  obtain k where k: "bit (bytes_of w ! i) k"
    using nz by (metis bit_0_eq bit_eqI bot_apply bot_bool_def)
  then have "k < 8" using bit_imp_le_length by fastforce
  with k i have bk: "bit w (8 * i + k)" by (simp add: bit_bytes_of)
  let ?c = "ctz w"
  have c: "?c < 64" "bit w ?c" "?c \<le> 8 * i + k" using ctz_less_bit [OF bk] by auto
  then have "bit (bytes_of w ! (?c div 8)) (?c mod 8)"
    by (simp add: bit_bytes_of less_mult_imp_div_less)
  then have "bytes_of w ! (?c div 8) \<noteq> 0" by auto
  then have "\<not> ?c div 8 < i" using low by auto
  moreover have "?c div 8 \<le> i" using c(3) \<open>k < 8\<close> by linarith
  ultimately show ?thesis by simp
qed

lemma unat_byte_less: "unat (b :: byte) < 256"
  using unsigned_less [of b, where ?'a = nat] by simp

section \<open>Masked indices\<close>

lemma unat_and_mask: "unat ((x :: u64) AND (2 ^ k - 1)) = unat x mod 2 ^ k"
proof -
  have "x AND (2 ^ k - 1) = take_bit k x" by (simp add: take_bit_eq_mask mask_eq_exp_minus_1)
  then have "unat (x AND (2 ^ k - 1)) = take_bit k (unat x)"
    by (simp only: unsigned_take_bit_eq)
  then show ?thesis by (simp only: take_bit_eq_mod)
qed

lemma unat_add_mod:
  assumes "k \<le> 64" shows "unat ((x :: u64) + y) mod 2 ^ k = (unat x + unat y) mod 2 ^ k"
proof -
  have "(2 :: nat) ^ k dvd 2 ^ 64" using assms by (rule le_imp_power_dvd)
  then show ?thesis by (simp add: unat_word_ariths mod_mod_cancel)
qed

lemma unat_of_nat_u64: "m < 2 ^ 64 \<Longrightarrow> unat (of_nat m :: u64) = m"
  by (simp add: unsigned_of_nat take_bit_nat_eq_self)

end
