(* ===== verification/Swar.thy ===== *)
theory Swar
  imports Words
begin

text \<open>
  Package \<open>swar\<close> (src/swar/swar.go): byte-parallel scans of 64-bit words. The definitions follow
  the source function by function; the lemmas show that each bit trick decides exactly the
  byte-wise question its comment asks, and that the two scanning loops return what a plain
  byte-by-byte search returns.
\<close>

section \<open>The primitives on one word\<close>

definition Lo :: u64 where "Lo = 0x0101010101010101"
definition Hi :: u64 where "Hi = 0x8080808080808080"

definition HasZero :: "u64 \<Rightarrow> bool" where
  "HasZero x \<longleftrightarrow> (x - Lo) AND NOT x AND Hi \<noteq> 0"

definition HasByte :: "u64 \<Rightarrow> byte \<Rightarrow> bool" where
  "HasByte x b = HasZero (x XOR (Lo * ucast b))"

definition HasLess :: "u64 \<Rightarrow> byte \<Rightarrow> bool" where
  "HasLess x n \<longleftrightarrow> (x - Lo * ucast n) AND NOT x AND Hi \<noteq> 0"

definition FirstByte :: "u64 \<Rightarrow> byte \<Rightarrow> nat" where
  "FirstByte x b =
     (let mask = x XOR (Lo * ucast b);
          mask = (mask - Lo) AND NOT mask AND Hi
      in if mask = 0 then 8 else ctz mask div 8)"

section \<open>The scans\<close>

text \<open>The tail loops run byte by byte from \<open>i\<close>.\<close>

function FindByte_tail :: "bytes \<Rightarrow> byte \<Rightarrow> nat \<Rightarrow> int" where
  "FindByte_tail data b i =
     (if i < length data then if data ! i = b then int i else FindByte_tail data b (i + 1) else -1)"
  by pat_completeness auto
termination by (relation "measure (\<lambda>(data, b, i). length data - i)") auto

function FindByte_bulk :: "bytes \<Rightarrow> byte \<Rightarrow> nat \<Rightarrow> int" where
  "FindByte_bulk data b i =
     (if i + 8 \<le> length data then
        let x = le64 (drop i data); idx = FirstByte x b
        in if idx < 8 then int (i + idx) else FindByte_bulk data b (i + 8)
      else FindByte_tail data b i)"
  by pat_completeness auto
termination by (relation "measure (\<lambda>(data, b, i). length data - i)") auto

definition FindByte :: "bytes \<Rightarrow> byte \<Rightarrow> int" where
  "FindByte data b = FindByte_bulk data b 0"

definition FindQuote :: "bytes \<Rightarrow> int" where
  "FindQuote data = FindByte data 0x22"

text \<open>The condition of the slow loops of \<open>FindEscape\<close>.\<close>

definition esc_byte :: "byte \<Rightarrow> bool" where
  "esc_byte c \<longleftrightarrow> c < 0x20 \<or> c = 0x22 \<or> c = 0x5C"

text \<open>The label \<open>slow\<close>: look at \<open>data[i .. i+8)\<close> byte by byte.\<close>

function FindEscape_slow :: "bytes \<Rightarrow> nat \<Rightarrow> nat \<Rightarrow> nat option" where
  "FindEscape_slow data i j =
     (if j < 8 \<and> i + j < length data then
        if esc_byte (data ! (i + j)) then Some (i + j) else FindEscape_slow data i (j + 1)
      else None)"
  by pat_completeness auto
termination by (relation "measure (\<lambda>(data, i, j). 8 - j)") auto

function FindEscape_tail :: "bytes \<Rightarrow> nat \<Rightarrow> int" where
  "FindEscape_tail data i =
     (if i < length data then if esc_byte (data ! i) then int i else FindEscape_tail data (i + 1) else -1)"
  by pat_completeness auto
termination by (relation "measure (\<lambda>(data, i). length data - i)") auto

function FindEscape_bulk :: "bytes \<Rightarrow> nat \<Rightarrow> int" where
  "FindEscape_bulk data i =
     (if i + 8 \<le> length data then
        let x = le64 (drop i data)
        in if HasLess x 0x20 \<or> HasByte x 0x22 \<or> HasByte x 0x5C
           then (case FindEscape_slow data i 0 of
                   Some k \<Rightarrow> int k
                 | None \<Rightarrow> FindEscape_bulk data (i + 8))
           else FindEscape_bulk data (i + 8)
      else FindEscape_tail data i)"
  by pat_completeness auto
termination by (relation "measure (\<lambda>(data, i). length data - i)") auto

definition FindEscape :: "bytes \<Rightarrow> int" where
  "FindEscape data = FindEscape_bulk data 0"

declare FindByte_tail.simps [simp del] FindByte_bulk.simps [simp del]
  FindEscape_slow.simps [simp del] FindEscape_tail.simps [simp del] FindEscape_bulk.simps [simp del]

section \<open>Reference search\<close>

fun index_from :: "nat \<Rightarrow> ('a \<Rightarrow> bool) \<Rightarrow> 'a list \<Rightarrow> int" where
  "index_from i P [] = -1"
| "index_from i P (x # xs) = (if P x then int i else index_from (Suc i) P xs)"

lemma index_from_append:
  "index_from i P (xs @ ys) =
     (if \<exists>x \<in> set xs. P x then index_from i P xs else index_from (i + length xs) P ys)"
  by (induction xs arbitrary: i) auto

lemma index_from_first:
  "k < length xs \<Longrightarrow> P (xs ! k) \<Longrightarrow> (\<And>j. j < k \<Longrightarrow> \<not> P (xs ! j)) \<Longrightarrow> index_from i P xs = int (i + k)"
proof (induction xs arbitrary: i k)
  case (Cons x xs)
  show ?case
  proof (cases k)
    case 0
    with Cons.prems show ?thesis by simp
  next
    case (Suc k')
    have "\<not> P x" using Cons.prems(3) [of 0] Suc by simp
    moreover have "index_from (Suc i) P xs = int (Suc i + k')"
    proof (rule Cons.IH)
      show "\<not> P (xs ! j)" if "j < k'" for j
        using Cons.prems(3) [of "Suc j"] that Suc by simp
    qed (use Cons.prems Suc in auto)
    ultimately show ?thesis using Suc by simp
  qed
qed simp

text \<open>What the result of a search means: the first index that satisfies \<open>P\<close>, or \<open>-1\<close>.\<close>

lemma index_from_sound:
  "(index_from i P xs = -1 \<and> (\<forall>x \<in> set xs. \<not> P x)) \<or>
   (\<exists>k < length xs. index_from i P xs = int (i + k) \<and> P (xs ! k) \<and> (\<forall>j < k. \<not> P (xs ! j)))"
proof (cases "\<exists>x \<in> set xs. P x")
  case True
  then obtain k where k: "k < length xs" "P (xs ! k)" and low: "\<forall>j < k. \<not> P (xs ! j)"
    by (rule first_index_in_list)
  have "index_from i P xs = int (i + k)" using k low by (intro index_from_first) auto
  then show ?thesis using k low by blast
next
  case False
  then have "index_from i P xs = -1" by (induction xs arbitrary: i) auto
  with False show ?thesis by blast
qed

section \<open>The borrow analysis\<close>

lemma bytes_of_Lo_times: "bytes_of (Lo * ucast b) = replicate 8 b"
proof -
  have "Lo * ucast b = (word_of_int (0x0101010101010101 * uint b) :: u64)"
    by (simp add: Lo_def wi_hom_mult [symmetric])
  also have "0x0101010101010101 * uint b = le_int (replicate 8 b)"
    by (simp add: numeral_eq_Suc)
  finally have "Lo * ucast b = le64 (replicate 8 b)"
    by (simp add: le64_def)
  then show ?thesis by (simp add: bytes_of_le64)
qed

lemma bytes_of_Lo: "bytes_of Lo = replicate 8 1"
  using bytes_of_Lo_times [of 1] by simp

lemma bytes_of_Hi: "bytes_of Hi = replicate 8 128"
proof -
  have "Hi = Lo * ucast (128 :: byte)" by (simp add: Hi_def Lo_def)
  then show ?thesis using bytes_of_Lo_times [of 128] by (simp only:)
qed

text \<open>Up to the first byte below \<open>n\<close> no borrow is produced.\<close>

lemma subb_no_borrow:
  "i < length bs \<Longrightarrow> \<forall>j < i. n \<le> bs ! j \<Longrightarrow>
     subb False bs (replicate (length bs) n) ! i = bs ! i - n"
proof (induction bs arbitrary: i)
  case (Cons b bs)
  show ?case
  proof (cases i)
    case (Suc k)
    have "\<not> uint b < uint n" using Cons.prems(2) Suc by (auto simp: word_le_def)
    moreover have "subb False bs (replicate (length bs) n) ! k = bs ! k - n"
      using Cons.prems Suc by (intro Cons.IH) (auto dest: spec [of _ "Suc _"])
    ultimately show ?thesis using Suc by simp
  qed simp
qed simp

lemma length_subb [simp]: "length (subb c xs ys) = min (length xs) (length ys)"
  by (induction c xs ys rule: subb.induct) auto

lemma bit7_byte: "b AND 128 \<noteq> 0 \<longleftrightarrow> 128 \<le> uint (b :: byte)"
proof -
  have "b AND 128 \<noteq> 0 \<longleftrightarrow> bit b 7"
    using and_exp_eq_0_iff_not_bit [of b 7] by simp
  also have "\<dots> \<longleftrightarrow> bit (uint b) 7"
    by (simp add: bit_uint_iff)
  also have "\<dots> \<longleftrightarrow> odd (uint b div 128)"
    by (simp add: bit_iff_odd)
  also have "\<dots> \<longleftrightarrow> 128 \<le> uint b"
  proof -
    have "0 \<le> uint b" "uint b < 256" using uint_bounded [of b] by auto
    then have "uint b div 128 = (if 128 \<le> uint b then 1 else 0)" by auto
    then show ?thesis by simp
  qed
  finally show ?thesis .
qed

lemma below_byte:
  assumes "n \<le> (128 :: byte)"
  shows "(b - n) AND NOT b AND 128 \<noteq> 0 \<longleftrightarrow> b < n"
proof -
  have "(b - n) AND NOT b AND 128 \<noteq> 0 \<longleftrightarrow> (b - n) AND 128 \<noteq> 0 \<and> NOT b AND 128 \<noteq> 0"
    using and_exp_eq_0_iff_not_bit [of "b - n" 7] and_exp_eq_0_iff_not_bit [of "NOT b" 7]
      and_exp_eq_0_iff_not_bit [of "(b - n) AND NOT b" 7]
    by (simp add: bit_and_iff and.assoc)
  also have "\<dots> \<longleftrightarrow> 128 \<le> uint (b - n) \<and> 128 \<le> uint (NOT b)"
    by (simp only: bit7_byte)
  also have "uint (NOT b) = 255 - uint b"
  proof -
    have "uint (NOT b) = uint (word_of_int (- uint b - 1) :: byte)"
      by (simp only: word_not_def not_int_def)
    also have "\<dots> = (- uint b - 1) mod 256" by (rule uint_byte_of_int)
    also have "\<dots> = (255 - uint b) mod 256"
      using mod_add_self2 [of "- uint b - 1" 256] by simp
    also have "\<dots> = 255 - uint b"
      using uint_lt2p [of b] uint_ge_0 [of b] by (intro mod_pos_pos_trivial; simp; linarith)
    finally show ?thesis .
  qed
  finally have "(b - n) AND NOT b AND 128 \<noteq> 0 \<longleftrightarrow> 128 \<le> uint (b - n) \<and> 128 \<le> 255 - uint b" .
  moreover have "0 \<le> uint b" "0 \<le> uint n" "uint n \<le> 128"
    using assms by (simp_all add: word_le_def)
  moreover have "uint (b - n) = (if uint n \<le> uint b then uint b - uint n else uint b - uint n + 256)"
    by (simp add: uint_sub_if')
  moreover have "128 \<le> d \<and> 128 \<le> 255 - x \<longleftrightarrow> x < m"
    if "0 \<le> x" "0 \<le> m" "m \<le> 128" "d = (if m \<le> x then x - m else x - m + 256)" for d x m :: int
    using that by auto
  ultimately show ?thesis unfolding word_less_def by blast
qed

text \<open>
  The mask of the package's tricks: its first non-zero byte stands at the first byte of
  \<open>x\<close> below \<open>n\<close>, and it is zero when there is none.
\<close>

lemma below_mask:
  assumes n: "n \<le> 128"
  defines "M \<equiv> \<lambda>x. (x - Lo * ucast n) AND NOT x AND Hi"
  shows "M x \<noteq> 0 \<longleftrightarrow> (\<exists>b \<in> set (bytes_of x). b < n)" (is ?ex)
    and "i < 8 \<Longrightarrow> bytes_of x ! i < n \<Longrightarrow> \<forall>j < i. n \<le> bytes_of x ! j \<Longrightarrow> ctz (M x) div 8 = i" (is "PROP ?first")
proof -
  have nth: "bytes_of (M x) ! i \<noteq> 0 \<longleftrightarrow> bytes_of x ! i < n"
    if i: "i < 8" and low: "\<forall>j < i. n \<le> bytes_of x ! j" for i
  proof -
    have "subb False (bytes_of x) (replicate 8 n) ! i = bytes_of x ! i - n"
      using subb_no_borrow [of i "bytes_of x" n] i low by simp
    then show ?thesis
      using i below_byte [OF n, of "bytes_of x ! i"]
      by (simp add: M_def byte_simps bytes_of_Lo_times bytes_of_Hi)
  qed
  show "PROP ?first"
  proof -
    assume i: "i < 8" and lt: "bytes_of x ! i < n" and low: "\<forall>j < i. n \<le> bytes_of x ! j"
    show "ctz (M x) div 8 = i"
    proof (rule ctz_byte)
      show "bytes_of (M x) ! j = 0" if "j < i" for j
        using nth [of j] that i low by fastforce
    qed (use nth [OF i low] i lt in auto)
  qed
  show ?ex
  proof (cases "\<exists>b \<in> set (bytes_of x). b < n")
    case True
    then obtain i where i: "i < 8" "bytes_of x ! i < n" and "\<forall>j < i. n \<le> bytes_of x ! j"
      by (rule first_index_in_list) (auto simp: not_less)
    with nth have "bytes_of (M x) ! i \<noteq> 0" by blast
    then have "M x \<noteq> 0" using i(1) nonzero_iff_byte by (metis length_bytes_of nth_mem)
    with True show ?thesis by blast
  next
    case False
    then have "bytes_of (M x) ! i = 0" if "i < 8" for i
      using nth [OF that] that by (metis length_bytes_of less_trans not_less nth_mem)
    then have "\<forall>b \<in> set (bytes_of (M x)). b = 0" by (metis in_set_conv_nth length_bytes_of)
    with False show ?thesis using nonzero_iff_byte by blast
  qed
qed

section \<open>Each primitive is exact\<close>

lemma byte_less_1: "(b :: byte) < 1 \<longleftrightarrow> b = 0"
  by (simp add: word_less_def uint_0_iff [symmetric]) (metis linorder_not_le uint_ge_0 order_le_less int_one_le_iff_zero_less)

lemma HasZero_iff: "HasZero x \<longleftrightarrow> 0 \<in> set (bytes_of x)"
proof -
  have "HasZero x \<longleftrightarrow> (x - Lo * ucast (1 :: byte)) AND NOT x AND Hi \<noteq> 0"
    by (simp only: HasZero_def ucast_1 mult_1_right)
  also have "\<dots> \<longleftrightarrow> (\<exists>b \<in> set (bytes_of x). b < 1)" by (rule below_mask(1)) simp
  finally show ?thesis by (simp only: byte_less_1 bex_simps) blast
qed

lemma bytes_of_xor_Lo: "bytes_of (x XOR (Lo * ucast b)) = map (\<lambda>c. c XOR b) (bytes_of x)"
  by (simp add: byte_simps bytes_of_Lo_times list_eq_iff_nth_eq)

lemma xor_eq_0_byte: "c XOR b = 0 \<longleftrightarrow> c = (b :: byte)"
proof
  assume "c XOR b = 0"
  then have "(c XOR b) XOR b = b" by simp
  then show "c = b" by (simp add: xor.assoc)
qed simp

lemma HasByte_iff: "HasByte x b \<longleftrightarrow> b \<in> set (bytes_of x)"
proof -
  have "HasByte x b \<longleftrightarrow> 0 \<in> (\<lambda>c. c XOR b) ` set (bytes_of x)"
    by (simp only: HasByte_def HasZero_iff bytes_of_xor_Lo set_map)
  also have "\<dots> \<longleftrightarrow> (\<exists>c \<in> set (bytes_of x). c XOR b = 0)"
    unfolding image_iff eq_commute [of "0 :: byte"] ..
  finally show ?thesis by (simp only: xor_eq_0_byte) simp
qed

lemma HasLess_iff: "n \<le> 128 \<Longrightarrow> HasLess x n \<longleftrightarrow> (\<exists>b \<in> set (bytes_of x). b < n)"
  unfolding HasLess_def by (rule below_mask(1))

lemma FirstByte_spec:
  "(FirstByte x b = 8 \<and> b \<notin> set (bytes_of x)) \<or>
   (FirstByte x b < 8 \<and> bytes_of x ! FirstByte x b = b \<and> (\<forall>j < FirstByte x b. bytes_of x ! j \<noteq> b))"
proof (cases "b \<in> set (bytes_of x)")
  case True
  let ?y = "x XOR (Lo * ucast b)"
  from True have "\<exists>c \<in> set (bytes_of x). c = b" by simp
  then obtain i where i: "i < 8" "bytes_of x ! i = b" and low: "\<forall>j < i. bytes_of x ! j \<noteq> b"
    by (rule first_index_in_list) auto
  have nth: "bytes_of ?y ! j = bytes_of x ! j XOR b" if "j < 8" for j
    using that by (simp add: bytes_of_xor_Lo)
  have "\<forall>j < i. 1 \<le> bytes_of ?y ! j"
    using low i(1) nth by (auto simp: xor_eq_0_byte byte_less_1 not_less [symmetric])
  moreover have "bytes_of ?y ! i < 1" using i nth by simp
  ultimately have "ctz ((?y - Lo * ucast (1 :: byte)) AND NOT ?y AND Hi) div 8 = i"
    by (intro below_mask(2) i(1)) auto
  moreover have "(?y - Lo) AND NOT ?y AND Hi \<noteq> 0"
    using True by (simp only: HasZero_def [symmetric] HasByte_def [symmetric] HasByte_iff)
  ultimately have "FirstByte x b = i" by (simp only: FirstByte_def Let_def ucast_1 mult_1_right if_False)
  with i low show ?thesis by simp
next
  case False
  then have "\<not> HasByte x b" using HasByte_iff by blast
  then have "((x XOR (Lo * ucast b)) - Lo) AND NOT (x XOR (Lo * ucast b)) AND Hi = 0"
    by (simp only: HasByte_def HasZero_def not_not)
  with False show ?thesis by (simp only: FirstByte_def Let_def if_True) simp
qed

section \<open>The loops agree with the reference search\<close>

lemma FindByte_tail_eq:
  "i \<le> length data \<Longrightarrow> FindByte_tail data b i = index_from i (\<lambda>x. x = b) (drop i data)"
proof (induction data b i rule: FindByte_tail.induct)
  case (1 data b i)
  show ?case
  proof (cases "i < length data")
    case True
    then have "drop i data = data ! i # drop (Suc i) data" by (simp add: Cons_nth_drop_Suc)
    with True 1 show ?thesis by (subst FindByte_tail.simps) simp
  qed (use 1 in \<open>subst FindByte_tail.simps, simp\<close>)
qed

text \<open>One round of the bulk loop looks at exactly the next eight bytes.\<close>

lemma drop_take8: "i + 8 \<le> length data \<Longrightarrow> drop i data = take 8 (drop i data) @ drop (i + 8) data"
  by (metis add.commute append_take_drop_id drop_drop)

lemma FindByte_bulk_eq:
  "i \<le> length data \<Longrightarrow> FindByte_bulk data b i = index_from i (\<lambda>x. x = b) (drop i data)"
proof (induction data b i rule: FindByte_bulk.induct)
  case (1 data b i)
  show ?case
  proof (cases "i + 8 \<le> length data")
    case True
    let ?x = "le64 (drop i data)"
    have bs: "bytes_of ?x = take 8 (drop i data)" using True by (simp add: bytes_of_le64)
    show ?thesis
    proof (cases "FirstByte ?x b < 8")
      case idx: True
      then have "index_from i (\<lambda>x. x = b) (drop i data) = int (i + FirstByte ?x b)"
        using FirstByte_spec [of ?x b] True by (intro index_from_first) (auto simp: bs)
      with True idx show ?thesis by (subst FindByte_bulk.simps) (simp add: Let_def)
    next
      case idx: False
      then have "b \<notin> set (take 8 (drop i data))" using FirstByte_spec [of ?x b] by (auto simp: bs)
      then have "index_from i (\<lambda>x. x = b) (drop i data) = index_from (i + 8) (\<lambda>x. x = b) (drop (i + 8) data)"
        using True by (subst drop_take8) (auto simp: index_from_append)
      with True idx 1 show ?thesis by (subst FindByte_bulk.simps) (simp add: Let_def)
    qed
  qed (use 1 FindByte_tail_eq in \<open>subst FindByte_bulk.simps, simp\<close>)
qed

lemma FindEscape_slow_eq:
  "i + 8 \<le> length data \<Longrightarrow> j \<le> 8 \<Longrightarrow>
     (case FindEscape_slow data i j of Some k \<Rightarrow> int k | None \<Rightarrow> -1) =
     index_from (i + j) esc_byte (drop j (take 8 (drop i data)))"
proof (induction data i j rule: FindEscape_slow.induct)
  case (1 data i j)
  let ?w = "take 8 (drop i data)"
  show ?case
  proof (cases "j < 8")
    case True
    then have "drop j ?w = data ! (i + j) # drop (Suc j) ?w"
      using 1 by (subst Cons_nth_drop_Suc [symmetric]) (auto simp: nth_drop)
    with True 1 show ?thesis by (subst FindEscape_slow.simps) (auto simp: add.assoc)
  next
    case False
    with 1 show ?thesis by (subst FindEscape_slow.simps) simp
  qed
qed

lemma FindEscape_tail_eq:
  "i \<le> length data \<Longrightarrow> FindEscape_tail data i = index_from i esc_byte (drop i data)"
proof (induction data i rule: FindEscape_tail.induct)
  case (1 data i)
  show ?case
  proof (cases "i < length data")
    case True
    then have "drop i data = data ! i # drop (Suc i) data" by (simp add: Cons_nth_drop_Suc)
    with True 1 show ?thesis by (subst FindEscape_tail.simps) simp
  qed (use 1 in \<open>subst FindEscape_tail.simps, simp\<close>)
qed

lemma escape_test:
  assumes "8 \<le> length w"
  shows "HasLess (le64 w) 0x20 \<or> HasByte (le64 w) 0x22 \<or> HasByte (le64 w) 0x5C \<longleftrightarrow>
    (\<exists>b \<in> set (take 8 w). esc_byte b)"
  using assms by (auto simp: HasLess_iff HasByte_iff bytes_of_le64 esc_byte_def)

lemma FindEscape_bulk_eq:
  "i \<le> length data \<Longrightarrow> FindEscape_bulk data i = index_from i esc_byte (drop i data)"
proof (induction data i rule: FindEscape_bulk.induct)
  case (1 data i)
  show ?case
  proof (cases "i + 8 \<le> length data")
    case True
    let ?w = "take 8 (drop i data)"
    have split: "index_from i esc_byte (drop i data) =
        (if \<exists>b \<in> set ?w. esc_byte b then index_from i esc_byte ?w
         else index_from (i + 8) esc_byte (drop (i + 8) data))"
      using True by (subst drop_take8) (auto simp: index_from_append)
    have slow: "(case FindEscape_slow data i 0 of Some k \<Rightarrow> int k | None \<Rightarrow> -1) = index_from i esc_byte ?w"
      using FindEscape_slow_eq [of i data 0] True by simp
    show ?thesis
    proof (cases "\<exists>b \<in> set ?w. esc_byte b")
      case esc: True
      then have "index_from i esc_byte ?w \<noteq> -1" using index_from_sound [of i esc_byte ?w] by auto
      with slow obtain k where "FindEscape_slow data i 0 = Some k" "int k = index_from i esc_byte ?w"
        by (cases "FindEscape_slow data i 0") simp_all
      moreover have "HasLess (le64 (drop i data)) 0x20 \<or> HasByte (le64 (drop i data)) 0x22
          \<or> HasByte (le64 (drop i data)) 0x5C"
        using True esc by (subst escape_test) auto
      ultimately show ?thesis
        using True by (subst FindEscape_bulk.simps) (simp only: Let_def split esc if_True option.case)
    next
      case esc: False
      with True 1 show ?thesis
        using escape_test [of "drop i data"] split
        by (subst FindEscape_bulk.simps) (simp add: Let_def)
    qed
  qed (use 1 FindEscape_tail_eq in \<open>subst FindEscape_bulk.simps, simp\<close>)
qed

section \<open>The properties of the package\<close>

text \<open>
  \<open>HasLess\<close> decides exactly whether one of the eight bytes of the word is below \<open>n\<close>, for every
  \<open>n\<close> up to 128. There are no false negatives, as the comment promises; there are no false
  positives either, although the comment allows them: a borrow starts only at a byte that is
  itself below \<open>n\<close>.
\<close>

theorem HasLess_exact: "n \<le> 128 \<Longrightarrow> HasLess x n \<longleftrightarrow> (\<exists>b \<in> set (bytes_of x). b < n)"
  by (rule HasLess_iff)

theorem HasLess_exact_witness:
  "(32 :: byte) \<le> 128 \<and> HasLess 0x4142431F45464748 32 \<and> (\<exists>b \<in> set (bytes_of 0x4142431F45464748). b < 32)"
  using HasLess_exact [of 32 "0x4142431F45464748"] by (simp add: HasLess_def Lo_def Hi_def)

text \<open>
  \<open>FindByte\<close> returns the index of the first occurrence of the byte, and \<open>-1\<close> when it does not
  occur: the eight-bytes-at-a-time loop and its tail agree with a byte-by-byte search on every
  input.
\<close>

theorem FindByte_correct: "FindByte data b = index_from 0 (\<lambda>x. x = b) data"
  by (simp add: FindByte_def FindByte_bulk_eq)

text \<open>
  C23. \<open>FindEscape\<close> returns the index of the first byte that JSON must escape (a control character,
  a quote or a backslash), and \<open>-1\<close> when there is none.
\<close>

theorem FindEscape_correct: "FindEscape data = index_from 0 esc_byte data"
  by (simp add: FindEscape_def FindEscape_bulk_eq)

end
