(* ===== verification/Fold.thy ===== *)
theory Fold
  imports Words
begin

text \<open>
  Package \<open>fold\<close> (src/fold/fold.go): ASCII case folding by table and the case-insensitive
  comparison that handles eight bytes per step. The comparison agrees with the folding
  tables on every input whose first argument has no byte in \<open>0xDB..0xDF\<close> or \<open>0xFB..0xFF\<close>
  (so on ASCII and on the single-byte encodings' lower half); a borrow between bytes makes it
  wrong beyond that, in both directions.
\<close>

section \<open>Tables\<close>

definition lower :: bytes where
  "lower = map (\<lambda>i. if 0x41 \<le> i \<and> i \<le> 0x5A then of_nat (i + 0x20) else of_nat i) [0..<256]"

definition upper :: bytes where
  "upper = map (\<lambda>i. if 0x61 \<le> i \<and> i \<le> 0x7A then of_nat (i - 0x20) else of_nat i) [0..<256]"

definition Lower :: "byte \<Rightarrow> byte" where "Lower b = lower ! unat b"

definition Upper :: "byte \<Rightarrow> byte" where "Upper b = upper ! unat b"

definition ToUpperBytes :: "bytes \<Rightarrow> bytes" where
  "ToUpperBytes p = map (\<lambda>b. upper ! unat b) p"

definition ToUpperString :: "bytes \<Rightarrow> bytes" where
  "ToUpperString s = map (\<lambda>b. upper ! unat b) s"

section \<open>The eight-byte comparison\<close>

definition caseMask :: u64 where "caseMask = 0x2020202020202020"
definition hiBits :: u64 where "hiBits = 0x8080808080808080"
definition aLo :: u64 where "aLo = 0x6161616161616161"
definition zSubBase :: u64 where "zSubBase = 0xfafafafafafafafa"

definition i8differs :: "u64 \<Rightarrow> u64 \<Rightarrow> bool" where
  "i8differs wa wb =
     (let d = wa XOR wb
      in if d = 0 then False
         else if d AND NOT caseMask \<noteq> 0 then True
         else let la = wa OR caseMask;
                  geA = ((la OR hiBits) - aLo) AND hiBits;
                  leZ = (zSubBase - la) AND hiBits;
                  letter = geA AND leZ
              in d AND NOT (drop_bit 2 letter) \<noteq> 0)"

text \<open>The two loops that \<open>Equal\<close>, \<open>EqualBytes\<close> and \<open>EqualStr\<close> share.\<close>

function equal_tail :: "bytes \<Rightarrow> bytes \<Rightarrow> nat \<Rightarrow> bool" where
  "equal_tail a b i =
     (if i < length a then
        if lower ! unat (a ! i) \<noteq> lower ! unat (b ! i) then False else equal_tail a b (i + 1)
      else True)"
  by pat_completeness auto
termination by (relation "measure (\<lambda>(a, b, i). length a - i)") auto

function equal_bulk :: "bytes \<Rightarrow> bytes \<Rightarrow> nat \<Rightarrow> bool" where
  "equal_bulk a b i =
     (if i + 8 \<le> length a then
        if i8differs (le64 (drop i a)) (le64 (drop i b)) then False else equal_bulk a b (i + 8)
      else equal_tail a b i)"
  by pat_completeness auto
termination by (relation "measure (\<lambda>(a, b, i). length a - i)") auto

declare equal_tail.simps [simp del] equal_bulk.simps [simp del]

definition Equal :: "bytes \<Rightarrow> bytes \<Rightarrow> bool" where
  "Equal a b = (if length a \<noteq> length b then False else equal_bulk a b 0)"

definition EqualBytes :: "bytes \<Rightarrow> bytes \<Rightarrow> bool" where
  "EqualBytes a b = (if length a \<noteq> length b then False else equal_bulk a b 0)"

definition EqualStr :: "bytes \<Rightarrow> bytes \<Rightarrow> bool" where
  "EqualStr a b = (if length a \<noteq> length b then False else equal_bulk a b 0)"

section \<open>The tables in closed form\<close>

lemma Lower_eq: "Lower b = (if 0x41 \<le> b \<and> b \<le> 0x5A then b + 0x20 else b)"
  using unat_byte_less [of b] by (simp add: Lower_def lower_def word_le_nat_alt)

lemma Upper_eq: "Upper b = (if 0x61 \<le> b \<and> b \<le> 0x7A then b - 0x20 else b)"
proof (cases "0x61 \<le> b \<and> b \<le> 0x7A")
  case True
  then have "0x20 \<le> unat b" by (simp add: word_le_nat_alt)
  with True show ?thesis
    using unat_byte_less [of b] by (simp add: Upper_def upper_def word_le_nat_alt of_nat_diff)
next
  case False
  then show ?thesis
    using unat_byte_less [of b] by (simp add: Upper_def upper_def word_le_nat_alt)
qed

text \<open>A fact about all bytes is 256 computations.\<close>

lemma all_bytes: "(\<forall>n \<in> set [0..<256]. P (of_nat n :: byte)) \<Longrightarrow> P b"
proof -
  assume "\<forall>n \<in> set [0..<256]. P (of_nat n :: byte)"
  then have "P (of_nat (unat b))" using unat_byte_less [of b] by (blast intro: atLeastLessThan_iff [THEN iffD2] le0 set_upt [THEN equalityD2, THEN subsetD])
  then show "P b" by simp
qed

lemma letter_byte:
  "(b OR 0x20) \<le> 0xFA \<longrightarrow>
    (((b OR 0x20 OR 0x80) - 0x61) AND 0x80 AND ((0xFA - (b OR 0x20)) AND 0x80) =
      (if Lower b = Lower (b XOR 0x20) then 0x80 else 0))"
  unfolding Lower_eq by (rule all_bytes [of _ b]) code_simp

lemma Lower_bit5: "Lower x = Lower y \<longrightarrow> (x XOR y) AND NOT 0x20 = 0"
proof -
  have clear: "Lower b AND NOT 0x20 = b AND NOT 0x20" for b
    unfolding Lower_eq by (rule all_bytes [of _ b]) code_simp
  show ?thesis
  proof
    assume "Lower x = Lower y"
    then have "x AND NOT 0x20 = y AND NOT 0x20" using clear by metis
    then show "(x XOR y) AND NOT 0x20 = 0" by (simp only: bit.conj_xor_distrib2 xor_self_eq)
  qed
qed

lemma bit5_only: "d AND NOT 0x20 = (0 :: byte) \<longrightarrow> d = 0 \<or> d = 0x20"
  by (rule all_bytes [of _ d]) code_simp

definition byte_letter :: "byte \<Rightarrow> byte" where
  "byte_letter x = (((x OR 0x20 OR 0x80) - 0x61) AND 0x80) AND ((0xFA - (x OR 0x20)) AND 0x80)"

text \<open>One byte of the comparison, when no borrow reaches it.\<close>

lemma byte_differs:
  assumes "(x OR 0x20) \<le> 0xFA"
  shows "(x XOR y) AND NOT 0x20 \<noteq> 0 \<or> (x XOR y) AND NOT (drop_bit 2 (byte_letter x)) \<noteq> 0
    \<longleftrightarrow> Lower x \<noteq> Lower y"
proof -
  have letter: "byte_letter x = (if Lower x = Lower (x XOR 0x20) then 0x80 else 0)"
    using letter_byte [of x] assms by (simp only: byte_letter_def and.assoc or.assoc)
  consider "x XOR y = 0" | "x XOR y = 0x20" | "(x XOR y) AND NOT 0x20 \<noteq> 0"
    using bit5_only [of "x XOR y"] by blast
  then show ?thesis
  proof cases
    case 1
    then have "x = y" by (metis xor.assoc xor.right_neutral xor_self_eq xor.left_neutral)
    with 1 show ?thesis by simp
  next
    case 2
    then have "y = x XOR 0x20" by (metis xor.assoc xor_self_eq xor.left_neutral)
    with 2 letter show ?thesis by simp
  next
    case 3
    then show ?thesis using Lower_bit5 by blast
  qed
qed

section \<open>The eight-byte comparison, byte by byte\<close>

lemma bytes_of_masks:
  "bytes_of caseMask = replicate 8 0x20" "bytes_of hiBits = replicate 8 0x80"
  "bytes_of aLo = replicate 8 0x61" "bytes_of zSubBase = replicate 8 0xFA"
  by (code_simp, code_simp, code_simp, code_simp)

lemma subb_map2: "list_all2 (\<lambda>x y. y \<le> x) xs ys \<Longrightarrow> subb False xs ys = map2 (-) xs ys"
proof (induction rule: list_all2_induct)
  case (Cons x xs y ys)
  then show ?case by (simp add: word_le_def)
qed simp

text \<open>Shifting the high bits of the bytes right by two stays inside each byte.\<close>

lemma bytes_of_drop_bit_hi:
  "bytes_of (drop_bit 2 (w AND hiBits)) = map (drop_bit 2) (bytes_of (w AND hiBits))"
proof (rule nth_equalityI)
  fix i assume "i < length (bytes_of (drop_bit 2 (w AND hiBits)))"
  then have i: "i < 8" by simp
  have hi: "bit (w AND hiBits) (8 * k + j) \<Longrightarrow> j = 7" if "k < 8" "j < 8" for k j
  proof -
    assume "bit (w AND hiBits) (8 * k + j)"
    then have "bit hiBits (8 * k + j)" by (simp add: bit_and_iff)
    then have "bit (0x80 :: byte) j" using that bit_bytes_of [of k j hiBits] by (simp add: bytes_of_masks)
    moreover have "(0x80 :: byte) = 2 ^ 7" by simp
    ultimately show "j = 7" by (simp only: bit_exp_iff)
  qed
  show "bytes_of (drop_bit 2 (w AND hiBits)) ! i = map (drop_bit 2) (bytes_of (w AND hiBits)) ! i"
  proof (rule bit_word_eqI)
    fix j assume "j < LENGTH(8)"
    then have j: "j < 8" by simp
    have "bit (bytes_of (drop_bit 2 (w AND hiBits)) ! i) j = bit (w AND hiBits) (8 * i + j + 2)"
      using bit_bytes_of [OF i j, of "drop_bit 2 (w AND hiBits)"]
      by (simp only: bit_drop_bit_eq comp_apply) (simp only: ac_simps)
    also have "\<dots> = bit (bytes_of (w AND hiBits) ! i) (j + 2)"
    proof (cases "j + 2 < 8")
      case True
      then show ?thesis using bit_bytes_of [OF i True, of "w AND hiBits"] by (simp only: ac_simps)
    next
      case False
      have "\<not> bit (w AND hiBits) (8 * Suc i + (j - 6))"
      proof (cases "Suc i < 8")
        case True
        have "j - 6 < 8" "j - 6 \<noteq> 7" using j by simp_all
        then show ?thesis using hi [OF True, of "j - 6"] by blast
      next
        case False
        then show ?thesis using bit_u64_less by fastforce
      qed
      moreover have "8 * Suc i + (j - 6) = 8 * i + j + 2" using False by simp
      moreover have "\<not> bit (bytes_of (w AND hiBits) ! i) (j + 2)"
        using False bit_imp_le_length by fastforce
      ultimately show ?thesis by simp
    qed
    also have "\<dots> = bit (map (drop_bit 2) (bytes_of (w AND hiBits)) ! i) j"
      using i by (simp add: bit_drop_bit_eq add.commute)
    finally show "bit (bytes_of (drop_bit 2 (w AND hiBits)) ! i) j =
        bit (map (drop_bit 2) (bytes_of (w AND hiBits)) ! i) j" .
  qed
qed simp

text \<open>Bytes for which \<open>0xFA - (b | 0x20)\<close> does not borrow from the next byte.\<close>

definition safe_byte :: "byte \<Rightarrow> bool" where
  "safe_byte b \<longleftrightarrow> (b OR 0x20) \<le> 0xFA"

lemma i8differs_byte:
  assumes safe: "\<forall>x \<in> set (bytes_of wa). safe_byte x"
  shows "i8differs wa wb \<longleftrightarrow> (\<exists>i < 8. Lower (bytes_of wa ! i) \<noteq> Lower (bytes_of wb ! i))"
proof -
  let ?d = "wa XOR wb" and ?la = "wa OR caseMask"
  let ?letter = "((((?la OR hiBits) - aLo) AND hiBits) AND ((zSubBase - ?la) AND hiBits))"
  have or_hi: "0x61 \<le> (b OR 0xA0 :: byte)" for b
    by (rule all_bytes [of _ b]) code_simp
  have geA: "subb False (bytes_of (?la OR hiBits)) (replicate 8 0x61) = map (\<lambda>x. (x OR 0x20 OR 0x80) - 0x61) (bytes_of wa)"
    by (subst subb_map2) (auto simp: byte_simps bytes_of_masks list_all2_conv_all_nth list_eq_iff_nth_eq or_hi or.assoc)
  have leZ: "subb False (replicate 8 0xFA) (bytes_of ?la) = map (\<lambda>x. 0xFA - (x OR 0x20)) (bytes_of wa)"
    using safe by (subst subb_map2)
      (auto simp: byte_simps bytes_of_masks list_all2_conv_all_nth list_eq_iff_nth_eq safe_byte_def)
  have letter: "bytes_of ?letter = map byte_letter (bytes_of wa)"
    unfolding bytes_of_logic(1) bytes_of_diff geA leZ bytes_of_masks
    by (simp add: list_eq_iff_nth_eq byte_letter_def)
  have aux: "(x AND h) AND (y AND h) = (x AND y) AND h" for x y h :: u64
    by (rule bit_word_eqI) (auto simp: bit_simps)
  have "?letter = ((((?la OR hiBits) - aLo) AND (zSubBase - ?la))) AND hiBits" by (rule aux)
  then have shifted: "bytes_of (drop_bit 2 ?letter) = map (drop_bit 2 \<circ> byte_letter) (bytes_of wa)"
    using letter bytes_of_drop_bit_hi by (metis map_map)
  have "i8differs wa wb \<longleftrightarrow> ?d AND NOT caseMask \<noteq> 0 \<or> ?d AND NOT (drop_bit 2 ?letter) \<noteq> 0"
    by (simp add: i8differs_def Let_def)
  also have "\<dots> \<longleftrightarrow> (\<exists>i < 8. (let x = bytes_of wa ! i; y = bytes_of wb ! i in
      (x XOR y) AND NOT 0x20 \<noteq> 0 \<or> (x XOR y) AND NOT (drop_bit 2 (byte_letter x)) \<noteq> 0))"
  proof -
    have "bytes_of (?d AND NOT caseMask) ! i = (bytes_of wa ! i XOR bytes_of wb ! i) AND NOT 0x20"
      "bytes_of (?d AND NOT (drop_bit 2 ?letter)) ! i =
        (bytes_of wa ! i XOR bytes_of wb ! i) AND NOT (drop_bit 2 (byte_letter (bytes_of wa ! i)))"
      if "i < 8" for i
      unfolding bytes_of_logic(1,3) bytes_of_not shifted bytes_of_masks using that by simp_all
    then show ?thesis unfolding nonzero_iff_nth Let_def by metis
  qed
  also have "\<dots> \<longleftrightarrow> (\<exists>i < 8. Lower (bytes_of wa ! i) \<noteq> Lower (bytes_of wb ! i))"
  proof -
    have "(bytes_of wa ! i OR 0x20) \<le> 0xFA" if "i < 8" for i
      using safe that by (simp add: safe_byte_def)
    then show ?thesis unfolding Let_def using byte_differs by blast
  qed
  finally show ?thesis .
qed

section \<open>The comparison loops\<close>

lemma equal_tail_eq:
  "length a = length b \<Longrightarrow> equal_tail a b i \<longleftrightarrow> (\<forall>k. i \<le> k \<and> k < length a \<longrightarrow> Lower (a ! k) = Lower (b ! k))"
proof (induction a b i rule: equal_tail.induct)
  case (1 a b i)
  show ?case
  proof (cases "i < length a \<and> Lower (a ! i) = Lower (b ! i)")
    case True
    with 1 have "equal_tail a b i \<longleftrightarrow> (\<forall>k. i + 1 \<le> k \<and> k < length a \<longrightarrow> Lower (a ! k) = Lower (b ! k))"
      by (subst equal_tail.simps) (simp add: Lower_def)
    also have "\<dots> \<longleftrightarrow> (\<forall>k. i \<le> k \<and> k < length a \<longrightarrow> Lower (a ! k) = Lower (b ! k))"
    proof (intro iffI allI impI)
      fix k assume "\<forall>k. i + 1 \<le> k \<and> k < length a \<longrightarrow> Lower (a ! k) = Lower (b ! k)" "i \<le> k \<and> k < length a"
      then show "Lower (a ! k) = Lower (b ! k)" using True by (cases "k = i") auto
    qed auto
    finally show ?thesis .
  next
    case False
    then show ?thesis by (subst equal_tail.simps) (auto simp: Lower_def)
  qed
qed

lemma equal_bulk_eq:
  "length a = length b \<Longrightarrow> \<forall>x \<in> set a. safe_byte x \<Longrightarrow>
     equal_bulk a b i \<longleftrightarrow> (\<forall>k. i \<le> k \<and> k < length a \<longrightarrow> Lower (a ! k) = Lower (b ! k))"
proof (induction a b i rule: equal_bulk.induct)
  case (1 a b i)
  show ?case
  proof (cases "i + 8 \<le> length a")
    case True
    let ?d = "i8differs (le64 (drop i a)) (le64 (drop i b))"
    have bs: "bytes_of (le64 (drop i a)) = take 8 (drop i a)" "bytes_of (le64 (drop i b)) = take 8 (drop i b)"
      using True 1(2) by (simp_all add: bytes_of_le64)
    have "\<forall>x \<in> set (bytes_of (le64 (drop i a))). safe_byte x"
      using 1(3) by (auto simp: bs dest!: in_set_takeD in_set_dropD)
    then have d: "?d \<longleftrightarrow> (\<exists>k < 8. Lower (a ! (i + k)) \<noteq> Lower (b ! (i + k)))"
      using True 1(2) by (simp add: i8differs_byte bs cong: conj_cong)
    have eq: "equal_bulk a b i \<longleftrightarrow> \<not> ?d \<and> (\<forall>k. i + 8 \<le> k \<and> k < length a \<longrightarrow> Lower (a ! k) = Lower (b ! k))"
      using True 1 by (subst equal_bulk.simps) simp
    have "(\<forall>k < 8. P (i + k)) \<and> (\<forall>k. i + 8 \<le> k \<and> k < length a \<longrightarrow> P k) \<longleftrightarrow> (\<forall>k. i \<le> k \<and> k < length a \<longrightarrow> P k)" for P
    proof (intro iffI conjI allI impI)
      fix k assume "(\<forall>k < 8. P (i + k)) \<and> (\<forall>k. i + 8 \<le> k \<and> k < length a \<longrightarrow> P k)" "i \<le> k \<and> k < length a"
      then show "P k" by (cases "k < i + 8") (auto dest: spec [of _ "k - i"])
    qed (use True in auto)
    from this [of "\<lambda>k. Lower (a ! k) = Lower (b ! k)"] show ?thesis unfolding eq d by blast
  next
    case False
    with 1 show ?thesis by (subst equal_bulk.simps) (simp add: equal_tail_eq)
  qed
qed

section \<open>The properties of the package\<close>

text \<open>
  C24. \<open>EqualBytes\<close> is comparison of the ASCII-folded strings, for every first argument without
  a byte in \<open>0xDB..0xDF\<close> or \<open>0xFB..0xFF\<close>: the eight-byte steps and the table-driven tail
  agree there. (\<open>Equal\<close> and \<open>EqualStr\<close> have the same body.)
\<close>

theorem EqualBytes_correct:
  assumes "\<forall>x \<in> set a. safe_byte x"
  shows "EqualBytes a b \<longleftrightarrow> map Lower a = map Lower b"
proof (cases "length a = length b")
  case True
  with assms show ?thesis by (simp add: EqualBytes_def equal_bulk_eq list_eq_iff_nth_eq)
next
  case False
  then show ?thesis using map_eq_imp_length_eq by (auto simp: EqualBytes_def)
qed

theorem EqualBytes_correct_witness:
  "list_all safe_byte [0x48, 0x6F, 0x73, 0x54, 0x2D, 0x5A, 0x7A, 0x41, 0x42] \<and>
   EqualBytes [0x48, 0x6F, 0x73, 0x54, 0x2D, 0x5A, 0x7A, 0x41, 0x42]
              [0x68, 0x4F, 0x53, 0x74, 0x2D, 0x7A, 0x5A, 0x61, 0x62]"
proof -
  have safe: "\<forall>x \<in> set [0x48, 0x6F, 0x73, 0x54, 0x2D, 0x5A, 0x7A, 0x41, 0x42]. safe_byte x"
    by (simp add: safe_byte_def)
  show ?thesis
    using EqualBytes_correct [OF safe, of "[0x68, 0x4F, 0x53, 0x74, 0x2D, 0x7A, 0x5A, 0x61, 0x62]"] safe
    by (simp add: Lower_eq)
qed

text \<open>
  Outside that range the eight-byte step is wrong in both directions, where the comment of
  \<open>i8differs\<close> says that bytes beyond ASCII are compared exactly: it takes \<open>0xDB\<close> and \<open>0xFB\<close>
  for the two cases of a letter, and a \<open>0xFF\<close> before a \<open>Z\<close> makes it miss that \<open>Z\<close> and
  \<open>z\<close> fold together. The one-byte tail decides both pairs the other way.
\<close>

theorem EqualBytes_high_bytes:
  "EqualBytes (replicate 8 0xDB) (replicate 8 0xFB) \<and> \<not> EqualBytes [0xDB] [0xFB] \<and>
   \<not> EqualBytes (0xFF # 0x5A # replicate 6 0) (0xFF # 0x7A # replicate 6 0) \<and>
   EqualBytes [0xFF, 0x5A] [0xFF, 0x7A]"
  by code_simp

end
