(* ===== verification/Yakutil.thy ===== *)
theory Yakutil
  imports Words
begin

text \<open>
  The root package (src/yakutil.go) and package \<open>hash\<close> (src/hash): powers of two, the zero-copy
  conversions (identities on the byte lists that model both types), and FNV-1a. The bit smear
  of \<open>Pow2Ceil\<close> is shown to return the least power of two at or above its argument.
\<close>

section \<open>Root package\<close>

definition CacheLine :: nat where "CacheLine = 64"

definition B2S :: "bytes \<Rightarrow> bytes" where "B2S b = b"

definition S2B :: "bytes \<Rightarrow> bytes" where "S2B s = s"

definition IsPow2 :: "int \<Rightarrow> bool" where
  "IsPow2 n \<longleftrightarrow> n > 0 \<and> n AND (n - 1) = 0"

text \<open>\<open>None\<close> is the panic on overflow; \<open>bits.UintSize\<close> is 64.\<close>

definition Pow2Ceil :: "int \<Rightarrow> int option" where
  "Pow2Ceil n =
     (if n \<le> 1 then Some 1
      else if n > 2 ^ 62 then None
      else let n = n - 1;
               n = n OR drop_bit 1 n;
               n = n OR drop_bit 2 n;
               n = n OR drop_bit 4 n;
               n = n OR drop_bit 8 n;
               n = n OR drop_bit 16 n;
               n = n OR drop_bit 32 n
           in Some (n + 1))"

text \<open>The byte order of the processor, and the probe that finds it with the store of a known number.\<close>

datatype byte_order = BigEndian | LittleEndian

fun PutUint16 :: "byte_order \<Rightarrow> 16 word \<Rightarrow> bytes" where
  "PutUint16 LittleEndian v = [ucast v, ucast (drop_bit 8 v)]"
| "PutUint16 BigEndian v = [ucast (drop_bit 8 v), ucast v]"

definition Native :: "byte_order \<Rightarrow> byte_order" where
  "Native cpu = (let buf = PutUint16 cpu 0x0102 in if buf ! 0 = 0x01 then BigEndian else LittleEndian)"

lemma Native_probe: "Native cpu = cpu"
  by (cases cpu) (simp_all add: Native_def)

definition Error :: "string \<Rightarrow> string" where "Error e = e"

section \<open>Package hash\<close>

definition offset64 :: u64 where "offset64 = 14695981039346656037"
definition prime64 :: u64 where "prime64 = 1099511628211"

definition Sum64 :: "bytes \<Rightarrow> u64" where
  "Sum64 b = fold (\<lambda>c h. (h XOR ucast c) * prime64) b offset64"

function Sum64s_loop :: "bytes \<Rightarrow> nat \<Rightarrow> u64 \<Rightarrow> u64" where
  "Sum64s_loop s i h =
     (if i < length s then Sum64s_loop s (i + 1) ((h XOR ucast (s ! i)) * prime64) else h)"
  by pat_completeness auto
termination by (relation "measure (\<lambda>(s, i, h). length s - i)") auto

definition Sum64s :: "bytes \<Rightarrow> u64" where
  "Sum64s s = Sum64s_loop s 0 offset64"

declare Sum64s_loop.simps [simp del]

lemma Sum64s_loop_eq: "Sum64s_loop s i h = fold (\<lambda>c h. (h XOR ucast c) * prime64) (drop i s) h"
proof (induction s i h rule: Sum64s_loop.induct)
  case (1 s i h)
  show ?case
  proof (cases "i < length s")
    case True
    then have "drop i s = s ! i # drop (Suc i) s" by (simp add: Cons_nth_drop_Suc)
    with 1 True show ?thesis by (subst Sum64s_loop.simps) simp
  qed (subst Sum64s_loop.simps, simp)
qed

lemma Sum64s_eq: "Sum64s s = Sum64 s"
  by (simp add: Sum64s_def Sum64_def Sum64s_loop_eq)

section \<open>Powers of two\<close>

lemma pow2_between:
  fixes n :: int
  assumes "0 < n"
  obtains k where "2 ^ k \<le> n" "n < 2 ^ Suc k"
proof -
  have "\<exists>k. 2 ^ k \<le> n \<and> n < 2 ^ Suc k"
  proof -
    have "\<exists>k. n < 2 ^ k"
      by (rule exI [of _ "nat n"]) (use assms less_exp [of "nat n"] in \<open>metis nat_less_iff of_nat_numeral of_nat_power order_less_imp_le\<close>)
    then obtain m where "n < 2 ^ m" ..
    then have "\<exists>k < Suc m. n < 2 ^ k" by blast
    then obtain k where k: "n < 2 ^ k" "\<forall>j < k. \<not> n < 2 ^ j" by (rule first_index)
    then have "k \<noteq> 0" using assms by (cases k) auto
    then obtain j where "k = Suc j" by (cases k) auto
    with k show ?thesis by (intro exI [of _ j]) (auto simp: not_less)
  qed
  with that show thesis by blast
qed

lemma bit_top:
  fixes n :: int
  assumes "2 ^ k \<le> n" "n < 2 ^ Suc k"
  shows "bit n k" and "\<And>j. k < j \<Longrightarrow> \<not> bit n j"
proof -
  have "n div 2 ^ k = 1" using assms by (intro int_div_pos_eq [of _ _ _ "n - 2 ^ k"]) auto
  then show "bit n k" by (simp add: bit_iff_odd)
  show "\<not> bit n j" if "k < j" for j
  proof -
    have "(2 :: int) ^ Suc k \<le> 2 ^ j" using that by (intro power_increasing) auto
    moreover have "0 \<le> n" using assms(1) by (meson order_trans zero_le_numeral zero_le_power)
    ultimately have "n div 2 ^ j = 0" using assms(2) by (intro div_pos_pos_trivial) auto
    then show ?thesis by (simp add: bit_iff_odd)
  qed
qed

lemma IsPow2_iff: "IsPow2 n \<longleftrightarrow> (\<exists>k. n = 2 ^ k)"
proof
  assume n: "IsPow2 n"
  then obtain k where k: "2 ^ k \<le> n" "n < 2 ^ Suc k" using pow2_between by (auto simp: IsPow2_def)
  have "n = 2 ^ k"
  proof (rule ccontr)
    assume "n \<noteq> 2 ^ k"
    with k have "bit n k" "bit (n - 1) k" by (auto intro!: bit_top(1))
    then have "bit (n AND (n - 1)) k" by (simp add: bit_and_iff)
    with n show False by (simp add: IsPow2_def)
  qed
  then show "\<exists>k. n = 2 ^ k" ..
next
  assume "\<exists>k. n = 2 ^ k"
  then obtain k where n: "n = 2 ^ k" ..
  have "2 ^ k AND mask k = (0 :: int)" by (rule bit_eqI) (auto simp: bit_simps)
  then show "IsPow2 n" by (simp add: n IsPow2_def mask_eq_exp_minus_1)
qed

text \<open>After the step that shifts by \<open>t\<close>, a bit is set when one of the next \<open>2 t\<close> bits was.\<close>

definition smeared :: "nat \<Rightarrow> int \<Rightarrow> int \<Rightarrow> bool" where
  "smeared t m x \<longleftrightarrow> (\<forall>i. bit x i \<longleftrightarrow> (\<exists>j < t. bit m (i + j)))"

lemma smeared_step: "smeared t m x \<Longrightarrow> smeared (t + t) m (x OR drop_bit t x)"
  unfolding smeared_def
proof (intro allI iffI)
  fix i assume s: "\<forall>i. bit x i \<longleftrightarrow> (\<exists>j < t. bit m (i + j))"
  { assume "bit (x OR drop_bit t x) i"
    then have "(\<exists>j < t. bit m (i + j)) \<or> (\<exists>j < t. bit m (t + i + j))"
      by (simp add: bit_simps s)
    then show "\<exists>j < t + t. bit m (i + j)"
    proof (elim disjE exE conjE)
      fix j assume "j < t" "bit m (t + i + j)"
      then show ?thesis by (intro exI [of _ "t + j"]) (simp add: ac_simps)
    next
      fix j assume "j < t" "bit m (i + j)"
      then show ?thesis by (intro exI [of _ j]) simp
    qed }
  { assume "\<exists>j < t + t. bit m (i + j)"
    then obtain j where j: "j < t + t" "bit m (i + j)" by blast
    show "bit (x OR drop_bit t x) i"
    proof (cases "j < t")
      case True
      with j show ?thesis by (auto simp: bit_simps s)
    next
      case False
      with j have "j - t < t" "bit m (t + i + (j - t))" by (auto simp: ac_simps)
      then show ?thesis by (auto simp: bit_simps s)
    qed }
qed

lemma smeared_double: "smeared t m x \<Longrightarrow> u = t + t \<Longrightarrow> smeared u m (x OR drop_bit t x)"
  using smeared_step by simp

lemma Pow2Ceil_range:
  assumes "1 < n" "n \<le> 2 ^ 62"
  shows "\<exists>k. Pow2Ceil n = Some (2 ^ k) \<and> n \<le> 2 ^ k \<and> 2 ^ k < 2 * n"
proof -
  let ?m = "n - 1"
  obtain k where k: "2 ^ k \<le> ?m" "?m < 2 ^ Suc k" using pow2_between [of ?m] assms by auto
  have "(2 :: int) ^ k < 2 ^ 62" using k(1) assms(2) by linarith
  then have k62: "k < 62" by (simp only: power_strict_increasing_iff)
  define x where "x = foldl (\<lambda>x t. x OR drop_bit t x) ?m [1, 2, 4, 8, 16, 32]"
  have s1: "smeared 1 ?m ?m" by (simp add: smeared_def)
  have x: "smeared 64 ?m x"
    unfolding x_def foldl.simps by (intro smeared_double s1) simp_all
  have "x = mask (Suc k)"
  proof (rule bit_eqI)
    fix i
    have "bit x i \<longleftrightarrow> (\<exists>j < 64. bit ?m (i + j))" using x by (simp add: smeared_def)
    also have "\<dots> \<longleftrightarrow> i \<le> k"
    proof
      assume "\<exists>j < 64. bit ?m (i + j)"
      then obtain j where "bit ?m (i + j)" by blast
      then have "\<not> k < i + j" using bit_top(2) [OF k] by blast
      then show "i \<le> k" by simp
    next
      assume "i \<le> k"
      then have "k - i < 64 \<and> bit ?m (i + (k - i))" using bit_top(1) [OF k] k62 by simp
      then show "\<exists>j < 64. bit ?m (i + j)" ..
    qed
    finally show "bit x i \<longleftrightarrow> bit (mask (Suc k) :: int) i" by (simp add: bit_mask_iff less_Suc_eq_le)
  qed
  moreover have "Pow2Ceil n = Some (x + 1)"
    using assms by (simp only: Pow2Ceil_def x_def Let_def foldl.simps if_False not_le not_less) simp
  ultimately have "Pow2Ceil n = Some (2 ^ Suc k)" by (simp add: mask_eq_exp_minus_1)
  moreover have "n \<le> 2 ^ Suc k" "2 ^ Suc k < 2 * n" using k by auto
  ultimately show ?thesis by blast
qed

section \<open>The properties of the packages\<close>

text \<open>
  \<open>Pow2Ceil\<close> returns the least power of two at or above its argument for every argument up
  to \<open>2 ^ 62\<close> (1 for an argument below 1) and panics above.
\<close>

theorem Pow2Ceil_least:
  "(n > 2 ^ 62 \<longrightarrow> Pow2Ceil n = None) \<and>
   (n \<le> 2 ^ 62 \<longrightarrow> (\<exists>p. Pow2Ceil n = Some p \<and> IsPow2 p \<and> n \<le> p \<and> (\<forall>q. IsPow2 q \<and> n \<le> q \<longrightarrow> p \<le> q)))"
proof (cases "n \<le> 1")
  case True
  then have "Pow2Ceil n = Some 1" "IsPow2 1" by (simp_all add: Pow2Ceil_def IsPow2_def)
  moreover have "1 \<le> q" if "IsPow2 q" for q using that by (simp add: IsPow2_def)
  ultimately show ?thesis using True by auto
next
  case n: False
  show ?thesis
  proof (cases "n \<le> 2 ^ 62")
    case True
    with n obtain k where k: "Pow2Ceil n = Some (2 ^ k)" "n \<le> 2 ^ k" "2 ^ k < 2 * n"
      using Pow2Ceil_range [of n] by auto
    have "2 ^ k \<le> q" if "IsPow2 q" "n \<le> q" for q
    proof (rule ccontr)
      assume "\<not> 2 ^ k \<le> q"
      moreover obtain j where j: "q = 2 ^ j" using \<open>IsPow2 q\<close> IsPow2_iff by blast
      ultimately have "j < k" by (simp add: not_le)
      then have "(2 :: int) ^ Suc j \<le> 2 ^ k" by (intro power_increasing) auto
      with k(3) \<open>n \<le> q\<close> j show False by simp
    qed
    with k True show ?thesis using IsPow2_iff by auto
  next
    case False
    with n show ?thesis by (simp add: Pow2Ceil_def)
  qed
qed

theorem Pow2Ceil_least_witness:
  "Pow2Ceil 1000 = Some 1024 \<and> Pow2Ceil (2 ^ 62 + 1) = None \<and>
   (\<exists>p. Pow2Ceil 1000 = Some p \<and> IsPow2 p \<and> 1000 \<le> p \<and> (\<forall>q. IsPow2 q \<and> 1000 \<le> q \<longrightarrow> p \<le> q))"
proof -
  have "Pow2Ceil 1000 = Some 1024" by code_simp
  moreover have "Pow2Ceil (2 ^ 62 + 1) = None" using Pow2Ceil_least [of "2 ^ 62 + 1"] by simp
  moreover have "(1000 :: int) \<le> 2 ^ 62" by simp
  ultimately show ?thesis using Pow2Ceil_least [of 1000] by blast
qed

end
