(* ===== verification/Interfaces.thy ===== *)
theory Interfaces
  imports Main
begin

text \<open>
  Contracts that several components of the library promise to their clients. A first-in
  first-out queue (the byte ring, the single-producer single-consumer queue) is described by its
  invariant, the sequence it stands for and its two operations; what a client sees over a whole
  history of calls is derived here once.
\<close>

datatype 'a qop = Enq 'a | Deq

text \<open>Run a history: the accepted inputs, the outputs and the final state.\<close>

fun qrun :: "('a \<Rightarrow> 's \<Rightarrow> 's option) \<Rightarrow> ('s \<Rightarrow> ('a \<times> 's) option) \<Rightarrow> 'a qop list \<Rightarrow> 's \<Rightarrow> 'a list \<times> 'a list \<times> 's" where
  "qrun enq deq [] s = ([], [], s)"
| "qrun enq deq (Enq x # ops) s =
     (case enq x s of
        None \<Rightarrow> qrun enq deq ops s
      | Some s' \<Rightarrow> (case qrun enq deq ops s' of (ins, outs, t) \<Rightarrow> (x # ins, outs, t)))"
| "qrun enq deq (Deq # ops) s =
     (case deq s of
        None \<Rightarrow> qrun enq deq ops s
      | Some (x, s') \<Rightarrow> (case qrun enq deq ops s' of (ins, outs, t) \<Rightarrow> (ins, x # outs, t)))"

locale fifo =
  fixes inv :: "'s \<Rightarrow> bool" and abs :: "'s \<Rightarrow> 'a list"
    and enq :: "'a \<Rightarrow> 's \<Rightarrow> 's option" and deq :: "'s \<Rightarrow> ('a \<times> 's) option"
  assumes enq_law: "inv s \<Longrightarrow> enq x s = Some s' \<Longrightarrow> inv s' \<and> abs s' = abs s @ [x]"
    and deq_None: "inv s \<Longrightarrow> deq s = None \<longleftrightarrow> abs s = []"
    and deq_Some: "inv s \<Longrightarrow> deq s = Some (x, s') \<Longrightarrow> inv s' \<and> abs s = x # abs s'"
begin

text \<open>What came out, followed by what is still inside, is what was inside followed by what came in.\<close>

lemma history:
  assumes "inv s" "qrun enq deq ops s = (ins, outs, t)"
  shows "inv t \<and> abs s @ ins = outs @ abs t"
  using assms
proof (induction ops arbitrary: s ins outs)
  case (Cons op ops)
  show ?case
  proof (cases op)
    case (Enq x)
    with Cons show ?thesis
      by (fastforce split: option.splits prod.splits dest: enq_law)
  next
    case Deq
    with Cons show ?thesis
      by (fastforce split: option.splits prod.splits dest: deq_Some)
  qed
qed simp

end

section \<open>Maps\<close>

text \<open>
  A dictionary: every operation returns the value the key had before. A history of calls returns
  what the same history returns on the abstract map.
\<close>

datatype ('k, 'v) mop = MPut 'k 'v | MDel 'k | MGet 'k

fun mrun :: "('s \<Rightarrow> 'k \<Rightarrow> 'v \<Rightarrow> 'v option \<times> 's) \<Rightarrow> ('s \<Rightarrow> 'k \<Rightarrow> 'v option \<times> 's) \<Rightarrow> ('s \<Rightarrow> 'k \<Rightarrow> 'v option) \<Rightarrow>
    ('k, 'v) mop list \<Rightarrow> 's \<Rightarrow> 'v option list \<times> 's" where
  "mrun put del get [] s = ([], s)"
| "mrun put del get (MPut k v # ops) s =
     (case put s k v of (r, s) \<Rightarrow> case mrun put del get ops s of (rs, t) \<Rightarrow> (r # rs, t))"
| "mrun put del get (MDel k # ops) s =
     (case del s k of (r, s) \<Rightarrow> case mrun put del get ops s of (rs, t) \<Rightarrow> (r # rs, t))"
| "mrun put del get (MGet k # ops) s = (case mrun put del get ops s of (rs, t) \<Rightarrow> (get s k # rs, t))"

definition map_put :: "('k \<rightharpoonup> 'v) \<Rightarrow> 'k \<Rightarrow> 'v \<Rightarrow> 'v option \<times> ('k \<rightharpoonup> 'v)" where
  "map_put M k v = (M k, M(k \<mapsto> v))"

definition map_del :: "('k \<rightharpoonup> 'v) \<Rightarrow> 'k \<Rightarrow> 'v option \<times> ('k \<rightharpoonup> 'v)" where
  "map_del M k = (M k, M(k := None))"

definition map_get :: "('k \<rightharpoonup> 'v) \<Rightarrow> 'k \<Rightarrow> 'v option" where "map_get M k = M k"

locale dictionary =
  fixes inv :: "'s \<Rightarrow> bool" and abs :: "'s \<Rightarrow> ('k \<rightharpoonup> 'v)"
    and put :: "'s \<Rightarrow> 'k \<Rightarrow> 'v \<Rightarrow> 'v option \<times> 's" and del :: "'s \<Rightarrow> 'k \<Rightarrow> 'v option \<times> 's"
    and get :: "'s \<Rightarrow> 'k \<Rightarrow> 'v option"
  assumes put_law: "inv s \<Longrightarrow> put s k v = (r, s') \<Longrightarrow> r = abs s k \<and> inv s' \<and> abs s' = (abs s)(k \<mapsto> v)"
    and del_law: "inv s \<Longrightarrow> del s k = (r, s') \<Longrightarrow> r = abs s k \<and> inv s' \<and> abs s' = (abs s)(k := None)"
    and get_law: "inv s \<Longrightarrow> get s k = abs s k"
begin

lemma refines:
  assumes "inv s" and "mrun put del get ops s = (rs, t)"
  shows "inv t \<and> mrun map_put map_del map_get ops (abs s) = (rs, abs t)"
  using assms
proof (induction ops arbitrary: s rs)
  case (Cons op ops)
  show ?case
  proof (cases op)
    case (MPut k v)
    obtain r s' where p: "put s k v = (r, s')" by (cases "put s k v")
    obtain rs' where m: "mrun put del get ops s' = (rs', t)" "rs = r # rs'"
      using Cons.prems(2) MPut p by (auto split: prod.splits)
    have l: "inv s'" "map_put (abs s) k v = (r, abs s')"
      using put_law [OF Cons.prems(1) p] by (simp_all only: map_put_def)
    from Cons.IH [OF l(1) m(1)] l(2) MPut m(2) show ?thesis by simp
  next
    case (MDel k)
    obtain r s' where p: "del s k = (r, s')" by (cases "del s k")
    obtain rs' where m: "mrun put del get ops s' = (rs', t)" "rs = r # rs'"
      using Cons.prems(2) MDel p by (auto split: prod.splits)
    have l: "inv s'" "map_del (abs s) k = (r, abs s')"
      using del_law [OF Cons.prems(1) p] by (simp_all only: map_del_def)
    from Cons.IH [OF l(1) m(1)] l(2) MDel m(2) show ?thesis by simp
  next
    case (MGet k)
    obtain rs' where m: "mrun put del get ops s = (rs', t)" "rs = get s k # rs'"
      using Cons.prems(2) MGet by (auto split: prod.splits)
    from get_law [OF Cons.prems(1)] Cons.IH [OF Cons.prems(1) m(1)] MGet m(2) show ?thesis
      by (simp add: map_get_def)
  qed
qed simp

end

section \<open>Simulation\<close>

text \<open>
  A component whose calls are simulated one by one by an abstract specification gives the outputs
  of the specification over every history.
\<close>

fun run :: "('i \<Rightarrow> 's \<Rightarrow> 'o \<times> 's) \<Rightarrow> 'i list \<Rightarrow> 's \<Rightarrow> 'o list \<times> 's" where
  "run step [] s = ([], s)"
| "run step (i # ops) s = (case step i s of (out, s) \<Rightarrow> case run step ops s of (outs, t) \<Rightarrow> (out # outs, t))"

text \<open>
  The relation may carry a budget of calls (identifiers that do not run out, counters that do not
  overflow), of which every call uses up one.
\<close>

locale simulation =
  fixes rel :: "nat \<Rightarrow> 's \<Rightarrow> 'a \<Rightarrow> bool" and step :: "'i \<Rightarrow> 's \<Rightarrow> 'o \<times> 's" and spec :: "'i \<Rightarrow> 'a \<Rightarrow> 'o \<times> 'a"
  assumes sim: "rel (Suc b) s a \<Longrightarrow> step i s = (out, s') \<Longrightarrow> \<exists>a'. spec i a = (out, a') \<and> rel b s' a'"
begin

lemma run_sim:
  "rel (length ops + b) s a \<Longrightarrow> run step ops s = (outs, t) \<Longrightarrow> \<exists>a'. run spec ops a = (outs, a') \<and> rel b t a'"
proof (induction ops arbitrary: s a outs)
  case (Cons i ops)
  obtain out s' where st: "step i s = (out, s')" by (cases "step i s")
  obtain outs' where r: "run step ops s' = (outs', t)" "outs = out # outs'"
    using Cons.prems(2) st by (auto split: prod.splits)
  obtain a' where a: "spec i a = (out, a')" "rel (length ops + b) s' a'"
    using sim [of "length ops + b" s a i out s'] Cons.prems(1) st by auto
  obtain a'' where "run spec ops a' = (outs', a'')" "rel b t a''" using Cons.IH [OF a(2) r(1)] by blast
  then show ?case using a(1) r(2) by simp
qed simp

end

end
