(* ===== verification/RingBuffer.thy ===== *)
theory RingBuffer
  imports Words Interfaces
begin

text \<open>
  Package \<open>ring\<close> (src/ring/ring.go): the auto-growing ring byte buffer. The read and write
  positions are 64-bit words that are never reduced (only masked on access), as in the code, so
  the wrap-around of \<open>w - r\<close> is part of the model. \<open>contents\<close> is the byte sequence a buffer
  stands for, \<open>ring_inv\<close> the invariant every operation keeps, and every operation is shown to act
  on \<open>contents\<close> as on a plain queue of bytes.
\<close>

section \<open>State\<close>

record ring =
  buf :: bytes
  rd :: u64
  wr :: u64
  msk :: u64
  readPrev :: u64
  hasUnread :: bool

datatype ring_error = EOF | ErrNoProgress | Panic

definition zero_ring :: ring where
  "zero_ring = \<lparr>buf = [], rd = 0, wr = 0, msk = 0, readPrev = 0, hasUnread = False\<rparr>"

text \<open>\<open>None\<close>: the doubling loop does not return.\<close>

definition New :: "int \<Rightarrow> ring option" where
  "New cap = (case pow2_loop 64 cap of
     None \<Rightarrow> None
   | Some sz \<Rightarrow> Some (zero_ring\<lparr>buf := replicate (nat sz) 0, msk := word_of_int sz - 1\<rparr>))"

definition Len :: "ring \<Rightarrow> int" where "Len b = sint (wr b - rd b)"

definition Cap :: "ring \<Rightarrow> int" where "Cap b = int (length (buf b))"

definition Free :: "ring \<Rightarrow> int" where "Free b = Cap b - Len b"

definition Reset :: "ring \<Rightarrow> ring" where "Reset b = b\<lparr>rd := 0, wr := 0\<rparr>"

section \<open>Growing\<close>

partial_function (option) grow_loop :: "int \<Rightarrow> int \<Rightarrow> int \<Rightarrow> int option" where
  "grow_loop newCap len need =
     (if swrap64 (newCap - len) < need then grow_loop (swrap64 (newCap * 2)) len need else Some newCap)"

declare grow_loop.simps [code]

text \<open>
  The two copies \<open>grow\<close> and \<open>Read\<close> make (up to the end of \<open>buf\<close>, then, when the first was short,
  from its start): what they leave in \<open>dst\<close>.
\<close>

definition copy_out :: "bytes \<Rightarrow> nat \<Rightarrow> nat \<Rightarrow> bytes \<Rightarrow> bytes" where
  "copy_out b start n dst =
     (let src = slice b start (min (start + n) (length b));
          dst1 = go_copy dst src;
          first = min (length dst) (length src)
      in if first < n then copy_at dst1 first (slice b 0 (n - first)) else dst1)"

text \<open>\<open>None\<close>: the doubling loop does not return, or \<open>make\<close> panics on a negative length.\<close>

definition grow :: "ring \<Rightarrow> int \<Rightarrow> ring option" where
  "grow b need =
     (if Free b \<ge> need then Some b
      else let newCap = Cap b; newCap = (if newCap = 0 then 64 else newCap)
           in case grow_loop newCap (Len b) need of
                None \<Rightarrow> None
              | Some newCap \<Rightarrow>
                  let n = Len b; start = rd b AND msk b
                  in if newCap < 0 then None
                     else Some (b\<lparr>buf := copy_out (buf b) (unat start) (nat n) (replicate (nat newCap) 0),
                                  msk := word_of_int newCap - 1, rd := 0, wr := word_of_int n\<rparr>))"

section \<open>Writing\<close>

definition Write :: "ring \<Rightarrow> bytes \<Rightarrow> (int \<times> ring) option" where
  "Write b p =
     (case grow (b\<lparr>hasUnread := False\<rparr>) (int (length p)) of
        None \<Rightarrow> None
      | Some b \<Rightarrow>
          let n = length p;
              start = unat (wr b AND msk b);
              buf1 = copy_at (buf b) start p;
              first = min (length (buf b) - start) n;
              buf2 = (if first < n then go_copy buf1 (drop first p) else buf1)
          in Some (int n, b\<lparr>buf := buf2, wr := wr b + of_nat n\<rparr>))"

definition WriteByte :: "ring \<Rightarrow> byte \<Rightarrow> ring option" where
  "WriteByte b c =
     (case grow (b\<lparr>hasUnread := False\<rparr>) 1 of
        None \<Rightarrow> None
      | Some b \<Rightarrow> Some (b\<lparr>buf := (buf b)[unat (wr b AND msk b) := c], wr := wr b + 1\<rparr>))"

section \<open>Reading\<close>

text \<open>An emptied buffer goes back to offset 0.\<close>

definition normalise :: "ring \<Rightarrow> ring" where
  "normalise b = (if rd b = wr b then b\<lparr>rd := 0, wr := 0\<rparr> else b)"

definition ReadByte :: "ring \<Rightarrow> (ring_error + byte) \<times> ring" where
  "ReadByte b =
     (if rd b = wr b then (Inl EOF, b\<lparr>hasUnread := False\<rparr>)
      else let b1 = b\<lparr>readPrev := rd b\<rparr>;
               c = buf b1 ! unat (rd b1 AND msk b1)
           in (Inr c, normalise (b1\<lparr>rd := rd b1 + 1, hasUnread := True\<rparr>)))"

definition UnreadByte :: "ring \<Rightarrow> ring_error option \<times> ring" where
  "UnreadByte b =
     (if \<not> hasUnread b then (Some ErrNoProgress, b)
      else let b = b\<lparr>hasUnread := False\<rparr>
           in (None, if rd b = 0 \<and> wr b = 0 then b\<lparr>rd := readPrev b, wr := readPrev b + 1\<rparr>
                     else b\<lparr>rd := readPrev b\<rparr>))"

text \<open>\<open>Read(p)\<close> returns the count and what \<open>p\<close> holds afterwards.\<close>

definition Read :: "ring \<Rightarrow> bytes \<Rightarrow> (ring_error + int \<times> bytes) \<times> ring" where
  "Read b p =
     (if Len b = 0 then (Inl EOF, b)
      else let b = b\<lparr>hasUnread := False\<rparr>;
               n = min (int (length p)) (Len b);
               p1 = copy_out (buf b) (unat (rd b AND msk b)) (nat n) p
           in (Inr (n, p1), normalise (b\<lparr>rd := rd b + word_of_int n\<rparr>)))"

text \<open>A negative count makes the slice expression panic; \<open>Inr []\<close> is also the \<open>nil\<close> result.\<close>

definition Peek :: "ring \<Rightarrow> int \<Rightarrow> ring_error + bytes" where
  "Peek b n =
     (let n = min n (Len b)
      in if n = 0 then Inr []
         else if n < 0 then Inl Panic
         else let start = unat (rd b AND msk b); end = start + nat n
              in if end \<le> length (buf b) then Inr (slice (buf b) start end)
                 else let tmp = replicate (nat n) 0;
                          s1 = drop start (buf b);
                          first = min (nat n) (length s1)
                      in Inr (copy_at (go_copy tmp s1) first (slice (buf b) 0 (nat n - first))))"

definition PeekSegments :: "ring \<Rightarrow> bytes \<times> bytes" where
  "PeekSegments b =
     (if rd b = wr b then ([], [])
      else let start = unat (rd b AND msk b); end = unat (wr b AND msk b)
           in if start < end then (slice (buf b) start end, [])
              else (drop start (buf b), take end (buf b)))"

definition Discard :: "ring \<Rightarrow> int \<Rightarrow> ring" where
  "Discard b n =
     (let n = min n (Len b);
          b = (if n > 0 then b\<lparr>hasUnread := False\<rparr> else b)
      in normalise (b\<lparr>rd := rd b + word_of_int n\<rparr>))"

definition ReadableSegments :: "ring \<Rightarrow> int \<Rightarrow> bytes \<times> bytes" where
  "ReadableSegments b n =
     (let avail = Len b
      in if n \<le> 0 \<or> avail = 0 then ([], [])
         else let n = min n avail;
                  rStart = unat (rd b AND msk b);
                  wStart = unat (wr b AND msk b);
                  firstLen = length (buf b) - rStart
              in if rStart < wStart then (slice (buf b) rStart (rStart + nat n), [])
                 else if n \<le> int firstLen then (slice (buf b) rStart (rStart + nat n), [])
                 else let remain = nat n - firstLen
                      in (drop rStart (buf b),
                          if wStart > 0 then take (min remain wStart) (buf b) else []))"

definition CommitRead :: "ring \<Rightarrow> int \<Rightarrow> ring_error + ring" where
  "CommitRead b n =
     (if n < 0 \<or> n > Len b then Inl Panic
      else Inr (normalise (b\<lparr>rd := rd b + word_of_int n\<rparr>)))"

section \<open>The zero-copy write side\<close>

text \<open>The segments are given by their index ranges in \<open>buf\<close>: the caller writes into them.\<close>

type_synonym seg = "nat \<times> nat"

definition WritableSegments :: "ring \<Rightarrow> int \<Rightarrow> ((seg \<times> seg) \<times> ring) option" where
  "WritableSegments b need =
     (case grow b need of
        None \<Rightarrow> None
      | Some b \<Rightarrow>
          let free = Free b; cap = length (buf b);
              wStart = unat (wr b AND msk b); rStart = unat (rd b AND msk b)
          in Some (if free = 0 then ((0, 0), (0, 0))
                   else if rd b = wr b then ((0, nat free), (0, 0))
                   else if wStart < rStart then ((wStart, rStart), (0, 0))
                   else ((wStart, cap), if rStart > 0 then (0, rStart) else (0, 0)), b))"

definition CommitWrite :: "ring \<Rightarrow> int \<Rightarrow> ring_error + ring" where
  "CommitWrite b n =
     (if n < 0 \<or> n > Free b then Inl Panic else Inr (b\<lparr>wr := wr b + word_of_int n\<rparr>))"

section \<open>I/O integration\<close>

text \<open>
  An \<open>io.Writer\<close> is a function from its own state and the bytes offered to the count it
  accepted, its error (if any) and its next state.
\<close>

type_synonym ('s, 'e) go_writer = "'s \<Rightarrow> bytes \<Rightarrow> (int \<times> 'e option) \<times> 's"

definition WriteTo :: "ring \<Rightarrow> ('s, 'e) go_writer \<Rightarrow> 's \<Rightarrow> (int \<times> 'e option) \<times> ring \<times> 's" where
  "WriteTo b w s =
     (if Len b = 0 then ((0, None), b, s)
      else let start = unat (rd b AND msk b); end = start + nat (Len b)
           in if end \<le> length (buf b) then
                (case w s (slice (buf b) start end) of
                   ((n, err), s) \<Rightarrow> ((n, err), b\<lparr>rd := rd b + word_of_int n\<rparr>, s))
              else
                (case w s (drop start (buf b)) of
                   ((n, err), s) \<Rightarrow>
                     let b = b\<lparr>rd := rd b + word_of_int n\<rparr>
                     in if err \<noteq> None then ((n, err), b, s)
                        else case w s (take (nat (Len b)) (buf b)) of
                               ((m, err), s) \<Rightarrow> ((n + m, err), b\<lparr>rd := rd b + word_of_int m\<rparr>, s)))"

text \<open>
  An \<open>io.Reader\<close> fills a slice of a given length: it returns the bytes it stored (at most that
  many), its error and its next state. \<open>ReadFrom\<close> loops until the reader reports an error, so it
  is partial; \<open>None\<close> stands for not returning.
\<close>

datatype 'e read_error = ReadEOF | ReadErr 'e

type_synonym ('s, 'e) go_reader = "'s \<Rightarrow> nat \<Rightarrow> (bytes \<times> 'e read_error option) \<times> 's"

definition read_step :: "ring \<Rightarrow> ('s, 'e) go_reader \<Rightarrow> 's \<Rightarrow> (bytes \<times> 'e read_error option \<times> ring \<times> 's) option" where
  "read_step b rdr s =
     (case (if Free b = 0 then grow b 4096 else Some b) of
        None \<Rightarrow> None
      | Some b \<Rightarrow>
          let start = unat (wr b AND msk b);
              seg1End = min (start + nat (Free b)) (length (buf b))
          in case rdr s (seg1End - start) of
               ((d, err), s) \<Rightarrow>
                 Some (d, err, b\<lparr>buf := copy_at (buf b) start d, wr := wr b + of_nat (length d)\<rparr>, s))"

partial_function (option) ReadFrom_loop ::
  "('s, 'e) go_reader \<Rightarrow> ring \<Rightarrow> 's \<Rightarrow> int \<Rightarrow> ((int \<times> 'e option) \<times> ring \<times> 's) option" where
  "ReadFrom_loop rdr b s tot =
     (case read_step b rdr s of
        None \<Rightarrow> None
      | Some (d, err, b, s) \<Rightarrow>
          (case err of
             None \<Rightarrow> ReadFrom_loop rdr b s (tot + int (length d))
           | Some ReadEOF \<Rightarrow> Some ((tot + int (length d), None), b, s)
           | Some (ReadErr e) \<Rightarrow> Some ((tot + int (length d), Some e), b, s)))"

definition ReadFrom :: "ring \<Rightarrow> ('s, 'e) go_reader \<Rightarrow> 's \<Rightarrow> ((int \<times> 'e option) \<times> ring \<times> 's) option" where
  "ReadFrom b rdr s = ReadFrom_loop rdr b s 0"

section \<open>Invariant and abstraction\<close>

text \<open>
  Either the zero value (no storage yet) or a power-of-two storage with its mask and at most a
  full buffer between the two positions.
\<close>

definition ring_inv :: "ring \<Rightarrow> bool" where
  "ring_inv b \<longleftrightarrow>
     (buf b = [] \<and> msk b = 0 \<and> wr b = rd b) \<or>
     (\<exists>k \<le> 62. length (buf b) = 2 ^ k \<and> msk b = 2 ^ k - 1 \<and> unat (wr b - rd b) \<le> 2 ^ k)"

definition pos :: "ring \<Rightarrow> nat" where "pos b = unat (rd b AND msk b)"

definition cnt :: "ring \<Rightarrow> nat" where "cnt b = unat (wr b - rd b)"

text \<open>The bytes a buffer holds, in reading order.\<close>

definition contents :: "ring \<Rightarrow> bytes" where
  "contents b = take (cnt b) (rotate (pos b) (buf b))"

lemma ring_inv_cases:
  assumes "ring_inv b"
  obtains (zero) "buf b = []" "msk b = 0" "wr b = rd b" "cnt b = 0" "pos b = 0"
  | (alloc) k where "k \<le> 62" "length (buf b) = 2 ^ k" "msk b = 2 ^ k - 1" "cnt b \<le> 2 ^ k"
      "pos b < 2 ^ k" "pos b = unat (rd b) mod 2 ^ k"
  using assms unfolding ring_inv_def
  by (elim disjE exE conjE) (auto simp: cnt_def pos_def unat_and_mask)

lemma ring_inv_cnt_le: assumes "ring_inv b" shows "cnt b \<le> length (buf b)"
  using assms by (cases rule: ring_inv_cases) simp_all

lemma ring_inv_length: assumes "ring_inv b" shows "length (buf b) \<le> 2 ^ 62"
  using assms
proof (cases rule: ring_inv_cases)
  case (alloc k)
  have "(2 :: nat) ^ k \<le> 2 ^ 62" using alloc(1) by (rule power_increasing) simp
  with alloc show ?thesis by (simp only:)
qed simp_all

lemmas ring_inv_cnt = ring_inv_cnt_le ring_inv_length

lemma length_contents [simp]: "ring_inv b \<Longrightarrow> length (contents b) = cnt b"
  by (simp add: contents_def ring_inv_cnt)

lemma Len_eq: assumes "ring_inv b" shows "Len b = int (cnt b)"
proof -
  have "cnt b \<le> 2 ^ 62" using ring_inv_cnt [OF assms] by linarith
  then have "int (cnt b) \<le> 2 ^ 62" by simp
  then have u: "uint (wr b - rd b) \<le> 2 ^ 62" unfolding cnt_def by (simp only: of_nat_unat)
  have "signed_take_bit 63 (uint (wr b - rd b)) = uint (wr b - rd b)"
  proof (rule signed_take_bit_int_eq_self)
    show "- (2 ^ 63) \<le> uint (wr b - rd b)" by (rule order_trans [OF _ uint_ge_0]) simp
    show "uint (wr b - rd b) < 2 ^ 63" by (rule le_less_trans [OF u]) simp
  qed
  then show ?thesis by (simp add: Len_def cnt_def sint_uint)
qed

section \<open>Moving the two positions\<close>

lemma unat_minus_of_nat: assumes "m \<le> unat x" shows "unat ((x :: u64) - of_nat m) = unat x - m"
proof -
  have "unat x < 2 ^ 64" using unsigned_less [of x, where ?'a = nat] by simp
  with assms have u: "unat (of_nat m :: u64) = m" by (intro unat_of_nat_u64) linarith
  then have "of_nat m \<le> x" unfolding word_le_nat_alt by (simp only: assms)
  then show ?thesis by (simp only: unat_sub u)
qed

lemma unat_plus_of_nat:
  assumes "unat x + m < 2 ^ 64" shows "unat ((x :: u64) + of_nat m) = unat x + m"
proof -
  have u: "unat (of_nat m :: u64) = m" using assms by (intro unat_of_nat_u64) linarith
  have "unat (x + of_nat m) = (unat x + unat (of_nat m :: u64)) mod 2 ^ 64"
    by (simp only: unat_word_ariths) simp
  then show ?thesis by (simp only: u mod_less [OF assms])
qed

lemma wr_off:
  assumes "ring_inv b" "buf b \<noteq> []"
  shows "unat (wr b AND msk b) = (pos b + cnt b) mod length (buf b)"
  using assms(1)
proof (cases rule: ring_inv_cases)
  case (alloc k)
  have "unat (wr b) mod 2 ^ k = unat (rd b + (wr b - rd b)) mod 2 ^ k" by simp
  also have "\<dots> = (unat (rd b) + cnt b) mod 2 ^ k"
    unfolding cnt_def using alloc(1) by (intro unat_add_mod) simp
  finally show ?thesis unfolding alloc(2,3,6) unat_and_mask by (simp only: mod_add_left_eq)
qed (use assms in simp)

lemma pos_less: "ring_inv b \<Longrightarrow> buf b \<noteq> [] \<Longrightarrow> pos b < length (buf b)"
  by (erule ring_inv_cases) simp_all

text \<open>Moving the read position forward by at most \<open>Len\<close> drops what was read.\<close>

lemma advance_read:
  assumes inv: "ring_inv b" and m: "m \<le> cnt b"
  defines "b' \<equiv> b\<lparr>rd := rd b + of_nat m\<rparr>"
  shows "ring_inv b' \<and> cnt b' = cnt b - m \<and> contents b' = drop m (contents b)"
  using inv
proof (cases rule: ring_inv_cases)
  case zero
  with m inv show ?thesis by (simp add: b'_def contents_def)
next
  case (alloc k)
  have "cnt b' = unat ((wr b - rd b) - of_nat m)"
    by (simp add: b'_def cnt_def diff_diff_eq)
  then have c: "cnt b' = cnt b - m"
    using m by (simp only: cnt_def unat_minus_of_nat)
  have "pos b' = unat (rd b + of_nat m) mod 2 ^ k"
    by (simp add: b'_def pos_def alloc(3) unat_and_mask)
  also have "\<dots> = (unat (rd b) + unat (of_nat m :: u64)) mod 2 ^ k"
    using alloc(1) by (intro unat_add_mod) simp
  also have "unat (of_nat m :: u64) = m"
    using m unsigned_less [of "wr b - rd b", where ?'a = nat]
    by (intro unat_of_nat_u64) (simp add: cnt_def)
  finally have p: "pos b' = (pos b + m) mod length (buf b)"
    unfolding alloc(2,6) by (simp only: mod_add_left_eq)
  have "contents b' = take (cnt b - m) (rotate m (rotate (pos b) (buf b)))"
    unfolding contents_def c p by (simp add: b'_def rotate_add_mod)
  also have "\<dots> = drop m (contents b)"
    unfolding contents_def using m alloc by (intro take_rotate_advance) simp_all
  finally have "contents b' = drop m (contents b)" .
  moreover have "ring_inv b'"
    unfolding ring_inv_def using alloc c by (auto simp: b'_def cnt_def intro!: exI [of _ k])
  ultimately show ?thesis using c by simp
qed

lemma ring_inv_emptied: "ring_inv b \<Longrightarrow> ring_inv (b\<lparr>rd := 0, wr := 0\<rparr>)"
  by (auto simp: ring_inv_def)

lemma contents_empty: "rd b = wr b \<Longrightarrow> contents b = []"
  by (simp add: contents_def cnt_def)

lemma normalise_ok:
  assumes "ring_inv b"
  shows "ring_inv (normalise b) \<and> contents (normalise b) = contents b"
  using assms ring_inv_emptied [OF assms]
  by (simp add: normalise_def contents_empty)

text \<open>Writing at the write position and moving it appends.\<close>

lemma append_write:
  assumes inv: "ring_inv b" and n: "cnt b + length d \<le> length (buf b)"
  defines "b' \<equiv> b\<lparr>buf := circ_write (buf b) (unat (wr b AND msk b)) d, wr := wr b + of_nat (length d)\<rparr>"
  shows "ring_inv b' \<and> cnt b' = cnt b + length d \<and> contents b' = contents b @ d"
  using inv
proof (cases rule: ring_inv_cases)
  case zero
  with n have "d = []" by simp
  with zero inv have "b' = b" by (cases b) (simp add: b'_def circ_write_def copy_at_def go_copy_def)
  with zero inv \<open>d = []\<close> show ?thesis by simp
next
  case (alloc k)
  then have ne: "buf b \<noteq> []" by auto
  have "cnt b' = unat ((wr b - rd b) + of_nat (length d))"
    by (simp add: b'_def cnt_def algebra_simps)
  moreover have "cnt b + length d < 2 ^ 64"
    using n ring_inv_length [OF inv] by simp
  ultimately have c: "cnt b' = cnt b + length d"
    by (simp only: cnt_def unat_plus_of_nat)
  have p: "pos b' = pos b" by (simp add: b'_def pos_def)
  have "contents b' = contents b @ d"
    unfolding contents_def c p using take_rotate_circ_write [OF pos_less [OF inv ne] n]
    by (simp add: b'_def wr_off [OF inv ne])
  moreover have "ring_inv b'"
    unfolding ring_inv_def using alloc c n by (auto simp: b'_def cnt_def intro!: exI [of _ k])
  ultimately show ?thesis using c by simp
qed

section \<open>Growing keeps the contents\<close>

lemma copy_out_eq:
  assumes "s < length xs" "n \<le> length xs" "n \<le> length dst"
  shows "copy_out xs s n dst = take n (rotate s xs) @ drop n dst"
proof (cases "s + n \<le> length xs")
  case True
  with assms show ?thesis
    by (simp add: copy_out_def slice_def go_copy_def rotate_eq)
next
  case False
  let ?f = "length xs - s"
  have f: "?f < n" "?f \<le> length dst" using False assms by linarith+
  have sl: "slice xs s (min (s + n) (length xs)) = drop s xs"
    using False by (simp add: slice_def)
  have "copy_out xs s n dst = copy_at (go_copy dst (drop s xs)) ?f (take (n - ?f) xs)"
    unfolding copy_out_def sl using f assms by (simp add: Let_def slice_def)
  also have "go_copy dst (drop s xs) = drop s xs @ drop ?f dst"
    using f by (simp add: go_copy_def)
  also have "copy_at \<dots> ?f (take (n - ?f) xs) = drop s xs @ take (n - ?f) xs @ drop n dst"
    using f assms by (simp add: copy_at_def go_copy_def)
  also have "\<dots> = take n (rotate s xs) @ drop n dst"
    using f assms by (simp add: rotate_eq)
  finally show ?thesis .
qed

lemma swrap64_diff:
  "0 \<le> x \<Longrightarrow> x \<le> 2 ^ 62 \<Longrightarrow> 0 \<le> y \<Longrightarrow> y \<le> 2 ^ 62 \<Longrightarrow> swrap64 (x - y) = x - y"
  by (rule swrap64_id) simp_all

lemma grow_loop_ok:
  assumes "j \<le> 62" "0 \<le> len" "len \<le> 2 ^ 62" "len + need \<le> 2 ^ 62"
  shows "\<exists>k. j \<le> k \<and> k \<le> 62 \<and> grow_loop (2 ^ j) len need = Some (2 ^ k) \<and> need \<le> 2 ^ k - len"
  using assms
proof (induction "62 - j" arbitrary: j)
  case 0
  then have j: "j = 62" by simp
  have "swrap64 (2 ^ j - len) = 2 ^ j - len" using 0 j by (intro swrap64_id) simp_all
  with 0 j show ?case by (subst grow_loop.simps) (auto intro!: exI [of _ 62])
next
  case (Suc i)
  have jl: "(2 :: int) ^ j \<le> 2 ^ 62" using Suc.prems(1) by (rule power_increasing) simp
  have w: "swrap64 (2 ^ j - len) = 2 ^ j - len" using Suc.prems jl by (intro swrap64_diff) simp_all
  show ?case
  proof (cases "2 ^ j - len < need")
    case True
    have "(2 :: int) ^ (Suc j) \<le> 2 ^ 62" using Suc.hyps(2) by (intro power_increasing) simp_all
    then have w2: "swrap64 (2 ^ j * 2) = 2 ^ Suc j" using swrap64_diff [of "2 ^ Suc j" 0] by (simp add: mult.commute)
    have "\<exists>k. Suc j \<le> k \<and> k \<le> 62 \<and> grow_loop (2 ^ Suc j) len need = Some (2 ^ k) \<and> need \<le> 2 ^ k - len"
      using Suc.prems Suc.hyps(2) by (intro Suc.hyps(1)) simp_all
    then show ?thesis using True
      by (subst grow_loop.simps) (auto simp only: w w2 if_True intro: Suc_leD)
  next
    case False
    then show ?thesis using Suc.prems
      by (subst grow_loop.simps) (auto simp: w intro!: exI [of _ j])
  qed
qed

lemma grow_ok:
  assumes inv: "ring_inv b" and need: "int (cnt b) + need \<le> 2 ^ 62"
  shows "\<exists>b'. grow b need = Some b' \<and> ring_inv b' \<and> contents b' = contents b \<and> cnt b' = cnt b \<and>
    need \<le> int (length (buf b')) - int (cnt b) \<and> hasUnread b' = hasUnread b"
proof (cases "need \<le> Free b")
  case True
  then show ?thesis using inv by (simp add: grow_def Free_def Cap_def Len_eq)
next
  case False
  define c where "c = (if Cap b = 0 then 64 else Cap b)"
  have "\<exists>j \<le> 62. c = 2 ^ j \<and> length (buf b) \<le> 2 ^ j"
    using inv by (cases rule: ring_inv_cases) (auto simp: c_def Cap_def intro: exI [of _ 6])
  then obtain j where j: "j \<le> 62" "c = 2 ^ j" "length (buf b) \<le> 2 ^ j" by blast
  have cl: "cnt b \<le> 2 ^ 62" using ring_inv_cnt [OF inv] by linarith
  then have cl': "int (cnt b) \<le> 2 ^ 62" by simp
  obtain k where k: "j \<le> k" "k \<le> 62" "grow_loop c (Len b) need = Some (2 ^ k)" "need \<le> 2 ^ k - int (cnt b)"
    using grow_loop_ok [of j "int (cnt b)" need] j cl' need by (auto simp: Len_eq [OF inv])
  let ?dst = "replicate (2 ^ k) (0 :: byte)"
  define b' where "b' = b\<lparr>buf := copy_out (buf b) (pos b) (cnt b) ?dst,
    msk := 2 ^ k - 1, rd := 0, wr := of_nat (cnt b)\<rparr>"
  have g: "grow b need = Some b'"
    unfolding grow_def b'_def using False k(3)
    by (simp add: c_def Let_def Len_eq [OF inv] pos_def nat_power_eq)
  have "(2 :: nat) ^ j \<le> 2 ^ k" using k(1) by (rule power_increasing) simp
  then have ck: "cnt b \<le> 2 ^ k" using ring_inv_cnt_le [OF inv] j(3) by linarith
  have "buf b' = contents b @ drop (cnt b) ?dst"
  proof (cases "buf b = []")
    case True
    then have "cnt b = 0" using ring_inv_cnt_le [OF inv] by simp
    then show ?thesis using True by (simp add: b'_def copy_out_def slice_def go_copy_def contents_def)
  next
    case False
    have "copy_out (buf b) (pos b) (cnt b) ?dst = contents b @ drop (cnt b) ?dst"
      unfolding contents_def using ck
      by (intro copy_out_eq pos_less [OF inv False] ring_inv_cnt_le [OF inv]) simp
    then show ?thesis by (simp add: b'_def)
  qed
  moreover have c': "cnt b' = cnt b"
    unfolding cnt_def [of b'] using cl by (simp add: b'_def unat_of_nat_u64)
  moreover have "pos b' = 0" by (simp add: pos_def b'_def)
  ultimately have "contents b' = contents b"
    using inv by (simp add: contents_def [of b'])
  moreover have l: "length (buf b') = 2 ^ k" using ck inv \<open>buf b' = _\<close> by simp
  moreover have "ring_inv b'"
    unfolding ring_inv_def using l k(2) ck c'
    by (intro disjI2 exI [of _ k]) (simp add: cnt_def [symmetric], simp add: b'_def)
  ultimately show ?thesis using g c' k(4) by (simp add: b'_def)
qed

section \<open>The operations act on the contents\<close>

lemma flags_irrelevant [simp]:
  "ring_inv (b\<lparr>hasUnread := h\<rparr>) = ring_inv b" "ring_inv (b\<lparr>readPrev := r\<rparr>) = ring_inv b"
  "contents (b\<lparr>hasUnread := h\<rparr>) = contents b" "contents (b\<lparr>readPrev := r\<rparr>) = contents b"
  "cnt (b\<lparr>hasUnread := h\<rparr>) = cnt b" "cnt (b\<lparr>readPrev := r\<rparr>) = cnt b"
  by (simp_all add: ring_inv_def contents_def cnt_def pos_def)

lemma two_copies:
  "(if min (length xs - q) (length p) < length p
    then go_copy (copy_at xs q p) (drop (min (length xs - q) (length p)) p) else copy_at xs q p) =
   circ_write xs q p"
  by (auto simp: circ_write_def min_def go_copy_def)

lemma single_copy: "q < length xs \<Longrightarrow> xs[q := c] = circ_write xs q [c] \<and> copy_at xs q [c] = circ_write xs q [c]"
  by (simp add: circ_write_def copy_at_def go_copy_def upd_conv_take_nth_drop)

lemma Write_ok:
  assumes inv: "ring_inv b" and n: "cnt b + length p \<le> 2 ^ 62"
  shows "\<exists>b'. Write b p = Some (int (length p), b') \<and> ring_inv b' \<and> contents b' = contents b @ p \<and>
    \<not> hasUnread b'"
proof -
  let ?b = "b\<lparr>hasUnread := False\<rparr>"
  have "int (cnt b + length p) \<le> 2 ^ 62" using n by simp
  then obtain b1 where b1: "grow ?b (int (length p)) = Some b1" "ring_inv b1" "contents b1 = contents b"
      "cnt b1 = cnt b" "int (length p) \<le> int (length (buf b1)) - int (cnt b)" "\<not> hasUnread b1"
    using grow_ok [of ?b "int (length p)"] inv by auto
  have "cnt b1 + length p \<le> length (buf b1)" using b1(4,5) by linarith
  from append_write [OF b1(2) this] b1(3,6) show ?thesis
    by (simp add: Write_def b1(1) Let_def two_copies)
qed

lemma WriteByte_eq_Write:
  assumes inv: "ring_inv b" and n: "cnt b < 2 ^ 62"
  shows "WriteByte b c = map_option snd (Write b [c])"
proof -
  let ?b = "b\<lparr>hasUnread := False\<rparr>"
  obtain b1 where b1: "grow ?b 1 = Some b1" "ring_inv b1" "cnt b1 = cnt b"
      "1 \<le> int (length (buf b1)) - int (cnt b)"
    using grow_ok [of ?b 1] inv n by auto
  then have ne: "buf b1 \<noteq> []" by auto
  have q: "unat (wr b1 AND msk b1) < length (buf b1)"
    unfolding wr_off [OF b1(2) ne] using ne by simp
  then have "min (length (buf b1) - unat (wr b1 AND msk b1)) (Suc 0) = Suc 0" by simp
  with single_copy [OF q] show ?thesis
    by (simp add: WriteByte_def Write_def b1(1) Let_def)
qed

lemma cnt_0_iff: "cnt b = 0 \<longleftrightarrow> rd b = wr b"
  by (auto simp: cnt_def unat_eq_zero)

lemma contents_Nil_iff: "ring_inv b \<Longrightarrow> contents b = [] \<longleftrightarrow> rd b = wr b"
  by (metis cnt_0_iff length_0_conv length_contents)

lemma cnt_pos_nonempty: "ring_inv b \<Longrightarrow> rd b \<noteq> wr b \<Longrightarrow> buf b \<noteq> [] \<and> 0 < cnt b"
  by (metis cnt_0_iff gr0I le_zero_eq list.size(3) ring_inv_cnt_le)

lemma hd_contents:
  assumes "ring_inv b" "rd b \<noteq> wr b"
  shows "contents b = buf b ! unat (rd b AND msk b) # tl (contents b)"
proof -
  have ne: "buf b \<noteq> []" "0 < cnt b" using cnt_pos_nonempty [OF assms] by auto
  have "hd (contents b) = hd (rotate (pos b) (buf b))" by (simp add: contents_def ne)
  also have "\<dots> = buf b ! pos b"
    using ne pos_less [OF assms(1)] by (simp add: hd_rotate_conv_nth)
  finally show ?thesis using ne length_contents [OF assms(1)]
    by (metis hd_Cons_tl less_numeral_extra(3) list.size(3) pos_def)
qed

lemma ReadByte_ok:
  assumes inv: "ring_inv b"
  shows "case contents b of
      [] \<Rightarrow> fst (ReadByte b) = Inl EOF \<and> contents (snd (ReadByte b)) = [] \<and> ring_inv (snd (ReadByte b))
    | c # cs \<Rightarrow> fst (ReadByte b) = Inr c \<and> contents (snd (ReadByte b)) = cs \<and> ring_inv (snd (ReadByte b))"
proof (cases "rd b = wr b")
  case True
  then show ?thesis using inv by (simp add: ReadByte_def contents_empty)
next
  case False
  let ?b = "b\<lparr>readPrev := rd b, rd := rd b + 1\<rparr>"
  have "1 \<le> cnt b" using cnt_pos_nonempty [OF inv False] by simp
  then have r: "ring_inv ?b" "contents ?b = tl (contents b)"
    using advance_read [of "b\<lparr>readPrev := rd b\<rparr>" 1] inv by (simp_all add: drop_Suc)
  let ?b' = "?b\<lparr>hasUnread := True\<rparr>"
  have n: "ring_inv (normalise ?b')" "contents (normalise ?b') = tl (contents b)"
    using normalise_ok [of ?b'] r by simp_all
  have "snd (ReadByte b) = normalise ?b'" "fst (ReadByte b) = Inr (buf b ! unat (rd b AND msk b))"
    using False by (simp_all add: ReadByte_def Let_def)
  then show ?thesis using n by (subst hd_contents [OF inv False]) simp
qed

text \<open>Putting the byte back restores the contents, also when the buffer was read empty.\<close>

lemma UnreadByte_ok:
  assumes inv: "ring_inv b" and ne: "contents b \<noteq> []"
  shows "fst (UnreadByte (snd (ReadByte b))) = None \<and> ring_inv (snd (UnreadByte (snd (ReadByte b)))) \<and>
    contents (snd (UnreadByte (snd (ReadByte b)))) = contents b"
proof -
  have d: "rd b \<noteq> wr b" using ne contents_Nil_iff [OF inv] by simp
  let ?b = "snd (UnreadByte (snd (ReadByte b)))"
  have "rd ?b = rd b \<and> wr ?b = wr b \<and> buf ?b = buf b \<and> msk ?b = msk b"
    using d by (auto simp: ReadByte_def UnreadByte_def normalise_def Let_def)
  then have "ring_inv ?b = ring_inv b" "contents ?b = contents b"
    by (simp_all add: ring_inv_def contents_def cnt_def pos_def)
  moreover have "fst (UnreadByte (snd (ReadByte b))) = None"
    using d by (auto simp: ReadByte_def UnreadByte_def normalise_def Let_def)
  ultimately show ?thesis using inv by simp
qed

lemma copy_out_contents:
  assumes "ring_inv b" "rd b \<noteq> wr b" "n \<le> cnt b" "n \<le> length dst"
  shows "copy_out (buf b) (pos b) n dst = take n (contents b) @ drop n dst"
proof -
  have "copy_out (buf b) (pos b) n dst = take n (rotate (pos b) (buf b)) @ drop n dst"
    using assms ring_inv_cnt_le [OF assms(1)] cnt_pos_nonempty [OF assms(1,2)]
    by (intro copy_out_eq pos_less) auto
  with assms show ?thesis by (simp add: contents_def)
qed

lemma Read_ok:
  assumes inv: "ring_inv b" and ne: "contents b \<noteq> []"
  shows "\<exists>b'. Read b p = (let n = min (length p) (length (contents b))
      in (Inr (int n, take n (contents b) @ drop n p), b')) \<and>
    ring_inv b' \<and> contents b' = drop (length p) (contents b) \<and> \<not> hasUnread b'"
proof -
  define m where "m = min (length p) (cnt b)"
  let ?b = "b\<lparr>hasUnread := False\<rparr>"
  have d: "rd b \<noteq> wr b" using ne contents_Nil_iff [OF inv] by simp
  let ?b1 = "?b\<lparr>rd := rd b + of_nat m\<rparr>"
  have r: "ring_inv ?b1" "contents ?b1 = drop m (contents b)"
    using advance_read [of ?b m] inv by (simp_all add: m_def)
  have L: "Len ?b = Len b" by (simp add: Len_def)
  have n: "min (int (length p)) (Len b) = int m" by (simp add: Len_eq [OF inv] m_def)
  have "Len b \<noteq> 0" using d by (simp add: Len_eq [OF inv] cnt_0_iff)
  then have "Read b p = (Inr (int m, copy_out (buf b) (pos b) m p), normalise ?b1)"
    by (simp add: Read_def Let_def L n pos_def)
  moreover have "copy_out (buf b) (pos b) m p = take m (contents b) @ drop m p"
    using inv d by (intro copy_out_contents) (auto simp: m_def)
  moreover have "drop m (contents b) = drop (length p) (contents b)"
    using inv by (simp add: m_def min_def)
  moreover have "\<not> hasUnread (normalise ?b1)" by (simp add: normalise_def)
  ultimately show ?thesis
    using inv r normalise_ok [OF r(1)] by (simp add: Let_def m_def [symmetric])
qed

lemma contents_split:
  assumes "ring_inv b" "buf b \<noteq> []" "n \<le> cnt b"
  shows "take n (contents b) = take n (drop (pos b) (buf b)) @ take (n - (length (buf b) - pos b)) (buf b)"
  using assms pos_less [OF assms(1,2)] ring_inv_cnt_le [OF assms(1)]
  by (auto simp: contents_def rotate_eq min_def)

lemma Peek_ok:
  assumes inv: "ring_inv b" and n: "0 \<le> n"
  shows "Peek b n = Inr (take (nat n) (contents b))"
proof (cases "min n (Len b) = 0")
  case True
  then show ?thesis using inv n by (auto simp: Peek_def Len_eq contents_def min_def split: if_splits)
next
  case False
  define m where "m = min (nat n) (cnt b)"
  have m: "min n (Len b) = int m" using n by (simp add: Len_eq [OF inv] m_def)
  then have d: "rd b \<noteq> wr b" "0 < m" using False cnt_0_iff [of b] by (auto simp: m_def)
  note ne = cnt_pos_nonempty [OF inv d(1)]
  let ?f = "length (buf b) - pos b"
  have mL: "m \<le> length (buf b)" using ring_inv_cnt_le [OF inv] by (simp add: m_def)
  have "take (nat n) (contents b) = take m (contents b)" using inv by (simp add: m_def min_def)
  also have "\<dots> = take m (drop (pos b) (buf b)) @ take (m - ?f) (buf b)"
    using ne by (intro contents_split inv) (auto simp: m_def)
  finally have sp: "take (nat n) (contents b) = \<dots>" .
  show ?thesis
  proof (cases "pos b + m \<le> length (buf b)")
    case True
    then show ?thesis using d by (simp add: Peek_def Let_def m pos_def [symmetric] slice_def sp)
  next
    case False
    then have f: "?f < m" using d(2) by linarith
    then have f: "?f < m" "min m ?f = ?f" by simp_all
    have "copy_at (go_copy (replicate m 0) (drop (pos b) (buf b))) ?f (slice (buf b) 0 (m - ?f)) =
        drop (pos b) (buf b) @ take (m - ?f) (buf b)"
      using f(1) mL by (simp add: copy_at_def go_copy_def slice_def)
    with False d f show ?thesis
      by (simp add: Peek_def Let_def m pos_def [symmetric] sp)
  qed
qed

lemma wr_pos:
  assumes inv: "ring_inv b" and ne: "buf b \<noteq> []"
  shows "unat (wr b AND msk b) =
    (if pos b + cnt b < length (buf b) then pos b + cnt b else pos b + cnt b - length (buf b))"
  unfolding wr_off [OF assms] by (rule wrap_add_mod) (use assms pos_less ring_inv_cnt_le in auto)

lemma PeekSegments_ok:
  assumes inv: "ring_inv b"
  shows "fst (PeekSegments b) @ snd (PeekSegments b) = contents b"
proof (cases "rd b = wr b")
  case True
  then show ?thesis by (simp add: PeekSegments_def contents_empty)
next
  case False
  note ne = cnt_pos_nonempty [OF inv False] and cL = ring_inv_cnt_le [OF inv]
  let ?L = "length (buf b)" and ?e = "unat (wr b AND msk b)"
  have p: "pos b < ?L" using ne by (intro pos_less inv) simp
  have c: "contents b = take (cnt b) (drop (pos b) (buf b)) @ take (cnt b - (?L - pos b)) (buf b)"
    using contents_split [OF inv _ order_refl] ne inv by simp
  note e = wr_pos [OF inv conjunct1 [OF ne]]
  show ?thesis
  proof (cases "pos b + cnt b < ?L")
    case True
    then show ?thesis using e False ne
      by (simp add: PeekSegments_def Let_def pos_def [symmetric] c slice_def)
  next
    case F: False
    then have "?e = cnt b - (?L - pos b)" "\<not> pos b < ?e" using e p cL by simp_all
    then show ?thesis using F False
      by (simp add: PeekSegments_def Let_def pos_def [symmetric] c)
  qed
qed

lemma ReadableSegments_ok:
  assumes inv: "ring_inv b"
  shows "fst (ReadableSegments b n) @ snd (ReadableSegments b n) = take (nat n) (contents b)"
proof (cases "n \<le> 0 \<or> Len b = 0")
  case True
  then show ?thesis using inv by (auto simp: ReadableSegments_def Let_def Len_eq contents_def)
next
  case False
  then have d: "rd b \<noteq> wr b" using inv by (simp add: Len_eq cnt_0_iff)
  note ne = cnt_pos_nonempty [OF inv d] and cL = ring_inv_cnt_le [OF inv]
  define m where "m = min (nat n) (cnt b)"
  have "0 \<le> n" using False by simp
  then have m: "min n (Len b) = int m" by (simp add: Len_eq [OF inv] m_def)
  have mc: "m \<le> cnt b" by (simp add: m_def)
  let ?L = "length (buf b)" and ?e = "unat (wr b AND msk b)"
  have p: "pos b < ?L" using ne by (intro pos_less inv) simp
  have "take (nat n) (contents b) = take m (contents b)" using inv by (simp add: m_def min_def)
  also have "\<dots> = take m (drop (pos b) (buf b)) @ take (m - (?L - pos b)) (buf b)"
    using ne by (intro contents_split inv mc) simp
  finally have c: "take (nat n) (contents b) = \<dots>" .
  note e = wr_pos [OF inv conjunct1 [OF ne]]
  show ?thesis
  proof (cases "m \<le> ?L - pos b")
    case True
    then show ?thesis unfolding c using False
      by (simp add: ReadableSegments_def Let_def pos_def [symmetric] slice_def m)
  next
    case F: False
    then have "?L < pos b + cnt b" using mc p by linarith
    then have "?e = cnt b - (?L - pos b)" using e p by simp
    with F have "?e = cnt b - (?L - pos b)" "\<not> pos b < ?e" "min (m - (?L - pos b)) ?e = m - (?L - pos b)" "0 < ?e"
      using p cL mc by simp_all
    then show ?thesis unfolding c using F False
      by (simp add: ReadableSegments_def Let_def pos_def [symmetric] m)
  qed
qed

lemma Discard_ok:
  assumes inv: "ring_inv b" and n: "0 \<le> n"
  shows "ring_inv (Discard b n) \<and> contents (Discard b n) = drop (nat n) (contents b)"
proof -
  define m where "m = min (nat n) (cnt b)"
  have m: "min n (Len b) = int m" using n by (simp add: Len_eq [OF inv] m_def)
  let ?b = "if 0 < int m then b\<lparr>hasUnread := False\<rparr> else b"
  have i: "ring_inv ?b" "cnt ?b = cnt b" "contents ?b = contents b" using inv by simp_all
  have "m \<le> cnt ?b" using i by (simp add: m_def)
  from advance_read [OF i(1) this] have "ring_inv (?b\<lparr>rd := rd ?b + of_nat m\<rparr>)"
      "contents (?b\<lparr>rd := rd ?b + of_nat m\<rparr>) = drop m (contents b)"
    using i by simp_all
  moreover have "Discard b n = normalise (?b\<lparr>rd := rd ?b + of_nat m\<rparr>)"
    unfolding Discard_def m Let_def by simp
  moreover have "drop m (contents b) = drop (nat n) (contents b)" using inv by (simp add: m_def min_def)
  ultimately show ?thesis using normalise_ok by metis
qed

lemma CommitRead_ok:
  assumes inv: "ring_inv b" and n: "0 \<le> n" "n \<le> Len b"
  shows "\<exists>b'. CommitRead b n = Inr b' \<and> ring_inv b' \<and> contents b' = drop (nat n) (contents b)"
proof -
  have m: "nat n \<le> cnt b" using n by (simp add: Len_eq [OF inv])
  have "word_of_int n = (of_nat (nat n) :: u64)" using n by simp
  then have "CommitRead b n = Inr (normalise (b\<lparr>rd := rd b + of_nat (nat n)\<rparr>))"
    using n by (simp add: CommitRead_def)
  then show ?thesis using advance_read [OF inv m] normalise_ok by metis
qed

section \<open>The zero-copy write protocol\<close>

text \<open>What a caller does with the two writable segments: it fills the first, then the second.\<close>

definition fill :: "bytes \<Rightarrow> seg \<times> seg \<Rightarrow> bytes \<Rightarrow> bytes" where
  "fill xs segs d =
     (case segs of ((lo1, hi1), (lo2, hi2)) \<Rightarrow>
        copy_at (copy_at xs lo1 (take (hi1 - lo1) d)) lo2 (drop (hi1 - lo1) d))"

definition seg_bytes :: "seg \<times> seg \<Rightarrow> nat" where
  "seg_bytes segs = (case segs of ((lo1, hi1), (lo2, hi2)) \<Rightarrow> (hi1 - lo1) + (hi2 - lo2))"

definition segs_of :: "ring \<Rightarrow> seg \<times> seg" where
  "segs_of b = (let free = Free b; cap = length (buf b);
       wStart = unat (wr b AND msk b); rStart = unat (rd b AND msk b)
     in if free = 0 then ((0, 0), (0, 0))
        else if rd b = wr b then ((0, nat free), (0, 0))
        else if wStart < rStart then ((wStart, rStart), (0, 0))
        else ((wStart, cap), if rStart > 0 then (0, rStart) else (0, 0)))"

lemma WritableSegments_eq: "WritableSegments b need = map_option (\<lambda>b. (segs_of b, b)) (grow b need)"
  by (auto simp: WritableSegments_def segs_of_def Let_def split: option.splits)

lemma go_copy_Nil [simp]: "go_copy xs [] = xs"
  by (simp add: go_copy_def)

lemma copy_at_Nil [simp]: "copy_at xs q [] = xs"
  by (simp add: copy_at_def)

lemma circ_write_short: "length d \<le> length xs - q \<Longrightarrow> circ_write xs q d = copy_at xs q d"
  by (simp add: circ_write_def)

lemma copy_at_0: "copy_at xs 0 d = go_copy xs d"
  by (simp add: copy_at_def)

lemma copy_at_take: "copy_at xs q (take (length xs - q) d) = copy_at xs q d"
  by (cases "length d \<le> length xs - q") (simp_all add: copy_at_def go_copy_def min_def)

text \<open>
  The segments cover the free space, and filling them in order writes at the write position,
  provided an empty buffer has been put back to offset 0.
\<close>

lemma segs_of_ok:
  assumes inv: "ring_inv b" and norm: "rd b = wr b \<Longrightarrow> pos b = 0"
  shows "seg_bytes (segs_of b) = length (buf b) - cnt b \<and>
    (length d \<le> length (buf b) - cnt b \<longrightarrow>
      fill (buf b) (segs_of b) d = circ_write (buf b) (unat (wr b AND msk b)) d)"
proof -
  let ?L = "length (buf b)" and ?w = "unat (wr b AND msk b)"
  have free: "Free b = int (?L - cnt b)"
    using inv ring_inv_cnt_le [OF inv] by (simp add: Free_def Cap_def Len_eq of_nat_diff)
  consider (full) "?L = cnt b" | (empty) "cnt b < ?L" "rd b = wr b"
    | (mid) "cnt b < ?L" "rd b \<noteq> wr b" "?w < pos b" | (split) "cnt b < ?L" "rd b \<noteq> wr b" "pos b \<le> ?w"
    using ring_inv_cnt_le [OF inv] by linarith
  then show ?thesis
  proof cases
    case full
    then have "segs_of b = ((0, 0), (0, 0))" using free by (simp add: segs_of_def)
    with full show ?thesis by (simp add: fill_def seg_bytes_def circ_write_short)
  next
    case empty
    then have "pos b = 0" "?w = 0" "cnt b = 0" using norm by (simp_all add: pos_def cnt_def)
    moreover have "segs_of b = ((0, ?L), (0, 0))" using empty free calculation by (simp add: segs_of_def)
    ultimately show ?thesis by (simp add: fill_def seg_bytes_def circ_write_short)
  next
    case mid
    then have ne: "buf b \<noteq> []" by auto
    have sg: "segs_of b = ((?w, pos b), (0, 0))"
      using mid free by (simp add: segs_of_def Let_def pos_def)
    have "pos b - ?w = ?L - cnt b"
      using mid wr_pos [OF inv ne] pos_less [OF inv ne] by (simp split: if_splits)
    moreover have "?L - cnt b \<le> ?L - ?w" using mid pos_less [OF inv ne] calculation by linarith
    ultimately show ?thesis by (simp add: sg fill_def seg_bytes_def circ_write_short)
  next
    case split
    then have ne: "buf b \<noteq> []" by auto
    have sg: "segs_of b = ((?w, ?L), (0, pos b))"
      using split free by (simp add: segs_of_def Let_def pos_def)
    have w: "?w = pos b + cnt b" "?w < ?L"
      using split wr_pos [OF inv ne] by (simp_all split: if_splits)
    have "fill (buf b) (segs_of b) d = circ_write (buf b) ?w d"
      by (simp add: sg fill_def circ_write_def copy_at_0 copy_at_take)
    then show ?thesis using w by (simp add: sg seg_bytes_def)
  qed
qed

lemma CommitWrite_ok:
  assumes inv: "ring_inv b" and norm: "rd b = wr b \<Longrightarrow> pos b = 0" and d: "length d \<le> seg_bytes (segs_of b)"
  shows "\<exists>b'. CommitWrite (b\<lparr>buf := fill (buf b) (segs_of b) d\<rparr>) (int (length d)) = Inr b' \<and>
    ring_inv b' \<and> contents b' = contents b @ d"
proof -
  note sg = segs_of_ok [OF inv norm, of d]
  have l: "length d \<le> length (buf b) - cnt b" using sg d by simp
  then have f: "fill (buf b) (segs_of b) d = circ_write (buf b) (unat (wr b AND msk b)) d" using sg by simp
  let ?b = "b\<lparr>buf := circ_write (buf b) (unat (wr b AND msk b)) d\<rparr>"
  have "Free ?b = int (length (buf b)) - int (cnt b)"
    using Len_eq [OF inv] by (simp add: Free_def Cap_def Len_def)
  then have "CommitWrite ?b (int (length d)) = Inr (?b\<lparr>wr := wr b + of_nat (length d)\<rparr>)"
    using l ring_inv_cnt_le [OF inv] by (simp add: CommitWrite_def of_nat_diff)
  moreover have "cnt b + length d \<le> length (buf b)" using l ring_inv_cnt_le [OF inv] by linarith
  ultimately show ?thesis using append_write [OF inv] unfolding f by auto
qed

section \<open>Writers and readers\<close>

text \<open>
  The contract of \<open>io.Writer\<close>: a prefix of what is offered goes to the sink, and a short write
  reports an error. \<open>ok s d\<close> says that the writer in state \<open>s\<close> is prepared to take \<open>d\<close>.
\<close>

locale io_writer =
  fixes w :: "('s, 'e) go_writer" and sink :: "'s \<Rightarrow> bytes" and ok :: "'s \<Rightarrow> bytes \<Rightarrow> bool"
  assumes write_law: "\<And>s d d' n e s'. ok s (d @ d') \<Longrightarrow> w s d = ((n, e), s') \<Longrightarrow>
    0 \<le> n \<and> n \<le> int (length d) \<and> sink s' = sink s @ take (nat n) d \<and>
    (n < int (length d) \<longrightarrow> e \<noteq> None) \<and> (e = None \<longrightarrow> ok s' d')"

text \<open>
  The contract of \<open>io.Reader\<close>: the bytes come from the source in order, at most as many as asked
  for; a call without error delivers something; \<open>EOF\<close> means that the source is exhausted.
\<close>

locale io_reader =
  fixes r :: "('s, 'e) go_reader" and rest :: "'s \<Rightarrow> bytes" and ok :: "'s \<Rightarrow> bool"
  assumes read_law: "\<And>s n d e s'. ok s \<Longrightarrow> 0 < n \<Longrightarrow> r s n = ((d, e), s') \<Longrightarrow>
    length d \<le> n \<and> rest s = d @ rest s' \<and> (e = None \<longrightarrow> d \<noteq> []) \<and>
    (e = Some ReadEOF \<longrightarrow> rest s' = []) \<and> ok s'"

context io_writer
begin

lemma WriteTo_step:
  assumes inv: "ring_inv b" and ok: "ok s (d @ d')" and d: "contents b = d @ d'"
    and w: "w s d = ((n, e), s')"
  defines "b' \<equiv> b\<lparr>rd := rd b + word_of_int n\<rparr>"
  shows "0 \<le> n \<and> n \<le> int (length d) \<and> ring_inv b' \<and> contents b' = drop (nat n) (contents b) \<and>
    sink s' = sink s @ take (nat n) (contents b) \<and> (e = None \<longrightarrow> n = int (length d) \<and> ok s' d')"
proof -
  note l = write_law [OF ok w]
  then have n: "word_of_int n = (of_nat (nat n) :: u64)" by simp
  have "length d \<le> cnt b" using d inv length_contents [OF inv] by simp
  then have "nat n \<le> cnt b" using l by linarith
  from advance_read [OF inv this] l show ?thesis
    unfolding b'_def n by (auto simp: d not_less)
qed

lemma WriteTo_ok:
  assumes inv: "ring_inv b" and ok: "ok s (contents b)" and w: "WriteTo b w s = ((n, e), b', s')"
  shows "ring_inv b' \<and> 0 \<le> n \<and> sink s' = sink s @ take (nat n) (contents b) \<and>
    contents b' = drop (nat n) (contents b) \<and> (e = None \<longrightarrow> contents b' = [])"
proof (cases "Len b = 0")
  case True
  with w inv show ?thesis by (auto simp: WriteTo_def Len_eq contents_def)
next
  case False
  then have d: "rd b \<noteq> wr b" using inv by (simp add: Len_eq cnt_0_iff)
  note ne = cnt_pos_nonempty [OF inv d] and cL = ring_inv_cnt_le [OF inv] and Lq = Len_eq [OF inv]
  let ?L = "length (buf b)" and ?f = "length (buf b) - pos b"
  have p: "pos b < ?L" using ne by (intro pos_less inv) simp
  have c: "contents b = take (cnt b) (drop (pos b) (buf b)) @ take (cnt b - ?f) (buf b)"
    using contents_split [OF inv _ order_refl] ne inv by simp
  show ?thesis
  proof (cases "pos b + cnt b \<le> ?L")
    case True
    then have "contents b = slice (buf b) (pos b) (pos b + cnt b) @ []"
      using c by (simp add: slice_def)
    moreover obtain n1 e1 s1 where w1: "w s (slice (buf b) (pos b) (pos b + cnt b)) = ((n1, e1), s1)"
      by (metis surj_pair)
    ultimately show ?thesis
      using WriteTo_step [OF inv _ _ w1, of "[]"] ok w True False
      by (auto simp: WriteTo_def Let_def Lq pos_def [symmetric])
  next
    case F: False
    let ?d1 = "drop (pos b) (buf b)" and ?d2 = "take (cnt b - ?f) (buf b)"
    have c12: "contents b = ?d1 @ ?d2" using c F by simp
    obtain n1 e1 s1 where w1: "w s ?d1 = ((n1, e1), s1)" by (metis surj_pair)
    let ?b1 = "b\<lparr>rd := rd b + word_of_int n1\<rparr>"
    note st = WriteTo_step [OF inv _ c12 w1, folded c12, OF ok]
    show ?thesis
    proof (cases e1)
      case (Some x)
      then show ?thesis using w st w1 F False
        by (auto simp: WriteTo_def Let_def Lq pos_def [symmetric])
    next
      case None
      then have n1: "nat n1 = ?f" and ok1: "ok s1 (?d2 @ [])" using st by simp_all
      have "contents ?b1 = drop ?f (?d1 @ ?d2)" using st n1 c12 by presburger
      then have c1: "contents ?b1 = ?d2 @ []" by simp
      obtain n2 e2 s2 where w2: "w s1 ?d2 = ((n2, e2), s2)" by (metis surj_pair)
      have i1: "ring_inv ?b1" using st by simp
      have "nat (Len ?b1) = cnt b - ?f"
        using Len_eq [OF i1] length_contents [OF i1] c1 cL by simp
      then have r: "n = n1 + n2" "e = e2" "b' = ?b1\<lparr>rd := rd ?b1 + word_of_int n2\<rparr>" "s' = s2"
        using w w1 w2 None F False by (simp_all add: WriteTo_def Let_def Lq pos_def [symmetric])
      note st2 = WriteTo_step [OF i1 ok1 c1 w2]
      have nn: "nat n = nat n1 + nat n2" unfolding r(1) using st st2 by (intro nat_add_distrib) simp_all
      have dr: "drop (nat n1) (contents b) = ?d2" using n1 c12 by simp
      have "take (nat n) (contents b) = take (nat n1) (contents b) @ take (nat n2) ?d2"
        unfolding nn take_add dr ..
      moreover have "drop (nat n) (contents b) = drop (nat n2) ?d2"
        unfolding nn by (metis add.commute drop_drop dr)
      moreover have "contents b' = drop (nat n2) ?d2" "ring_inv b'" unfolding r(3) using st2 c1 by simp_all
      moreover have "e2 = None \<longrightarrow> drop (nat n2) ?d2 = []" using st2 by auto
      moreover have "sink s2 = sink s @ take (nat n1) (contents b) @ take (nat n2) ?d2" "0 \<le> n"
        unfolding r(1) using st st2 c1 by simp_all
      ultimately show ?thesis unfolding r(2,4) by (simp only: simp_thms)
    qed
  qed
qed

end

lemma read_step_ok:
  assumes inv: "ring_inv b" and c: "cnt b + 4096 \<le> 2 ^ 62"
    and r: "\<And>n d e s'. 0 < n \<Longrightarrow> rdr s n = ((d, e), s') \<Longrightarrow> length d \<le> n"
  shows "\<exists>n d e b' s'. read_step b rdr s = Some (d, e, b', s') \<and> 0 < n \<and> rdr s n = ((d, e), s') \<and>
    ring_inv b' \<and> contents b' = contents b @ d \<and> cnt b' = cnt b + length d"
proof -
  obtain b1 where b1: "(if Free b = 0 then grow b 4096 else Some b) = Some b1" "ring_inv b1"
      "contents b1 = contents b" "cnt b1 = cnt b" "cnt b1 < length (buf b1)"
  proof (cases "Free b = 0")
    case True
    have "int (cnt b) + 4096 \<le> 2 ^ 62" using c by simp
    from grow_ok [OF inv this] True that show ?thesis by fastforce
  next
    case False
    then have "cnt b < length (buf b)"
      using ring_inv_cnt_le [OF inv] by (simp add: Free_def Cap_def Len_eq [OF inv])
    with False inv show ?thesis by (intro that [of b]) simp_all
  qed
  then have ne: "buf b1 \<noteq> []" by auto
  let ?q = "unat (wr b1 AND msk b1)"
  let ?n = "min (?q + nat (Free b1)) (length (buf b1)) - ?q"
  have q: "?q < length (buf b1)" unfolding wr_off [OF b1(2) ne] using ne by simp
  have free: "nat (Free b1) = length (buf b1) - cnt b1"
    by (simp add: Free_def Cap_def Len_eq [OF b1(2)])
  have n: "0 < ?n" using q b1(5) free by simp
  obtain d e s' where r1: "rdr s ?n = ((d, e), s')" by (metis surj_pair)
  note l = r [OF n r1]
  have "length d \<le> length (buf b1) - ?q" and k: "cnt b1 + length d \<le> length (buf b1)"
    using l free b1(5) by linarith+
  note app = append_write [OF b1(2) k, unfolded circ_write_short [OF this(1)]]
  show ?thesis
    using app b1(3,4) r1 n by (intro exI [of _ ?n]) (auto simp: read_step_def b1(1) Let_def)
qed

context io_reader
begin

lemma ReadFrom_loop_ok:
  assumes "ring_inv b" "ok s" "cnt b + length (rest s) + 4096 \<le> 2 ^ 62"
  shows "\<exists>d e b' s'. ReadFrom_loop r b s t = Some ((t + int (length d), e), b', s') \<and>
    rest s = d @ rest s' \<and> ring_inv b' \<and> contents b' = contents b @ d \<and> (e = None \<longrightarrow> rest s' = [])"
  using assms
proof (induction "length (rest s)" arbitrary: b s t rule: less_induct)
  case less
  have "cnt b + 4096 \<le> 2 ^ 62" using less.prems(3) by linarith
  from read_step_ok [OF less.prems(1) this, of r s] read_law [OF less.prems(2)]
  obtain n d e b1 s1 where st: "read_step b r s = Some (d, e, b1, s1)" "0 < n" "r s n = ((d, e), s1)"
      "ring_inv b1" "contents b1 = contents b @ d" "cnt b1 = cnt b + length d"
    by blast
  note law = read_law [OF less.prems(2) st(2,3)]
  show ?case
  proof (cases e)
    case None
    then have "length (rest s1) < length (rest s)" using law by simp
    moreover have "cnt b1 + length (rest s1) + 4096 \<le> 2 ^ 62" using less.prems(3) law st(6) by simp
    ultimately obtain d2 e2 b2 s2 where
      "ReadFrom_loop r b1 s1 (t + int (length d)) = Some ((t + int (length d) + int (length d2), e2), b2, s2)"
      "rest s1 = d2 @ rest s2" "ring_inv b2" "contents b2 = contents b1 @ d2" "e2 = None \<longrightarrow> rest s2 = []"
      using less.hyps [of s1 b1 "t + int (length d)"] st(4) law by blast
    then show ?thesis using None law st
      by (intro exI [of _ "d @ d2"]) (simp add: ReadFrom_loop.simps add.assoc)
  next
    case (Some x)
    then show ?thesis using law st
      by (cases x) (auto simp: ReadFrom_loop.simps [of _ b])
  qed
qed

end

section \<open>The buffer as a queue, a writer and a reader\<close>

definition ring_enq :: "byte \<Rightarrow> ring \<Rightarrow> ring option" where
  "ring_enq c b = (if Len b < 2 ^ 62 then WriteByte b c else None)"

definition ring_deq :: "ring \<Rightarrow> (byte \<times> ring) option" where
  "ring_deq b = (case ReadByte b of (Inl _, _) \<Rightarrow> None | (Inr c, b') \<Rightarrow> Some (c, b'))"

lemma WriteByte_ok:
  assumes inv: "ring_inv b" and n: "cnt b < 2 ^ 62"
  shows "\<exists>b'. WriteByte b c = Some b' \<and> ring_inv b' \<and> contents b' = contents b @ [c]"
  using Write_ok [OF inv, of "[c]"] n by (auto simp: WriteByte_eq_Write [OF inv n])

interpretation ring_q: fifo ring_inv contents ring_enq ring_deq
proof unfold_locales
  fix b c b' assume inv: "ring_inv b" and e: "ring_enq c b = Some b'"
  then have "cnt b < 2 ^ 62" by (simp add: ring_enq_def Len_eq split: if_splits)
  with WriteByte_ok [OF inv, of c] e inv show "ring_inv b' \<and> contents b' = contents b @ [c]"
    by (auto simp: ring_enq_def split: if_splits)
next
  fix b assume "ring_inv b"
  from ReadByte_ok [OF this] show "ring_deq b = None \<longleftrightarrow> contents b = []"
    by (auto simp: ring_deq_def split: list.splits prod.splits sum.splits)
next
  fix b c b' assume "ring_inv b" "ring_deq b = Some (c, b')"
  with ReadByte_ok [OF this(1)] show "ring_inv b' \<and> contents b = c # contents b'"
    by (auto simp: ring_deq_def split: list.splits prod.splits sum.splits)
qed

text \<open>\<open>Buffer\<close> implements \<open>io.Writer\<close> and \<open>io.Reader\<close> itself.\<close>

definition ring_writer :: "(ring, unit) go_writer" where
  "ring_writer b d = (case Write b d of None \<Rightarrow> ((0, Some ()), b) | Some (n, b') \<Rightarrow> ((n, None), b'))"

definition ring_reader :: "(ring, unit) go_reader" where
  "ring_reader b n =
     (case Read b (replicate n 0) of
        (Inl _, b') \<Rightarrow> (([], Some ReadEOF), b')
      | (Inr (k, p), b') \<Rightarrow> ((take (nat k) p, None), b'))"

interpretation ring_w: io_writer ring_writer contents "\<lambda>b d. ring_inv b \<and> cnt b + length d \<le> 2 ^ 62"
proof unfold_locales
  fix b d d' n e b'
  assume ok: "ring_inv b \<and> cnt b + length (d @ d') \<le> 2 ^ 62" and w: "ring_writer b d = ((n, e), b')"
  then have "cnt b + length d \<le> 2 ^ 62" by simp
  from Write_ok [OF conjunct1 [OF ok] this] w
  have "n = int (length d)" "e = None" "ring_inv b'" "contents b' = contents b @ d"
    by (auto simp: ring_writer_def)
  moreover have "cnt b' = cnt b + length d"
    using calculation length_contents [of b'] ok by simp
  ultimately show "0 \<le> n \<and> n \<le> int (length d) \<and> contents b' = contents b @ take (nat n) d \<and>
      (n < int (length d) \<longrightarrow> e \<noteq> None) \<and>
      (e = None \<longrightarrow> ring_inv b' \<and> cnt b' + length d' \<le> 2 ^ 62)"
    using ok by simp
qed

interpretation ring_r: io_reader ring_reader contents ring_inv
proof unfold_locales
  fix b n d e b'
  assume inv: "ring_inv b" and n: "0 < (n :: nat)" and r: "ring_reader b n = ((d, e), b')"
  show "length d \<le> n \<and> contents b = d @ contents b' \<and> (e = None \<longrightarrow> d \<noteq> []) \<and>
      (e = Some ReadEOF \<longrightarrow> contents b' = []) \<and> ring_inv b'"
  proof (cases "contents b = []")
    case True
    then have "Read b (replicate n 0) = (Inl EOF, b)"
      using inv by (simp add: Read_def Len_eq cnt_0_iff contents_Nil_iff)
    with r inv True show ?thesis by (auto simp: ring_reader_def)
  next
    case False
    let ?m = "min n (length (contents b))"
    obtain b1 where "Read b (replicate n 0) = (Inr (int ?m, take ?m (contents b) @ drop ?m (replicate n 0)), b1)"
        and b1: "ring_inv b1" "contents b1 = drop n (contents b)"
      using Read_ok [OF inv False, of "replicate n 0"] by (auto simp: Let_def)
    with r have "d = take ?m (contents b)" "e = None" "b' = b1"
      by (auto simp: ring_reader_def min_def)
    moreover have "take ?m (contents b) = take n (contents b)" by (simp add: min_def)
    ultimately show ?thesis using b1 False n by simp
  qed
qed

section \<open>Properties\<close>

text \<open>A buffer of four bytes whose data wraps around, for the concrete instances below.\<close>

definition wrapped :: ring where
  "wrapped = \<lparr>buf = [2, 3, 9, 1], rd = 3, wr = 6, msk = 3, readPrev = 0, hasUnread = False\<rparr>"

lemma wrapped_ok: "ring_inv wrapped" "contents wrapped = [1, 2, 3]"
proof -
  show "ring_inv wrapped"
    unfolding ring_inv_def by (intro disjI2 exI [of _ 2]) (simp add: wrapped_def)
  show "contents wrapped = [1, 2, 3]" by code_simp
qed

text \<open>
  C20. \<open>Write\<close> appends its bytes to the readable contents and returns their number, growing the
  buffer when they do not fit, from any state of the two positions (a wrapped buffer and positions
  that have overflowed their 64 bits included); it returns as long as the contents stay within
  \<open>2 ^ 62\<close> bytes. \<open>WriteByte\<close> is \<open>Write\<close> of one byte.
\<close>

theorem Write_appends:
  assumes "ring_inv b" and "length (contents b) + length p \<le> 2 ^ 62"
  shows "\<exists>b'. Write b p = Some (int (length p), b') \<and> ring_inv b' \<and> contents b' = contents b @ p \<and>
    (\<forall>c. p = [c] \<longrightarrow> WriteByte b c = Some b')"
proof -
  from assms obtain b' where b': "Write b p = Some (int (length p), b')" "ring_inv b'" "contents b' = contents b @ p"
    using Write_ok [of b p] by auto
  moreover have "WriteByte b c = Some b'" if "p = [c]" for c
    using b' that WriteByte_eq_Write [of b c] assms by simp
  ultimately show ?thesis by blast
qed

theorem Write_appends_witness:
  "ring_inv wrapped \<and> length (contents wrapped) + length [7, 8 :: byte] \<le> 2 ^ 62 \<and>
   (\<exists>b'. Write wrapped [7, 8] = Some (2, b') \<and> ring_inv b' \<and> contents b' = [1, 2, 3, 7, 8])"
  using Write_appends [of wrapped "[7, 8]"] wrapped_ok by auto

text \<open>
  C21. Every consuming operation removes exactly a prefix of the contents and hands out that prefix:
  \<open>Read\<close> fills the caller's slice with the first bytes and leaves the rest, \<open>Discard\<close> and
  \<open>CommitRead\<close> drop their count, \<open>ReadByte\<close> returns the first byte (\<open>EOF\<close> on an empty
  buffer), and \<open>UnreadByte\<close> right after it restores the contents.
\<close>

theorem consuming_operations:
  assumes "ring_inv b" and "0 \<le> n"
  shows "(case contents b of
       [] \<Rightarrow> Read b p = (Inl EOF, b) \<and> fst (ReadByte b) = Inl EOF
     | c # cs \<Rightarrow>
         (\<exists>b'. Read b p = (let m = min (length p) (length (contents b))
             in (Inr (int m, take m (contents b) @ drop m p), b')) \<and>
           ring_inv b' \<and> contents b' = drop (length p) (contents b)) \<and>
         fst (ReadByte b) = Inr c \<and> contents (snd (ReadByte b)) = cs \<and> ring_inv (snd (ReadByte b)) \<and>
         contents (snd (UnreadByte (snd (ReadByte b)))) = contents b) \<and>
    ring_inv (Discard b n) \<and> contents (Discard b n) = drop (nat n) (contents b) \<and>
    (CommitRead b n = Inl Panic \<longleftrightarrow> Len b < n) \<and>
    (n \<le> Len b \<longrightarrow> (\<exists>b'. CommitRead b n = Inr b' \<and> ring_inv b' \<and> contents b' = drop (nat n) (contents b)))"
proof (intro conjI impI)
  have "Read b p = (Inl EOF, b)" if "contents b = []"
    using assms that by (simp add: Read_def Len_eq cnt_0_iff contents_Nil_iff)
  then show "case contents b of
       [] \<Rightarrow> Read b p = (Inl EOF, b) \<and> fst (ReadByte b) = Inl EOF
     | c # cs \<Rightarrow>
         (\<exists>b'. Read b p = (let m = min (length p) (length (contents b))
             in (Inr (int m, take m (contents b) @ drop m p), b')) \<and>
           ring_inv b' \<and> contents b' = drop (length p) (contents b)) \<and>
         fst (ReadByte b) = Inr c \<and> contents (snd (ReadByte b)) = cs \<and> ring_inv (snd (ReadByte b)) \<and>
         contents (snd (UnreadByte (snd (ReadByte b)))) = contents b"
    using Read_ok [OF assms(1), of p] ReadByte_ok [OF assms(1)] UnreadByte_ok [OF assms(1)]
    by (auto split: list.splits)
  show "CommitRead b n = Inl Panic \<longleftrightarrow> Len b < n" using assms(2) by (simp add: CommitRead_def)
qed (use assms Discard_ok CommitRead_ok in auto)

theorem consuming_operations_witness:
  "ring_inv wrapped \<and> (0 :: int) \<le> 2 \<and> contents (Discard wrapped 2) = [3] \<and> fst (ReadByte wrapped) = Inr 1"
  using consuming_operations [of wrapped 2 "[]"] wrapped_ok by simp

text \<open>
  The views of the readable data do not consume and show it in order: \<open>Peek\<close> is its prefix,
  the two segments of \<open>PeekSegments\<close> concatenate to all of it and those of \<open>ReadableSegments\<close>
  to its first \<open>n\<close> bytes.
\<close>

theorem readable_views:
  assumes "ring_inv b" and "0 \<le> n"
  shows "Peek b n = Inr (take (nat n) (contents b)) \<and>
    fst (PeekSegments b) @ snd (PeekSegments b) = contents b \<and>
    fst (ReadableSegments b n) @ snd (ReadableSegments b n) = take (nat n) (contents b)"
  using assms by (simp add: Peek_ok PeekSegments_ok ReadableSegments_ok)

theorem readable_views_witness:
  "ring_inv wrapped \<and> (0 :: int) \<le> 2 \<and> Peek wrapped 2 = Inr [1, 2] \<and>
   fst (ReadableSegments wrapped 2) @ snd (ReadableSegments wrapped 2) = [1, 2]"
  using readable_views [of wrapped 2] wrapped_ok by simp

text \<open>
  Over any history of \<open>WriteByte\<close> and \<open>ReadByte\<close> calls the bytes come out in the order
  they went in: what was read, followed by what is left, is what was there followed by what was
  written.
\<close>

theorem byte_history:
  assumes "ring_inv b" and "qrun ring_enq ring_deq ops b = (ins, outs, b')"
  shows "ring_inv b' \<and> contents b @ ins = outs @ contents b'"
  using assms by (rule ring_q.history)

theorem byte_history_witness:
  "ring_inv wrapped \<and> (\<exists>b'. qrun ring_enq ring_deq [Deq, Enq 5, Enq 6, Deq] wrapped = ([5, 6], [1, 2], b') \<and>
     contents b' = [3, 5, 6])"
proof -
  let ?r = "qrun ring_enq ring_deq [Deq, Enq 5, Enq 6, Deq] wrapped"
  have r: "?r = ([5, 6], [1, 2], snd (snd ?r))"
    by (intro prod_eqI) (simp_all, code_simp+)
  from byte_history [OF wrapped_ok(1) r] r wrapped_ok show ?thesis by auto
qed

text \<open>
  The zero-copy write protocol: when \<open>WritableSegments(need)\<close> returns, its two segments
  have at least \<open>need\<close> bytes together, and filling them in order with \<open>d\<close> and committing
  \<open>length d\<close> appends exactly \<open>d\<close>. It needs that an empty buffer stands at offset 0, as every
  consuming operation but \<open>WriteTo\<close> leaves it.
\<close>

theorem zero_copy_write:
  assumes "ring_inv b" and "rd b = wr b \<longrightarrow> rd b AND msk b = 0" and "Len b + need \<le> 2 ^ 62"
  shows "\<exists>segs b1. WritableSegments b need = Some (segs, b1) \<and> need \<le> int (seg_bytes segs) \<and>
    (\<forall>d. length d \<le> seg_bytes segs \<longrightarrow>
      (\<exists>b2. CommitWrite (b1\<lparr>buf := fill (buf b1) segs d\<rparr>) (int (length d)) = Inr b2 \<and>
         ring_inv b2 \<and> contents b2 = contents b @ d))"
proof -
  have "int (cnt b) + need \<le> 2 ^ 62" using assms by (simp add: Len_eq)
  from grow_ok [OF assms(1) this]
  obtain b1 where b1: "grow b need = Some b1" "ring_inv b1" "contents b1 = contents b" "cnt b1 = cnt b"
      "need \<le> int (length (buf b1)) - int (cnt b)"
    by blast
  have "b1 = b \<or> rd b1 = 0"
    using b1(1) by (auto simp: grow_def Let_def split: if_splits option.splits)
  then have norm: "rd b1 = wr b1 \<Longrightarrow> pos b1 = 0" using assms(2) by (auto simp: pos_def)
  have "need \<le> int (seg_bytes (segs_of b1))"
    using segs_of_ok [OF b1(2) norm, of "[]"] b1(4,5) ring_inv_cnt_le [OF b1(2)] by (simp add: of_nat_diff)
  moreover have "\<forall>d. length d \<le> seg_bytes (segs_of b1) \<longrightarrow>
      (\<exists>b2. CommitWrite (b1\<lparr>buf := fill (buf b1) (segs_of b1) d\<rparr>) (int (length d)) = Inr b2 \<and>
         ring_inv b2 \<and> contents b2 = contents b @ d)"
    using CommitWrite_ok [OF b1(2) norm] b1(3) by simp
  ultimately show ?thesis by (auto simp: WritableSegments_eq b1(1))
qed

theorem zero_copy_write_witness:
  "ring_inv wrapped \<and> rd wrapped \<noteq> wr wrapped \<and> Len wrapped + 3 \<le> 2 ^ 62 \<and>
   (\<exists>segs b1 b2. WritableSegments wrapped 3 = Some (segs, b1) \<and>
     CommitWrite (b1\<lparr>buf := fill (buf b1) segs [4, 5, 6]\<rparr>) 3 = Inr b2 \<and> contents b2 = [1, 2, 3, 4, 5, 6])"
proof -
  have h: "rd wrapped = wr wrapped \<longrightarrow> rd wrapped AND msk wrapped = 0" "Len wrapped + 3 \<le> 2 ^ 62"
    by (simp_all add: wrapped_def Len_def)
  have d: "rd wrapped \<noteq> wr wrapped" by (simp add: wrapped_def)
  from zero_copy_write [OF wrapped_ok(1) h]
  obtain segs b1 where s: "WritableSegments wrapped 3 = Some (segs, b1)" "3 \<le> int (seg_bytes segs)"
    "\<forall>d. length d \<le> seg_bytes segs \<longrightarrow>
      (\<exists>b2. CommitWrite (b1\<lparr>buf := fill (buf b1) segs d\<rparr>) (int (length d)) = Inr b2 \<and>
         ring_inv b2 \<and> contents b2 = contents wrapped @ d)"
    by blast
  then have "length [4, 5, 6 :: byte] \<le> seg_bytes segs" by simp
  from s(3) [rule_format, OF this] s(1) h d wrapped_ok show ?thesis by auto
qed

text \<open>
  \<open>WriteTo\<close> neither loses nor repeats a byte, whatever the writer does within the contract
  of \<open>io.Writer\<close>: the count it returns is the length of the prefix that reached the sink, exactly
  the rest stays in the buffer, and without an error nothing stays.
\<close>

theorem WriteTo_conserves:
  assumes "io_writer w sink ok" and "ring_inv b" and "ok s (contents b)" and "WriteTo b w s = ((n, e), b', s')"
  shows "ring_inv b' \<and> 0 \<le> n \<and> sink s' = sink s @ take (nat n) (contents b) \<and>
    contents b' = drop (nat n) (contents b) \<and> (e = None \<longrightarrow> contents b' = [])"
  by (rule io_writer.WriteTo_ok [OF assms])

theorem WriteTo_conserves_witness:
  "io_writer ring_writer contents (\<lambda>b d. ring_inv b \<and> cnt b + length d \<le> 2 ^ 62) \<and> ring_inv wrapped \<and>
   (\<exists>e b' s'. WriteTo wrapped ring_writer wrapped = ((3, e), b', s') \<and>
     contents s' = [1, 2, 3, 1, 2, 3] \<and> contents b' = [])"
proof -
  let ?r = "WriteTo wrapped ring_writer wrapped"
  obtain n e b' s' where r: "?r = ((n, e), b', s')" by (metis surj_pair)
  have "fst (fst ?r) = 3" by code_simp
  then have n: "n = 3" using r by simp
  have "cnt wrapped + length (contents wrapped) \<le> 2 ^ 62"
    by (simp add: wrapped_ok) (simp add: wrapped_def cnt_def)
  then have "ring_inv wrapped \<and> cnt wrapped + length (contents wrapped) \<le> 2 ^ 62" using wrapped_ok by simp
  from WriteTo_conserves [OF ring_w.io_writer_axioms wrapped_ok(1) this r] n r
  show ?thesis using wrapped_ok ring_w.io_writer_axioms by auto
qed

text \<open>
  C22. \<open>ReadFrom\<close> returns on every reader that obeys \<open>io.Reader\<close>'s contract and makes progress,
  and appends exactly the bytes the reader delivered, growing as needed; it stops with a nil error
  only at the end of the source. (The contents must stay below \<open>2 ^ 62\<close> bytes.)
\<close>

theorem ReadFrom_appends:
  assumes "io_reader r rest ok" and "ring_inv b" and "ok s"
    and "length (contents b) + length (rest s) + 4096 \<le> 2 ^ 62"
  shows "\<exists>d e b' s'. ReadFrom b r s = Some ((int (length d), e), b', s') \<and> rest s = d @ rest s' \<and>
    ring_inv b' \<and> contents b' = contents b @ d \<and> (e = None \<longrightarrow> rest s' = [])"
  using io_reader.ReadFrom_loop_ok [OF assms(1-3), of 0] assms by (simp add: ReadFrom_def)

theorem ReadFrom_appends_witness:
  "io_reader ring_reader contents ring_inv \<and> ring_inv wrapped \<and>
   length (contents wrapped) + length (contents wrapped) + 4096 \<le> 2 ^ 62 \<and>
   (\<exists>d e b' s'. ReadFrom wrapped ring_reader wrapped = Some ((int (length d), e), b', s') \<and>
     contents b' = [1, 2, 3] @ d)"
  using ReadFrom_appends [OF ring_r.io_reader_axioms wrapped_ok(1) wrapped_ok(1)]
    ring_r.io_reader_axioms wrapped_ok by auto

text \<open>
  \<open>UnreadByte\<close> after a zero-copy operation does not restore what was read: neither
  \<open>CommitWrite\<close> nor \<open>CommitRead\<close> clears the rollback point. Reading two bytes and then
  committing three new ones (7, 8, 9) and calling \<open>UnreadByte\<close> reports success and drops the new
  byte 7 instead of bringing back the byte read last.
\<close>

definition stale_unread :: "ring_error option \<times> bytes" where
  "stale_unread =
     (case Write zero_ring [1, 2] of Some (_, b0) \<Rightarrow>
        let b1 = snd (ReadByte (snd (ReadByte b0)))
        in case WritableSegments b1 3 of Some (segs, b2) \<Rightarrow>
             (case CommitWrite (b2\<lparr>buf := fill (buf b2) segs [7, 8, 9]\<rparr>) 3 of Inr b3 \<Rightarrow>
                (case UnreadByte b3 of (e, b4) \<Rightarrow> (e, contents b4))))"

theorem UnreadByte_stale: "stale_unread = (None, [8, 9])"
  by code_simp

text \<open>
  The side condition of the zero-copy write protocol is not an artefact: \<open>WriteTo\<close> leaves an emptied buffer at its old
  offset, \<open>WritableSegments\<close> then hands out the storage from offset 0 although the write position
  is elsewhere, and the byte the caller stored (7) is not the byte that becomes readable (a 0).
\<close>

definition write_after_WriteTo :: "bytes \<times> bytes" where
  "write_after_WriteTo =
     (case Write zero_ring [1] of Some (_, b0) \<Rightarrow>
        (case WriteTo b0 ring_writer zero_ring of (_, b1, sink) \<Rightarrow>
           (case WritableSegments b1 1 of Some (segs, b2) \<Rightarrow>
              (case CommitWrite (b2\<lparr>buf := fill (buf b2) segs [7]\<rparr>) 1 of Inr b3 \<Rightarrow>
                 (contents sink, contents b3)))))"

theorem WritableSegments_after_WriteTo: "write_after_WriteTo = ([1], [0])"
  by code_simp

end
