(* ===== verification/SortedAL.thy ===== *)
theory SortedAL
  imports Main
begin

text \<open>
  Association lists in ascending key order: what a node's children are to the tree. Insertion
  keeps the order, replacement and removal keep the other entries.
\<close>

definition ksorted :: "('k :: linorder \<times> 'a) list \<Rightarrow> bool" where
  "ksorted xs \<longleftrightarrow> sorted_wrt (<) (map fst xs)"

fun kv_ins :: "'k :: linorder \<Rightarrow> 'a \<Rightarrow> ('k \<times> 'a) list \<Rightarrow> ('k \<times> 'a) list" where
  "kv_ins c x [] = [(c, x)]"
| "kv_ins c x ((k, y) # r) = (if c < k then (c, x) # (k, y) # r else (k, y) # kv_ins c x r)"

definition kv_set :: "'k \<Rightarrow> 'a \<Rightarrow> ('k \<times> 'a) list \<Rightarrow> ('k \<times> 'a) list" where
  "kv_set c x xs = map (\<lambda>(k, y). (k, if k = c then x else y)) xs"

definition kv_del :: "'k \<Rightarrow> ('k \<times> 'a) list \<Rightarrow> ('k \<times> 'a) list" where
  "kv_del c xs = filter (\<lambda>(k, y). k \<noteq> c) xs"

lemma ksorted_distinct: "ksorted xs \<Longrightarrow> distinct (map fst xs)"
  by (simp add: ksorted_def strict_sorted_iff)

lemma ksorted_Cons: "ksorted (x # xs) \<longleftrightarrow> (\<forall>y \<in> set xs. fst x < fst y) \<and> ksorted xs"
  by (auto simp: ksorted_def)

lemma ksorted_append:
  "ksorted (xs @ ys) \<longleftrightarrow> ksorted xs \<and> ksorted ys \<and> (\<forall>x \<in> set xs. \<forall>y \<in> set ys. fst x < fst y)"
  by (auto simp: ksorted_def sorted_wrt_append)

lemma length_kv_set [simp]: "length (kv_set c x xs) = length xs"
  by (simp add: kv_set_def)

lemma length_kv_ins [simp]: "length (kv_ins c x xs) = Suc (length xs)"
  by (induction c x xs rule: kv_ins.induct) auto

lemma set_kv_ins: "set (kv_ins c x xs) = insert (c, x) (set xs)"
  by (induction c x xs rule: kv_ins.induct) auto

lemma map_fst_kv_set [simp]: "map fst (kv_set c x xs) = map fst xs"
  by (auto simp: kv_set_def)

lemma ksorted_kv_set [simp]: "ksorted (kv_set c x xs) = ksorted xs"
  by (simp add: ksorted_def)

lemma ksorted_kv_ins: "ksorted xs \<Longrightarrow> c \<notin> fst ` set xs \<Longrightarrow> ksorted (kv_ins c x xs)"
proof (induction c x xs rule: kv_ins.induct)
  case (2 c x k y r)
  then show ?case by (cases "c < k") (force simp: ksorted_Cons set_kv_ins not_less le_less)+
qed (simp add: ksorted_def)

lemma ksorted_filter: "ksorted xs \<Longrightarrow> ksorted (filter P xs)"
  by (induction xs) (auto simp: ksorted_Cons)

lemma ksorted_kv_del: "ksorted xs \<Longrightarrow> ksorted (kv_del c xs)"
  unfolding kv_del_def by (rule ksorted_filter)

lemma map_of_kv_ins: "c \<notin> fst ` set xs \<Longrightarrow> map_of (kv_ins c x xs) = (map_of xs)(c \<mapsto> x)"
  by (induction c x xs rule: kv_ins.induct) (auto simp: fun_eq_iff)

lemma map_of_kv_set: "map_of (kv_set c x xs) k = (if k = c then map_option (\<lambda>_. x) (map_of xs c) else map_of xs k)"
  by (induction xs) (auto simp: kv_set_def)

lemma map_of_kv_del: "map_of (kv_del c xs) k = (if k = c then None else map_of xs k)"
  by (induction xs) (auto simp: kv_del_def)

lemma kv_ins_split:
  assumes "p \<le> length xs" "\<forall>i < p. \<not> c < fst (xs ! i)" "p < length xs \<longrightarrow> c < fst (xs ! p)"
  shows "kv_ins c x xs = take p xs @ (c, x) # drop p xs"
  using assms
proof (induction xs arbitrary: p)
  case (Cons a xs)
  show ?case
  proof (cases p)
    case 0
    with Cons.prems show ?thesis by (cases a) simp
  next
    case (Suc q)
    have "\<not> c < fst a" using Cons.prems(2) Suc by auto
    moreover have "\<forall>i < q. \<not> c < fst (xs ! i)" using Cons.prems(2) Suc by auto
    moreover have "kv_ins c x xs = take q xs @ (c, x) # drop q xs"
      using Cons.prems Suc calculation by (intro Cons.IH) auto
    ultimately show ?thesis using Suc by (cases a) simp
  qed
qed simp

lemma kv_set_nth:
  assumes "distinct (map fst xs)" "i < length xs" "fst (xs ! i) = c"
  shows "kv_set c x xs = xs[i := (c, x)]"
proof (rule nth_equalityI)
  fix j assume "j < length (kv_set c x xs)"
  then have j: "j < length xs" by simp
  have "fst (xs ! j) = c \<longleftrightarrow> j = i"
    using assms j nth_eq_iff_index_eq [of "map fst xs" j i] by auto
  then show "kv_set c x xs ! j = xs[i := (c, x)] ! j"
    using j assms by (cases "xs ! j") (auto simp: kv_set_def)
qed simp

lemma kv_del_nth:
  assumes "distinct (map fst xs)" "i < length xs" "fst (xs ! i) = c"
  shows "kv_del c xs = take i xs @ drop (Suc i) xs"
proof -
  have s: "xs = take i xs @ xs ! i # drop (Suc i) xs" using assms(2) by (rule id_take_nth_drop)
  then have "c \<notin> fst ` set (take i xs)" "c \<notin> fst ` set (drop (Suc i) xs)"
    using assms by (metis (no_types, lifting) distinct_append distinct.simps(2) map_append list.simps(9)
        list.set_map disjoint_insert(2) list.simps(15))+
  then have "filter (\<lambda>(k, y). k \<noteq> c) (take i xs) = take i xs"
      "filter (\<lambda>(k, y). k \<noteq> c) (drop (Suc i) xs) = drop (Suc i) xs"
    by (force intro!: filter_True)+
  then show ?thesis
    using assms(3) by (subst s) (auto simp: kv_del_def)
qed

text \<open>Sorted association lists with the same map are equal.\<close>

lemma distinct_map_of: "distinct (map fst xs) \<Longrightarrow> xs = map (\<lambda>k. (k, the (map_of xs k))) (map fst xs)"
  by (rule sym) (auto intro!: map_idI)

lemma ksorted_unique:
  assumes "ksorted xs" "ksorted ys" "map_of xs = map_of ys"
  shows "xs = ys"
proof -
  have d: "distinct (map fst xs)" "distinct (map fst ys)" using assms by (auto intro: ksorted_distinct)
  have "set (map fst xs) = set (map fst ys)" using assms(3) by (metis dom_map_of_conv_image_fst list.set_map)
  then have "map fst xs = map fst ys"
    using assms d by (intro sorted_distinct_set_unique) (auto simp: ksorted_def strict_sorted_iff)
  then show ?thesis using distinct_map_of [OF d(1)] distinct_map_of [OF d(2)] assms(3) by simp
qed

lemma length_map_of: "distinct (map fst xs) \<Longrightarrow> length xs = card (dom (map_of xs))"
  by (metis distinct_card dom_map_of_conv_image_fst length_map list.set_map)

section \<open>Go maps\<close>

text \<open>
  A Go map is a list of pairs with distinct keys, \<open>m[k] = v\<close> is \<open>mput\<close>, \<open>delete(m, k)\<close> is \<open>kv_del\<close>
  and \<open>len(m)\<close> the length. No program here depends on the order of a map.
\<close>

definition mput :: "'k \<Rightarrow> 'v \<Rightarrow> ('k \<times> 'v) list \<Rightarrow> ('k \<times> 'v) list" where
  "mput k v m = (k, v) # kv_del k m"

lemma map_of_mput [simp]: "map_of (mput k v m) = (map_of m)(k \<mapsto> v)"
  by (auto simp: mput_def fun_eq_iff map_of_kv_del)

lemma distinct_kv_del: "distinct (map fst m) \<Longrightarrow> distinct (map fst (kv_del k m))"
  unfolding kv_del_def by (rule distinct_map_filter)

lemma distinct_mput: "distinct (map fst m) \<Longrightarrow> distinct (map fst (mput k v m))"
  by (auto simp: mput_def kv_del_def distinct_map_filter)

lemma kv_del_absent: "map_of m k = None \<Longrightarrow> kv_del k m = m"
  by (induction m) (auto simp: kv_del_def split: if_splits)

lemma length_kv_del:
  assumes "distinct (map fst m)"
  shows "length (kv_del k m) = (if map_of m k = None then length m else length m - 1)"
proof -
  have "dom (map_of (kv_del k m)) = dom (map_of m) - {k}" by (auto simp: map_of_kv_del split: if_splits)
  then show ?thesis using length_map_of [OF assms] length_map_of [OF distinct_kv_del [OF assms], of k]
    by (simp add: card_Diff_singleton_if domIff finite_dom_map_of)
qed

lemma length_mput:
  assumes "distinct (map fst m)"
  shows "length (mput k v m) = (if map_of m k = None then length m + 1 else length m)"
proof -
  have "0 < length m" if "map_of m k \<noteq> None" using that by (cases m) auto
  then show ?thesis using length_kv_del [OF assms, of k] by (auto simp: mput_def)
qed

end
