(* ===== verification/ArtNode.thy ===== *)
theory ArtNode
  imports Swar SortedAL "HOL-Library.List_Lexorder"
begin

text \<open>
  Package \<open>art\<close>, the nodes of the adaptive radix tree (src/art/node.go). An inner node has a
  header (compressed prefix, optional leaf) and one of four child containers: sorted arrays of 4 or
  16 (same fields and same loops, so one type models both), an indexed array of 48 with a free-slot
  bitmap, and a direct array of 256 with a presence bitmap. A child is \<open>None\<close> where the code has a
  nil interface. The containers are generic in the type of children; the locale \<open>art_node\<close> states
  what the tree relies on, and it is interpreted on each of the four containers and on their sum.
\<close>

section \<open>Leaf and header\<close>

datatype 'v leaf = MkLeaf (lkey: bytes) (lval: 'v)

datatype 'v inner = Inner (pfx: bytes) (ileaf: "'v leaf option")

definition checkPrefix :: "'v inner \<Rightarrow> bytes \<Rightarrow> nat \<Rightarrow> bool" where
  "checkPrefix hdr key depth =
     (let pfxLen = length (pfx hdr)
      in if pfxLen = 0 then True
         else let end = depth + pfxLen
              in if end > length key then False else slice key depth end = pfx hdr)"

function mismatch_from :: "bytes \<Rightarrow> bytes \<Rightarrow> nat \<Rightarrow> nat \<Rightarrow> nat" where
  "mismatch_from p key depth i =
     (if i < length p then
        if depth + i \<ge> length key \<or> p ! i \<noteq> key ! (depth + i) then i
        else mismatch_from p key depth (i + 1)
      else length p)"
  by pat_completeness auto
termination by (relation "measure (\<lambda>(p, key, depth, i). length p - i)") auto

declare mismatch_from.simps [simp del]

definition prefixMismatch :: "'v inner \<Rightarrow> bytes \<Rightarrow> nat \<Rightarrow> nat" where
  "prefixMismatch hdr key depth = mismatch_from (pfx hdr) key depth 0"

section \<open>Array loops shared by the node types\<close>

text \<open>The position at which \<open>c\<close> is inserted among the first \<open>n\<close> keys.\<close>

definition ins_pos :: "byte \<Rightarrow> bytes \<Rightarrow> nat \<Rightarrow> nat" where
  "ins_pos c ks n = (case find (\<lambda>i. c < ks ! i) [0..<n] of Some i \<Rightarrow> i | None \<Rightarrow> n)"

text \<open>\<open>for i := i; i > pos; i-- { xs[i] = xs[i-1] }\<close>\<close>

fun shift_up :: "'a list \<Rightarrow> nat \<Rightarrow> nat \<Rightarrow> 'a list" where
  "shift_up xs pos 0 = xs"
| "shift_up xs pos (Suc i) = (if pos < Suc i then shift_up (xs[Suc i := xs ! i]) pos i else xs)"

text \<open>\<open>for j := j; j < n; j++ { xs[j] = xs[j+1] }\<close>\<close>

function shift_down :: "'a list \<Rightarrow> nat \<Rightarrow> nat \<Rightarrow> 'a list" where
  "shift_down xs j n = (if j < n then shift_down (xs[j := xs ! (j + 1)]) (j + 1) n else xs)"
  by pat_completeness auto
termination by (relation "measure (\<lambda>(xs, j, n). n - j)") auto

declare shift_down.simps [simp del]

text \<open>The first of the first \<open>n\<close> positions that holds \<open>c\<close>.\<close>

definition key_slot :: "byte \<Rightarrow> bytes \<Rightarrow> nat \<Rightarrow> nat option" where
  "key_slot c ks n = find (\<lambda>i. ks ! i = c) [0..<n]"

text \<open>Reading a children array; out of range, where the code would panic, there is no child.\<close>

definition nth_opt :: "'c option list \<Rightarrow> nat \<Rightarrow> 'c option" where
  "nth_opt xs i = (if i < length xs then xs ! i else None)"

section \<open>node4 and node16\<close>

datatype 'c narr = NArr (num: nat) (keys: bytes) (children: "'c option list")

definition new_narr :: "nat \<Rightarrow> 'c narr" where
  "new_narr cap = NArr 0 (replicate cap 0) (replicate cap None)"

definition findChild4 :: "'c narr \<Rightarrow> byte \<Rightarrow> 'c option" where
  "findChild4 nd c = (case key_slot c (keys nd) (num nd) of Some i \<Rightarrow> nth_opt (children nd) i | None \<Rightarrow> None)"

definition addChild_arr :: "'c narr \<Rightarrow> byte \<Rightarrow> 'c option \<Rightarrow> 'c narr" where
  "addChild_arr nd c child =
     (let n = num nd;
          p = ins_pos c (keys nd) n
      in NArr (n + 1) ((shift_up (keys nd) p n)[p := c]) ((shift_up (children nd) p n)[p := child]))"

definition removeChildAt :: "'c narr \<Rightarrow> nat \<Rightarrow> 'c narr" where
  "removeChildAt nd i =
     (let n = num nd - 1
      in NArr n ((shift_down (keys nd) i n)[n := 0]) ((shift_down (children nd) i n)[n := None]))"

definition copy_narr :: "nat \<Rightarrow> 'c narr \<Rightarrow> 'c narr" where
  "copy_narr cap nd =
     NArr (num nd) (go_copy (replicate cap 0) (take (num nd) (keys nd)))
       (go_copy (replicate cap None) (take (num nd) (children nd)))"

definition grow4 :: "'c narr \<Rightarrow> 'c narr" where "grow4 = copy_narr 16"

definition shrink16 :: "'c narr \<Rightarrow> 'c narr" where "shrink16 = copy_narr 4"

text \<open>The first slot of an eight-key word that holds \<open>c\<close>, when there is one.\<close>

definition swar_slot :: "bytes \<Rightarrow> byte \<Rightarrow> nat option" where
  "swar_slot ks c =
     (let broadcast = Lo * ucast c;
          x = le64 ks XOR broadcast;
          mask = (x - Lo) AND NOT x AND Hi
      in if mask \<noteq> 0 then Some (ctz mask div 8) else None)"

definition findChild16 :: "'c narr \<Rightarrow> byte \<Rightarrow> 'c option" where
  "findChild16 nd c =
     (let second =
        (if num nd > 8 then
           (case swar_slot (drop 8 (keys nd)) c of
              Some i \<Rightarrow> if 8 + i < num nd then nth_opt (children nd) (8 + i) else None
            | None \<Rightarrow> None)
         else None)
      in case swar_slot (keys nd) c of
           Some i \<Rightarrow> if i < num nd then nth_opt (children nd) i else second
         | None \<Rightarrow> second)"

definition range_arr :: "'c narr \<Rightarrow> (byte \<times> 'c option) list" where
  "range_arr nd = zip (take (num nd) (keys nd)) (take (num nd) (children nd))"

section \<open>node48\<close>

datatype 'c node48 = Node48 (num48: nat) (free48: u64) (sorted48: bytes) (index48: "nat list")
  (children48: "'c option list")

definition new_node48 :: "'c node48" where
  "new_node48 = Node48 0 0 (replicate 48 0) (replicate 256 0) (replicate 48 None)"

definition findChild48 :: "'c node48 \<Rightarrow> byte \<Rightarrow> 'c option" where
  "findChild48 nd c =
     (let idx = index48 nd ! unat c in if idx = 0 then None else nth_opt (children48 nd) (idx - 1))"

definition addChild48 :: "'c node48 \<Rightarrow> byte \<Rightarrow> 'c option \<Rightarrow> 'c node48" where
  "addChild48 nd c child =
     (let slot = ctz (free48 nd);
          n = num48 nd;
          p = ins_pos c (sorted48 nd) n
      in Node48 (n + 1) (unset_bit slot (free48 nd)) ((shift_up (sorted48 nd) p n)[p := c])
           ((index48 nd)[unat c := slot + 1]) ((children48 nd)[slot := child]))"

text \<open>
  The removal inlined in \<open>delInner48\<close>; the child slot itself has been set to nil before. The
  search for \<open>c\<close> in \<open>sorted\<close> leaves the array alone when it does not find it.
\<close>

definition removeChild48 :: "'c node48 \<Rightarrow> byte \<Rightarrow> nat \<Rightarrow> 'c node48" where
  "removeChild48 nd c slot =
     (let n = num48 nd;
          srt = (case key_slot c (sorted48 nd) n of
                   Some i \<Rightarrow> (shift_down (sorted48 nd) i (n - 1))[n - 1 := 0]
                 | None \<Rightarrow> sorted48 nd)
      in Node48 (n - 1) (set_bit slot (free48 nd)) srt ((index48 nd)[unat c := 0]) (children48 nd))"

definition range48 :: "'c node48 \<Rightarrow> (byte \<times> 'c option) list" where
  "range48 nd =
     map (\<lambda>b. (b, nth_opt (children48 nd) (index48 nd ! unat b - 1))) (take (num48 nd) (sorted48 nd))"

text \<open>\<open>grow\<close> of a node16: slots \<open>0..num-1\<close> in use, the other ones free.\<close>

definition grow16_step :: "'c narr \<Rightarrow> nat \<Rightarrow> 'c node48 \<Rightarrow> 'c node48" where
  "grow16_step nd i n48 =
     Node48 (num48 n48) (free48 n48) ((sorted48 n48)[i := keys nd ! i])
       ((index48 n48)[unat (keys nd ! i) := i + 1]) ((children48 n48)[i := children nd ! i])"

definition grow16 :: "'c narr \<Rightarrow> 'c node48" where
  "grow16 nd =
     fold (grow16_step nd) [0..<num nd]
       (Node48 (num nd) (mask 48 AND NOT (mask (num nd))) (replicate 48 0) (replicate 256 0) (replicate 48 None))"

definition shrink48_step :: "'c node48 \<Rightarrow> nat \<Rightarrow> 'c narr \<Rightarrow> 'c narr" where
  "shrink48_step nd i n16 =
     (let b = sorted48 nd ! i
      in NArr (num n16) ((keys n16)[i := b])
           ((children n16)[i := nth_opt (children48 nd) (index48 nd ! unat b - 1)]))"

definition shrink48 :: "'c node48 \<Rightarrow> 'c narr" where
  "shrink48 nd =
     fold (shrink48_step nd) [0..<num48 nd] (NArr (num48 nd) (replicate 16 0) (replicate 16 None))"

section \<open>node256\<close>

datatype 'c node256 = Node256 (num256: nat) (present: "u64 list") (children256: "'c option list")

text \<open>\<open>present[c/64] |= 1 << (c%64)\<close> and \<open>present[c/64] &^= 1 << (c%64)\<close>.\<close>

definition present_set :: "u64 list \<Rightarrow> byte \<Rightarrow> u64 list" where
  "present_set ws c = ws[unat c div 64 := set_bit (unat c mod 64) (ws ! (unat c div 64))]"

definition present_clear :: "u64 list \<Rightarrow> byte \<Rightarrow> u64 list" where
  "present_clear ws c = ws[unat c div 64 := unset_bit (unat c mod 64) (ws ! (unat c div 64))]"

definition findChild256 :: "'c node256 \<Rightarrow> byte \<Rightarrow> 'c option" where
  "findChild256 nd c = nth_opt (children256 nd) (unat c)"

definition addChild256 :: "'c node256 \<Rightarrow> byte \<Rightarrow> 'c option \<Rightarrow> 'c node256" where
  "addChild256 nd c child =
     Node256 (num256 nd + 1) (present_set (present nd) c) ((children256 nd)[unat c := child])"

definition removeChild256 :: "'c node256 \<Rightarrow> byte \<Rightarrow> 'c node256" where
  "removeChild256 nd c = Node256 (num256 nd - 1) (present_clear (present nd) c) (children256 nd)"

text \<open>
  The bytes of the presence bitmap in ascending order: the four words in order, the bits of each
  from the lowest (\<open>word &= word - 1\<close>).
\<close>

definition present_bytes :: "u64 list \<Rightarrow> bytes" where
  "present_bytes ws = concat (map (\<lambda>w. map (\<lambda>bit. of_nat (w * 64 + bit)) (bits_asc (ws ! w))) [0..<4])"

definition range256 :: "'c node256 \<Rightarrow> (byte \<times> 'c option) list" where
  "range256 nd = map (\<lambda>b. (b, nth_opt (children256 nd) (unat b))) (present_bytes (present nd))"

definition grow48_step :: "'c node48 \<Rightarrow> nat \<Rightarrow> 'c node256 \<Rightarrow> 'c node256" where
  "grow48_step nd i n256 =
     (let b = sorted48 nd ! i; idx = index48 nd ! unat b
      in Node256 (num256 n256) (present_set (present n256) b)
           ((children256 n256)[unat b := nth_opt (children48 nd) (idx - 1)]))"

definition grow48 :: "'c node48 \<Rightarrow> 'c node256" where
  "grow48 nd =
     fold (grow48_step nd) [0..<num48 nd] (Node256 (num48 nd) (replicate 4 0) (replicate 256 None))"

definition shrink256_step :: "'c node256 \<Rightarrow> byte \<Rightarrow> 'c node48 \<Rightarrow> 'c node48" where
  "shrink256_step nd b n48 =
     (let n = num48 n48
      in Node48 (n + 1) (unset_bit n (free48 n48)) ((sorted48 n48)[n := b])
           ((index48 n48)[unat b := n + 1]) ((children48 n48)[n := nth_opt (children256 nd) (unat b)]))"

definition shrink256 :: "'c node256 \<Rightarrow> 'c node48" where
  "shrink256 nd =
     fold (shrink256_step nd) (present_bytes (present nd))
       (Node48 0 (mask 48) (replicate 48 0) (replicate 256 0) (replicate 48 None))"

section \<open>The contract of a child container\<close>

text \<open>
  \<open>kids\<close> is the sequence \<open>rangeChildren\<close> visits; \<open>slot\<close> is the place of a byte's child, read and
  overwritten through \<open>child_at\<close> and \<open>set_child\<close>.
\<close>

locale art_node =
  fixes inv :: "'b \<Rightarrow> bool" and kids :: "'b \<Rightarrow> (byte \<times> 'c option) list"
    and find_child :: "'b \<Rightarrow> byte \<Rightarrow> 'c option" and slot :: "'b \<Rightarrow> byte \<Rightarrow> nat option"
    and child_at :: "'b \<Rightarrow> nat \<Rightarrow> 'c option" and set_child :: "'b \<Rightarrow> nat \<Rightarrow> 'c option \<Rightarrow> 'b"
    and room :: "'b \<Rightarrow> bool" and add_child :: "'b \<Rightarrow> byte \<Rightarrow> 'c option \<Rightarrow> 'b"
    and remove_child :: "'b \<Rightarrow> byte \<Rightarrow> nat \<Rightarrow> 'b"
  assumes kids_sorted: "inv b \<Longrightarrow> ksorted (kids b)"
    and kids_Some: "inv b \<Longrightarrow> (c, ch) \<in> set (kids b) \<Longrightarrow> ch \<noteq> None"
    and slot_None: "inv b \<Longrightarrow> slot b c = None \<longleftrightarrow> map_of (kids b) c = None"
    and slot_Some: "inv b \<Longrightarrow> slot b c = Some i \<Longrightarrow> map_of (kids b) c = Some (child_at b i)"
    and find_law: "inv b \<Longrightarrow> find_child b c = (case slot b c of None \<Rightarrow> None | Some i \<Rightarrow> child_at b i)"
    and set_law: "inv b \<Longrightarrow> slot b c = Some i \<Longrightarrow>
      inv (set_child b i (Some x)) \<and> kids (set_child b i (Some x)) = kv_set c (Some x) (kids b)"
    and add_law: "inv b \<Longrightarrow> room b \<Longrightarrow> slot b c = None \<Longrightarrow>
      inv (add_child b c (Some x)) \<and> kids (add_child b c (Some x)) = kv_ins c (Some x) (kids b)"
    and remove_law: "inv b \<Longrightarrow> slot b c = Some i \<Longrightarrow>
      inv (remove_child (set_child b i None) c i) \<and>
      kids (remove_child (set_child b i None) c i) = kv_del c (kids b)"
begin

lemma find_eq: "inv b \<Longrightarrow> find_child b c = (case map_of (kids b) c of None \<Rightarrow> None | Some x \<Rightarrow> x)"
  using find_law slot_None slot_Some by (auto split: option.splits)

lemma find_kid:
  assumes "inv b"
  shows "find_child b c = Some x \<longleftrightarrow> (c, Some x) \<in> set (kids b)"
  unfolding find_eq [OF assms]
    map_of_eq_Some_iff [OF ksorted_distinct [OF kids_sorted [OF assms]], symmetric]
  by (auto split: option.splits)

end

section \<open>The array loops\<close>

lemma length_shift_up [simp]: "length (shift_up xs p n) = length xs"
  by (induction xs p n rule: shift_up.induct) auto

lemma nth_shift_up:
  "n < length xs \<Longrightarrow> j < length xs \<Longrightarrow>
    shift_up xs p n ! j = (if p < j \<and> j \<le> n then xs ! (j - 1) else xs ! j)"
proof (induction xs p n rule: shift_up.induct)
  case (2 xs p i)
  then show ?case by (cases "j = Suc i") (auto simp: nth_list_update)
qed simp

lemma take_insert_at:
  assumes "p \<le> n" "n < length xs"
  shows "take (Suc n) ((shift_up xs p n)[p := c]) = take p (take n xs) @ c # drop p (take n xs)"
proof (rule nth_equalityI)
  fix j assume "j < length (take (Suc n) ((shift_up xs p n)[p := c]))"
  then have "j < Suc n" by simp
  with assms show "take (Suc n) ((shift_up xs p n)[p := c]) ! j = (take p (take n xs) @ c # drop p (take n xs)) ! j"
    by (cases "j = p") (auto simp: nth_list_update nth_shift_up nth_append nth_Cons')
qed (use assms in simp)

lemma length_shift_down [simp]: "length (shift_down xs i n) = length xs"
  by (induction xs i n rule: shift_down.induct) (subst shift_down.simps, auto)

lemma nth_shift_down:
  "n < length xs \<Longrightarrow> j < length xs \<Longrightarrow>
    shift_down xs i n ! j = (if i \<le> j \<and> j < n then xs ! (j + 1) else xs ! j)"
proof (induction xs i n rule: shift_down.induct)
  case (1 xs i n)
  then show ?case
    by (subst shift_down.simps) (cases "j = i"; auto simp: nth_list_update)
qed

lemma take_remove_at:
  assumes "i \<le> n" "n < length xs"
  shows "take n ((shift_down xs i n)[n := z]) = take i (take (Suc n) xs) @ drop (Suc i) (take (Suc n) xs)"
  using assms
  by (intro nth_equalityI) (auto simp: nth_list_update nth_shift_down nth_append min_def)

lemma ins_pos_le: "ins_pos c ks n \<le> n"
  by (auto simp: ins_pos_def find_Some_iff split: option.splits)

lemma ins_pos_spec:
  "(\<forall>i < ins_pos c ks n. \<not> c < ks ! i) \<and> (ins_pos c ks n < n \<longrightarrow> c < ks ! ins_pos c ks n)"
  by (auto simp: ins_pos_def find_Some_iff find_None_iff split: option.splits)

lemma key_slot_None: "n \<le> length ks \<Longrightarrow> key_slot c ks n = None \<longleftrightarrow> c \<notin> set (take n ks)"
  by (auto simp: key_slot_def find_None_iff in_set_conv_nth)

lemma key_slot_Some: "key_slot c ks n = Some i \<Longrightarrow> i < n \<and> ks ! i = c"
  by (auto simp: key_slot_def find_Some_iff)

lemma sorted_key_slot:
  assumes "sorted_wrt (<) (take n ks)" "n \<le> length ks" "i < n"
  shows "key_slot (ks ! i) ks n = Some i"
proof (cases "key_slot (ks ! i) ks n")
  case None
  then show ?thesis using assms by (auto simp: key_slot_None in_set_conv_nth)
next
  case (Some j)
  then have "j < n" "ks ! j = ks ! i" by (auto dest: key_slot_Some)
  moreover have "distinct (take n ks)" using assms(1) by (simp add: strict_sorted_iff)
  ultimately show ?thesis using Some assms nth_eq_iff_index_eq [of "take n ks" j i] by auto
qed

section \<open>node4 and node16 keep the contract\<close>

definition narr_inv :: "nat \<Rightarrow> 'c narr \<Rightarrow> bool" where
  "narr_inv cap nd \<longleftrightarrow>
     length (keys nd) = cap \<and> length (children nd) = cap \<and> num nd \<le> cap \<and>
     sorted_wrt (<) (take (num nd) (keys nd)) \<and> None \<notin> set (take (num nd) (children nd))"

definition slot_arr :: "'c narr \<Rightarrow> byte \<Rightarrow> nat option" where
  "slot_arr nd c = key_slot c (keys nd) (num nd)"

definition child_arr :: "'c narr \<Rightarrow> nat \<Rightarrow> 'c option" where "child_arr nd i = nth_opt (children nd) i"

definition set_arr :: "'c narr \<Rightarrow> nat \<Rightarrow> 'c option \<Rightarrow> 'c narr" where
  "set_arr nd i x = NArr (num nd) (keys nd) ((children nd)[i := x])"

lemma narr_sel [simp]:
  "num (set_arr nd i x) = num nd" "keys (set_arr nd i x) = keys nd"
  "children (set_arr nd i x) = (children nd)[i := x]"
  by (simp_all add: set_arr_def)

lemma narr_dims:
  assumes "narr_inv cap nd"
  shows "length (keys nd) = cap" "length (children nd) = cap" "num nd \<le> cap"
    "sorted_wrt (<) (take (num nd) (keys nd))" "None \<notin> set (take (num nd) (children nd))"
  using assms by (auto simp: narr_inv_def)

lemma narr_fst: "narr_inv cap nd \<Longrightarrow> map fst (range_arr nd) = take (num nd) (keys nd)"
  by (simp add: range_arr_def narr_inv_def)

lemma narr_length: "narr_inv cap nd \<Longrightarrow> length (range_arr nd) = num nd"
  by (simp add: range_arr_def narr_inv_def)

lemma narr_nth: "narr_inv cap nd \<Longrightarrow> i < num nd \<Longrightarrow> range_arr nd ! i = (keys nd ! i, children nd ! i)"
  by (simp add: range_arr_def narr_inv_def)

lemma narr_sorted: "narr_inv cap nd \<Longrightarrow> ksorted (range_arr nd)"
  by (simp add: ksorted_def narr_fst narr_dims)

lemma narr_kids_Some: "narr_inv cap nd \<Longrightarrow> (c, x) \<in> set (range_arr nd) \<Longrightarrow> x \<noteq> None"
  unfolding range_arr_def narr_inv_def by (metis set_zip_rightD)

lemma narr_slot_None: "narr_inv cap nd \<Longrightarrow> slot_arr nd c = None \<longleftrightarrow> map_of (range_arr nd) c = None"
  by (simp add: slot_arr_def key_slot_None map_of_eq_None_iff narr_fst narr_dims flip: list.set_map)

lemma narr_slot: "slot_arr nd c = Some i \<Longrightarrow> i < num nd \<and> keys nd ! i = c"
  unfolding slot_arr_def by (rule key_slot_Some)

lemma narr_slot_Some:
  assumes inv: "narr_inv cap nd" and s: "slot_arr nd c = Some i"
  shows "map_of (range_arr nd) c = Some (child_arr nd i)"
proof -
  have i: "i < num nd" "keys nd ! i = c" using narr_slot [OF s] by auto
  then have "(c, children nd ! i) \<in> set (range_arr nd)"
    using narr_nth [OF inv i(1)] narr_length [OF inv] by (metis nth_mem)
  then show ?thesis
    using i narr_dims [OF inv] ksorted_distinct [OF narr_sorted [OF inv]]
    by (simp add: child_arr_def nth_opt_def)
qed

lemma narr_set:
  assumes inv: "narr_inv cap nd" and s: "slot_arr nd c = Some i"
  shows "range_arr (set_arr nd i x) = kv_set c x (range_arr nd)"
proof -
  have i: "i < num nd" "keys nd ! i = c" using narr_slot [OF s] by auto
  have "kv_set c x (range_arr nd) = (range_arr nd)[i := (c, x)]"
    using i inv by (intro kv_set_nth ksorted_distinct narr_sorted) (auto simp: narr_nth narr_length)
  also have "\<dots> = zip ((take (num nd) (keys nd))[i := keys nd ! i]) ((take (num nd) (children nd))[i := x])"
    using i by (simp add: range_arr_def update_zip)
  also have "(take (num nd) (keys nd))[i := keys nd ! i] = take (num nd) (keys nd)"
    using i narr_dims [OF inv] by (simp add: list_update_same_conv)
  finally show ?thesis using i by (simp add: range_arr_def take_update_swap)
qed

lemma narr_set_inv: "narr_inv cap nd \<Longrightarrow> slot_arr nd c = Some i \<Longrightarrow> narr_inv cap (set_arr nd i (Some x))"
  by (auto simp: narr_inv_def take_update_swap dest!: set_update_subset_insert [THEN subsetD])

lemma narr_set_ok: "narr_inv cap nd \<Longrightarrow> slot_arr nd c = Some i \<Longrightarrow>
    narr_inv cap (set_arr nd i (Some x)) \<and> range_arr (set_arr nd i (Some x)) = kv_set c (Some x) (range_arr nd)"
  by (intro conjI) (erule (1) narr_set_inv, erule (1) narr_set)

lemma narr_add:
  assumes inv: "narr_inv cap nd" and room: "num nd < cap" and s: "slot_arr nd c = None"
  shows "narr_inv cap (addChild_arr nd c (Some x)) \<and>
    range_arr (addChild_arr nd c (Some x)) = kv_ins c (Some x) (range_arr nd)"
proof -
  note d = narr_dims [OF inv]
  let ?n = "num nd" and ?p = "ins_pos c (keys nd) (num nd)" and ?nd = "addChild_arr nd c (Some x)"
  have k: "take (Suc ?n) (keys ?nd) = take ?p (take ?n (keys nd)) @ c # drop ?p (take ?n (keys nd))"
    using d room by (simp add: addChild_arr_def Let_def take_insert_at ins_pos_le)
  have ch: "take (Suc ?n) (children ?nd) = take ?p (take ?n (children nd)) @ Some x # drop ?p (take ?n (children nd))"
    using d room by (simp add: addChild_arr_def Let_def take_insert_at ins_pos_le)
  have n: "num ?nd = Suc ?n" by (simp add: addChild_arr_def Let_def)
  have r: "range_arr ?nd = take ?p (range_arr nd) @ (c, Some x) # drop ?p (range_arr nd)"
    unfolding range_arr_def n k ch using d
    by (simp add: take_zip drop_zip zip_append del: take_take)
  also have "\<dots> = kv_ins c (Some x) (range_arr nd)"
    using ins_pos_spec [of c "keys nd" ?n] ins_pos_le [of c "keys nd" ?n]
    by (intro kv_ins_split [symmetric]) (auto simp: narr_length [OF inv] narr_nth [OF inv])
  finally have r: "range_arr ?nd = kv_ins c (Some x) (range_arr nd)" .
  have "c \<notin> fst ` set (range_arr nd)"
    using s narr_slot_None [OF inv] by (simp add: map_of_eq_None_iff)
  then have "ksorted (range_arr ?nd)" unfolding r by (intro ksorted_kv_ins narr_sorted [OF inv])
  moreover have l: "length (keys ?nd) = cap" "length (children ?nd) = cap" "Suc ?n \<le> cap"
    using d room by (simp_all add: addChild_arr_def Let_def)
  ultimately have "sorted_wrt (<) (take (Suc ?n) (keys ?nd))"
    by (simp add: ksorted_def range_arr_def n)
  moreover have "None \<notin> set (take (Suc ?n) (children ?nd))"
    unfolding ch using d(5) set_take_subset [of ?p "take ?n (children nd)"] set_drop_subset [of ?p "take ?n (children nd)"]
    by (auto simp del: take_take)
  ultimately show ?thesis using r l by (simp add: narr_inv_def n)
qed

lemma narr_remove:
  assumes inv: "narr_inv cap nd" and s: "slot_arr nd c = Some i"
  shows "narr_inv cap (removeChildAt (set_arr nd i y) i) \<and>
    range_arr (removeChildAt (set_arr nd i y) i) = kv_del c (range_arr nd)"
proof -
  note d = narr_dims [OF inv]
  have i: "i < num nd" "keys nd ! i = c" using narr_slot [OF s] by auto
  let ?nd = "removeChildAt (set_arr nd i y) i" and ?n = "num nd - 1"
  have n: "num ?nd = ?n" by (simp add: removeChildAt_def Let_def)
  have Suc: "Suc ?n = num nd" using i by simp
  have k: "take ?n (keys ?nd) = take i (take (num nd) (keys nd)) @ drop (Suc i) (take (num nd) (keys nd))"
    using take_remove_at [of i ?n "keys nd" 0] i d Suc by (simp add: removeChildAt_def Let_def)
  have ch: "take ?n (children ?nd) = take i (take (num nd) (children nd)) @ drop (Suc i) (take (num nd) (children nd))"
    using take_remove_at [of i ?n "(children nd)[i := y]" None] i d Suc
    by (simp add: removeChildAt_def Let_def take_update_swap list_update_beyond)
  have "range_arr ?nd = take i (range_arr nd) @ drop (Suc i) (range_arr nd)"
    unfolding range_arr_def n k ch using d
    by (simp add: take_zip drop_zip zip_append del: take_take)
  also have "\<dots> = kv_del c (range_arr nd)"
    using i by (intro kv_del_nth [symmetric] ksorted_distinct narr_sorted [OF inv])
      (auto simp: narr_length [OF inv] narr_nth [OF inv])
  finally have r: "range_arr ?nd = kv_del c (range_arr nd)" .
  have "ksorted (range_arr ?nd)" unfolding r by (intro ksorted_kv_del narr_sorted [OF inv])
  moreover have l: "length (keys ?nd) = cap" "length (children ?nd) = cap" "?n \<le> cap"
    using d i by (simp_all add: removeChildAt_def Let_def)
  ultimately have "sorted_wrt (<) (take ?n (keys ?nd))"
    by (simp add: ksorted_def range_arr_def n)
  moreover have "None \<notin> set (take ?n (children ?nd))"
    unfolding ch using d(5) set_take_subset [of i "take (num nd) (children nd)"]
      set_drop_subset [of "Suc i" "take (num nd) (children nd)"]
    by (auto simp del: take_take)
  ultimately show ?thesis using r l by (simp add: narr_inv_def n)
qed

text \<open>The SWAR step of node16 finds what the loop finds.\<close>

lemma key_slot_iff: "key_slot c ks n = Some i \<longleftrightarrow> i < n \<and> ks ! i = c \<and> (\<forall>j < i. ks ! j \<noteq> c)"
  by (auto simp: key_slot_def find_Some_iff)

lemma swar_slot_FirstByte:
  "swar_slot ks c = (let i = FirstByte (le64 ks) c in if i < 8 then Some i else None)"
proof -
  let ?x = "le64 ks XOR Lo * ucast c"
  let ?m = "(?x - Lo) AND NOT ?x AND Hi"
  have "ctz ?m div 8 < 8" if "?m \<noteq> 0" using ctz_nonzero [OF that] by (simp add: div_less_iff_less_mult)
  then show ?thesis by (simp add: swar_slot_def FirstByte_def Let_def)
qed

lemma swar_slot_eq:
  assumes "8 \<le> length ks"
  shows "swar_slot ks c = key_slot c ks 8"
proof -
  let ?i = "FirstByte (le64 ks) c"
  have b: "bytes_of (le64 ks) = take 8 ks" using assms by (rule bytes_of_le64)
  consider "?i = 8" "c \<notin> set (take 8 ks)"
    | "?i < 8" "ks ! ?i = c" "\<forall>j < ?i. ks ! j \<noteq> c"
    using FirstByte_spec [of "le64 ks" c] unfolding b by auto
  then show ?thesis
  proof cases
    case 1
    then have "key_slot c ks 8 = None" using assms by (simp only: key_slot_None not_False_eq_True)
    with 1 show ?thesis by (simp add: swar_slot_FirstByte)
  next
    case 2
    then have "key_slot c ks 8 = Some ?i" by (simp add: key_slot_iff)
    with 2 show ?thesis by (simp add: swar_slot_FirstByte Let_def)
  qed
qed

lemma findChild4_law: "narr_inv cap nd \<Longrightarrow>
    findChild4 nd c = (case slot_arr nd c of None \<Rightarrow> None | Some i \<Rightarrow> child_arr nd i)"
  by (auto simp: findChild4_def slot_arr_def child_arr_def split: option.splits)

lemma findChild16_law:
  assumes inv: "narr_inv 16 nd"
  shows "findChild16 nd c = (case slot_arr nd c of None \<Rightarrow> None | Some i \<Rightarrow> child_arr nd i)"
proof -
  note d = narr_dims [OF inv]
  have s: "swar_slot (keys nd) c = key_slot c (keys nd) 8"
    "swar_slot (drop 8 (keys nd)) c = key_slot c (drop 8 (keys nd)) 8"
    using d by (simp_all add: swar_slot_eq)
  show ?thesis
  proof (cases "slot_arr nd c")
    case None
    then have n: "\<forall>i < num nd. keys nd ! i \<noteq> c"
      using d by (auto simp: slot_arr_def key_slot_None in_set_conv_nth)
    have "key_slot c (keys nd) 8 = Some i \<Longrightarrow> \<not> i < num nd" for i
      using n by (auto simp: key_slot_iff)
    moreover have "key_slot c (drop 8 (keys nd)) 8 = Some i \<Longrightarrow> \<not> 8 + i < num nd" for i
      using n d by (auto simp: key_slot_iff)
    ultimately show ?thesis using None by (auto simp: findChild16_def s Let_def split: option.splits)
  next
    case (Some i)
    then have i: "i < num nd" "keys nd ! i = c" "\<forall>j < i. keys nd ! j \<noteq> c"
      by (auto simp: slot_arr_def key_slot_iff)
    have ch: "child_arr nd i = nth_opt (children nd) i" by (simp add: child_arr_def)
    show ?thesis
    proof (cases "i < 8")
      case True
      then have "key_slot c (keys nd) 8 = Some i" using i by (simp add: key_slot_iff)
      then show ?thesis using Some i ch by (simp add: findChild16_def s)
    next
      case False
      then have "key_slot c (keys nd) 8 = None" using i d by (auto simp: key_slot_None in_set_conv_nth)
      moreover have "key_slot c (drop 8 (keys nd)) 8 = Some (i - 8)"
        using i False d by (auto simp: key_slot_iff)
      ultimately show ?thesis using Some i ch False by (simp add: findChild16_def s)
    qed
  qed
qed

interpretation n4: art_node "narr_inv 4" range_arr findChild4 slot_arr child_arr set_arr
  "\<lambda>nd. num nd < 4" addChild_arr "\<lambda>nd c i. removeChildAt nd i"
  by unfold_locales (erule narr_sorted | erule (1) narr_kids_Some | erule narr_slot_None
    | erule (1) narr_slot_Some | erule findChild4_law | erule (1) narr_set_ok | erule (2) narr_add
    | erule (1) narr_remove)+

interpretation n16: art_node "narr_inv 16" range_arr findChild16 slot_arr child_arr set_arr
  "\<lambda>nd. num nd < 16" addChild_arr "\<lambda>nd c i. removeChildAt nd i"
  by unfold_locales (erule narr_sorted | erule (1) narr_kids_Some | erule narr_slot_None
    | erule (1) narr_slot_Some | erule findChild16_law | erule (1) narr_set_ok | erule (2) narr_add
    | erule (1) narr_remove)+

text \<open>Growing and shrinking copy the children.\<close>

lemma copy_narr_ok:
  assumes inv: "narr_inv m nd" and cap: "num nd \<le> cap"
  shows "narr_inv cap (copy_narr cap nd) \<and> range_arr (copy_narr cap nd) = range_arr nd \<and>
    num (copy_narr cap nd) = num nd"
  using narr_dims [OF inv] cap by (simp add: copy_narr_def go_copy_def narr_inv_def range_arr_def)

section \<open>node48 keeps the contract\<close>

definition n48_bytes :: "'c node48 \<Rightarrow> bytes" where
  "n48_bytes nd = take (num48 nd) (sorted48 nd)"

abbreviation idx48 :: "'c node48 \<Rightarrow> byte \<Rightarrow> nat" where
  "idx48 nd c \<equiv> index48 nd ! unat c"

text \<open>
  The index maps exactly the bytes of \<open>sorted\<close> to distinct slots, the bitmap marks exactly the
  other slots, and every used slot has a child.
\<close>

definition n48_inv :: "'c node48 \<Rightarrow> bool" where
  "n48_inv nd \<longleftrightarrow>
     length (sorted48 nd) = 48 \<and> length (index48 nd) = 256 \<and> length (children48 nd) = 48 \<and>
     num48 nd \<le> 48 \<and> sorted_wrt (<) (n48_bytes nd) \<and>
     (\<forall>c. idx48 nd c \<noteq> 0 \<longleftrightarrow> c \<in> set (n48_bytes nd)) \<and>
     (\<forall>c. idx48 nd c \<le> 48) \<and>
     (\<forall>c d. idx48 nd c = idx48 nd d \<longrightarrow> idx48 nd c \<noteq> 0 \<longrightarrow> c = d) \<and>
     (\<forall>s. bit (free48 nd) s \<longleftrightarrow> s < 48 \<and> (\<forall>c. idx48 nd c \<noteq> Suc s)) \<and>
     (\<forall>c. idx48 nd c \<noteq> 0 \<longrightarrow> children48 nd ! (idx48 nd c - 1) \<noteq> None)"

definition slot48 :: "'c node48 \<Rightarrow> byte \<Rightarrow> nat option" where
  "slot48 nd c = (let idx = idx48 nd c in if idx = 0 then None else Some (idx - 1))"

definition child48 :: "'c node48 \<Rightarrow> nat \<Rightarrow> 'c option" where "child48 nd i = nth_opt (children48 nd) i"

definition set48 :: "'c node48 \<Rightarrow> nat \<Rightarrow> 'c option \<Rightarrow> 'c node48" where
  "set48 nd i x = Node48 (num48 nd) (free48 nd) (sorted48 nd) (index48 nd) ((children48 nd)[i := x])"

lemma n48_sel [simp]:
  "num48 (set48 nd i x) = num48 nd" "free48 (set48 nd i x) = free48 nd"
  "sorted48 (set48 nd i x) = sorted48 nd" "index48 (set48 nd i x) = index48 nd"
  "children48 (set48 nd i x) = (children48 nd)[i := x]" "n48_bytes (set48 nd i x) = n48_bytes nd"
  by (simp_all add: set48_def n48_bytes_def)

lemma n48_dims:
  assumes "n48_inv nd"
  shows "length (sorted48 nd) = 48" "length (index48 nd) = 256" "length (children48 nd) = 48" "num48 nd \<le> 48"
    "sorted_wrt (<) (n48_bytes nd)"
  using assms by (simp_all add: n48_inv_def)

lemma n48_idx:
  assumes "n48_inv nd"
  shows "idx48 nd c \<noteq> 0 \<longleftrightarrow> c \<in> set (n48_bytes nd)" "idx48 nd c \<le> 48"
    "idx48 nd c = idx48 nd d \<Longrightarrow> idx48 nd c \<noteq> 0 \<Longrightarrow> c = d"
    "bit (free48 nd) s \<longleftrightarrow> s < 48 \<and> (\<forall>c. idx48 nd c \<noteq> Suc s)"
    "idx48 nd c \<noteq> 0 \<Longrightarrow> children48 nd ! (idx48 nd c - 1) \<noteq> None"
  using assms by (simp_all add: n48_inv_def)

declare unat_byte_less [simp]

lemma map_fst_range48: "map fst (range48 nd) = n48_bytes nd"
  by (simp add: range48_def n48_bytes_def comp_def)

lemma map_of_range48:
  "map_of (range48 nd) c = (if c \<in> set (n48_bytes nd) then Some (nth_opt (children48 nd) (idx48 nd c - 1)) else None)"
  unfolding range48_def n48_bytes_def map_of_map_restrict by (simp add: restrict_map_def)

lemma n48_sorted: "n48_inv nd \<Longrightarrow> ksorted (range48 nd)"
  by (simp add: ksorted_def map_fst_range48 n48_dims)

lemma n48_slot_iff: "n48_inv nd \<Longrightarrow> slot48 nd c = Some i \<longleftrightarrow> idx48 nd c = Suc i"
  by (auto simp: slot48_def Let_def)

lemma n48_slot_None: "n48_inv nd \<Longrightarrow> slot48 nd c = None \<longleftrightarrow> map_of (range48 nd) c = None"
  using n48_idx(1) [of nd c] by (auto simp: slot48_def map_of_range48 Let_def)

lemma n48_slot_Some: "n48_inv nd \<Longrightarrow> slot48 nd c = Some i \<Longrightarrow> map_of (range48 nd) c = Some (child48 nd i)"
  using n48_idx(1) [of nd c] by (simp add: n48_slot_iff map_of_range48 child48_def)

lemma n48_kids_Some: "n48_inv nd \<Longrightarrow> (c, x) \<in> set (range48 nd) \<Longrightarrow> x \<noteq> None"
  using n48_idx(1,2,5) [of nd c] n48_dims [of nd]
  by (auto simp: range48_def nth_opt_def n48_bytes_def [symmetric])

lemma findChild48_law: "n48_inv nd \<Longrightarrow> findChild48 nd c = (case slot48 nd c of None \<Rightarrow> None | Some i \<Rightarrow> child48 nd i)"
  by (simp add: findChild48_def slot48_def child48_def Let_def)

lemma n48_set_ok:
  assumes inv: "n48_inv nd" and s: "slot48 nd c = Some i"
  shows "n48_inv (set48 nd i (Some x)) \<and> range48 (set48 nd i (Some x)) = kv_set c (Some x) (range48 nd)"
proof -
  have i: "idx48 nd c = Suc i" using s inv by (simp add: n48_slot_iff)
  have i48: "i < 48" using n48_idx(2) [OF inv, of c] i by simp
  let ?nd = "set48 nd i (Some x)"
  have ch: "children48 ?nd ! (idx48 nd d - 1) = (if d = c then Some x else children48 nd ! (idx48 nd d - 1))"
    if "idx48 nd d \<noteq> 0" for d
  proof (cases "d = c")
    case False
    then have "idx48 nd d \<noteq> Suc i" using n48_idx(3) [OF inv, of d c] i that by auto
    then show ?thesis using that False by (simp add: nth_list_update)
  qed (use i i48 n48_dims [OF inv] in simp)
  have "n48_inv ?nd" using inv ch by (auto simp: n48_inv_def)
  moreover have "map_of (range48 ?nd) d = map_of (kv_set c (Some x) (range48 nd)) d" for d
    using ch [of d] n48_idx(1,2) [OF inv] n48_dims [OF inv] i i48
    by (auto simp: map_of_range48 map_of_kv_set nth_opt_def)
  then have "range48 ?nd = kv_set c (Some x) (range48 nd)"
    using n48_sorted [OF inv] n48_sorted [OF calculation] by (intro ksorted_unique) auto
  ultimately show ?thesis ..
qed

lemma unat_byte_eq [simp]: "unat (c :: byte) = unat d \<longleftrightarrow> c = d"
  by (simp add: word_unat_eq_iff)

lemma nth_upd_byte: "length xs = 256 \<Longrightarrow> xs[unat c := v] ! unat d = (if (d :: byte) = c then v else xs ! unat d)"
  by (auto simp: nth_list_update)

lemma sorted_insert_at:
  assumes s: "sorted_wrt (<) (take n ks)" and n: "n < length ks" and c: "(c :: byte) \<notin> set (take n ks)"
  defines "ks' \<equiv> take (Suc n) ((shift_up ks (ins_pos c ks n) n)[ins_pos c ks n := c])"
  shows "sorted_wrt (<) ks' \<and> set ks' = insert c (set (take n ks))"
proof -
  let ?p = "ins_pos c ks n" and ?t = "take n ks"
  have k: "ks' = take ?p ?t @ c # drop ?p ?t"
    unfolding ks'_def using n ins_pos_le by (intro take_insert_at)
  have low: "x < c" if "x \<in> set (take ?p ?t)" for x
  proof -
    from that obtain i where "i < ?p" "i < n" "x = ks ! i"
      using n by (auto simp: in_set_conv_nth)
    then show ?thesis using ins_pos_spec [of c ks n] c n
      by (metis in_set_conv_nth length_take min_absorb2 less_imp_le nat_neq_iff not_less_iff_gr_or_eq nth_take linorder_neqE)
  qed
  have high: "c < x" if "x \<in> set (drop ?p ?t)" for x
  proof -
    from that obtain j where "j < n - ?p" "x = ks ! (?p + j)"
      using n by (auto simp: in_set_conv_nth)
    then have j: "?p + j < n" "x = ks ! (?p + j)" by simp_all
    then have "c < ks ! ?p" using ins_pos_spec [of c ks n] by auto
    also have "ks ! ?p \<le> x"
      using s j n sorted_wrt_nth_less [OF s, of ?p "?p + j"] by (cases "j = 0") auto
    finally show ?thesis .
  qed
  have "sorted_wrt (<) (take ?p ?t @ drop ?p ?t)" using s by (simp only: append_take_drop_id)
  then have "sorted_wrt (<) (take ?p ?t)" "sorted_wrt (<) (drop ?p ?t)"
    unfolding sorted_wrt_append by auto
  then have "sorted_wrt (<) ks'"
    unfolding k sorted_wrt_append using low high by (fastforce simp: less_trans)
  moreover have "set ks' = insert c (set (take ?p ?t @ drop ?p ?t))"
    unfolding k by (simp del: take_take append_take_drop_id)
  ultimately show ?thesis by (simp only: append_take_drop_id simp_thms)
qed

lemma n48_free_slot:
  assumes inv: "n48_inv nd" and room: "num48 nd < 48"
  shows "ctz (free48 nd) < 48 \<and> (\<forall>c. idx48 nd c \<noteq> Suc (ctz (free48 nd)))"
proof -
  let ?U = "(\<lambda>c. idx48 nd c - 1) ` set (n48_bytes nd)"
  have "card ?U \<le> card (set (n48_bytes nd))" by (intro card_image_le) simp
  also have "\<dots> \<le> num48 nd" using card_length [of "n48_bytes nd"] by (simp add: n48_bytes_def)
  finally have "card ?U < card {..<48 :: nat}" using room by simp
  then have "\<not> {..<48} \<subseteq> ?U" by (metis card_mono finite_imageI finite_set not_le)
  then obtain s where s: "s < 48" "s \<notin> ?U" by blast
  have "idx48 nd c \<noteq> Suc s" for c
    using s(2) n48_idx(1) [OF inv, of c] by (auto intro: rev_image_eqI)
  then have "bit (free48 nd) s" using s n48_idx(4) [OF inv] by blast
  then have "bit (free48 nd) (ctz (free48 nd))" by (rule ctz_less_bit)
  then show ?thesis using n48_idx(4) [OF inv] by blast
qed

lemma n48_add:
  assumes inv: "n48_inv nd" and room: "num48 nd < 48" and s: "slot48 nd c = None"
  shows "n48_inv (addChild48 nd c (Some x)) \<and>
    range48 (addChild48 nd c (Some x)) = kv_ins c (Some x) (range48 nd)"
proof -
  let ?nd = "addChild48 nd c (Some x)" and ?f = "ctz (free48 nd)"
  note d = n48_dims [OF inv] and ix = n48_idx [OF inv] and f = n48_free_slot [OF inv room]
  have c: "idx48 nd c = 0" using s by (auto simp: slot48_def Let_def split: if_splits)
  then have cn: "c \<notin> set (n48_bytes nd)" using ix(1) by blast
  have b: "sorted_wrt (<) (n48_bytes ?nd) \<and> set (n48_bytes ?nd) = insert c (set (n48_bytes nd))"
    using sorted_insert_at [of "num48 nd" "sorted48 nd" c] d cn room
    by (simp add: n48_bytes_def addChild48_def Let_def)
  have idx: "idx48 ?nd e = (if e = c then Suc ?f else idx48 nd e)" for e
    using d by (simp add: addChild48_def Let_def nth_upd_byte)
  have fr: "bit (free48 ?nd) t \<longleftrightarrow> bit (free48 nd) t \<and> t \<noteq> ?f" for t
    by (auto simp: addChild48_def Let_def bit_simps)
  have ch: "children48 ?nd = (children48 nd)[?f := Some x]" by (simp add: addChild48_def Let_def)
  have old: "idx48 nd e - 1 \<noteq> ?f" if "idx48 nd e \<noteq> 0" for e using that f by (metis Suc_pred' not_gr0)
  have "n48_inv ?nd"
    unfolding n48_inv_def
  proof (intro conjI allI impI)
    show "length (sorted48 ?nd) = 48" "length (index48 ?nd) = 256" "length (children48 ?nd) = 48" "num48 ?nd \<le> 48"
      using d room by (simp_all add: addChild48_def Let_def)
    show "sorted_wrt (<) (n48_bytes ?nd)" using b by simp
    fix e g t
    show "(idx48 ?nd e \<noteq> 0) = (e \<in> set (n48_bytes ?nd))" using ix(1) [of e] b c by (auto simp: idx)
    show "idx48 ?nd e \<le> 48" using ix(2) [of e] f by (simp add: idx)
    show "e = g" if "idx48 ?nd e = idx48 ?nd g" "idx48 ?nd e \<noteq> 0"
      using that ix(3) [of e g] f by (auto simp: idx split: if_splits)
    have "(\<forall>e. idx48 ?nd e \<noteq> Suc t) \<longleftrightarrow> (\<forall>e. idx48 nd e \<noteq> Suc t) \<and> t \<noteq> ?f"
      unfolding idx using c by (metis Suc_inject nat.distinct(1))
    then show "bit (free48 ?nd) t = (t < 48 \<and> (\<forall>e. idx48 ?nd e \<noteq> Suc t))"
      unfolding fr ix(4) by blast
    show "children48 ?nd ! (idx48 ?nd e - 1) \<noteq> None" if "idx48 ?nd e \<noteq> 0"
      using that ix(5) [of e] old [of e] d f by (auto simp: idx ch nth_list_update split: if_splits)
  qed
  moreover have "map_of (range48 ?nd) e = map_of (kv_ins c (Some x) (range48 nd)) e" for e
    using cn b ix(1,2) [of e] old [of e] d f
    by (subst map_of_kv_ins) (auto simp: map_of_range48 idx ch nth_opt_def nth_list_update map_fst_range48 simp flip: set_map)
  moreover have "c \<notin> fst ` set (range48 nd)" using cn by (simp add: map_fst_range48 flip: set_map)
  ultimately show ?thesis
    using n48_sorted [OF inv] inv by (intro conjI ksorted_unique n48_sorted ksorted_kv_ins) auto
qed

lemma sorted_remove_at:
  fixes z :: byte
  assumes s: "sorted_wrt (<) (take n ks)" and n: "n \<le> length ks" and i: "i < n"
  defines "ks' \<equiv> take (n - 1) ((shift_down ks i (n - 1))[n - 1 := z])"
  shows "sorted_wrt (<) ks' \<and> set ks' = set (take n ks) - {ks ! i}"
proof -
  let ?t = "take n ks"
  have k: "ks' = take i ?t @ drop (Suc i) ?t"
    unfolding ks'_def using take_remove_at [of i "n - 1" ks z] i n by simp
  have t: "?t = take i ?t @ ks ! i # drop (Suc i) ?t"
    using i n by (subst id_take_nth_drop [of i ?t]) auto
  have "sorted_wrt (<) (take i ?t @ ks ! i # drop (Suc i) ?t)" using s t by simp
  then have "sorted_wrt (<) ks'" "ks ! i \<notin> set ks'"
    unfolding k sorted_wrt_append by (auto simp del: take_take)
  moreover have "set ?t = insert (ks ! i) (set ks')" unfolding k by (subst t) auto
  ultimately show ?thesis by auto
qed

lemma n48_remove:
  assumes inv: "n48_inv nd" and s: "slot48 nd c = Some i"
  shows "n48_inv (removeChild48 (set48 nd i None) c i) \<and>
    range48 (removeChild48 (set48 nd i None) c i) = kv_del c (range48 nd)"
proof -
  let ?nd = "removeChild48 (set48 nd i None) c i"
  note d = n48_dims [OF inv] and ix = n48_idx [OF inv]
  have i: "idx48 nd c = Suc i" "i < 48" using s inv ix(2) [of c] by (simp_all add: n48_slot_iff)
  then have cn: "c \<in> set (n48_bytes nd)" using ix(1) [of c] by simp
  then obtain k where k: "k < num48 nd" "sorted48 nd ! k = c" using d by (auto simp: n48_bytes_def in_set_conv_nth)
  then have ks: "key_slot c (sorted48 nd) (num48 nd) = Some k"
    using sorted_key_slot d unfolding n48_bytes_def by fastforce
  have b: "sorted_wrt (<) (n48_bytes ?nd) \<and> set (n48_bytes ?nd) = set (n48_bytes nd) - {c}"
    using sorted_remove_at [of "num48 nd" "sorted48 nd" k 0] d k ks
    by (simp add: n48_bytes_def removeChild48_def Let_def)
  have idx: "idx48 ?nd e = (if e = c then 0 else idx48 nd e)" for e
    using d by (simp add: removeChild48_def Let_def nth_upd_byte)
  have fr: "bit (free48 ?nd) t \<longleftrightarrow> bit (free48 nd) t \<or> t = i" for t
    using i(2) by (auto simp: removeChild48_def Let_def bit_simps)
  have ch: "children48 ?nd = (children48 nd)[i := None]" by (simp add: removeChild48_def Let_def)
  have old: "idx48 nd e - 1 \<noteq> i" if "idx48 nd e \<noteq> 0" "e \<noteq> c" for e
    using that ix(3) [of e c] i by auto
  have "n48_inv ?nd"
    unfolding n48_inv_def
  proof (intro conjI allI impI)
    show "length (sorted48 ?nd) = 48" "length (index48 ?nd) = 256" "length (children48 ?nd) = 48" "num48 ?nd \<le> 48"
      using d by (simp_all add: removeChild48_def Let_def split: option.splits)
    show "sorted_wrt (<) (n48_bytes ?nd)" using b by simp
    fix e g t
    show "(idx48 ?nd e \<noteq> 0) = (e \<in> set (n48_bytes ?nd))" using ix(1) [of e] b by (auto simp: idx)
    show "idx48 ?nd e \<le> 48" using ix(2) [of e] by (simp add: idx)
    show "e = g" if "idx48 ?nd e = idx48 ?nd g" "idx48 ?nd e \<noteq> 0"
      using that ix(3) [of e g] by (auto simp: idx split: if_splits)
    have "(\<forall>e. idx48 ?nd e \<noteq> Suc t) \<longleftrightarrow> (\<forall>e. idx48 nd e \<noteq> Suc t) \<or> t = i"
      unfolding idx using i(1) ix(3) [of _ c] by (metis Suc_inject nat.distinct(1))
    then show "bit (free48 ?nd) t = (t < 48 \<and> (\<forall>e. idx48 ?nd e \<noteq> Suc t))"
      unfolding fr ix(4) using i(2) by blast
    show "children48 ?nd ! (idx48 ?nd e - 1) \<noteq> None" if "idx48 ?nd e \<noteq> 0"
      using that ix(5) [of e] old [of e] d by (auto simp: idx ch split: if_splits)
  qed
  moreover have "map_of (range48 ?nd) e = map_of (kv_del c (range48 nd)) e" for e
    using b ix(1) [of e] old [of e, THEN not_sym]
    by (cases "e = c") (simp_all add: map_of_range48 map_of_kv_del idx ch nth_opt_def nth_list_update)
  ultimately show ?thesis
    using n48_sorted [OF inv] inv by (intro conjI ksorted_unique n48_sorted ksorted_kv_del) auto
qed

interpretation n48: art_node n48_inv range48 findChild48 slot48 child48 set48
  "\<lambda>nd. num48 nd < 48" addChild48 removeChild48
  by unfold_locales (erule n48_sorted | erule (1) n48_kids_Some | erule n48_slot_None
    | erule (1) n48_slot_Some | erule findChild48_law | erule (1) n48_set_ok | erule (2) n48_add
    | erule (1) n48_remove)+

end
