(* ===== verification/ArtBody.thy ===== *)
theory ArtBody
  imports ArtNode
begin

text \<open>
  Package \<open>art\<close>, continued: the 256-way container, the conversions between the containers (they
  keep the children), and the sum of the four containers as an inner node sees it.
\<close>

section \<open>node256 keeps the contract\<close>

definition has :: "u64 list \<Rightarrow> byte \<Rightarrow> bool" where
  "has ws c = bit (ws ! (unat c div 64)) (unat c mod 64)"

definition all_bytes :: bytes where "all_bytes = map of_nat [0..<256]"

lemma unat_of_nat_byte: "n < 256 \<Longrightarrow> unat (of_nat n :: byte) = n"
  by (simp add: unsigned_of_nat take_bit_nat_eq_self)

lemma all_bytes_blocks: "all_bytes = concat (map (\<lambda>w. map (\<lambda>b. of_nat (w * 64 + b)) [0..<64]) [0..<4])"
proof -
  have "[0..<256] = concat (map (\<lambda>w. map (\<lambda>b. w * 64 + b) [0..<64]) [0..<4])" by code_simp
  then have "all_bytes = map of_nat (concat (map (\<lambda>w. map (\<lambda>b. w * 64 + b) [0..<64]) [0..<4]))"
    by (simp only: all_bytes_def)
  then show ?thesis by (simp only: map_concat map_map comp_def)
qed

lemma sorted_all_bytes: "sorted_wrt (<) all_bytes"
  by (auto simp: all_bytes_def sorted_wrt_map word_less_nat_alt unat_of_nat_byte
      intro!: sorted_wrt_mono_rel [OF _ sorted_wrt_upt])

lemma set_all_bytes: "set all_bytes = UNIV"
proof -
  have "c \<in> set all_bytes" for c
    using unat_byte_less [of c] by (auto simp: all_bytes_def intro!: image_eqI [of _ _ "unat c"])
  then show ?thesis by auto
qed

lemma present_bytes_eq: "present_bytes ws = filter (has ws) all_bytes"
proof -
  have blk: "map (\<lambda>bit. of_nat (w * 64 + bit)) (bits_asc (ws ! w)) =
      filter (has ws) (map (\<lambda>b. of_nat (w * 64 + b)) [0..<64])" if "w < 4" for w
  proof -
    have "has ws (of_nat (w * 64 + b)) = bit (ws ! w) b" if "b < 64" for b
    proof -
      have u: "unat (of_nat (w * 64 + b) :: byte) = w * 64 + b"
        using \<open>w < 4\<close> that by (intro unat_of_nat_byte) simp
      show ?thesis unfolding has_def u using that by simp
    qed
    then show ?thesis
      by (auto simp: bits_asc_eq filter_map comp_def intro!: arg_cong [of _ _ "map _"] filter_cong)
  qed
  show ?thesis
    unfolding present_bytes_def all_bytes_blocks filter_concat map_map comp_def
    by (intro arg_cong [of _ _ concat] map_cong [OF refl] blk) simp
qed

lemma present_bytes_props:
  "set (present_bytes ws) = {c. has ws c}" "sorted_wrt (<) (present_bytes ws)"
  "length (present_bytes ws) = card {c. has ws c}"
proof -
  show s: "set (present_bytes ws) = {c. has ws c}" by (simp add: present_bytes_eq set_all_bytes)
  show t: "sorted_wrt (<) (present_bytes ws)"
    unfolding present_bytes_eq by (rule sorted_wrt_filter [OF sorted_all_bytes])
  then have "distinct (present_bytes ws)" by (simp add: strict_sorted_iff)
  then show "length (present_bytes ws) = card {c. has ws c}" by (metis s distinct_card)
qed

lemma byte_div_mod: "unat (c :: byte) div 64 = unat d div 64 \<Longrightarrow> unat c mod 64 = unat d mod 64 \<Longrightarrow> c = d"
  by (metis div_mult_mod_eq unat_byte_eq)

lemma byte_div_less: "unat (c :: byte) div 64 < 4"
  using unat_byte_less [of c] by (simp add: div_less_iff_less_mult)

lemma has_present_set: "length ws = 4 \<Longrightarrow> has (present_set ws c) d \<longleftrightarrow> d = c \<or> has ws d"
  using byte_div_less [of c] byte_div_mod [of c d]
  by (auto simp: has_def present_set_def nth_list_update bit_simps)

lemma has_present_clear: "length ws = 4 \<Longrightarrow> has (present_clear ws c) d \<longleftrightarrow> d \<noteq> c \<and> has ws d"
  using byte_div_less [of c] byte_div_mod [of c d]
  by (auto simp: has_def present_clear_def nth_list_update bit_simps)

lemma length_present [simp]:
  "length (present_set ws c) = length ws" "length (present_clear ws c) = length ws"
  by (simp_all add: present_set_def present_clear_def)

definition n256_inv :: "'c node256 \<Rightarrow> bool" where
  "n256_inv nd \<longleftrightarrow>
     length (present nd) = 4 \<and> length (children256 nd) = 256 \<and>
     (\<forall>c. has (present nd) c \<longleftrightarrow> children256 nd ! unat c \<noteq> None) \<and>
     num256 nd = card {c. has (present nd) c}"

definition slot256 :: "'c node256 \<Rightarrow> byte \<Rightarrow> nat option" where
  "slot256 nd c = (if nth_opt (children256 nd) (unat c) = None then None else Some (unat c))"

definition child256 :: "'c node256 \<Rightarrow> nat \<Rightarrow> 'c option" where "child256 nd i = nth_opt (children256 nd) i"

definition set256 :: "'c node256 \<Rightarrow> nat \<Rightarrow> 'c option \<Rightarrow> 'c node256" where
  "set256 nd i x = Node256 (num256 nd) (present nd) ((children256 nd)[i := x])"

lemma n256_sel [simp]:
  "num256 (set256 nd i x) = num256 nd" "present (set256 nd i x) = present nd"
  "children256 (set256 nd i x) = (children256 nd)[i := x]"
  by (simp_all add: set256_def)

lemma map_of_range256:
  "map_of (range256 nd) c = (if has (present nd) c then Some (nth_opt (children256 nd) (unat c)) else None)"
  unfolding range256_def map_of_map_restrict by (simp add: restrict_map_def present_bytes_props)

lemma map_fst_range256: "map fst (range256 nd) = present_bytes (present nd)"
  by (simp add: range256_def comp_def)

lemma n256_sorted: "ksorted (range256 nd)"
  by (simp add: ksorted_def map_fst_range256 present_bytes_props)

lemma n256_nth: "n256_inv nd \<Longrightarrow> nth_opt (children256 nd) (unat (c :: byte)) = children256 nd ! unat c"
  by (simp add: nth_opt_def n256_inv_def)

lemma map_of_n256: "n256_inv nd \<Longrightarrow> map_of (range256 nd) c = map_option Some (children256 nd ! unat c)"
  by (auto simp: map_of_range256 n256_nth n256_inv_def)

lemma n256_kids_Some: "n256_inv nd \<Longrightarrow> (c, x) \<in> set (range256 nd) \<Longrightarrow> x \<noteq> None"
  by (auto simp: range256_def present_bytes_props n256_nth) (auto simp: n256_inv_def)

lemma n256_slot_None: "n256_inv nd \<Longrightarrow> slot256 nd c = None \<longleftrightarrow> map_of (range256 nd) c = None"
  by (simp add: slot256_def map_of_range256 n256_nth) (simp add: n256_inv_def)

lemma n256_slot_iff: "n256_inv nd \<Longrightarrow> slot256 nd c = Some i \<longleftrightarrow> has (present nd) c \<and> i = unat c"
  by (auto simp: slot256_def n256_nth) (auto simp: n256_inv_def)

lemma n256_slot_Some: "n256_inv nd \<Longrightarrow> slot256 nd c = Some i \<Longrightarrow> map_of (range256 nd) c = Some (child256 nd i)"
  by (simp add: n256_slot_iff map_of_range256 child256_def)

lemma findChild256_law:
  "n256_inv nd \<Longrightarrow> findChild256 nd c = (case slot256 nd c of None \<Rightarrow> None | Some i \<Rightarrow> child256 nd i)"
  by (simp add: findChild256_def slot256_def child256_def)

lemma n256_set_ok:
  assumes inv: "n256_inv nd" and s: "slot256 nd c = Some i"
  shows "n256_inv (set256 nd i (Some x)) \<and> range256 (set256 nd i (Some x)) = kv_set c (Some x) (range256 nd)"
proof -
  have c: "has (present nd) c" "i = unat c" using s inv by (simp_all add: n256_slot_iff)
  have i: "n256_inv (set256 nd i (Some x))"
    using inv c by (auto simp: n256_inv_def nth_upd_byte)
  have "range256 (set256 nd i (Some x)) = kv_set c (Some x) (range256 nd)"
  proof (rule ksorted_unique)
    have "children256 nd ! unat c \<noteq> None" "length (children256 nd) = 256"
      using inv c by (simp_all add: n256_inv_def)
    then show "map_of (range256 (set256 nd i (Some x))) = map_of (kv_set c (Some x) (range256 nd))"
      using c i by (auto simp: fun_eq_iff map_of_n256 map_of_kv_set map_of_n256 [OF inv] nth_upd_byte)
  qed (simp_all add: n256_sorted)
  with i show ?thesis ..
qed

lemma n256_add:
  assumes inv: "n256_inv nd" and s: "slot256 nd c = None"
  shows "n256_inv (addChild256 nd c (Some x)) \<and>
    range256 (addChild256 nd c (Some x)) = kv_ins c (Some x) (range256 nd)"
proof -
  let ?nd = "addChild256 nd c (Some x)"
  have c: "\<not> has (present nd) c" using n256_slot_iff [OF inv, of c "unat c"] s by simp
  have h: "has (present ?nd) d \<longleftrightarrow> d = c \<or> has (present nd) d" for d
    using inv by (simp add: addChild256_def n256_inv_def has_present_set)
  have "{d. has (present ?nd) d} = insert c {d. has (present nd) d}" by (auto simp: h)
  then have "card {d. has (present ?nd) d} = Suc (card {d. has (present nd) d})" using c by simp
  then have n: "num256 ?nd = card {d. has (present ?nd) d}" using inv by (simp add: n256_inv_def addChild256_def)
  have ch: "children256 ?nd ! unat d = (if d = c then Some x else children256 nd ! unat d)" for d
    using inv by (simp add: addChild256_def n256_inv_def nth_upd_byte)
  have "length (present ?nd) = 4" "length (children256 ?nd) = 256"
    using inv by (simp_all add: addChild256_def n256_inv_def)
  moreover have "has (present ?nd) d \<longleftrightarrow> children256 ?nd ! unat d \<noteq> None" for d
    unfolding h ch using inv by (auto simp: n256_inv_def)
  ultimately have i: "n256_inv ?nd" using n unfolding n256_inv_def by blast
  have "range256 ?nd = kv_ins c (Some x) (range256 nd)"
  proof (rule ksorted_unique)
    have cn: "c \<notin> fst ` set (range256 nd)"
      using c by (simp add: map_fst_range256 present_bytes_props flip: set_map)
    then show "ksorted (kv_ins c (Some x) (range256 nd))" by (intro ksorted_kv_ins n256_sorted)
    show "map_of (range256 ?nd) = map_of (kv_ins c (Some x) (range256 nd))"
      unfolding map_of_kv_ins [OF cn] by (auto simp: fun_eq_iff map_of_n256 [OF i] map_of_n256 [OF inv] ch)
  qed (rule n256_sorted)
  with i show ?thesis ..
qed

lemma n256_remove:
  assumes inv: "n256_inv nd" and s: "slot256 nd c = Some i"
  shows "n256_inv (removeChild256 (set256 nd i None) c) \<and>
    range256 (removeChild256 (set256 nd i None) c) = kv_del c (range256 nd)"
proof -
  let ?nd = "removeChild256 (set256 nd i None) c"
  have c: "has (present nd) c" "i = unat c" using s inv by (simp_all add: n256_slot_iff)
  have h: "has (present ?nd) d \<longleftrightarrow> d \<noteq> c \<and> has (present nd) d" for d
    using inv by (simp add: removeChild256_def n256_inv_def has_present_clear)
  have "{d. has (present ?nd) d} = {d. has (present nd) d} - {c}" by (auto simp: h)
  then have "card {d. has (present ?nd) d} = card {d. has (present nd) d} - 1" using c by simp
  then have n: "num256 ?nd = card {d. has (present ?nd) d}" using inv by (simp add: n256_inv_def removeChild256_def)
  have ch: "children256 ?nd ! unat d = (if d = c then None else children256 nd ! unat d)" for d
    using inv c by (simp add: removeChild256_def n256_inv_def nth_upd_byte)
  have "length (present ?nd) = 4" "length (children256 ?nd) = 256"
    using inv by (simp_all add: removeChild256_def n256_inv_def)
  moreover have "has (present ?nd) d \<longleftrightarrow> children256 ?nd ! unat d \<noteq> None" for d
    unfolding h ch using inv by (auto simp: n256_inv_def)
  ultimately have i: "n256_inv ?nd" using n unfolding n256_inv_def by blast
  have "range256 ?nd = kv_del c (range256 nd)"
  proof (rule ksorted_unique)
    show "ksorted (kv_del c (range256 nd))" by (intro ksorted_kv_del n256_sorted)
    show "map_of (range256 ?nd) = map_of (kv_del c (range256 nd))"
      by (auto simp: fun_eq_iff map_of_kv_del map_of_n256 [OF i] map_of_n256 [OF inv] ch)
  qed (rule n256_sorted)
  with i show ?thesis ..
qed

interpretation n256: art_node n256_inv range256 findChild256 slot256 child256 set256
  "\<lambda>_. True" addChild256 "\<lambda>nd c i. removeChild256 nd c"
  by unfold_locales (rule n256_sorted | erule (1) n256_kids_Some | erule n256_slot_None
    | erule (1) n256_slot_Some | erule findChild256_law | erule (1) n256_set_ok | erule (1) n256_add
    | erule (1) n256_remove)+

section \<open>Conversions keep the children\<close>

text \<open>A node48 whose slot \<open>i\<close> belongs to its \<open>i\<close>-th byte, as growing and shrinking build it.\<close>

definition packed48 :: "bytes \<Rightarrow> 'c option list \<Rightarrow> 'c node48 \<Rightarrow> bool" where
  "packed48 bs cs nd \<longleftrightarrow>
     sorted48 nd = bs @ replicate (48 - length bs) 0 \<and> length (index48 nd) = 256 \<and>
     children48 nd = cs @ replicate (48 - length bs) None \<and> length cs = length bs \<and> length bs \<le> 48 \<and>
     (\<forall>c. idx48 nd c = (case key_slot c bs (length bs) of None \<Rightarrow> 0 | Some i \<Rightarrow> Suc i))"

lemma packed48_ok:
  assumes p: "packed48 bs cs nd" and n: "num48 nd = length bs" and s: "sorted_wrt (<) bs"
    and cs: "None \<notin> set cs" and free: "\<forall>s. bit (free48 nd) s \<longleftrightarrow> length bs \<le> s \<and> s < 48"
  shows "n48_inv nd \<and> range48 nd = zip bs cs"
proof -
  have bs: "n48_bytes nd = bs" using p n by (simp add: n48_bytes_def packed48_def)
  have d: "length (sorted48 nd) = 48" "length (index48 nd) = 256" "length (children48 nd) = 48" "length cs = length bs" "length bs \<le> 48"
    using p by (auto simp: packed48_def)
  have i: "idx48 nd c = Suc j \<longleftrightarrow> j < length bs \<and> bs ! j = c" for c j
    using p key_slot_Some [of c bs "length bs" j] sorted_key_slot [of "length bs" bs j] s
    by (auto simp: packed48_def split: option.splits)
  have z: "idx48 nd c \<noteq> 0 \<longleftrightarrow> c \<in> set bs" for c
    using p by (auto simp: packed48_def key_slot_None split: option.splits dest: key_slot_Some)
  have ch: "children48 nd ! j = cs ! j" if "j < length bs" for j
    using p that by (simp add: packed48_def nth_append)
  have "n48_inv nd"
    unfolding n48_inv_def bs
  proof (intro conjI allI impI d s)
    show "num48 nd \<le> 48" using n d by simp
    fix c e t
    show "(idx48 nd c \<noteq> 0) = (c \<in> set bs)" by (rule z)
    show "idx48 nd c \<le> 48" using i [of c "idx48 nd c - 1"] d(5) by (cases "idx48 nd c") auto
    show "c = e" if "idx48 nd c = idx48 nd e" "idx48 nd c \<noteq> 0"
      using that i [of c "idx48 nd c - 1"] i [of e "idx48 nd c - 1"] by simp
    show "bit (free48 nd) t = (t < 48 \<and> (\<forall>c. idx48 nd c \<noteq> Suc t))" using free i [of _ t] by auto
    show "children48 nd ! (idx48 nd c - 1) \<noteq> None" if "idx48 nd c \<noteq> 0"
      using that i [of c "idx48 nd c - 1"] ch [of "idx48 nd c - 1"] cs d(4)
      by (metis Suc_pred' gr0I nth_mem)
  qed
  moreover have "range48 nd = zip bs cs"
  proof (rule nth_equalityI)
    fix j assume "j < length (range48 nd)"
    then have j: "j < length bs" by (simp add: range48_def n48_bytes_def [symmetric] bs)
    then have "idx48 nd (bs ! j) = Suc j" by (simp add: i)
    then show "range48 nd ! j = zip bs cs ! j"
      using j d ch [OF j] by (simp add: range48_def n48_bytes_def [symmetric] bs nth_opt_def)
  qed (use d in \<open>simp add: range48_def n48_bytes_def [symmetric] bs\<close>)
  ultimately show ?thesis ..
qed

lemma find_append: "find P (xs @ ys) = (case find P xs of None \<Rightarrow> find P ys | Some x \<Rightarrow> Some x)"
  by (induction xs) auto

lemma key_slot_snoc:
  "key_slot c (bs @ [b]) (Suc (length bs)) =
     (case key_slot c bs (length bs) of Some i \<Rightarrow> Some i | None \<Rightarrow> if b = c then Some (length bs) else None)"
proof -
  have "find (\<lambda>i. (bs @ [b]) ! i = c) [0..<length bs] = find (\<lambda>i. bs ! i = c) [0..<length bs]"
    by (intro find_cong) (auto simp: nth_append)
  then show ?thesis by (auto simp: key_slot_def find_append split: option.splits)
qed

lemma packed48_snoc:
  assumes p: "packed48 bs cs nd" and b: "b \<notin> set bs" and l: "length bs < 48"
  shows "packed48 (bs @ [b]) (cs @ [x])
    (Node48 m f ((sorted48 nd)[length bs := b]) ((index48 nd)[unat b := Suc (length bs)]) ((children48 nd)[length bs := x]))"
proof -
  have r: "(ys @ replicate (48 - length ys) z)[length ys := y] = (ys @ [y]) @ replicate (48 - length (ys @ [y])) z"
    if "length ys < 48" for ys :: "'x list" and z y
  proof -
    have "48 - length ys = Suc (48 - length (ys @ [y]))" using that by simp
    then show ?thesis by simp
  qed
  have rc: "(cs @ replicate (48 - length bs) None)[length bs := x] = (cs @ [x]) @ replicate (48 - length (bs @ [b])) None"
    using r [of cs None x] p l by (simp add: packed48_def)
  have "key_slot b bs (length bs) = None" using b by (simp add: key_slot_None)
  then show ?thesis
    using p l r [of bs 0 b] rc by (auto simp: packed48_def key_slot_snoc nth_upd_byte split: option.splits)
qed

lemma grow16_packed:
  fixes nd :: "'c narr" and f :: u64 and n :: nat
  assumes inv: "narr_inv 16 nd" and m: "m \<le> num nd"
  defines "st \<equiv> \<lambda>m. fold (grow16_step nd) [0..<m] (Node48 n f (replicate 48 0) (replicate 256 0) (replicate 48 None))"
  shows "packed48 (take m (keys nd)) (take m (children nd)) (st m) \<and> num48 (st m) = n \<and> free48 (st m) = f"
  using m
proof (induction m)
  case 0
  show ?case by (simp add: st_def packed48_def key_slot_def)
next
  case (Suc m)
  note d = narr_dims [OF inv]
  have st: "st (Suc m) = grow16_step nd m (st m)" by (simp add: st_def)
  have l: "length (take m (keys nd)) = m" "m < 48" using Suc.prems d by simp_all
  have "distinct (take (num nd) (keys nd))" using d(4) by (simp add: strict_sorted_iff)
  then have "keys nd ! m \<notin> set (take m (keys nd))"
    using Suc.prems d by (auto simp: in_set_conv_nth distinct_conv_nth)
  from packed48_snoc [OF _ this, of "take m (children nd)" "st m" "children nd ! m" n f] Suc l d
  show ?case unfolding st by (simp add: grow16_step_def take_Suc_conv_app_nth)
qed

lemma grow16_ok:
  assumes inv: "narr_inv 16 nd"
  shows "n48_inv (grow16 nd) \<and> range48 (grow16 nd) = range_arr nd \<and> num48 (grow16 nd) = num nd"
proof -
  note d = narr_dims [OF inv] and p = grow16_packed [OF inv order_refl, of "num nd" "mask 48 AND NOT (mask (num nd))"]
  have l: "length (take (num nd) (keys nd)) = num nd" using d by simp
  have "n48_inv (grow16 nd) \<and> range48 (grow16 nd) = zip (take (num nd) (keys nd)) (take (num nd) (children nd))"
    using p d unfolding grow16_def
    by (intro packed48_ok) (auto simp: bit_simps)
  then show ?thesis using p by (simp add: range_arr_def grow16_def)
qed

lemma shrink48_fold:
  fixes nd :: "'c node48"
  assumes "m \<le> 16"
  defines "st \<equiv> \<lambda>m. fold (shrink48_step nd) [0..<m] (NArr (num48 nd) (replicate 16 0) (replicate 16 None))"
  shows "num (st m) = num48 nd \<and>
    keys (st m) = map (\<lambda>i. sorted48 nd ! i) [0..<m] @ replicate (16 - m) 0 \<and>
    children (st m) = map (\<lambda>i. nth_opt (children48 nd) (idx48 nd (sorted48 nd ! i) - 1)) [0..<m] @ replicate (16 - m) None"
  using assms(1)
proof (induction m)
  case 0
  show ?case by (simp add: st_def)
next
  case (Suc m)
  have st: "st (Suc m) = shrink48_step nd m (st m)" by (simp add: st_def)
  have r: "(map g [0..<m] @ replicate (16 - m) z)[m := g m] = map g [0..<Suc m] @ replicate (16 - Suc m) z"
    for g :: "nat \<Rightarrow> 'x" and z
  proof -
    have "16 - m = Suc (16 - Suc m)" using Suc.prems by simp
    then show ?thesis by (simp add: list_update_append)
  qed
  show ?case
    unfolding st using Suc r [of "(!) (sorted48 nd)" 0]
      r [of "\<lambda>i. nth_opt (children48 nd) (idx48 nd (sorted48 nd ! i) - 1)" None]
    by (simp add: shrink48_step_def Let_def del: upt_Suc)
qed

lemma shrink48_ok:
  assumes inv: "n48_inv nd" and n: "num48 nd \<le> 16"
  shows "narr_inv 16 (shrink48 nd) \<and> range_arr (shrink48 nd) = range48 nd \<and> num (shrink48 nd) = num48 nd"
proof -
  note d = n48_dims [OF inv] and f = shrink48_fold [OF n, of nd]
  have bs: "map ((!) (sorted48 nd)) [0..<num48 nd] = n48_bytes nd"
    using d by (intro nth_equalityI) (auto simp: n48_bytes_def)
  have cs: "map (\<lambda>i. nth_opt (children48 nd) (idx48 nd (sorted48 nd ! i) - 1)) [0..<num48 nd] =
      map (\<lambda>b. nth_opt (children48 nd) (idx48 nd b - 1)) (n48_bytes nd)"
    unfolding bs [symmetric] by simp
  have l: "length (n48_bytes nd) = num48 nd" using d by (simp add: n48_bytes_def)
  have k: "keys (shrink48 nd) = n48_bytes nd @ replicate (16 - num48 nd) 0"
    using f bs by (simp add: shrink48_def)
  have ch: "children (shrink48 nd) = map (\<lambda>b. nth_opt (children48 nd) (idx48 nd b - 1)) (n48_bytes nd) @ replicate (16 - num48 nd) None"
    using f cs by (simp add: shrink48_def)
  have num: "num (shrink48 nd) = num48 nd" using f by (simp add: shrink48_def)
  have r: "range_arr (shrink48 nd) = range48 nd"
    unfolding range_arr_def num k ch using l
    by (simp add: range48_def n48_bytes_def [symmetric] zip_map2 map_zip_map2 zip_same_conv_map)
  have "None \<notin> snd ` set (range48 nd)" using n48_kids_Some [OF inv] by force
  moreover have "map snd (range48 nd) = take (num48 nd) (children (shrink48 nd))"
    unfolding ch using l by (simp add: range48_def n48_bytes_def [symmetric])
  ultimately have "None \<notin> set (take (num48 nd) (children (shrink48 nd)))" by (metis list.set_map)
  then have "narr_inv 16 (shrink48 nd)" using d l n num by (simp add: narr_inv_def k ch)
  with r num show ?thesis by simp
qed

lemma grow48_fold:
  fixes nd :: "'c node48"
  assumes inv: "n48_inv nd" and m: "m \<le> num48 nd"
  defines "st \<equiv> \<lambda>m. fold (grow48_step nd) [0..<m] (Node256 (num48 nd) (replicate 4 0) (replicate 256 None))"
  shows "num256 (st m) = num48 nd \<and> length (present (st m)) = 4 \<and> length (children256 (st m)) = 256 \<and>
    (\<forall>c. has (present (st m)) c \<longleftrightarrow> c \<in> set (take m (sorted48 nd))) \<and>
    (\<forall>c. children256 (st m) ! unat c =
       (if c \<in> set (take m (sorted48 nd)) then nth_opt (children48 nd) (idx48 nd c - 1) else None))"
  using m
proof (induction m)
  case 0
  have "replicate 4 (0 :: u64) ! (unat (c :: byte) div 64) = 0" for c
    using byte_div_less [of c] by simp
  then show ?case by (simp add: st_def has_def)
next
  case (Suc m)
  have st: "st (Suc m) = grow48_step nd m (st m)" by (simp add: st_def)
  have t: "set (take (Suc m) (sorted48 nd)) = insert (sorted48 nd ! m) (set (take m (sorted48 nd)))"
    using Suc.prems n48_dims [OF inv] by (simp add: take_Suc_conv_app_nth)
  show ?case unfolding st t using Suc by (simp add: grow48_step_def Let_def has_present_set nth_upd_byte)
qed

lemma grow48_ok:
  assumes inv: "n48_inv nd"
  shows "n256_inv (grow48 nd) \<and> range256 (grow48 nd) = range48 nd \<and> num256 (grow48 nd) = num48 nd"
proof -
  note d = n48_dims [OF inv] and f = grow48_fold [OF inv order_refl, folded grow48_def n48_bytes_def]
  have some: "nth_opt (children48 nd) (idx48 nd c - 1) \<noteq> None" if "c \<in> set (n48_bytes nd)" for c
    using that n48_kids_Some [OF inv, of c] by (auto simp: range48_def n48_bytes_def)
  have "{c. has (present (grow48 nd)) c} = set (n48_bytes nd)" using f by simp
  moreover have "card (set (n48_bytes nd)) = num48 nd"
    using d by (simp add: n48_bytes_def strict_sorted_iff distinct_card)
  ultimately have i: "n256_inv (grow48 nd)"
    using f some by (auto simp: n256_inv_def)
  have "range256 (grow48 nd) = range48 nd"
  proof (rule ksorted_unique)
    have "map_of (range256 (grow48 nd)) c = map_of (range48 nd) c" for c
    proof (cases "c \<in> set (n48_bytes nd)")
      case True
      then obtain z where "nth_opt (children48 nd) (idx48 nd c - 1) = Some z" using some by blast
      with True f show ?thesis by (simp add: map_of_n256 [OF i] map_of_range48)
    qed (use f in \<open>simp add: map_of_n256 [OF i] map_of_range48\<close>)
    then show "map_of (range256 (grow48 nd)) = map_of (range48 nd)" by blast
  qed (simp_all add: n256_sorted n48_sorted [OF inv])
  with i f show ?thesis by simp
qed

lemma shrink256_fold:
  fixes nd :: "'c node256"
  assumes "distinct bs" "length bs \<le> 48"
  defines "st \<equiv> \<lambda>bs. fold (shrink256_step nd) bs (Node48 0 (mask 48) (replicate 48 0) (replicate 256 0) (replicate 48 None))"
  shows "packed48 bs (map (\<lambda>b. nth_opt (children256 nd) (unat b)) bs) (st bs) \<and> num48 (st bs) = length bs \<and>
    (\<forall>s. bit (free48 (st bs)) s \<longleftrightarrow> length bs \<le> s \<and> s < 48)"
  using assms(1,2)
proof (induction bs rule: rev_induct)
  case Nil
  show ?case by (auto simp: st_def packed48_def key_slot_def bit_simps)
next
  case (snoc b bs)
  have st: "st (bs @ [b]) = shrink256_step nd b (st bs)" by (simp add: st_def)
  have IH: "packed48 bs (map (\<lambda>b. nth_opt (children256 nd) (unat b)) bs) (st bs)" "num48 (st bs) = length bs"
      "\<forall>s. bit (free48 (st bs)) s \<longleftrightarrow> length bs \<le> s \<and> s < 48"
    using snoc by auto
  have "packed48 (bs @ [b]) (map (\<lambda>b. nth_opt (children256 nd) (unat b)) bs @ [nth_opt (children256 nd) (unat b)])
      (shrink256_step nd b (st bs))"
    unfolding shrink256_step_def Let_def IH(2) Suc_eq_plus1 [symmetric]
    using snoc.prems by (intro packed48_snoc IH) auto
  moreover have "bit (free48 (shrink256_step nd b (st bs))) s \<longleftrightarrow> length (bs @ [b]) \<le> s \<and> s < 48" for s
  proof -
    have "free48 (shrink256_step nd b (st bs)) = unset_bit (length bs) (free48 (st bs))"
      by (simp add: shrink256_step_def Let_def IH(2))
    then have "bit (free48 (shrink256_step nd b (st bs))) s \<longleftrightarrow> bit (free48 (st bs)) s \<and> s \<noteq> length bs"
      by (auto simp: bit_unset_bit_iff)
    then show ?thesis using IH(3) [rule_format, of s] by auto
  qed
  moreover have "num48 (shrink256_step nd b (st bs)) = length (bs @ [b])"
    using IH by (simp add: shrink256_step_def Let_def)
  ultimately show ?case unfolding st by simp
qed

lemma shrink256_ok:
  assumes inv: "n256_inv nd" and n: "num256 nd \<le> 48"
  shows "n48_inv (shrink256 nd) \<and> range48 (shrink256 nd) = range256 nd \<and> num48 (shrink256 nd) = num256 nd"
proof -
  let ?bs = "present_bytes (present nd)"
  let ?cs = "map (\<lambda>b. nth_opt (children256 nd) (unat b)) ?bs"
  have s: "sorted_wrt (<) ?bs" by (rule present_bytes_props)
  then have "distinct ?bs" by (simp add: strict_sorted_iff)
  moreover have l: "length ?bs = num256 nd" using inv by (simp add: n256_inv_def present_bytes_props)
  ultimately have f: "packed48 ?bs ?cs (shrink256 nd)" "num48 (shrink256 nd) = length ?bs"
      "\<forall>s. bit (free48 (shrink256 nd)) s \<longleftrightarrow> length ?bs \<le> s \<and> s < 48"
    using shrink256_fold [of ?bs nd] n by (simp_all add: shrink256_def)
  have "None \<notin> set ?cs" using n256_kids_Some [OF inv] by (force simp: range256_def)
  from packed48_ok [OF f(1,2) s this f(3)] f l show ?thesis
    by (simp add: range256_def zip_map2 map_zip_map2 zip_same_conv_map)
qed

section \<open>The four containers together\<close>

datatype 'c body = B4 "'c narr" | B16 "'c narr" | B48 "'c node48" | B256 "'c node256"

text \<open>\<open>rangeChildren\<close> and \<open>findChild\<close> of the interface \<open>artNode\<close>.\<close>

primrec kids :: "'c body \<Rightarrow> (byte \<times> 'c option) list" where
  "kids (B4 nd) = range_arr nd"
| "kids (B16 nd) = range_arr nd"
| "kids (B48 nd) = range48 nd"
| "kids (B256 nd) = range256 nd"

primrec findChild :: "'c body \<Rightarrow> byte \<Rightarrow> 'c option" where
  "findChild (B4 nd) c = findChild4 nd c"
| "findChild (B16 nd) c = findChild16 nd c"
| "findChild (B48 nd) c = findChild48 nd c"
| "findChild (B256 nd) c = findChild256 nd c"

text \<open>The slot of an existing child, as \<open>putInner*\<close> and \<open>delInner*\<close> look it up.\<close>

primrec slot :: "'c body \<Rightarrow> byte \<Rightarrow> nat option" where
  "slot (B4 nd) c = slot_arr nd c"
| "slot (B16 nd) c = slot_arr nd c"
| "slot (B48 nd) c = slot48 nd c"
| "slot (B256 nd) c = slot256 nd c"

primrec child_at :: "'c body \<Rightarrow> nat \<Rightarrow> 'c option" where
  "child_at (B4 nd) i = child_arr nd i"
| "child_at (B16 nd) i = child_arr nd i"
| "child_at (B48 nd) i = child48 nd i"
| "child_at (B256 nd) i = child256 nd i"

primrec set_child :: "'c body \<Rightarrow> nat \<Rightarrow> 'c option \<Rightarrow> 'c body" where
  "set_child (B4 nd) i x = B4 (set_arr nd i x)"
| "set_child (B16 nd) i x = B16 (set_arr nd i x)"
| "set_child (B48 nd) i x = B48 (set48 nd i x)"
| "set_child (B256 nd) i x = B256 (set256 nd i x)"

text \<open>Adding a child for a new byte, moving to the next larger container when full.\<close>

primrec add_or_grow :: "'c body \<Rightarrow> byte \<Rightarrow> 'c option \<Rightarrow> 'c body" where
  "add_or_grow (B4 nd) c x =
     (if num nd < 4 then B4 (addChild_arr nd c x) else B16 (addChild_arr (grow4 nd) c x))"
| "add_or_grow (B16 nd) c x =
     (if num nd < 16 then B16 (addChild_arr nd c x) else B48 (addChild48 (grow16 nd) c x))"
| "add_or_grow (B48 nd) c x =
     (if num48 nd < 48 then B48 (addChild48 nd c x) else B256 (addChild256 (grow48 nd) c x))"
| "add_or_grow (B256 nd) c x = B256 (addChild256 nd c x)"

text \<open>Removing the child in a slot that has been emptied, moving to the next smaller container.\<close>

primrec remove_shrink :: "'c body \<Rightarrow> byte \<Rightarrow> nat \<Rightarrow> 'c body" where
  "remove_shrink (B4 nd) c i = B4 (removeChildAt nd i)"
| "remove_shrink (B16 nd) c i =
     (let nd' = removeChildAt nd i in if num nd' \<le> 4 then B4 (shrink16 nd') else B16 nd')"
| "remove_shrink (B48 nd) c i =
     (let nd' = removeChild48 nd c i in if num48 nd' \<le> 16 then B16 (shrink48 nd') else B48 nd')"
| "remove_shrink (B256 nd) c i =
     (let nd' = removeChild256 nd c in if num256 nd' \<le> 48 then B48 (shrink256 nd') else B256 nd')"

text \<open>Each container is well formed and too full for the next smaller one.\<close>

primrec body_inv :: "'c body \<Rightarrow> bool" where
  "body_inv (B4 nd) = narr_inv 4 nd"
| "body_inv (B16 nd) = (narr_inv 16 nd \<and> 4 < num nd)"
| "body_inv (B48 nd) = (n48_inv nd \<and> 16 < num48 nd)"
| "body_inv (B256 nd) = (n256_inv nd \<and> 48 < num256 nd)"

lemmas copy_ok = copy_narr_ok [of 4 _ 16] copy_narr_ok [of 16 _ 4]

lemma n48_num: "n48_inv nd \<Longrightarrow> num48 nd = length (range48 nd)"
  by (simp add: range48_def n48_dims)

lemma n256_num: "n256_inv nd \<Longrightarrow> num256 nd = length (range256 nd)"
  by (simp add: range256_def n256_inv_def present_bytes_props)

lemma body_add:
  assumes inv: "body_inv b" and s: "slot b c = None"
  shows "body_inv (add_or_grow b c (Some x)) \<and> kids (add_or_grow b c (Some x)) = kv_ins c (Some x) (kids b)"
proof (cases b)
  case (B4 nd)
  then have i: "narr_inv 4 nd" "slot_arr nd c = None" using inv s by simp_all
  show ?thesis
  proof (cases "num nd < 4")
    case True
    then show ?thesis using n4.add_law [OF i(1) _ i(2)] B4 by simp
  next
    case False
    have g: "narr_inv 16 (grow4 nd)" "range_arr (grow4 nd) = range_arr nd" "num (grow4 nd) = num nd"
      using copy_ok(1) [of nd] i narr_dims [OF i(1)] by (simp_all add: grow4_def)
    then have "slot_arr (grow4 nd) c = None" using n16.slot_None n4.slot_None i by metis
    from n16.add_law [OF g(1) _ this] g narr_dims [OF i(1)] B4 False show ?thesis
      by (simp add: addChild_arr_def Let_def)
  qed
next
  case (B16 nd)
  then have i: "narr_inv 16 nd" "slot_arr nd c = None" "4 < num nd" using inv s by simp_all
  show ?thesis
  proof (cases "num nd < 16")
    case True
    then show ?thesis using n16.add_law [OF i(1) _ i(2)] B16 i by (simp add: addChild_arr_def Let_def)
  next
    case False
    note g = grow16_ok [OF i(1)]
    then have "slot48 (grow16 nd) c = None" using n48.slot_None n16.slot_None i by metis
    from n48.add_law [OF _ _ this] g narr_dims [OF i(1)] B16 False show ?thesis
      by (simp add: addChild48_def Let_def)
  qed
next
  case (B48 nd)
  then have i: "n48_inv nd" "slot48 nd c = None" "16 < num48 nd" using inv s by simp_all
  show ?thesis
  proof (cases "num48 nd < 48")
    case True
    then show ?thesis using n48.add_law [OF i(1) _ i(2)] B48 i by (simp add: addChild48_def Let_def)
  next
    case False
    note g = grow48_ok [OF i(1)]
    then have "slot256 (grow48 nd) c = None" using n256.slot_None n48.slot_None i by metis
    from n256.add_law [OF _ _ this] g B48 False show ?thesis by (simp add: addChild256_def)
  qed
next
  case (B256 nd)
  then have i: "n256_inv nd" "slot256 nd c = None" "48 < num256 nd" using inv s by simp_all
  show ?thesis using n256.add_law [OF i(1) TrueI i(2)] B256 i by (simp add: addChild256_def)
qed

lemma body_remove:
  assumes inv: "body_inv b" and s: "slot b c = Some i"
  shows "body_inv (remove_shrink (set_child b i None) c i) \<and>
    kids (remove_shrink (set_child b i None) c i) = kv_del c (kids b)"
proof (cases b)
  case (B4 nd)
  then show ?thesis using n4.remove_law [of nd c i] inv s by simp
next
  case (B16 nd)
  let ?nd = "removeChildAt (set_arr nd i None) i"
  have r: "narr_inv 16 ?nd" "range_arr ?nd = kv_del c (range_arr nd)"
    using n16.remove_law [of nd c i] inv s B16 by simp_all
  show ?thesis using r B16 copy_ok(2) [OF r(1)] by (simp add: Let_def shrink16_def)
next
  case (B48 nd)
  let ?nd = "removeChild48 (set48 nd i None) c i"
  have r: "n48_inv ?nd" "range48 ?nd = kv_del c (range48 nd)"
    using n48.remove_law [of nd c i] inv s B48 by simp_all
  have "num48 nd - 1 \<le> num48 ?nd" by (simp add: removeChild48_def Let_def)
  then show ?thesis using r B48 inv shrink48_ok [OF r(1)] by (auto simp: Let_def)
next
  case (B256 nd)
  let ?nd = "removeChild256 (set256 nd i None) c"
  have r: "n256_inv ?nd" "range256 ?nd = kv_del c (range256 nd)"
    using n256.remove_law [of nd c i] inv s B256 by simp_all
  have "num256 nd - 1 \<le> num256 ?nd" by (simp add: removeChild256_def)
  then show ?thesis using r B256 inv shrink256_ok [OF r(1)] by (auto simp: Let_def)
qed

lemma body_set:
  assumes "body_inv b" and "slot b c = Some i"
  shows "body_inv (set_child b i (Some x)) \<and> kids (set_child b i (Some x)) = kv_set c (Some x) (kids b)"
proof (cases b)
  case (B4 nd) with assms n4.set_law [of nd c i x] show ?thesis by simp
next
  case (B16 nd) with assms n16.set_law [of nd c i x] show ?thesis by simp
next
  case (B48 nd) with assms n48.set_law [of nd c i x] show ?thesis by simp
next
  case (B256 nd) with assms n256.set_law [of nd c i x] show ?thesis by simp
qed

lemma body_kids_Some:
  assumes "body_inv b" and "(c, ch) \<in> set (kids b)" shows "ch \<noteq> None"
  using assms n4.kids_Some [of _ c ch] n16.kids_Some [of _ c ch] n48.kids_Some [of _ c ch]
    n256.kids_Some [of _ c ch]
  by (cases b) auto

interpretation body: art_node body_inv kids findChild slot child_at set_child "\<lambda>_. True" add_or_grow remove_shrink
proof (unfold_locales, goal_cases)
  case (1 b) then show ?case by (cases b) (simp_all add: n4.kids_sorted n16.kids_sorted n48.kids_sorted n256.kids_sorted)
next
  case (2 b) then show ?case by (rule body_kids_Some)
next
  case (3 b) then show ?case by (cases b) (simp_all add: n4.slot_None n16.slot_None n48.slot_None n256.slot_None)
next
  case (4 b) then show ?case by (cases b) (simp_all add: n4.slot_Some n16.slot_Some n48.slot_Some n256.slot_Some)
next
  case (5 b) then show ?case by (cases b) (simp_all add: n4.find_law n16.find_law n48.find_law n256.find_law split: option.split)
qed (simp_all add: body_set body_add body_remove)

text \<open>Every child a lookup or the iteration returns is a component of the container.\<close>

lemma nth_opt_set: "nth_opt xs i = Some x \<Longrightarrow> Some x \<in> set xs"
  by (auto simp: nth_opt_def split: if_splits) (metis nth_mem)

lemma in_narr: "Some x \<in> set (children nd) \<Longrightarrow> x \<in> set_narr nd"
  by (cases nd) force

lemma in_node48: "Some x \<in> set (children48 nd) \<Longrightarrow> x \<in> set_node48 nd"
  by (cases nd) force

lemma in_node256: "Some x \<in> set (children256 nd) \<Longrightarrow> x \<in> set_node256 nd"
  by (cases nd) force

lemmas in_container = in_narr in_node48 in_node256

lemma child_in_body: "child_at b i = Some x \<Longrightarrow> x \<in> set_body b"
  by (cases b) (auto simp: child_arr_def child48_def child256_def dest!: nth_opt_set intro: in_container)

lemma find_in_body: "findChild b c = Some x \<Longrightarrow> x \<in> set_body b"
  by (cases b) (auto simp: findChild4_def findChild16_def findChild48_def findChild256_def Let_def
      split: option.splits if_splits dest!: nth_opt_set intro: in_container)

lemma kids_in_body: "(c, Some x) \<in> set (kids b) \<Longrightarrow> x \<in> set_body b"
proof (cases b)
  case (B4 nd)
  assume "(c, Some x) \<in> set (kids b)"
  with B4 show ?thesis by (auto simp: range_arr_def dest!: set_zip_rightD in_set_takeD intro: in_container)
next
  case (B16 nd)
  assume "(c, Some x) \<in> set (kids b)"
  with B16 show ?thesis by (auto simp: range_arr_def dest!: set_zip_rightD in_set_takeD intro: in_container)
qed (auto simp: range48_def range256_def dest!: nth_opt_set [OF sym] intro: in_container)

section \<open>Containers as sorted association lists\<close>

text \<open>
  Whatever container a node uses, adding a child for a new byte (growing from 4 to 16, 48 and
  256 slots when full) and removing one (shrinking back) do to its ordered list of children what
  insertion and removal do to a sorted association list, keep the container's invariant, and
  \<open>findChild\<close> finds exactly the children in the list.
\<close>

theorem containers_are_sorted_maps:
  fixes b :: "'c body"
  assumes "body_inv b"
  shows "(slot b c = None \<longrightarrow>
      body_inv (add_or_grow b c (Some x)) \<and> kids (add_or_grow b c (Some x)) = kv_ins c (Some x) (kids b)) \<and>
    (\<forall>i. slot b c = Some i \<longrightarrow>
      body_inv (remove_shrink (set_child b i None) c i) \<and>
      kids (remove_shrink (set_child b i None) c i) = kv_del c (kids b)) \<and>
    (findChild b c = Some x \<longleftrightarrow> (c, Some x) \<in> set (kids b))"
  using body.add_law [OF assms TrueI, of c x] body.remove_law [OF assms, of c] body.find_kid [OF assms, of c x] by blast

definition full_body :: "nat body" where
  "full_body = foldr (\<lambda>c b. add_or_grow b c (Some (unat c))) [7, 3, 9, 1] (B4 (new_narr 4))"

theorem containers_are_sorted_maps_witness:
  "kids full_body = [(1, Some 1), (3, Some 3), (7, Some 7), (9, Some 9)] \<and>
   kids (add_or_grow full_body 5 (Some 5)) = [(1, Some 1), (3, Some 3), (5, Some 5), (7, Some 7), (9, Some 9)] \<and>
   kids (remove_shrink (set_child full_body 1 None) 3 1) = [(1, Some 1), (7, Some 7), (9, Some 9)]"
proof -
  have f: "full_body = B4 (NArr 4 [1, 3, 7, 9] [Some 1, Some 3, Some 7, Some 9])" and k: "kids full_body = [(1, Some 1), (3, Some 3), (7, Some 7), (9, Some 9)]"
    and s: "slot full_body 5 = None" "slot full_body 3 = Some 1" by code_simp+
  have inv: "body_inv full_body" by (simp add: f narr_inv_def)
  show ?thesis
    using containers_are_sorted_maps [OF inv, of 5 5] containers_are_sorted_maps [OF inv, of 3 3] s
    by (simp add: k kv_del_def)
qed

end
