(* ===== verification/ArtTree.thy ===== *)
theory ArtTree
  imports ArtBody
begin

text \<open>
  Package \<open>art\<close>, the tree (src/art/tree.go): a path-compressed radix tree over byte-string keys
  whose inner nodes are the adaptive containers. A tree is given by its root, its size and its
  allocation state (the leaf slab, of which only the fill matters, and the arena all compressed
  prefixes are copied into). The four \<open>putInner*\<close> and the four \<open>delInner*\<close> functions share their
  treatment of the prefix and of a key that ends at the node verbatim; the model writes it once
  and dispatches on the container where they differ.
\<close>

section \<open>Data\<close>

datatype 'v node = Leaf "'v leaf" | Nd "'v inner" "'v node body"

record mem =
  slabLen :: nat
  slabPos :: nat
  prefixArena :: bytes

record 'v tree =
  root :: "'v node option"
  tsize :: int
  tmem :: mem

definition leafSlabSize :: nat where "leafSlabSize = 64"

definition zero_mem :: mem where "zero_mem = \<lparr>slabLen = 0, slabPos = 0, prefixArena = []\<rparr>"

definition zero_tree :: "'v tree" where "zero_tree = \<lparr>root = None, tsize = 0, tmem = zero_mem\<rparr>"

definition tree_Len :: "'v tree \<Rightarrow> int" where "tree_Len t = tsize t"

definition tree_Reset :: "'v tree \<Rightarrow> 'v tree" where "tree_Reset t = zero_tree"

definition PrefixArenaBytes :: "'v tree \<Rightarrow> nat" where
  "PrefixArenaBytes t = length (prefixArena (tmem t))"

section \<open>Allocation\<close>

definition arena_append :: "bytes \<Rightarrow> mem \<Rightarrow> mem" where
  "arena_append bs m = m\<lparr>prefixArena := prefixArena m @ bs\<rparr>"

definition allocPfxStr :: "bytes \<Rightarrow> nat \<Rightarrow> nat \<Rightarrow> mem \<Rightarrow> bytes \<times> mem" where
  "allocPfxStr key lo hi m =
     (if lo \<ge> hi then ([], m)
      else let base = length (prefixArena m); m = arena_append (slice key lo hi) m
           in (slice (prefixArena m) base (base + (hi - lo)), m))"

definition allocPfxBytes :: "bytes \<Rightarrow> mem \<Rightarrow> bytes \<times> mem" where
  "allocPfxBytes src m =
     (if length src = 0 then ([], m)
      else let base = length (prefixArena m); m = arena_append src m
           in (slice (prefixArena m) base (base + length src), m))"

definition allocPfxMerge :: "bytes \<Rightarrow> byte \<Rightarrow> bytes \<Rightarrow> mem \<Rightarrow> bytes \<times> mem" where
  "allocPfxMerge parent splitByte child m =
     (let n = length parent + 1 + length child; base = length (prefixArena m);
          m = arena_append child (arena_append [splitByte] (arena_append parent m))
      in (slice (prefixArena m) base (base + n), m))"

definition allocLeaf :: "bytes \<Rightarrow> 'v \<Rightarrow> mem \<Rightarrow> 'v leaf \<times> mem" where
  "allocLeaf key val m =
     (let m = (if slabPos m \<ge> slabLen m then m\<lparr>slabLen := leafSlabSize, slabPos := 0\<rparr> else m)
      in (MkLeaf key val, m\<lparr>slabPos := slabPos m + 1\<rparr>))"

section \<open>Lookup\<close>

text \<open>A child is smaller than its node, for the termination of the descents.\<close>

lemma size_children_mem: "Some x \<in> set cs \<Longrightarrow> f x < size_list (size_option f) cs"
  by (induction cs) auto

lemma size_narr_mem: "x \<in> set_narr n \<Longrightarrow> f x < size_narr f n"
  by (cases n) (auto dest!: size_children_mem [of x _ f] simp: less_Suc_eq)

lemma size_node48_mem: "x \<in> set_node48 n \<Longrightarrow> f x < size_node48 f n"
  by (cases n) (auto dest!: size_children_mem [of x _ f] simp: less_Suc_eq)

lemma size_node256_mem: "x \<in> set_node256 n \<Longrightarrow> f x < size_node256 f n"
  by (cases n) (auto dest!: size_children_mem [of x _ f] simp: less_Suc_eq)

lemmas size_container_mem = size_narr_mem size_node48_mem size_node256_mem

lemma size_body_mem: "x \<in> set_body b \<Longrightarrow> f x < size_body f b"
  by (cases b) (auto dest: size_container_mem [where f = f])

definition osize :: "'v node option \<Rightarrow> nat" where
  "osize n = (case n of None \<Rightarrow> 0 | Some n \<Rightarrow> Suc (size n))"

lemma osize_child: "(\<And>x. ch = Some x \<Longrightarrow> x \<in> set_body b) \<Longrightarrow> osize ch < osize (Some (Nd hdr b))"
  by (cases ch) (auto simp: osize_def trans_less_add2 dest: size_body_mem [of _ b size])

lemma osize_find: "osize (findChild b c) < osize (Some (Nd hdr b))"
  by (rule osize_child) (rule find_in_body)

lemma osize_child_at: "osize (child_at b i) < osize (Some (Nd hdr b))"
  by (rule osize_child) (rule child_in_body)

lemma osize_kids: "(c, ch) \<in> set (kids b) \<Longrightarrow> osize ch < osize (Some (Nd hdr b))"
  by (rule osize_child) (auto intro: kids_in_body)

lemmas osize_simps = osize_find osize_child_at osize_kids

function get :: "'v node option \<Rightarrow> bytes \<Rightarrow> nat \<Rightarrow> 'v option" where
  "get None key depth = None"
| "get (Some (Leaf lf)) key depth = (if lkey lf = key then Some (lval lf) else None)"
| "get (Some (Nd hdr b)) key depth =
     (if \<not> checkPrefix hdr key depth then None
      else let depth = depth + length (pfx hdr)
           in if depth = length key then map_option lval (ileaf hdr)
              else get (findChild b (key ! depth)) key (depth + 1))"
  by pat_completeness auto
termination by (relation "measure (\<lambda>(n, key, depth). osize n)") (auto simp: osize_simps)

definition Get :: "'v tree \<Rightarrow> bytes \<Rightarrow> 'v option" where
  "Get t key = (case root t of None \<Rightarrow> None | Some n \<Rightarrow> get (Some n) key 0)"

section \<open>Insertion\<close>

function common_end :: "bytes \<Rightarrow> bytes \<Rightarrow> nat \<Rightarrow> nat" where
  "common_end existKey key i =
     (if i < length existKey \<and> i < length key \<and> existKey ! i = key ! i
      then common_end existKey key (i + 1) else i)"
  by pat_completeness auto
termination by (relation "measure (\<lambda>(existKey, key, i). length key - i)") auto

declare common_end.simps [simp del]

text \<open>A result is the replaced value (if any), the new subtree and the allocation state.\<close>

definition splitLeaf :: "'v leaf \<Rightarrow> bytes \<Rightarrow> 'v \<Rightarrow> nat \<Rightarrow> mem \<Rightarrow> 'v option \<times> 'v node \<times> mem" where
  "splitLeaf existing key val depth m =
     (let existKey = lkey existing;
          prefixEnd = common_end existKey key depth;
          (p, m) = (if prefixEnd > depth then allocPfxStr key depth prefixEnd m else ([], m))
      in if prefixEnd = length key then
           (case allocLeaf key val m of (lf, m) \<Rightarrow>
              if prefixEnd < length existKey then
                (None, Nd (Inner p (Some lf))
                   (B4 (addChild_arr (new_narr 4) (existKey ! prefixEnd) (Some (Leaf existing)))), m)
              else (Some (lval existing), Leaf (MkLeaf existKey val), m))
         else if prefixEnd = length existKey then
           (case allocLeaf key val m of (lf, m) \<Rightarrow>
              (None, Nd (Inner p (Some existing))
                 (B4 (addChild_arr (new_narr 4) (key ! prefixEnd) (Some (Leaf lf)))), m))
         else
           (case allocLeaf key val m of (lf, m) \<Rightarrow>
              (None, Nd (Inner p None)
                 (B4 (addChild_arr (addChild_arr (new_narr 4) (existKey ! prefixEnd) (Some (Leaf existing)))
                    (key ! prefixEnd) (Some (Leaf lf)))), m)))"

definition splitNode :: "'v inner \<Rightarrow> 'v node body \<Rightarrow> bytes \<Rightarrow> 'v \<Rightarrow> nat \<Rightarrow> nat \<Rightarrow> mem \<Rightarrow> 'v option \<times> 'v node \<times> mem" where
  "splitNode hdr b key val depth mismatch m =
     (let (p, m) = (if mismatch > 0 then allocPfxBytes (take mismatch (pfx hdr)) m else ([], m));
          splitByte = pfx hdr ! mismatch;
          (p', m) = allocPfxBytes (drop (mismatch + 1) (pfx hdr)) m;
          nd = addChild_arr (new_narr 4) splitByte (Some (Nd (Inner p' (ileaf hdr)) b));
          actualDepth = depth + mismatch;
          (lf, m) = allocLeaf key val m
      in if actualDepth = length key then (None, Nd (Inner p (Some lf)) (B4 nd), m)
         else (None, Nd (Inner p None) (B4 (addChild_arr nd (key ! actualDepth) (Some (Leaf lf)))), m))"

function put :: "'v node option \<Rightarrow> bytes \<Rightarrow> 'v \<Rightarrow> nat \<Rightarrow> mem \<Rightarrow> 'v option \<times> 'v node \<times> mem" where
  "put None key val depth m = (case allocLeaf key val m of (lf, m) \<Rightarrow> (None, Leaf lf, m))"
| "put (Some (Leaf lf)) key val depth m =
     (if lkey lf = key then (Some (lval lf), Leaf (MkLeaf (lkey lf) val), m)
      else splitLeaf lf key val depth m)"
| "put (Some (Nd hdr b)) key val depth m =
     (let mismatch = prefixMismatch hdr key depth
      in if mismatch < length (pfx hdr) then splitNode hdr b key val depth mismatch m
         else let depth = depth + length (pfx hdr)
              in if depth = length key then
                   (case ileaf hdr of
                      Some lf \<Rightarrow> (Some (lval lf), Nd (Inner (pfx hdr) (Some (MkLeaf (lkey lf) val))) b, m)
                    | None \<Rightarrow> (case allocLeaf key val m of (lf, m) \<Rightarrow> (None, Nd (Inner (pfx hdr) (Some lf)) b, m)))
                 else let c = key ! depth
                      in case slot b c of
                           Some i \<Rightarrow>
                             (case put (child_at b i) key val (depth + 1) m of
                                (old, ch, m) \<Rightarrow> (old, Nd hdr (set_child b i (Some ch)), m))
                         | None \<Rightarrow>
                             (case allocLeaf key val m of
                                (lf, m) \<Rightarrow> (None, Nd hdr (add_or_grow b c (Some (Leaf lf))), m)))"
  by pat_completeness auto
termination by (relation "measure (\<lambda>(n, key, val, depth, m). osize n)") (auto simp: osize_simps)

definition Put :: "'v tree \<Rightarrow> bytes \<Rightarrow> 'v \<Rightarrow> 'v option \<times> 'v tree" where
  "Put t key val =
     (case put (root t) key val 0 (tmem t) of
        (old, n, m) \<Rightarrow>
          (old, t\<lparr>root := Some n, tmem := m, tsize := (if old = None then tsize t + 1 else tsize t)\<rparr>))"

section \<open>Deletion\<close>

definition mergeWithChild :: "bytes \<Rightarrow> byte \<Rightarrow> 'v node option \<Rightarrow> mem \<Rightarrow> 'v node option \<times> mem" where
  "mergeWithChild parentPrefix key child m =
     (case child of
        Some (Nd hdr b) \<Rightarrow>
          (case allocPfxMerge parentPrefix key (pfx hdr) m of (p, m) \<Rightarrow> (Some (Nd (Inner p (ileaf hdr)) b), m))
      | _ \<Rightarrow> (child, m))"

definition shrinkAfterDelete4 :: "'v inner \<Rightarrow> 'v node narr \<Rightarrow> mem \<Rightarrow> 'v node option \<times> mem" where
  "shrinkAfterDelete4 hdr nd m =
     (if num nd = 0 then (map_option Leaf (ileaf hdr), m)
      else if num nd = 1 \<and> ileaf hdr = None
      then mergeWithChild (pfx hdr) (keys nd ! 0) (nth_opt (children nd) 0) m
      else (Some (Nd hdr (B4 nd)), m))"

text \<open>Only \<open>delInner4\<close> looks at the node again after it has lost its leaf or a child.\<close>

definition after_delete :: "'v inner \<Rightarrow> 'v node body \<Rightarrow> mem \<Rightarrow> 'v node option \<times> mem" where
  "after_delete hdr b m = (case b of B4 nd \<Rightarrow> shrinkAfterDelete4 hdr nd m | _ \<Rightarrow> (Some (Nd hdr b), m))"

text \<open>
  After the removal of a child a node4 goes through \<open>shrinkAfterDelete4\<close>; the other containers
  shrink by themselves and the node stays.
\<close>

definition after_remove :: "'v inner \<Rightarrow> 'v node body \<Rightarrow> byte \<Rightarrow> nat \<Rightarrow> mem \<Rightarrow> 'v node option \<times> mem" where
  "after_remove hdr b c i m =
     (case b of
        B4 nd \<Rightarrow> shrinkAfterDelete4 hdr (removeChildAt nd i) m
      | _ \<Rightarrow> (Some (Nd hdr (remove_shrink b c i)), m))"

text \<open>A result is the deleted value (\<open>None\<close>: the key is absent), the new subtree and the state.\<close>

function del :: "'v node option \<Rightarrow> bytes \<Rightarrow> nat \<Rightarrow> mem \<Rightarrow> 'v option \<times> 'v node option \<times> mem" where
  "del None key depth m = (None, None, m)"
| "del (Some (Leaf lf)) key depth m =
     (if lkey lf = key then (Some (lval lf), None, m) else (None, Some (Leaf lf), m))"
| "del (Some (Nd hdr b)) key depth m =
     (if \<not> checkPrefix hdr key depth then (None, Some (Nd hdr b), m)
      else let depth = depth + length (pfx hdr)
           in if depth = length key then
                (case ileaf hdr of
                   None \<Rightarrow> (None, Some (Nd hdr b), m)
                 | Some lf \<Rightarrow> (Some (lval lf), after_delete (Inner (pfx hdr) None) b m))
              else let c = key ! depth
                   in case slot b c of
                        None \<Rightarrow> (None, Some (Nd hdr b), m)
                      | Some i \<Rightarrow>
                          (case del (child_at b i) key (depth + 1) m of
                             (None, ch, m) \<Rightarrow> (None, Some (Nd hdr (set_child b i ch)), m)
                           | (Some old, None, m) \<Rightarrow> (Some old, after_remove hdr (set_child b i None) c i m)
                           | (Some old, Some ch, m) \<Rightarrow> (Some old, Some (Nd hdr (set_child b i (Some ch))), m)))"
  by pat_completeness auto
termination by (relation "measure (\<lambda>(n, key, depth, m). osize n)") (auto simp: osize_simps)

definition Delete :: "'v tree \<Rightarrow> bytes \<Rightarrow> 'v option \<times> 'v tree" where
  "Delete t key =
     (if root t = None then (None, t)
      else case del (root t) key 0 (tmem t) of
             (old, n, m) \<Rightarrow>
               (old, t\<lparr>root := n, tmem := m, tsize := (if old \<noteq> None then tsize t - 1 else tsize t)\<rparr>))"

section \<open>Compacting the prefix arena\<close>

definition migratePrefix :: "bytes \<Rightarrow> bytes \<Rightarrow> bytes \<times> bytes" where
  "migratePrefix src dst =
     (if length src = 0 then ([], dst)
      else let base = length dst; dst = dst @ src in (slice dst base (base + length src), dst))"

text \<open>The children are updated in place, in the order of \<open>rangeChildren\<close>.\<close>

function compactNode :: "'v node option \<Rightarrow> bytes \<Rightarrow> 'v node option \<times> bytes" where
  "compactNode None ar = (None, ar)"
| "compactNode (Some (Leaf lf)) ar = (Some (Leaf lf), ar)"
| "compactNode (Some (Nd hdr b)) ar =
     (let (p, ar) = migratePrefix (pfx hdr) ar;
          (b', ar) = fold (\<lambda>(c, ch) (b, ar).
             case compactNode ch ar of
               (ch', ar) \<Rightarrow> ((case slot b c of Some i \<Rightarrow> set_child b i ch' | None \<Rightarrow> b), ar)) (kids b) (b, ar)
      in (Some (Nd (Inner p (ileaf hdr)) b'), ar))"
  by pat_completeness auto
termination by (relation "measure (\<lambda>(n, ar). osize n)") (auto simp: osize_simps)

definition CompactPrefixArena :: "'v tree \<Rightarrow> 'v tree" where
  "CompactPrefixArena t =
     (if root t = None then t\<lparr>tmem := (tmem t)\<lparr>prefixArena := []\<rparr>\<rparr>
      else case compactNode (root t) [] of
             (n, ar) \<Rightarrow> t\<lparr>root := n, tmem := (tmem t)\<lparr>prefixArena := ar\<rparr>\<rparr>)"

section \<open>Iteration\<close>

text \<open>A callback gets a key, a value and its own state; \<open>False\<close> stops the iteration.\<close>

type_synonym ('v, 's) callback = "bytes \<Rightarrow> 'v \<Rightarrow> 's \<Rightarrow> bool \<times> 's"

definition and_then :: "bool \<times> 's \<Rightarrow> ('s \<Rightarrow> bool \<times> 's) \<Rightarrow> bool \<times> 's" where
  "and_then r k = (case r of (True, s) \<Rightarrow> k s | (False, s) \<Rightarrow> (False, s))"

definition emit_leaf :: "('v, 's) callback \<Rightarrow> ('v leaf \<Rightarrow> bool) \<Rightarrow> 'v leaf option \<Rightarrow> 's \<Rightarrow> bool \<times> 's" where
  "emit_leaf fn P lf s =
     (case lf of Some lf \<Rightarrow> if P lf then fn (lkey lf) (lval lf) s else (True, s) | None \<Rightarrow> (True, s))"

function forEach :: "('v, 's) callback \<Rightarrow> 'v node option \<Rightarrow> 's \<Rightarrow> bool \<times> 's" where
  "forEach fn None s = (True, s)"
| "forEach fn (Some (Leaf lf)) s = fn (lkey lf) (lval lf) s"
| "forEach fn (Some (Nd hdr b)) s =
     and_then (emit_leaf fn (\<lambda>_. True) (ileaf hdr) s) (\<lambda>s. iter_while (\<lambda>x s. forEach fn (snd x) s) (kids b) s)"
  by pat_completeness auto
termination by (relation "measure (\<lambda>(fn, n, s). osize n)") (auto intro: osize_kids)

definition ForEach :: "'v tree \<Rightarrow> ('v, 's) callback \<Rightarrow> 's \<Rightarrow> bool \<times> 's" where
  "ForEach t fn s = (if root t \<noteq> None then forEach fn (root t) s else (True, s))"

text \<open>The whole subtree of a node, as the seek and prefix functions output it.\<close>

definition emit_all :: "('v, 's) callback \<Rightarrow> 'v inner \<Rightarrow> 'v node body \<Rightarrow> ('v leaf \<Rightarrow> bool) \<Rightarrow> 's \<Rightarrow> bool \<times> 's" where
  "emit_all fn hdr b P s =
     and_then (emit_leaf fn P (ileaf hdr) s) (\<lambda>s. iter_while (\<lambda>x s. forEach fn (snd x) s) (kids b) s)"

function cmp_from :: "bytes \<Rightarrow> bytes \<Rightarrow> nat \<Rightarrow> nat \<Rightarrow> int" where
  "cmp_from p start depth i =
     (if i < length p then
        let si = depth + i
        in if si \<ge> length start then 1
           else if p ! i < start ! si then -1
           else if p ! i > start ! si then 1
           else cmp_from p start depth (i + 1)
      else 0)"
  by pat_completeness auto
termination by (relation "measure (\<lambda>(p, start, depth, i). length p - i)") auto

declare cmp_from.simps [simp del]

definition comparePrefixRange :: "bytes \<Rightarrow> bytes \<Rightarrow> nat \<Rightarrow> int" where
  "comparePrefixRange p start depth = cmp_from p start depth 0"

text \<open>
  The children from \<open>target\<close> on. The arrays are walked from their start and smaller bytes skipped;
  the bitmap of a node256 is entered at the word of \<open>target\<close> with the smaller bits masked off.
\<close>

definition present_from :: "u64 list \<Rightarrow> byte \<Rightarrow> bytes" where
  "present_from ws target =
     (let startWord = unat target div 64
      in concat (map (\<lambda>w.
           let word = ws ! w;
               word = (if w = startWord then word AND NOT (mask (unat target mod 64)) else word)
           in map (\<lambda>bit. of_nat (w * 64 + bit)) (bits_asc word)) [startWord..<4]))"

definition seek_range :: "'c body \<Rightarrow> byte \<Rightarrow> (byte \<times> 'c option) list" where
  "seek_range b target =
     (case b of
        B256 nd \<Rightarrow> map (\<lambda>b. (b, nth_opt (children256 nd) (unat b))) (present_from (present nd) target)
      | _ \<Rightarrow> filter (\<lambda>(c, ch). \<not> c < target) (kids b))"

lemma seek_range_in_body: "(c, Some x) \<in> set (seek_range b t) \<Longrightarrow> x \<in> set_body b"
  by (cases b) (auto simp: seek_range_def dest: kids_in_body [of c x "B4 _", simplified]
    kids_in_body [of c x "B16 _", simplified] kids_in_body [of c x "B48 _", simplified]
    dest!: nth_opt_set [OF sym] intro: in_container)

lemma osize_seek_range: "(c, ch) \<in> set (seek_range b t) \<Longrightarrow> osize ch < osize (Some (Nd hdr b))"
  by (rule osize_child) (auto intro: seek_range_in_body)

function seek :: "('v, 's) callback \<Rightarrow> 'v node option \<Rightarrow> bytes \<Rightarrow> nat \<Rightarrow> 's \<Rightarrow> bool \<times> 's" where
  "seek fn None start depth s = (True, s)"
| "seek fn (Some (Leaf lf)) start depth s =
     (if lkey lf > start then fn (lkey lf) (lval lf) s else (True, s))"
| "seek fn (Some (Nd hdr b)) start depth s =
     (let cmp = comparePrefixRange (pfx hdr) start depth
      in if cmp > 0 then emit_all fn hdr b (\<lambda>_. True) s
         else if cmp < 0 then (True, s)
         else if depth + length (pfx hdr) \<ge> length start then emit_all fn hdr b (\<lambda>lf. lkey lf > start) s
         else and_then (emit_leaf fn (\<lambda>lf. lkey lf > start) (ileaf hdr) s)
                (\<lambda>s. iter_while (\<lambda>x s.
                   if fst x = start ! (depth + length (pfx hdr))
                   then seek fn (snd x) start (depth + length (pfx hdr) + 1) s
                   else forEach fn (snd x) s)
                   (seek_range b (start ! (depth + length (pfx hdr)))) s))"
  by pat_completeness auto
termination by (relation "measure (\<lambda>(fn, n, start, depth, s). osize n)") (auto intro: osize_seek_range)

definition Seek :: "'v tree \<Rightarrow> bytes \<Rightarrow> ('v, 's) callback \<Rightarrow> 's \<Rightarrow> bool \<times> 's" where
  "Seek t start fn s = (if root t \<noteq> None then seek fn (root t) start 0 s else (True, s))"

text \<open>
  The prefix loop of the \<open>scanPrefix*\<close> functions: the query is exhausted inside the node's
  prefix, disagrees with it, or covers it.
\<close>

datatype scan_cmp = Exhausted | Disagrees | Covered

function scan_from :: "bytes \<Rightarrow> bytes \<Rightarrow> nat \<Rightarrow> nat \<Rightarrow> scan_cmp" where
  "scan_from p query depth i =
     (if i < length p then
        if depth + i \<ge> length query then Exhausted
        else if p ! i \<noteq> query ! (depth + i) then Disagrees
        else scan_from p query depth (i + 1)
      else Covered)"
  by pat_completeness auto
termination by (relation "measure (\<lambda>(p, query, depth, i). length p - i)") auto

declare scan_from.simps [simp del]

definition scan_child :: "'c body \<Rightarrow> byte \<Rightarrow> 'c option" where
  "scan_child b target =
     (case b of
        B256 nd \<Rightarrow> if has (present nd) target then nth_opt (children256 nd) (unat target) else None
      | _ \<Rightarrow> (case slot b target of Some i \<Rightarrow> child_at b i | None \<Rightarrow> None))"

lemma osize_scan_child: "osize (scan_child b c) < osize (Some (Nd hdr b))"
  by (rule osize_child) (auto simp: scan_child_def split: body.splits option.splits if_splits
    dest: child_in_body [of "B4 _", simplified] child_in_body [of "B16 _", simplified]
      child_in_body [of "B48 _", simplified] intro: in_container nth_opt_set)

function scanPrefix :: "('v, 's) callback \<Rightarrow> 'v node option \<Rightarrow> bytes \<Rightarrow> nat \<Rightarrow> 's \<Rightarrow> bool \<times> 's" where
  "scanPrefix fn None query depth s = (True, s)"
| "scanPrefix fn (Some (Leaf lf)) query depth s =
     (if length (lkey lf) \<ge> length query \<and> take (length query) (lkey lf) = query
      then fn (lkey lf) (lval lf) s else (True, s))"
| "scanPrefix fn (Some (Nd hdr b)) query depth s =
     (case scan_from (pfx hdr) query depth 0 of
        Exhausted \<Rightarrow> emit_all fn hdr b (\<lambda>_. True) s
      | Disagrees \<Rightarrow> (True, s)
      | Covered \<Rightarrow>
          let depth = depth + length (pfx hdr)
          in if depth \<ge> length query then emit_all fn hdr b (\<lambda>_. True) s
             else scanPrefix fn (scan_child b (query ! depth)) query (depth + 1) s)"
  by pat_completeness auto
termination by (relation "measure (\<lambda>(fn, n, query, depth, s). osize n)") (auto simp: osize_scan_child)

definition ScanPrefix :: "'v tree \<Rightarrow> bytes \<Rightarrow> ('v, 's) callback \<Rightarrow> 's \<Rightarrow> bool \<times> 's" where
  "ScanPrefix t query fn s = (if root t \<noteq> None then scanPrefix fn (root t) query 0 s else (True, s))"

end
