(* ===== verification/ArtMap.thy ===== *)
theory ArtMap
  imports ArtTree Interfaces
begin

text \<open>
  The adaptive radix tree as a finite map: \<open>entries\<close> lists what a subtree holds in order, \<open>art_wf\<close> is
  the structural invariant (every key below a node extends the path to it, containers are well
  formed and no larger than needed, no inner node with a single way through it), and \<open>get\<close>,
  \<open>put\<close> and \<open>del\<close> are lookup, update and removal on the map of the entries.
\<close>

section \<open>Paths\<close>

definition starts :: "bytes \<Rightarrow> bytes \<Rightarrow> bool" where
  "starts p k \<longleftrightarrow> take (length p) k = p"

lemma starts_Nil [simp]: "starts [] k"
  by (simp add: starts_def)

lemma starts_iff: "starts p k \<longleftrightarrow> (\<exists>r. k = p @ r)"
  unfolding starts_def by (metis append_eq_conv_conj append_take_drop_id)

lemma starts_self [simp]: "starts p p"
  by (simp add: starts_def)

lemma starts_append: "starts (p @ q) k \<Longrightarrow> starts p k"
  by (auto simp: starts_iff)

lemma starts_length: "starts p k \<Longrightarrow> length p \<le> length k"
  by (auto simp: starts_iff)

lemma starts_snoc: "starts (q @ [c]) k \<longleftrightarrow> starts q k \<and> length q < length k \<and> k ! length q = c"
proof
  assume "starts q k \<and> length q < length k \<and> k ! length q = c"
  then show "starts (q @ [c]) k" by (auto simp: starts_def take_Suc_conv_app_nth)
qed (auto simp: starts_iff)

lemma starts_full: "starts q k \<Longrightarrow> length k = length q \<Longrightarrow> k = q"
  by (auto simp: starts_iff)

lemma checkPrefix_iff:
  assumes "starts p key"
  shows "checkPrefix hdr key (length p) \<longleftrightarrow> starts (p @ pfx hdr) key"
proof -
  obtain r where r: "key = p @ r" using assms by (auto simp: starts_iff)
  show ?thesis by (auto simp: r checkPrefix_def slice_def starts_def Let_def)
qed

section \<open>Entries and well-formedness\<close>

definition leaf_entry :: "'v leaf option \<Rightarrow> (bytes \<times> 'v) list" where
  "leaf_entry lf = (case lf of None \<Rightarrow> [] | Some lf \<Rightarrow> [(lkey lf, lval lf)])"

function entries :: "'v node option \<Rightarrow> (bytes \<times> 'v) list" where
  "entries None = []"
| "entries (Some (Leaf lf)) = [(lkey lf, lval lf)]"
| "entries (Some (Nd hdr b)) = leaf_entry (ileaf hdr) @ concat (map (\<lambda>x. entries (snd x)) (kids b))"
  by pat_completeness auto
termination by (relation "measure osize") (auto intro: osize_kids)

function art_wf :: "bytes \<Rightarrow> 'v node option \<Rightarrow> bool" where
  "art_wf p None \<longleftrightarrow> False"
| "art_wf p (Some (Leaf lf)) \<longleftrightarrow> starts p (lkey lf)"
| "art_wf p (Some (Nd hdr b)) \<longleftrightarrow>
     (case ileaf hdr of None \<Rightarrow> 2 \<le> length (kids b) | Some lf \<Rightarrow> lkey lf = p @ pfx hdr \<and> 1 \<le> length (kids b)) \<and>
     body_inv b \<and> (\<forall>x \<in> set (kids b). art_wf (p @ pfx hdr @ [fst x]) (snd x))"
  by pat_completeness auto
termination by (relation "measure (\<lambda>(p, n). osize n)") (auto intro: osize_kids)

text \<open>What \<open>art_wf\<close> says of a node apart from the number of its branches.\<close>

definition node_ok :: "bytes \<Rightarrow> 'v inner \<Rightarrow> 'v node body \<Rightarrow> bool" where
  "node_ok p hdr b \<longleftrightarrow>
     (\<forall>lf. ileaf hdr = Some lf \<longrightarrow> lkey lf = p @ pfx hdr) \<and> body_inv b \<and>
     (\<forall>x \<in> set (kids b). art_wf (p @ pfx hdr @ [fst x]) (snd x))"

lemma art_wf_node: "art_wf p (Some (Nd hdr b)) \<longleftrightarrow> node_ok p hdr b \<and>
    (if ileaf hdr = None then 2 \<le> length (kids b) else 1 \<le> length (kids b))"
  by (auto simp: node_ok_def split: option.splits)

declare art_wf.simps(3) [simp del] entries.simps(3) [simp del]

lemmas entries_Nd = entries.simps(3)

text \<open>Splitting a compressed path differently changes nothing.\<close>

lemma wf_reprefix:
  "p @ pfx hdr = p' @ p2 \<Longrightarrow> art_wf p (Some (Nd hdr b)) = art_wf p' (Some (Nd (Inner p2 (ileaf hdr)) b))"
  by (auto simp: art_wf_node node_ok_def simp flip: append_assoc)

lemma entries_reprefix: "entries (Some (Nd (Inner p2 (ileaf hdr)) b)) = entries (Some (Nd hdr b))"
  by (simp add: entries_Nd)

lemma entries_starts: "art_wf p n \<Longrightarrow> e \<in> set (entries n) \<Longrightarrow> starts p (fst e)"
proof (induction p n arbitrary: e rule: art_wf.induct)
  case (3 p hdr b)
  show ?case
  proof (cases "e \<in> set (leaf_entry (ileaf hdr))")
    case True
    with 3 show ?thesis by (auto simp: leaf_entry_def art_wf_node node_ok_def starts_iff split: option.splits)
  next
    case False
    then obtain x where x: "x \<in> set (kids b)" "e \<in> set (entries (snd x))"
      using "3.prems" by (auto simp: entries_Nd)
    then have "starts (p @ pfx hdr @ [fst x]) (fst e)" using 3 by (simp add: art_wf_node node_ok_def)
    then show ?thesis by (rule starts_append)
  qed
qed auto

lemma kid_starts:
  "node_ok p hdr b \<Longrightarrow> x \<in> set (kids b) \<Longrightarrow> e \<in> set (entries (snd x)) \<Longrightarrow> starts (p @ pfx hdr @ [fst x]) (fst e)"
  unfolding node_ok_def by (blast intro: entries_starts)

lemma map_of_concat_kids:
  assumes "distinct (map fst xs)" and "\<forall>x \<in> set xs. \<forall>e \<in> set (f (snd x)). g (fst e) = fst x"
  shows "map_of (concat (map (\<lambda>x. f (snd x)) xs)) k = (case map_of xs (g k) of None \<Rightarrow> None | Some a \<Rightarrow> map_of (f a) k)"
  using assms
proof (induction xs)
  case (Cons x xs)
  have out: "map_of (concat (map (\<lambda>x. f (snd x)) xs)) k = None" if "g k = fst x"
    using Cons.prems that by (force simp: map_of_eq_None_iff)
  have "map_of (f (snd x)) k = None" if "g k \<noteq> fst x"
    using Cons.prems(2) that by (force simp: map_of_eq_None_iff)
  with Cons out show ?case by (cases x) (auto simp: map_add_def split: option.splits)
qed simp

text \<open>The map of a node: its own leaf, or the child that the next byte selects.\<close>

lemma node_map:
  assumes ok: "node_ok p hdr b"
  defines "q \<equiv> p @ pfx hdr"
  shows "map_of (entries (Some (Nd hdr b))) k =
    (if k = q then map_option lval (ileaf hdr)
     else case map_of (kids b) (k ! length q) of None \<Rightarrow> None | Some ch \<Rightarrow> map_of (entries ch) k)"
proof -
  have st: "starts (q @ [fst x]) (fst e)" if "x \<in> set (kids b)" "e \<in> set (entries (snd x))" for x e
    using kid_starts [OF ok that] by (simp add: q_def)
  have inv: "body_inv b" using ok by (simp add: node_ok_def)
  have c: "map_of (concat (map (\<lambda>x. entries (snd x)) (kids b))) k =
      (case map_of (kids b) (k ! length q) of None \<Rightarrow> None | Some ch \<Rightarrow> map_of (entries ch) k)" for k
    using st by (intro map_of_concat_kids ksorted_distinct body.kids_sorted inv) (auto simp: starts_snoc)
  have no_q: "map_of (concat (map (\<lambda>x. entries (snd x)) (kids b))) q = None"
    using st by (force simp: map_of_eq_None_iff starts_snoc)
  have l: "map_of (leaf_entry (ileaf hdr)) k = (if k = q then map_option lval (ileaf hdr) else None)"
    using ok by (auto simp: leaf_entry_def node_ok_def q_def split: option.splits)
  show ?thesis
  proof (cases "k = q")
    case True
    then show ?thesis using no_q l by (auto simp: entries_Nd map_add_def split: option.splits)
  next
    case False
    then show ?thesis using c l by (auto simp: entries_Nd map_add_def split: option.splits)
  qed
qed

section \<open>The entries are in key order\<close>

lemma less_snoc: "starts (q @ [c]) k \<Longrightarrow> starts (q @ [d]) k' \<Longrightarrow> c < d \<Longrightarrow> k < (k' :: bytes)"
  by (auto simp: starts_iff list_less_def intro: lexord_append_left_rightI)

lemma less_extension: "starts (q @ [c]) k \<Longrightarrow> q < (k :: bytes)"
  by (auto simp: starts_iff list_less_def intro: lexord_append_rightI)

lemma ksorted_concat_kids:
  assumes "ksorted xs" and "\<forall>x \<in> set xs. ksorted (f (snd x))"
    and "\<forall>x \<in> set xs. \<forall>e \<in> set (f (snd x)). starts (q @ [fst x]) (fst e)"
  shows "ksorted (concat (map (\<lambda>x. f (snd x)) xs))"
  using assms
proof (induction xs)
  case Nil
  then show ?case by (simp add: ksorted_def)
next
  case (Cons x xs)
  have "fst e < fst e'" if "e \<in> set (f (snd x))" "y \<in> set xs" "e' \<in> set (f (snd y))" for e y e'
    using that Cons.prems less_snoc [of q "fst x" "fst e" "fst y" "fst e'"] by (auto simp: ksorted_Cons)
  with Cons show ?case by (auto simp: ksorted_append ksorted_Cons)
qed

lemma entries_sorted: "art_wf p n \<Longrightarrow> ksorted (entries n)"
proof (induction p n rule: art_wf.induct)
  case (3 p hdr b)
  then have ok: "node_ok p hdr b" by (simp add: art_wf_node)
  have st: "starts ((p @ pfx hdr) @ [fst x]) (fst e)" if "x \<in> set (kids b)" "e \<in> set (entries (snd x))" for x e
    using kid_starts [OF ok that] by simp
  have "ksorted (concat (map (\<lambda>x. entries (snd x)) (kids b)))"
    using st ok 3 by (intro ksorted_concat_kids [where q = "p @ pfx hdr"] body.kids_sorted) (auto simp: node_ok_def)
  moreover have "p @ pfx hdr < fst e" if "x \<in> set (kids b)" "e \<in> set (entries (snd x))" for x e
    using st [OF that] by (rule less_extension)
  ultimately show ?case
    using ok by (auto simp: entries_Nd ksorted_append leaf_entry_def node_ok_def ksorted_Cons split: option.splits)
       (auto simp: ksorted_def)
qed (auto simp: ksorted_def)

section \<open>Lookup\<close>

lemma map_of_entries_None: "art_wf p n \<Longrightarrow> \<not> starts p k \<Longrightarrow> map_of (entries n) k = None"
  by (force simp: map_of_eq_None_iff dest: entries_starts)

lemma node_map_other: "node_ok p hdr b \<Longrightarrow> \<not> starts (p @ pfx hdr) k \<Longrightarrow> map_of (entries (Some (Nd hdr b))) k = None"
proof -
  assume ok: "node_ok p hdr b" and k: "\<not> starts (p @ pfx hdr) k"
  have "map_of (entries ch) k = None" if "map_of (kids b) c = Some ch" for c ch
  proof -
    have "(c, ch) \<in> set (kids b)" using that by (rule map_of_SomeD)
    then have "art_wf (p @ pfx hdr @ [c]) ch" using ok unfolding node_ok_def by fastforce
    then show ?thesis using k starts_append [of "p @ pfx hdr" "[c]" k] by (intro map_of_entries_None [where p = "p @ pfx hdr @ [c]"]) auto
  qed
  then show ?thesis using k by (auto simp: node_map [OF ok] split: option.splits)
qed

lemma kid_wf:
  assumes "node_ok p hdr b" and "map_of (kids b) c = Some ch"
  shows "art_wf (p @ pfx hdr @ [c]) ch"
  using assms map_of_SomeD [OF assms(2)] unfolding node_ok_def by fastforce

lemma get_ok: "art_wf p n \<Longrightarrow> starts p key \<Longrightarrow> get n key (length p) = map_of (entries n) key"
proof (induction n key "length p" arbitrary: p rule: get.induct)
  case (3 hdr b key)
  let ?q = "p @ pfx hdr"
  have ok: "node_ok p hdr b" using "3.prems" by (simp add: art_wf_node)
  have inv: "body_inv b" using ok by (simp add: node_ok_def)
  show ?case
  proof (cases "starts ?q key")
    case False
    then show ?thesis using "3.prems" node_map_other [OF ok] by (simp add: checkPrefix_iff)
  next
    case True
    then have cp: "checkPrefix hdr key (length p)" using "3.prems" by (simp add: checkPrefix_iff)
    show ?thesis
    proof (cases "length ?q = length key")
      case eq: True
      then have "key = ?q" using True by (auto dest: starts_full)
      then show ?thesis using cp node_map [OF ok, of key] by simp
    next
      case ne: False
      then have kq: "key \<noteq> ?q" "length ?q < length key" using starts_length [OF True] by auto
      let ?c = "key ! length ?q"
      have g: "get (Some (Nd hdr b)) key (length p) = get (findChild b ?c) key (length (?q @ [?c]))"
        using cp ne by (simp add: Let_def)
      show ?thesis
      proof (cases "map_of (kids b) ?c")
        case None
        then have "findChild b ?c = None" using body.find_eq [OF inv] by simp
        then show ?thesis unfolding g using None kq node_map [OF ok, of key] by simp
      next
        case (Some ch)
        then have f: "findChild b ?c = ch" using body.find_eq [OF inv] by simp
        have w: "art_wf (?q @ [?c]) ch" using kid_wf [OF ok Some] by simp
        have st: "starts (?q @ [?c]) key" unfolding starts_snoc using True kq by simp
        have "get ch key (length (?q @ [?c])) = map_of (entries ch) key"
          using "3.hyps" [of "length ?q" "?q @ [?c]"] cp ne w st f by simp
        then show ?thesis unfolding g f using Some kq node_map [OF ok, of key] by simp
      qed
    qed
  qed
qed auto

section \<open>Allocation hands out what was asked for\<close>

lemma fst_eq_ex: "fst r = x \<Longrightarrow> \<exists>y. r = (x, y)"
  by (cases r) simp

lemma slice_append: "slice (xs @ ys) (length xs) (length xs + length ys) = ys"
  by (simp add: slice_def)

lemma alloc_fst [simp]:
  "fst (allocPfxBytes src m) = src" "fst (allocPfxMerge a c b m) = a @ c # b"
  "fst (allocLeaf k v m) = MkLeaf k v" "fst (migratePrefix src ar) = src"
  using slice_append [of "prefixArena m" src] slice_append [of "prefixArena m" "a @ c # b"] slice_append [of ar src]
  by (auto simp: allocPfxBytes_def allocPfxMerge_def allocLeaf_def migratePrefix_def arena_append_def Let_def)

lemma allocPfxStr_fst [simp]: "hi \<le> length key \<Longrightarrow> fst (allocPfxStr key lo hi m) = slice key lo hi"
  using slice_append [of "prefixArena m" "slice key lo hi"]
  by (auto simp: allocPfxStr_def arena_append_def Let_def) (simp add: slice_def)

section \<open>The byte loops of insertion\<close>

lemma common_end_spec:
  assumes "i \<le> length ek" "i \<le> length key" "take i ek = take i key"
  defines "e \<equiv> common_end ek key i"
  shows "i \<le> e \<and> e \<le> length ek \<and> e \<le> length key \<and> take e ek = take e key \<and>
    (e < length ek \<longrightarrow> e < length key \<longrightarrow> ek ! e \<noteq> key ! e)"
  using assms(1-3) unfolding e_def
proof (induction ek key i rule: common_end.induct)
  case (1 ek key i)
  show ?case
  proof (cases "i < length ek \<and> i < length key \<and> ek ! i = key ! i")
    case True
    then have "take (i + 1) ek = take (i + 1) key" using "1.prems" by (simp add: take_Suc_conv_app_nth)
    moreover have "common_end ek key i = common_end ek key (i + 1)" "i + 1 \<le> length ek" "i + 1 \<le> length key"
      using True by (simp_all add: common_end.simps [of ek key i])
    ultimately show ?thesis using 1(1) True by simp
  next
    case False
    then have "common_end ek key i = i" by (subst common_end.simps) auto
    then show ?thesis using False "1.prems" by auto
  qed
qed

lemma mismatch_spec:
  assumes "i \<le> length p" "d + i \<le> length key" "take i p = take i (drop d key)"
  defines "e \<equiv> mismatch_from p key d i"
  shows "e \<le> length p \<and> d + e \<le> length key \<and> take e p = take e (drop d key) \<and>
    (e < length p \<longrightarrow> d + e < length key \<longrightarrow> p ! e \<noteq> key ! (d + e))"
  using assms(1-3) unfolding e_def
proof (induction p key d i rule: mismatch_from.induct)
  case (1 p key d i)
  show ?case
  proof (cases "i < length p \<and> d + i < length key \<and> p ! i = key ! (d + i)")
    case True
    then have "i < length (drop d key)" unfolding length_drop by linarith
    with True have "take (i + 1) p = take (i + 1) (drop d key)" using "1.prems" by (simp add: take_Suc_conv_app_nth)
    then have "mismatch_from p key d i = mismatch_from p key d (i + 1)" "i + 1 \<le> length p" "d + (i + 1) \<le> length key"
      using True by (auto simp: mismatch_from.simps [of p key d i])
    then show ?thesis using 1(1) True \<open>take (i + 1) p = _\<close> by simp
  next
    case False
    then have "mismatch_from p key d i = i" using "1.prems" by (subst mismatch_from.simps) auto
    then show ?thesis using False "1.prems" by auto
  qed
qed

section \<open>New inner nodes\<close>

lemma new_narr_ok: "narr_inv 4 (new_narr 4)" "range_arr (new_narr 4) = []" "slot_arr (new_narr 4) c = None" "num (new_narr 4) = 0"
  by (simp_all add: new_narr_def narr_inv_def range_arr_def slot_arr_def key_slot_def)

lemma one_child:
  "body_inv (B4 (addChild_arr (new_narr 4) c (Some x))) \<and> kids (B4 (addChild_arr (new_narr 4) c (Some x))) = [(c, Some x)]"
  using n4.add_law [OF new_narr_ok(1) _ new_narr_ok(3)] by (simp add: new_narr_ok)

lemma two_children:
  fixes x y :: 'c
  assumes "c \<noteq> d"
  defines "b \<equiv> B4 (addChild_arr (addChild_arr (new_narr 4) c (Some x)) d (Some y))"
  shows "body_inv b \<and> kids b = kv_ins d (Some y) [(c, Some x)]"
proof -
  let ?nd = "addChild_arr (new_narr 4) c (Some x)"
  have o: "narr_inv 4 ?nd" "range_arr ?nd = [(c, Some x)]" using one_child [of c x] by simp_all
  have "num ?nd < 4" by (simp add: addChild_arr_def new_narr_ok Let_def)
  moreover have "slot_arr ?nd d = None" using n4.slot_None [OF o(1)] o(2) assms by simp
  ultimately show ?thesis unfolding b_def using n4.add_law [OF o(1)] o(2) by simp
qed

section \<open>Insertion\<close>

text \<open>
  What an insertion owes: the replaced value, a well-formed subtree, and the updated map.
\<close>

definition put_post :: "bytes \<Rightarrow> 'v node option \<Rightarrow> bytes \<Rightarrow> 'v \<Rightarrow> 'v option \<times> 'v node \<times> mem \<Rightarrow> bool" where
  "put_post p n key val r \<longleftrightarrow>
     fst r = map_of (entries n) key \<and> art_wf p (Some (fst (snd r))) \<and>
     map_of (entries (Some (fst (snd r)))) = (map_of (entries n))(key \<mapsto> val)"

lemma splitLeaf_ok:
  assumes w: "starts p (lkey lf)" and k: "starts p key" and ne: "lkey lf \<noteq> key"
  shows "put_post p (Some (Leaf lf)) key val (splitLeaf lf key val (length p) m)"
proof -
  let ?ek = "lkey lf"
  define e where "e = common_end ?ek key (length p)"
  have "take (length p) ?ek = take (length p) key" using w k by (simp add: starts_def)
  then have e: "length p \<le> e" "e \<le> length ?ek" "e \<le> length key" "take e ?ek = take e key"
      "e < length ?ek \<longrightarrow> e < length key \<longrightarrow> ?ek ! e \<noteq> key ! e"
    using common_end_spec [of "length p" ?ek key] starts_length [OF w] starts_length [OF k]
    unfolding e_def by auto
  define P where "P = slice key (length p) e"
  have P: "fst (if e > length p then allocPfxStr key (length p) e m else ([], m)) = P"
    using e by (auto simp: P_def slice_def)
  have q: "p @ P = take e key"
    using k e(1) take_add [of "length p" "e - length p" key] by (simp add: P_def slice_def starts_def)
  obtain m1 where m1: "(if e > length p then allocPfxStr key (length p) e m else ([], m)) = (P, m1)"
    using fst_eq_ex [OF P] by blast
  obtain m2 where m2: "allocLeaf key val m1 = (MkLeaf key val, m2)"
    using fst_eq_ex [OF alloc_fst(3) [of key val m1]] by blast
  have sk: "starts (take e key) key" "starts (take e key) ?ek"
    using e by (simp_all add: starts_def)
  have sl: "e < length key \<Longrightarrow> starts (take e key @ [key ! e]) key"
      "e < length ?ek \<Longrightarrow> starts (take e key @ [?ek ! e]) ?ek"
    using sk e by (auto simp: starts_snoc)
  let ?nl = "Leaf (MkLeaf key val)"
  have r: "splitLeaf lf key val (length p) m =
      (if e = length key then
         if e < length ?ek
         then (None, Nd (Inner P (Some (MkLeaf key val))) (B4 (addChild_arr (new_narr 4) (?ek ! e) (Some (Leaf lf)))), m2)
         else (Some (lval lf), Leaf (MkLeaf ?ek val), m2)
       else if e = length ?ek
       then (None, Nd (Inner P (Some lf)) (B4 (addChild_arr (new_narr 4) (key ! e) (Some ?nl))), m2)
       else (None, Nd (Inner P None)
          (B4 (addChild_arr (addChild_arr (new_narr 4) (?ek ! e) (Some (Leaf lf))) (key ! e) (Some ?nl))), m2))"
    by (simp only: splitLeaf_def Let_def e_def [symmetric] m1 m2 prod.case)
  consider (newEnds) "e = length key" "e < length ?ek" | (oldEnds) "e = length ?ek" "e < length key"
    | (fork) "e < length ?ek" "e < length key"
  proof -
    have "e \<noteq> length key \<or> e \<noteq> length ?ek" using e(4) ne by (metis take_all order_refl)
    then show thesis using that e by linarith
  qed
  then show ?thesis
  proof cases
    case newEnds
    then show ?thesis
      using one_child [of "?ek ! e" "Leaf lf"] q sl(2) ne
      by (auto simp: r put_post_def art_wf_node node_ok_def
          entries_Nd leaf_entry_def fun_eq_iff simp flip: append_assoc)
  next
    case oldEnds
    then have ek: "take e key = ?ek" using e(4) by simp
    show ?thesis
      using oldEnds one_child [of "key ! e" "Leaf (MkLeaf key val)"] q [unfolded ek] sl(1) [unfolded ek] ne
      by (auto simp: r put_post_def art_wf_node node_ok_def
          entries_Nd leaf_entry_def fun_eq_iff simp flip: append_assoc)
  next
    case fork
    then show ?thesis
      using two_children [of "?ek ! e" "key ! e" "Leaf lf" "Leaf (MkLeaf key val)"] q sl e(5) ne
      by (auto simp: r put_post_def art_wf_node node_ok_def
          entries_Nd leaf_entry_def fun_eq_iff set_kv_ins simp flip: append_assoc)
  qed
qed

lemma map_of_snoc: "M key = None \<Longrightarrow> [key \<mapsto> val] ++ M = M(key \<mapsto> val)"
  by (auto simp: map_add_def fun_eq_iff split: option.splits)

lemma splitNode_ok:
  assumes w: "art_wf p (Some (Nd hdr b))" and k: "starts p key"
    and mm: "mm = prefixMismatch hdr key (length p)" "mm < length (pfx hdr)"
  shows "put_post p (Some (Nd hdr b)) key val (splitNode hdr b key val (length p) mm m)"
proof -
  let ?sb = "pfx hdr ! mm" and ?d = "length p + mm"
  have "mm \<le> length (pfx hdr) \<and> ?d \<le> length key \<and> take mm (pfx hdr) = take mm (drop (length p) key) \<and>
      (mm < length (pfx hdr) \<longrightarrow> ?d < length key \<longrightarrow> ?sb \<noteq> key ! ?d)"
    unfolding mm(1) prefixMismatch_def using starts_length [OF k] by (intro mismatch_spec) auto
  then have d: "?d \<le> length key" "take mm (pfx hdr) = take mm (drop (length p) key)" "?d < length key \<longrightarrow> ?sb \<noteq> key ! ?d"
    using mm(2) by simp_all
  define P where "P = take mm (pfx hdr)"
  have q: "p @ P = take ?d key"
    using k d(2) unfolding P_def starts_def take_add by simp
  have len: "length (p @ P) = ?d" using mm(2) by (simp add: P_def)
  have split: "p @ pfx hdr = ((p @ P) @ [?sb]) @ drop (mm + 1) (pfx hdr)"
    using id_take_nth_drop [OF mm(2)] by (simp add: P_def)
  define orig where "orig = Nd (Inner (drop (mm + 1) (pfx hdr)) (ileaf hdr)) b"
  have wo: "art_wf ((p @ P) @ [?sb]) (Some orig)"
    using w unfolding orig_def wf_reprefix [OF split] .
  have eo: "entries (Some orig) = entries (Some (Nd hdr b))"
    unfolding orig_def by (rule entries_reprefix)
  have ns: "\<not> starts (p @ pfx hdr) key"
  proof
    assume "starts (p @ pfx hdr) key"
    then have "starts ((p @ P) @ [?sb]) key" unfolding split by (rule starts_append)
    then show False unfolding starts_snoc using d(3) len by simp
  qed
  have none: "map_of (entries (Some (Nd hdr b))) key = None"
    using w ns by (intro node_map_other) (auto simp: art_wf_node)
  obtain m1 where m1: "(if mm > 0 then allocPfxBytes P m else ([], m)) = (P, m1)"
    by (cases "mm = 0") (auto simp: P_def intro!: that prod_eqI)
  obtain m2 where m2: "allocPfxBytes (drop (mm + 1) (pfx hdr)) m1 = (drop (mm + 1) (pfx hdr), m2)"
    using fst_eq_ex [OF alloc_fst(1) [of "drop (mm + 1) (pfx hdr)" m1]] by blast
  obtain m3 where m3: "allocLeaf key val m2 = (MkLeaf key val, m3)"
    using fst_eq_ex [OF alloc_fst(3) [of key val m2]] by blast
  let ?nd = "addChild_arr (new_narr 4) ?sb (Some orig)"
  have r: "splitNode hdr b key val (length p) mm m =
      (if ?d = length key then (None, Nd (Inner P (Some (MkLeaf key val))) (B4 ?nd), m3)
       else (None, Nd (Inner P None) (B4 (addChild_arr ?nd (key ! ?d) (Some (Leaf (MkLeaf key val))))), m3))"
    by (simp only: splitNode_def Let_def P_def [symmetric] m1 m2 m3 prod.case orig_def)
  show ?thesis
  proof (cases "?d = length key")
    case True
    then have "key = p @ P" using q by simp
    then show ?thesis
      unfolding r using True one_child [of ?sb orig] wo none eo
      by (simp add: put_post_def art_wf_node node_ok_def entries_Nd [of _ "B4 _"] leaf_entry_def)
  next
    case False
    then have ne: "?sb \<noteq> key ! ?d" "?d < length key" using d by auto
    let ?b = "B4 (addChild_arr ?nd (key ! ?d) (Some (Leaf (MkLeaf key val))))"
    have b: "body_inv ?b" "kids ?b = kv_ins (key ! ?d) (Some (Leaf (MkLeaf key val))) [(?sb, Some orig)]"
      using two_children [OF ne(1), of orig "Leaf (MkLeaf key val)"] by blast+
    have st: "starts ((p @ P) @ [key ! ?d]) key"
      unfolding starts_snoc using q len ne by (simp add: starts_def)
    have "art_wf p (Some (Nd (Inner P None) ?b))"
      using b wo st by (simp add: art_wf_node node_ok_def set_kv_ins)
    moreover have "map_of (entries (Some (Nd (Inner P None) ?b))) = (map_of (entries (Some (Nd hdr b))))(key \<mapsto> val)"
      unfolding entries_Nd [of _ ?b] b(2) using none eo by (simp add: leaf_entry_def map_of_snoc)
    ultimately show ?thesis unfolding r using False none by (simp add: put_post_def)
  qed
qed

lemma node_ok_slot:
  assumes ok: "node_ok p hdr b" and s: "slot b c = Some i"
  obtains x where "child_at b i = Some x" "map_of (kids b) c = Some (Some x)" "art_wf (p @ pfx hdr @ [c]) (Some x)"
proof -
  have inv: "body_inv b" using ok by (simp add: node_ok_def)
  have m: "map_of (kids b) c = Some (child_at b i)" using body.slot_Some [OF inv s] .
  then have "(c, child_at b i) \<in> set (kids b)" by (rule map_of_SomeD)
  then obtain x where "child_at b i = Some x" using body_kids_Some [OF inv] by blast
  with m kid_wf [OF ok m] show thesis by (intro that) auto
qed

text \<open>Replacing a child, and what it does to the map.\<close>

lemma set_child_node:
  assumes ok: "node_ok p hdr b" and s: "slot b c = Some i" and w: "art_wf (p @ pfx hdr @ [c]) (Some ch)"
  shows "node_ok p hdr (set_child b i (Some ch)) \<and> length (kids (set_child b i (Some ch))) = length (kids b) \<and>
    map_of (kids (set_child b i (Some ch))) = (map_of (kids b))(c \<mapsto> Some ch)"
proof -
  have inv: "body_inv b" using ok by (simp add: node_ok_def)
  note st = body.set_law [OF inv s, of ch]
  have "map_of (kids b) c \<noteq> None" using body.slot_None [OF inv, of c] s by auto
  then have "map_of (kids (set_child b i (Some ch))) = (map_of (kids b))(c \<mapsto> Some ch)"
    using st by (auto simp: fun_eq_iff map_of_kv_set)
  moreover have "art_wf (p @ pfx hdr @ [fst x]) (snd x)" if "x \<in> set (kv_set c (Some ch) (kids b))" for x
    using that ok w by (auto simp: kv_set_def node_ok_def split: if_splits)
  ultimately show ?thesis using st ok by (simp add: node_ok_def)
qed

lemma put_ok:
  "starts p key \<Longrightarrow> n = None \<or> art_wf p n \<Longrightarrow> put_post p n key val (put n key val (length p) m)"
proof (induction n key val "length p" m arbitrary: p rule: put.induct)
  case (1 key val m)
  obtain m2 where "allocLeaf key val m = (MkLeaf key val, m2)"
    using fst_eq_ex [OF alloc_fst(3) [of key val m]] by blast
  then show ?case using "1.prems" by (simp add: put_post_def fun_eq_iff)
next
  case (2 lf key val m)
  then show ?case
    using splitLeaf_ok [of p lf key val m] by (auto simp: put_post_def fun_eq_iff)
next
  case (3 hdr b key val m)
  let ?q = "p @ pfx hdr" and ?mm = "prefixMismatch hdr key (length p)" and ?n = "Some (Nd hdr b)"
  have w: "art_wf p ?n" using "3.prems" by simp
  then have ok: "node_ok p hdr b" and inv: "body_inv b" by (simp_all add: art_wf_node node_ok_def)
  show ?case
  proof (cases "?mm < length (pfx hdr)")
    case True
    then show ?thesis using splitNode_ok [OF w "3.prems"(1) refl True] by (simp add: Let_def)
  next
    case cov: False
    have "take (length (pfx hdr)) (drop (length p) key) = pfx hdr"
      using mismatch_spec [of 0 "pfx hdr" "length p" key] starts_length [OF "3.prems"(1)] cov
      by (auto simp: prefixMismatch_def)
    then have "starts ?q key" using "3.prems"(1) by (simp add: starts_def take_add)
    note stq = this starts_length [OF this]
    show ?thesis
    proof (cases "length ?q = length key")
      case True
      then have kq: "key = ?q" using stq by (auto dest: starts_full)
      obtain m2 where m2: "allocLeaf key val m = (MkLeaf key val, m2)"
        using fst_eq_ex [OF alloc_fst(3) [of key val m]] by blast
      let ?lf = "MkLeaf key val" and ?old = "map_option lval (ileaf hdr)"
      let ?hdr = "Inner (pfx hdr) (Some ?lf)"
      have lk: "ileaf hdr = Some lf \<Longrightarrow> lkey lf = key" for lf using ok kq by (simp add: node_ok_def)
      have r: "\<exists>m'. put ?n key val (length p) m = (?old, Nd ?hdr b, m')"
        using cov True m2 by (cases "ileaf hdr") (auto simp: Let_def lk)
      have ok': "node_ok p ?hdr b" using ok kq by (simp add: node_ok_def)
      moreover have "1 \<le> length (kids b)" using w by (simp add: art_wf_node split: if_splits)
      ultimately have "art_wf p (Some (Nd ?hdr b))" by (simp add: art_wf_node)
      moreover have "map_of (entries (Some (Nd ?hdr b))) = (map_of (entries ?n))(key \<mapsto> val)"
        unfolding fun_eq_iff fun_upd_apply node_map [OF ok'] node_map [OF ok] using kq by simp
      ultimately show ?thesis using r node_map [OF ok, of key] kq by (auto simp: put_post_def)
    next
      case ne: False
      then have kq: "key \<noteq> ?q" "length ?q < length key" using stq by auto
      let ?c = "key ! length ?q"
      have stc: "starts (?q @ [?c]) key" unfolding starts_snoc using stq kq by simp
      show ?thesis
      proof (cases "slot b ?c")
        case None
        obtain m2 where m2: "allocLeaf key val m = (MkLeaf key val, m2)"
          using fst_eq_ex [OF alloc_fst(3) [of key val m]] by blast
        let ?ch = "Leaf (MkLeaf key val)" and ?b = "add_or_grow b ?c (Some (Leaf (MkLeaf key val)))"
        have r: "put ?n key val (length p) m = (None, Nd hdr ?b, m2)"
          using cov ne None m2 by (simp add: Let_def)
        note ad = body.add_law [OF inv TrueI None, of ?ch]
        have cn: "map_of (kids b) ?c = None" using body.slot_None [OF inv] None by blast
        have ok': "node_ok p hdr ?b" using ad ok stc by (auto simp: node_ok_def set_kv_ins)
        then have "art_wf p (Some (Nd hdr ?b))" using w ad by (auto simp: art_wf_node)
        moreover have mk: "map_of (kids ?b) = (map_of (kids b))(?c \<mapsto> Some ?ch)"
          using ad cn by (simp add: map_of_kv_ins map_of_eq_None_iff)
        have "map_of (entries (Some (Nd hdr ?b))) = (map_of (entries ?n))(key \<mapsto> val)"
          unfolding fun_eq_iff fun_upd_apply node_map [OF ok'] node_map [OF ok] mk
          using kq cn by (auto split: option.splits)
        ultimately show ?thesis unfolding r using node_map [OF ok, of key] kq cn by (simp add: put_post_def)
      next
        case (Some i)
        obtain x where x: "child_at b i = Some x" "map_of (kids b) ?c = Some (Some x)" "art_wf (?q @ [?c]) (Some x)"
          using node_ok_slot [OF ok Some] by auto
        obtain old ch m' where ch: "put (child_at b i) key val (length (?q @ [?c])) m = (old, ch, m')"
          by (metis prod_cases3)
        have "put_post (?q @ [?c]) (child_at b i) key val (put (child_at b i) key val (length (?q @ [?c])) m)"
          using x stc cov ne Some by (intro "3.hyps" [of ?mm "length ?q" ?c i]) auto
        then have IH: "old = map_of (entries (Some x)) key" "art_wf (?q @ [?c]) (Some ch)"
            "map_of (entries (Some ch)) = (map_of (entries (Some x)))(key \<mapsto> val)"
          unfolding ch unfolding x(1) by (simp_all add: put_post_def)
        let ?b = "set_child b i (Some ch)"
        have r: "put ?n key val (length p) m = (old, Nd hdr ?b, m')"
          using cov ne Some ch by (simp add: Let_def)
        have st: "node_ok p hdr ?b" "length (kids ?b) = length (kids b)" "map_of (kids ?b) = (map_of (kids b))(?c \<mapsto> Some ch)"
          using set_child_node [OF ok Some] IH(2) by simp_all
        then have "art_wf p (Some (Nd hdr ?b))" using w by (auto simp: art_wf_node)
        moreover have "map_of (entries (Some (Nd hdr ?b))) = (map_of (entries ?n))(key \<mapsto> val)"
          unfolding fun_eq_iff fun_upd_apply node_map [OF st(1)] node_map [OF ok] st(3)
          using kq x(2) IH(3) by (auto split: option.splits)
        ultimately show ?thesis unfolding r using node_map [OF ok, of key] kq x IH(1) by (simp add: put_post_def)
      qed
    qed
  qed
qed

section \<open>Deletion\<close>

lemma many_kids: "body_inv b \<Longrightarrow> (\<And>nd. b \<noteq> B4 nd) \<Longrightarrow> 4 < length (kids b)"
  by (cases b) (auto simp: narr_length n48_num n256_num)

text \<open>Collapsing a node4 that has lost a branch keeps its entries.\<close>

lemma shrinkAfterDelete4_ok:
  fixes m :: mem
  assumes ok: "node_ok p hdr (B4 nd)"
  defines "n \<equiv> fst (shrinkAfterDelete4 hdr nd m)"
  shows "entries n = entries (Some (Nd hdr (B4 nd))) \<and> (n = None \<or> art_wf p n)"
proof -
  have inv: "narr_inv 4 nd" using ok by (simp add: node_ok_def)
  note len = narr_length [OF inv]
  have lk: "ileaf hdr = Some lf \<Longrightarrow> lkey lf = p @ pfx hdr" for lf using ok by (simp add: node_ok_def)
  consider (none) "num nd = 0" | (one) "num nd = 1" "ileaf hdr = None" | (keep) "num nd \<noteq> 0" "num nd \<noteq> 1 \<or> ileaf hdr \<noteq> None"
    by blast
  then show ?thesis
  proof cases
    case none
    then show ?thesis
      using len lk by (auto simp: n_def shrinkAfterDelete4_def entries_Nd leaf_entry_def starts_iff split: option.splits)
  next
    case one
    obtain c ch where k: "range_arr nd = [(c, Some ch)]"
    proof -
      obtain y where y: "range_arr nd = [y]" using len one by (auto simp: length_Suc_conv)
      then have "snd y \<noteq> None" using narr_kids_Some [OF inv, of "fst y" "snd y"] by simp
      then obtain ch where "snd y = Some ch" by blast
      with y show thesis by (intro that [of "fst y" ch]) (simp add: prod_eq_iff)
    qed
    then have c: "keys nd ! 0 = c" "nth_opt (children nd) 0 = Some ch"
      using narr_nth [OF inv, of 0] narr_dims [OF inv] one by (simp_all add: nth_opt_def)
    have w: "art_wf (p @ pfx hdr @ [c]) (Some ch)" using ok k by (simp add: node_ok_def)
    have n: "n = fst (mergeWithChild (pfx hdr) c (Some ch) m)"
      using one c by (simp add: n_def shrinkAfterDelete4_def)
    have e: "entries (Some (Nd hdr (B4 nd))) = entries (Some ch)"
      using one k by (simp add: entries_Nd leaf_entry_def)
    show ?thesis
    proof (cases ch)
      case (Leaf lf)
      then show ?thesis using n e w starts_append [of p "pfx hdr @ [c]"] by (simp add: mergeWithChild_def)
    next
      case (Nd h b)
      let ?p = "pfx hdr @ c # pfx h"
      have "n = Some (Nd (Inner ?p (ileaf h)) b)"
        using n Nd fst_eq_ex [OF alloc_fst(2) [of "pfx hdr" c "pfx h" m]] by (auto simp: mergeWithChild_def)
      moreover have "art_wf p (Some (Nd (Inner ?p (ileaf h)) b))"
        using w Nd wf_reprefix [of "p @ pfx hdr @ [c]" h p ?p b] by simp
      ultimately show ?thesis using e Nd entries_reprefix by metis
    qed
  next
    case keep
    then have "n = Some (Nd hdr (B4 nd))" by (auto simp: n_def shrinkAfterDelete4_def)
    with keep ok len show ?thesis by (auto simp: art_wf_node)
  qed
qed

text \<open>What a deletion owes.\<close>

definition del_post :: "bytes \<Rightarrow> 'v node option \<Rightarrow> bytes \<Rightarrow> 'v option \<times> 'v node option \<times> mem \<Rightarrow> bool" where
  "del_post p n key r \<longleftrightarrow>
     fst r = map_of (entries n) key \<and> (fst (snd r) = None \<or> art_wf p (fst (snd r))) \<and>
     (fst r = None \<longrightarrow> fst (snd r) \<noteq> None) \<and>
     map_of (entries (fst (snd r))) = (map_of (entries n))(key := None)"

lemma after_delete_ok:
  fixes m :: mem
  assumes ok: "node_ok p hdr b" and l: "ileaf hdr = None" "1 \<le> length (kids b)"
  defines "n \<equiv> fst (after_delete hdr b m)"
  shows "entries n = entries (Some (Nd hdr b)) \<and> (n = None \<or> art_wf p n)"
proof (cases "\<exists>nd. b = B4 nd")
  case True
  then obtain nd where "b = B4 nd" by blast
  then show ?thesis using shrinkAfterDelete4_ok [of p hdr nd m] ok by (simp add: n_def after_delete_def)
next
  case False
  then have "n = Some (Nd hdr b)" by (cases b) (auto simp: n_def after_delete_def)
  moreover have "4 < length (kids b)" using ok False by (intro many_kids) (auto simp: node_ok_def)
  ultimately show ?thesis using ok l by (simp add: art_wf_node)
qed

lemma remove_child_node:
  assumes ok: "node_ok p hdr b" and s: "slot b c = Some i"
  defines "b' \<equiv> remove_shrink (set_child b i None) c i"
  shows "node_ok p hdr b' \<and> map_of (kids b') = (map_of (kids b))(c := None) \<and> length (kids b) \<le> Suc (length (kids b'))"
proof -
  have inv: "body_inv b" using ok by (simp add: node_ok_def)
  note r = body.remove_law [OF inv s, folded b'_def]
  have d: "distinct (map fst (kids b))" using body.kids_sorted [OF inv] by (rule ksorted_distinct)
  have "map_of (kids b) c \<noteq> None" using body.slot_None [OF inv, of c] s by auto
  then obtain j where "j < length (kids b)" "fst (kids b ! j) = c"
    by (metis fst_conv in_set_conv_nth map_of_SomeD not_None_eq)
  then have "kv_del c (kids b) = take j (kids b) @ drop (Suc j) (kids b)" using d by (intro kv_del_nth)
  then have "length (kids b) \<le> Suc (length (kids b'))" using r \<open>j < _\<close> by simp
  moreover have "map_of (kids b') = (map_of (kids b))(c := None)" using r by (auto simp: fun_eq_iff map_of_kv_del)
  moreover have "node_ok p hdr b'" using ok r by (auto simp: node_ok_def kv_del_def)
  ultimately show ?thesis by simp
qed

lemma after_remove_ok:
  fixes m :: mem
  assumes ok: "node_ok p hdr b" and s: "slot b c = Some i"
  defines "n \<equiv> fst (after_remove hdr (set_child b i None) c i m)"
    and "b' \<equiv> remove_shrink (set_child b i None) c i"
  shows "entries n = entries (Some (Nd hdr b')) \<and> (n = None \<or> art_wf p n)"
proof (cases "\<exists>nd. b = B4 nd")
  case True
  then obtain nd where b: "b = B4 nd" by blast
  then have "node_ok p hdr (B4 (removeChildAt (set_arr nd i None) i))"
    using remove_child_node [OF ok s] by simp
  from shrinkAfterDelete4_ok [OF this, of m] b show ?thesis by (simp add: n_def b'_def after_remove_def)
next
  case False
  then have "n = Some (Nd hdr b')" by (cases b) (auto simp: n_def b'_def after_remove_def)
  moreover have "4 < length (kids b)" using ok False by (intro many_kids) (auto simp: node_ok_def)
  ultimately show ?thesis using remove_child_node [OF ok s, folded b'_def] by (auto simp: art_wf_node)
qed

lemma del_ok:
  "starts p key \<Longrightarrow> art_wf p n \<Longrightarrow> del_post p n key (del n key (length p) m)"
proof (induction n key "length p" m arbitrary: p rule: del.induct)
  case (3 hdr b key m)
  let ?q = "p @ pfx hdr" and ?n = "Some (Nd hdr b)"
  have w: "art_wf p ?n" using "3.prems" by simp
  then have ok: "node_ok p hdr b" and inv: "body_inv b" and len: "1 \<le> length (kids b)"
    by (auto simp: art_wf_node node_ok_def split: if_splits)
  have same: "del_post p ?n key (None, ?n, m')" if "map_of (entries ?n) key = None" for m'
    using that w by (auto simp: del_post_def fun_eq_iff)
  show ?case
  proof (cases "starts ?q key")
    case False
    then show ?thesis using "3.prems" same [OF node_map_other [OF ok False]] by (simp add: checkPrefix_iff)
  next
    case stq: True
    then have cp: "checkPrefix hdr key (length p)" using "3.prems" by (simp add: checkPrefix_iff)
    show ?thesis
    proof (cases "length ?q = length key")
      case True
      then have kq: "key = ?q" using stq by (auto dest: starts_full)
      show ?thesis
      proof (cases "ileaf hdr")
        case None
        then have "del ?n key (length p) m = (None, ?n, m)" using cp True by (simp add: Let_def)
        then show ?thesis using same node_map [OF ok, of key] kq None by simp
      next
        case (Some lf)
        let ?hdr = "Inner (pfx hdr) None"
        have ok': "node_ok p ?hdr b" using ok by (simp add: node_ok_def)
        note a = after_delete_ok [OF ok' _ len, of m]
        have "map_of (entries (Some (Nd ?hdr b))) = (map_of (entries ?n))(key := None)"
          unfolding fun_eq_iff fun_upd_apply node_map [OF ok'] node_map [OF ok] using kq by simp
        moreover have "del ?n key (length p) m = (Some (lval lf), after_delete ?hdr b m)"
          using cp True Some by (simp add: Let_def)
        ultimately show ?thesis
          using a node_map [OF ok, of key] kq Some by (simp add: del_post_def)
      qed
    next
      case ne: False
      then have kq: "key \<noteq> ?q" "length ?q < length key" using starts_length [OF stq] by auto
      let ?c = "key ! length ?q"
      have stc: "starts (?q @ [?c]) key" unfolding starts_snoc using stq kq by simp
      show ?thesis
      proof (cases "slot b ?c")
        case None
        then have "del ?n key (length p) m = (None, ?n, m)" using cp ne by (simp add: Let_def)
        moreover have "map_of (kids b) ?c = None" using body.slot_None [OF inv] None by blast
        ultimately show ?thesis using same node_map [OF ok, of key] kq by simp
      next
        case (Some i)
        obtain x where x: "child_at b i = Some x" "map_of (kids b) ?c = Some (Some x)" "art_wf (?q @ [?c]) (Some x)"
          using node_ok_slot [OF ok Some] by auto
        obtain old ch m' where ch: "del (child_at b i) key (length (?q @ [?c])) m = (old, ch, m')"
          by (metis prod_cases3)
        have "del_post (?q @ [?c]) (child_at b i) key (del (child_at b i) key (length (?q @ [?c])) m)"
          using x stc cp ne Some by (intro "3.hyps" [of "length ?q" ?c i]) auto
        then have IH: "old = map_of (entries (Some x)) key" "ch = None \<or> art_wf (?q @ [?c]) ch"
            "old = None \<longrightarrow> ch \<noteq> None" "map_of (entries ch) = (map_of (entries (Some x)))(key := None)"
          unfolding ch unfolding x(1) by (simp_all add: del_post_def)
        have old: "old = map_of (entries ?n) key" using node_map [OF ok, of key] kq x IH(1) by simp
        show ?thesis
        proof (cases ch)
          case (Some y)
          let ?b = "set_child b i (Some y)"
          have r: "del ?n key (length p) m = (old, Some (Nd hdr ?b), m')"
            using cp ne \<open>slot b ?c = Some i\<close> ch Some by (cases old) (simp_all add: Let_def)
          have st: "node_ok p hdr ?b" "length (kids ?b) = length (kids b)" "map_of (kids ?b) = (map_of (kids b))(?c \<mapsto> Some y)"
            using set_child_node [OF ok \<open>slot b ?c = Some i\<close>] IH(2) Some by simp_all
          then have "art_wf p (Some (Nd hdr ?b))" using w by (auto simp: art_wf_node)
          moreover have "map_of (entries (Some (Nd hdr ?b))) = (map_of (entries ?n))(key := None)"
            unfolding fun_eq_iff fun_upd_apply node_map [OF st(1)] node_map [OF ok] st(3)
            using kq x(2) IH(4) Some by (auto split: option.splits)
          ultimately show ?thesis unfolding r using old by (simp add: del_post_def)
        next
          case None
          then obtain v where v: "old = Some v" using IH(3) by auto
          let ?b = "remove_shrink (set_child b i None) ?c i"
          have r: "del ?n key (length p) m = (old, after_remove hdr (set_child b i None) ?c i m')"
            using cp ne Some ch None v by (simp add: Let_def)
          note rm = remove_child_node [OF ok Some] and a = after_remove_ok [OF ok Some, of m']
          have out: "map_of (entries (Some x)) k = None" if "k \<noteq> key" for k
            using fun_cong [OF IH(4), of k] None that by simp
          have "map_of (entries (Some (Nd hdr ?b))) = (map_of (entries ?n))(key := None)"
            unfolding fun_eq_iff fun_upd_apply node_map [OF conjunct1 [OF rm]] node_map [OF ok]
              conjunct1 [OF conjunct2 [OF rm]]
            using kq x(2) out by (auto split: option.splits)
          then show ?thesis unfolding r v using a old [symmetric] v by (simp add: del_post_def)
        qed
      qed
    qed
  qed
qed (auto simp: del_post_def fun_eq_iff)

section \<open>Trees\<close>

definition art_inv :: "'v tree \<Rightarrow> bool" where
  "art_inv t \<longleftrightarrow> (root t = None \<or> art_wf [] (root t)) \<and> tsize t = int (length (entries (root t)))"

definition art_abs :: "'v tree \<Rightarrow> bytes \<rightharpoonup> 'v" where "art_abs t = map_of (entries (root t))"

lemma root_sorted: "art_inv t \<Longrightarrow> ksorted (entries (root t))"
  using entries_sorted by (auto simp: art_inv_def ksorted_def)

lemma entries_card: "art_inv t \<Longrightarrow> length (entries (root t)) = card (dom (art_abs t))"
  unfolding art_abs_def by (intro length_map_of ksorted_distinct root_sorted)

lemma size_upd:
  assumes "ksorted xs" "ksorted ys" "map_of ys = (map_of xs)(k \<mapsto> v)"
  shows "length ys = (if map_of xs k = None then length xs + 1 else length xs)"
proof -
  have "dom (map_of ys) = insert k (dom (map_of xs))" using assms(3) by simp
  moreover have "finite (dom (map_of xs))" by (rule finite_dom_map_of)
  moreover have "length xs = card (dom (map_of xs))" "length ys = card (dom (map_of ys))"
    using assms(1,2) by (simp_all add: length_map_of ksorted_distinct)
  ultimately show ?thesis by (simp add: domIff card_insert_if)
qed

lemma size_del:
  assumes "ksorted xs" "ksorted ys" "map_of ys = (map_of xs)(k := None)"
  shows "length ys = (if map_of xs k = None then length xs else length xs - 1)"
proof -
  have "dom (map_of ys) = dom (map_of xs) - {k}" using assms(3) by simp
  moreover have "finite (dom (map_of xs))" by (rule finite_dom_map_of)
  moreover have "length xs = card (dom (map_of xs))" "length ys = card (dom (map_of ys))"
    using assms(1,2) by (simp_all add: length_map_of ksorted_distinct)
  ultimately show ?thesis by (simp add: domIff card_Diff_singleton_if)
qed

lemma Get_ok: "art_inv t \<Longrightarrow> Get t key = art_abs t key"
  using get_ok [of "[]" "root t" key] by (auto simp: Get_def art_abs_def art_inv_def split: option.splits)

lemma Put_ok:
  assumes inv: "art_inv t" and p: "Put t key val = (old, t')"
  shows "old = art_abs t key \<and> art_inv t' \<and> art_abs t' = (art_abs t)(key \<mapsto> val)"
proof -
  obtain o' n m where r: "put (root t) key val 0 (tmem t) = (o', n, m)" by (metis prod_cases3)
  have "put_post [] (root t) key val (put (root t) key val (length ([] :: bytes)) (tmem t))"
    by (rule put_ok) (use inv in \<open>simp_all add: art_inv_def\<close>)
  then have post: "o' = map_of (entries (root t)) key" "art_wf [] (Some n)"
      "map_of (entries (Some n)) = (map_of (entries (root t)))(key \<mapsto> val)"
    using r by (simp_all add: put_post_def)
  have t': "old = o'" "root t' = Some n" "tsize t' = (if old = None then tsize t + 1 else tsize t)"
    using p r by (auto simp: Put_def)
  have "length (entries (Some n)) = (if o' = None then length (entries (root t)) + 1 else length (entries (root t)))"
    using size_upd [OF root_sorted [OF inv] entries_sorted [OF post(2)] post(3)] post(1) by simp
  then show ?thesis using post t' inv by (simp add: art_inv_def art_abs_def)
qed

lemma Delete_ok:
  assumes inv: "art_inv t" and d: "Delete t key = (old, t')"
  shows "old = art_abs t key \<and> art_inv t' \<and> art_abs t' = (art_abs t)(key := None)"
proof (cases "root t = None")
  case True
  then show ?thesis using inv d by (auto simp: Delete_def art_abs_def)
next
  case False
  obtain o' n m where r: "del (root t) key 0 (tmem t) = (o', n, m)" by (metis prod_cases3)
  have "del_post [] (root t) key (del (root t) key (length ([] :: bytes)) (tmem t))"
    by (rule del_ok) (use inv False in \<open>simp_all add: art_inv_def\<close>)
  then have post: "o' = map_of (entries (root t)) key" "n = None \<or> art_wf [] n"
      "map_of (entries n) = (map_of (entries (root t)))(key := None)"
    using r by (simp_all add: del_post_def)
  have t': "old = o'" "root t' = n" "tsize t' = (if old \<noteq> None then tsize t - 1 else tsize t)"
    using d r False by (auto simp: Delete_def)
  have s: "ksorted (entries n)" using post(2) entries_sorted by (auto simp: ksorted_def)
  have "length (entries n) = (if o' = None then length (entries (root t)) else length (entries (root t)) - 1)"
    using size_del [OF root_sorted [OF inv] s post(3)] post(1) by simp
  moreover have "o' \<noteq> None \<Longrightarrow> entries (root t) \<noteq> []" using post(1) by auto
  then have "o' \<noteq> None \<Longrightarrow> Suc 0 \<le> length (entries (root t))" by (simp add: Suc_le_eq)
  ultimately have "int (length (entries n)) = tsize t'"
    using t' inv by (simp add: art_inv_def of_nat_diff split: if_splits)
  then show ?thesis using post t' by (auto simp: art_inv_def art_abs_def)
qed

interpretation art: dictionary art_inv art_abs Put Delete Get
  by unfold_locales (blast dest: Put_ok Delete_ok Get_ok)+

lemma zero_tree_ok: "art_inv zero_tree" "art_abs zero_tree = Map.empty"
  by (simp_all add: zero_tree_def art_inv_def art_abs_def fun_eq_iff)

end
