(* ===== verification/ArtIter.thy ===== *)
theory ArtIter
  imports ArtMap
begin

text \<open>
  The ordered traversals of the adaptive radix tree. Each of them is iteration over a filtered
  list of the entries: all of them, those after a start key, those that extend a query. Also the
  compaction of the prefix arena, which leaves every node as it was, and the number of inner
  nodes path compression allows.
\<close>

section \<open>Iteration over all entries\<close>

abbreviation visit :: "('v, 's) callback \<Rightarrow> bytes \<times> 'v \<Rightarrow> 's \<Rightarrow> bool \<times> 's" where
  "visit fn \<equiv> (\<lambda>e. fn (fst e) (snd e))"

lemma and_then_iter:
  "and_then (iter_while f xs s) (iter_while f ys) = iter_while f (xs @ ys) s"
  by (simp add: and_then_def iter_while_append)

lemma emit_leaf_iter:
  "emit_leaf fn P lf s = iter_while (visit fn) (filter (\<lambda>e. P (MkLeaf (fst e) (snd e))) (leaf_entry lf)) s"
  by (cases lf; cases "the lf") (auto simp: emit_leaf_def leaf_entry_def split: prod.splits bool.splits)

lemma forEach_entries: "forEach fn n s = iter_while (visit fn) (entries n) s"
proof (induction fn n s rule: forEach.induct)
  case (2 fn lf s)
  then show ?case by (auto split: prod.splits bool.splits)
next
  case (3 fn hdr b s)
  have "iter_while (\<lambda>x. forEach fn (snd x)) (kids b) =
      iter_while (visit fn) (concat (map (\<lambda>x. entries (snd x)) (kids b)))"
    by (intro ext iter_while_concat) (rule 3)
  then show ?case by (simp add: emit_leaf_iter and_then_iter entries_Nd)
qed simp

lemma emit_all_iter:
  "emit_all fn hdr b P s = iter_while (visit fn)
     (filter (\<lambda>e. P (MkLeaf (fst e) (snd e))) (leaf_entry (ileaf hdr)) @ concat (map (\<lambda>x. entries (snd x)) (kids b))) s"
proof -
  have "iter_while (\<lambda>x. forEach fn (snd x)) (kids b) =
      iter_while (visit fn) (concat (map (\<lambda>x. entries (snd x)) (kids b)))"
    by (intro ext iter_while_concat) (rule forEach_entries)
  then show ?thesis by (simp add: emit_all_def emit_leaf_iter and_then_iter)
qed

section \<open>Entries after a start key\<close>

text \<open>The prefix comparison, on the rest of the start key.\<close>

fun cmp_rest :: "bytes \<Rightarrow> bytes \<Rightarrow> int" where
  "cmp_rest [] r = 0"
| "cmp_rest (x # xs) [] = 1"
| "cmp_rest (x # xs) (y # ys) = (if x < y then -1 else if x > y then 1 else cmp_rest xs ys)"

lemma cmp_from_rest: "i \<le> length p \<Longrightarrow> cmp_from p start depth i = cmp_rest (drop i p) (drop (depth + i) start)"
proof (induction p start depth i rule: cmp_from.induct)
  case (1 p start depth i)
  show ?case
  proof (cases "i < length p \<and> depth + i < length start")
    case True
    then have "drop i p = p ! i # drop (Suc i) p" "drop (depth + i) start = start ! (depth + i) # drop (Suc (depth + i)) start"
      by (simp_all add: Cons_nth_drop_Suc)
    with True 1 show ?thesis by (subst cmp_from.simps) (simp add: Let_def)
  next
    case False
    with "1.prems" show ?thesis
      by (subst cmp_from.simps) (cases "drop i p"; auto simp: Let_def)
  qed
qed

lemma cmp_rest_pos: "cmp_rest a r > 0 \<Longrightarrow> r < a @ w"
  by (induction a r rule: cmp_rest.induct) (auto split: if_splits)

lemma cmp_rest_neg: "cmp_rest a r < 0 \<Longrightarrow> a @ w < r"
  by (induction a r rule: cmp_rest.induct) (auto split: if_splits)

lemma cmp_rest_zero: "cmp_rest a r = 0 \<Longrightarrow> starts a r"
  by (induction a r rule: cmp_rest.induct) (auto simp: starts_iff split: if_splits)

lemma append_less_cancel: "(p @ a :: bytes) < p @ b \<longleftrightarrow> a < b"
  by (induction p) auto

lemma comparePrefixRange_sound:
  assumes "starts p start" and "starts (p @ a) k"
  shows "comparePrefixRange a start (length p) > 0 \<Longrightarrow> start < k"
    and "comparePrefixRange a start (length p) < 0 \<Longrightarrow> k < start"
    and "comparePrefixRange a start (length p) = 0 \<Longrightarrow> starts (p @ a) start"
proof -
  obtain r w where r: "start = p @ r" and w: "k = p @ a @ w" using assms by (auto simp: starts_iff)
  have c: "comparePrefixRange a start (length p) = cmp_rest a r"
    unfolding comparePrefixRange_def by (simp add: cmp_from_rest r)
  show "comparePrefixRange a start (length p) > 0 \<Longrightarrow> start < k"
    using cmp_rest_pos [of a r w] c by (simp add: r w append_less_cancel)
  show "comparePrefixRange a start (length p) < 0 \<Longrightarrow> k < start"
    using cmp_rest_neg [of a r w] c by (simp add: r w append_less_cancel)
  show "comparePrefixRange a start (length p) = 0 \<Longrightarrow> starts (p @ a) start"
    using cmp_rest_zero [of a r] c by (auto simp: r starts_iff)
qed

text \<open>Entering the bitmap at the word of the target yields the present bytes from the target on.\<close>

lemma present_from_eq: "present_from ws t = filter (\<lambda>c. \<not> c < t) (present_bytes ws)"
proof -
  let ?k = "unat t div 64"
  define blk :: "nat \<Rightarrow> bytes" where "blk = (\<lambda>w. map (\<lambda>b. of_nat (w * 64 + b)) (bits_asc (ws ! w)))"
  have u: "unat (of_nat (w * 64 + b) :: byte) = w * 64 + b" if "w < 4" "b < 64" for w b
    using that by (intro unat_of_nat_byte) simp
  have lt: "(of_nat (w * 64 + b) :: byte) < t \<longleftrightarrow> w < ?k \<or> w = ?k \<and> b < unat t mod 64" if "w < 4" "b < 64" for w b
  proof -
    have "(of_nat (w * 64 + b) :: byte) < t \<longleftrightarrow> w * 64 + b < ?k * 64 + unat t mod 64"
      using u [OF that] by (simp add: word_less_nat_alt)
    moreover have "unat t mod 64 < 64" by simp
    ultimately show ?thesis using that by linarith
  qed
  have b64: "b < 64" if "b \<in> set (bits_asc w)" for b w
    using that bits_asc_sound [of w] bit_imp_le_length [of w b] by auto
  have lo: "filter (\<lambda>c. \<not> c < t) (blk w) = []" if "w < ?k" "w < 4" for w
    using that lt b64 by (auto simp: blk_def filter_empty_conv)
  have hi: "filter (\<lambda>c. \<not> c < t) (blk w) = blk w" if "?k < w" "w < 4" for w
    using that lt b64 by (auto simp: blk_def filter_id_conv)
  have eq: "filter (\<lambda>c. \<not> c < t) (blk ?k) =
      map (\<lambda>b. of_nat (?k * 64 + b)) (bits_asc (ws ! ?k AND NOT (mask (unat t mod 64))))"
  proof -
    have "filter (\<lambda>c. \<not> c < t) (blk ?k) = map (\<lambda>b. of_nat (?k * 64 + b)) (filter (\<lambda>b. \<not> b < unat t mod 64) (bits_asc (ws ! ?k)))"
      unfolding blk_def filter_map comp_def
      using lt [OF byte_div_less] b64 by (intro arg_cong [of _ _ "map _"] filter_cong) auto
    moreover have "filter (\<lambda>b. \<not> b < unat t mod 64) (bits_asc (ws ! ?k)) = bits_asc (ws ! ?k AND NOT (mask (unat t mod 64)))"
      unfolding bits_asc_eq filter_filter by (intro filter_cong) (auto simp: bit_simps)
    ultimately show ?thesis by simp
  qed
  have split: "[0..<4] = [0..<?k] @ ?k # [Suc ?k..<4]"
    using byte_div_less [of t] upt_add_eq_append [of 0 ?k "4 - ?k"] upt_conv_Cons [of ?k 4] by simp
  have "filter (\<lambda>c. \<not> c < t) (present_bytes ws) = concat (map (\<lambda>w. filter (\<lambda>c. \<not> c < t) (blk w)) [0..<4])"
    by (simp only: present_bytes_def filter_concat map_map comp_def blk_def)
  also have "\<dots> = filter (\<lambda>c. \<not> c < t) (blk ?k) @ concat (map blk [Suc ?k..<4])"
  proof -
    have "map (\<lambda>w. filter (\<lambda>c. \<not> c < t) (blk w)) [Suc ?k..<4] = map blk [Suc ?k..<4]"
      by (rule map_cong [OF refl]) (auto intro: hi)
    moreover have "concat (map (\<lambda>w. filter (\<lambda>c. \<not> c < t) (blk w)) [0..<?k]) = []"
      using lo byte_div_less [of t] by auto
    ultimately show ?thesis unfolding split map_append concat_append by (simp only: list.map concat.simps append_Nil)
  qed
  also have "\<dots> = present_from ws t"
  proof -
    have "[?k..<4] = ?k # [Suc ?k..<4]" using byte_div_less [of t] by (simp add: upt_conv_Cons)
    moreover have "map (\<lambda>w. map (\<lambda>bit. of_nat (w * 64 + bit)) (bits_asc (if w = ?k then ws ! w AND NOT (mask (unat t mod 64)) else ws ! w)))
        [Suc ?k..<4] = map blk [Suc ?k..<4]"
      by (rule map_cong [OF refl]) (auto simp: blk_def)
    ultimately show ?thesis unfolding present_from_def Let_def eq
      by (simp only: list.map concat.simps if_True refl)
  qed
  finally show ?thesis ..
qed

lemma seek_range_eq: "seek_range b t = filter (\<lambda>x. \<not> fst x < t) (kids b)"
  by (cases b) (auto simp: seek_range_def range256_def present_from_eq filter_map comp_def split_def)


lemma filter_concat_kids:
  assumes ok: "node_ok p hdr b"
    and sel: "\<And>x e. x \<in> set (kids b) \<Longrightarrow> e \<in> set (entries (snd x)) \<Longrightarrow> Q e \<Longrightarrow> R (fst x)"
  shows "filter Q (concat (map (\<lambda>x. entries (snd x)) (kids b))) =
    concat (map (\<lambda>x. filter Q (entries (snd x))) (filter (\<lambda>x. R (fst x)) (kids b)))"
proof -
  have "filter Q (concat (map (\<lambda>x. entries (snd x)) xs)) =
      concat (map (\<lambda>x. filter Q (entries (snd x))) (filter (\<lambda>x. R (fst x)) xs))" if "set xs \<subseteq> set (kids b)" for xs
    using that
  proof (induction xs)
    case (Cons x xs)
    then show ?case using sel [of x] by (auto simp: filter_empty_conv)
  qed simp
  then show ?thesis by blast
qed

lemma entries_below:
  assumes "art_wf p (Some (Nd hdr b))" "e \<in> set (entries (Some (Nd hdr b)))"
  shows "starts (p @ pfx hdr) (fst e)"
  using assms by (intro entries_starts [of "p @ pfx hdr" "Some (Nd (Inner [] (ileaf hdr)) b)"])
    (auto simp: entries_reprefix wf_reprefix [of p hdr "p @ pfx hdr" "[]"])

lemma seek_entries:
  "starts p start \<Longrightarrow> art_wf p n \<Longrightarrow>
    seek fn n start (length p) s = iter_while (visit fn) (filter (\<lambda>e. start < fst e) (entries n)) s"
proof (induction fn n start "length p" s arbitrary: p rule: seek.induct)
  case (2 fn lf start s)
  then show ?case by (auto split: prod.splits bool.splits)
next
  case (3 fn hdr b start s)
  let ?q = "p @ pfx hdr" and ?n = "Some (Nd hdr b)" and ?Q = "\<lambda>e. start < fst e"
  have w: "art_wf p ?n" and sp: "starts p start" using "3.prems" by auto
  have ok: "node_ok p hdr b" using w by (simp add: art_wf_node)
  define c where "c = comparePrefixRange (pfx hdr) start (length p)"
  note snd = comparePrefixRange_sound [OF sp, where a = "pfx hdr", folded c_def]
  have below: "starts ?q (fst e)" if "e \<in> set (entries ?n)" for e
    using entries_below [OF w that] .
  have kid: "starts (?q @ [fst x]) (fst e)" if "x \<in> set (kids b)" "e \<in> set (entries (snd x))" for x e
    using kid_starts [OF ok that] by simp
  consider "c > 0" | "c < 0" | "c = 0" "length ?q \<ge> length start" | "c = 0" "length ?q < length start"
    by linarith
  then show ?case
  proof cases
    case 1
    have "filter ?Q (entries ?n) = entries ?n" using snd(1) 1 below by (auto simp: filter_id_conv)
    then show ?thesis using 1 by (simp add: c_def [symmetric] emit_all_iter entries_Nd)
  next
    case 2
    have "filter ?Q (entries ?n) = []" using snd(2) 2 below by (fastforce simp: filter_empty_conv)
    then show ?thesis using 2 by (simp add: c_def [symmetric])
  next
    case 3
    then have "start = ?q" using snd(3) [of ?q] starts_length [of ?q start] by (auto intro: starts_full)
    then have "filter ?Q (concat (map (\<lambda>x. entries (snd x)) (kids b))) = concat (map (\<lambda>x. entries (snd x)) (kids b))"
      using kid less_extension by (fastforce simp: filter_id_conv)
    then show ?thesis using 3 by (simp add: c_def [symmetric] emit_all_iter entries_Nd)
  next
    case 4
    let ?t = "start ! length ?q"
    have st: "starts ?q start" using snd(3) [of ?q] 4 by simp
    then have stt: "starts (?q @ [?t]) start" unfolding starts_snoc using 4 by simp
    have gt: "start < fst e" if "x \<in> set (kids b)" "e \<in> set (entries (snd x))" "?t < fst x" for x e
      using less_snoc [OF stt kid [OF that(1,2)] that(3)] .
    have "\<not> fst x < ?t" if "x \<in> set (kids b)" "e \<in> set (entries (snd x))" "?Q e" for x e
      using less_snoc [OF kid [OF that(1,2)] stt] that(3) by fastforce
    then have f: "filter ?Q (concat (map (\<lambda>x. entries (snd x)) (kids b))) =
        concat (map (\<lambda>x. filter ?Q (entries (snd x))) (filter (\<lambda>x. \<not> fst x < ?t) (kids b)))"
      by (rule filter_concat_kids [OF ok])
    have "filter ?Q (leaf_entry (ileaf hdr)) = []"
      using ok less_extension [OF stt] by (auto simp: leaf_entry_def node_ok_def split: option.splits)
    then have l: "emit_leaf fn (\<lambda>lf. lkey lf > start) (ileaf hdr) s = (True, s)" for s
      by (simp add: emit_leaf_iter)
    have "(if fst x = ?t then seek fn (snd x) start (length p + length (pfx hdr) + 1) s else forEach fn (snd x) s) =
        iter_while (visit fn) (filter ?Q (entries (snd x))) s" if x: "x \<in> set (seek_range b ?t)" for x s
    proof (cases "fst x = ?t")
      case True
      have wf: "art_wf (?q @ [?t]) (snd x)" using ok x True by (auto simp: node_ok_def seek_range_eq)
      have "seek fn (snd x) start (length (?q @ [?t])) s = iter_while (visit fn) (filter ?Q (entries (snd x))) s"
        using 4 x True wf stt by (intro "3.hyps" [OF refl]) (simp_all add: c_def)
      then show ?thesis using True by simp
    next
      case False
      then have "?t < fst x" "x \<in> set (kids b)" using x by (auto simp: seek_range_eq)
      then have "filter ?Q (entries (snd x)) = entries (snd x)" using gt by (simp add: filter_id_conv)
      then show ?thesis using False by (simp add: forEach_entries)
    qed
    then have "iter_while (\<lambda>x s. if fst x = ?t then seek fn (snd x) start (length p + length (pfx hdr) + 1) s
          else forEach fn (snd x) s) (seek_range b ?t) s =
        iter_while (visit fn) (concat (map (\<lambda>x. filter ?Q (entries (snd x))) (seek_range b ?t))) s"
      by (rule iter_while_concat)
    then show ?thesis using 4 l f \<open>filter ?Q (leaf_entry (ileaf hdr)) = []\<close>
      by (simp add: c_def [symmetric] and_then_def entries_Nd seek_range_eq)
  qed
qed simp

section \<open>Entries that extend a query\<close>

fun scan_rest :: "bytes \<Rightarrow> bytes \<Rightarrow> scan_cmp" where
  "scan_rest [] r = Covered"
| "scan_rest (x # xs) [] = Exhausted"
| "scan_rest (x # xs) (y # ys) = (if x \<noteq> y then Disagrees else scan_rest xs ys)"

lemma scan_from_rest: "i \<le> length p \<Longrightarrow> scan_from p query depth i = scan_rest (drop i p) (drop (depth + i) query)"
proof (induction p query depth i rule: scan_from.induct)
  case (1 p query depth i)
  show ?case
  proof (cases "i < length p \<and> depth + i < length query")
    case True
    then have "drop i p = p ! i # drop (Suc i) p" "drop (depth + i) query = query ! (depth + i) # drop (Suc (depth + i)) query"
      by (simp_all add: Cons_nth_drop_Suc)
    with True 1 show ?thesis by (subst scan_from.simps) simp
  next
    case False
    with "1.prems" show ?thesis
      by (subst scan_from.simps) (cases "drop i p"; auto)
  qed
qed

lemma scan_rest_cases:
  "scan_rest a r = Exhausted \<Longrightarrow> starts r a"
  "scan_rest a r = Covered \<Longrightarrow> starts a r"
  "scan_rest a r = Disagrees \<Longrightarrow> \<not> starts r (a @ w)"
  by (induction a r rule: scan_rest.induct) (auto simp: starts_def split: if_splits)

lemma starts_cancel: "starts (p @ a) (p @ b) \<longleftrightarrow> starts a b"
  by (simp add: starts_def)

lemma starts_trans: "starts a b \<Longrightarrow> starts b c \<Longrightarrow> starts a c"
  by (auto simp: starts_iff)

lemma scan_sound:
  assumes "starts p query" and "starts (p @ a) k"
  shows "scan_from a query (length p) 0 = Exhausted \<Longrightarrow> starts query k"
    and "scan_from a query (length p) 0 = Disagrees \<Longrightarrow> \<not> starts query k"
    and "scan_from a query (length p) 0 = Covered \<Longrightarrow> starts (p @ a) query"
proof -
  obtain r w where r: "query = p @ r" and w: "k = p @ a @ w" using assms by (auto simp: starts_iff)
  have c: "scan_from a query (length p) 0 = scan_rest a r" by (simp add: scan_from_rest r)
  have a: "starts a (a @ w)" by (simp add: starts_def)
  show "scan_from a query (length p) 0 = Exhausted \<Longrightarrow> starts query k"
    using scan_rest_cases(1) [of a r] starts_trans [OF _ a, of r] c by (simp add: r w starts_cancel)
  show "scan_from a query (length p) 0 = Disagrees \<Longrightarrow> \<not> starts query k"
    using scan_rest_cases(3) [of a r w] c by (simp add: r w starts_cancel)
  show "scan_from a query (length p) 0 = Covered \<Longrightarrow> starts (p @ a) query"
    using scan_rest_cases(2) [of a r] c by (simp add: r starts_cancel)
qed

lemma scan_child_eq:
  "body_inv b \<Longrightarrow> scan_child b c = (case map_of (kids b) c of None \<Rightarrow> None | Some x \<Rightarrow> x)"
  unfolding body.find_eq [symmetric] body.find_law
  by (cases b) (auto simp: scan_child_def slot256_def n256_inv_def child256_def nth_opt_def split: option.splits)

lemma filter_key:
  "distinct (map fst xs) \<Longrightarrow> filter (\<lambda>x. fst x = t) xs = (case map_of xs t of None \<Rightarrow> [] | Some x \<Rightarrow> [(t, x)])"
proof (induction xs)
  case (Cons x xs)
  then show ?case by (cases x) (auto simp: filter_empty_conv rev_image_eqI split: option.splits dest: map_of_SomeD)
qed simp

lemma scanPrefix_entries:
  "starts p query \<Longrightarrow> n = None \<or> art_wf p n \<Longrightarrow>
    scanPrefix fn n query (length p) s = iter_while (visit fn) (filter (\<lambda>e. starts query (fst e)) (entries n)) s"
proof (induction fn n query "length p" s arbitrary: p rule: scanPrefix.induct)
  case (2 fn lf query s)
  have "length query \<le> length (lkey lf) \<and> take (length query) (lkey lf) = query \<longleftrightarrow> starts query (lkey lf)"
    using starts_length [of query "lkey lf"] by (auto simp: starts_def)
  then show ?case by (auto split: prod.splits bool.splits)
next
  case (3 fn hdr b query s)
  let ?q = "p @ pfx hdr" and ?n = "Some (Nd hdr b)" and ?Q = "\<lambda>e. starts query (fst e)"
  have w: "art_wf p ?n" and sp: "starts p query" using "3.prems" by auto
  have ok: "node_ok p hdr b" and inv: "body_inv b" using w by (simp_all add: art_wf_node node_ok_def)
  define c where "c = scan_from (pfx hdr) query (length p) 0"
  note snd = scan_sound [OF sp, where a = "pfx hdr", folded c_def]
  have below: "starts ?q (fst e)" if "e \<in> set (entries ?n)" for e
    using entries_below [OF w that] .
  have all: "emit_all fn hdr b (\<lambda>_. True) s = iter_while (visit fn) (entries ?n) s"
    by (simp add: emit_all_iter entries_Nd)
  show ?case
  proof (cases c)
    case Exhausted
    have "filter ?Q (entries ?n) = entries ?n" using snd(1) Exhausted below by (auto simp: filter_id_conv)
    then show ?thesis using Exhausted by (simp add: c_def [symmetric] all)
  next
    case Disagrees
    have "filter ?Q (entries ?n) = []" using snd(2) Disagrees below by (fastforce simp: filter_empty_conv)
    then show ?thesis using Disagrees by (simp add: c_def [symmetric])
  next
    case Covered
    then have st: "starts ?q query" using snd(3) [of ?q] by simp
    show ?thesis
    proof (cases "length query \<le> length ?q")
      case True
      then have "query = ?q" using st starts_length [OF st] by (auto intro: starts_full)
      then have "filter ?Q (entries ?n) = entries ?n" using below by (auto simp: filter_id_conv)
      then show ?thesis using Covered True by (simp add: c_def [symmetric] all)
    next
      case False
      let ?t = "query ! (length p + length (pfx hdr))"
      let ?ch = "scan_child b ?t"
      have stt: "starts (?q @ [?t]) query" unfolding starts_snoc using st False by simp
      have kid: "fst x = ?t" if "x \<in> set (kids b)" "e \<in> set (entries (snd x))" "?Q e" for x e
      proof -
        have "starts (?q @ [?t]) (fst e)" using stt that(3) by (rule starts_trans)
        moreover have "starts (?q @ [fst x]) (fst e)" using kid_starts [OF ok that(1,2)] by simp
        ultimately show ?thesis unfolding starts_snoc by simp
      qed
      have d: "distinct (map fst (kids b))" using inv by (intro ksorted_distinct body.kids_sorted)
      have "filter (\<lambda>x. fst x = ?t) (kids b) = (case map_of (kids b) ?t of None \<Rightarrow> [] | Some x \<Rightarrow> [(?t, x)])"
        using d by (rule filter_key)
      then have "concat (map (\<lambda>x. filter ?Q (entries (snd x))) (filter (\<lambda>x. fst x = ?t) (kids b))) = filter ?Q (entries ?ch)"
        by (auto simp: scan_child_eq [OF inv] split: option.splits)
      moreover have "filter ?Q (concat (map (\<lambda>x. entries (snd x)) (kids b))) =
          concat (map (\<lambda>x. filter ?Q (entries (snd x))) (filter (\<lambda>x. fst x = ?t) (kids b)))"
        by (rule filter_concat_kids [OF ok]) (rule kid)
      moreover have "filter ?Q (leaf_entry (ileaf hdr)) = []"
        using ok False starts_length [of query ?q] by (auto simp: leaf_entry_def node_ok_def split: option.splits)
      moreover have "?ch = None \<or> art_wf (?q @ [?t]) ?ch"
        using ok by (auto simp: scan_child_eq [OF inv] node_ok_def split: option.splits dest!: map_of_SomeD)
      then have "scanPrefix fn ?ch query (length (?q @ [?t])) s = iter_while (visit fn) (filter ?Q (entries ?ch)) s"
        using Covered False stt by (intro "3.hyps" [OF _ refl]) (simp_all add: c_def)
      ultimately show ?thesis using Covered False by (simp add: c_def [symmetric] entries_Nd)
    qed
  qed
qed simp

section \<open>Compaction\<close>

text \<open>The compressed prefixes of the live nodes, in the order compaction visits them.\<close>

function live_prefixes :: "'v node option \<Rightarrow> bytes" where
  "live_prefixes None = []"
| "live_prefixes (Some (Leaf lf)) = []"
| "live_prefixes (Some (Nd hdr b)) = pfx hdr @ concat (map (\<lambda>x. live_prefixes (snd x)) (kids b))"
  by pat_completeness auto
termination by (relation "measure osize") (auto intro: osize_kids)

lemma migratePrefix_eq: "migratePrefix src dst = (src, dst @ src)"
  by (simp add: migratePrefix_def slice_def Let_def)

lemma update_nth_opt: "xs[i := nth_opt xs i] = xs"
  by (cases "i < length xs") (simp_all add: nth_opt_def list_update_beyond)

lemma set_child_same: "set_child b i (child_at b i) = b"
  by (cases b) (simp_all add: update_nth_opt set_arr_def child_arr_def set48_def child48_def set256_def child256_def)

lemma compact_fold:
  assumes "body_inv b" and "set xs \<subseteq> set (kids b)"
    and "\<And>x ar. x \<in> set xs \<Longrightarrow> compactNode (snd x) ar = (snd x, ar @ live_prefixes (snd x))"
  shows "fold (\<lambda>(c, ch) (b, ar). case compactNode ch ar of
      (ch', ar) \<Rightarrow> ((case slot b c of Some i \<Rightarrow> set_child b i ch' | None \<Rightarrow> b), ar)) xs (b, ar) =
    (b, ar @ concat (map (\<lambda>x. live_prefixes (snd x)) xs))"
  using assms(2,3)
proof (induction xs arbitrary: ar)
  case (Cons x xs)
  obtain c ch where x: "x = (c, ch)" by fastforce
  then have m: "map_of (kids b) c = Some ch"
    using Cons.prems(1) assms(1) by (simp add: ksorted_distinct body.kids_sorted)
  then obtain i where i: "slot b c = Some i" using body.slot_None [OF assms(1), of c] by (cases "slot b c") auto
  then have "set_child b i ch = b" using body.slot_Some [OF assms(1) i] m set_child_same [of b i] by simp
  then show ?case using Cons.IH [of "ar @ live_prefixes ch"] Cons.prems Cons.prems(2) [of x ar] i x by simp
qed simp

lemma compactNode_eq: "art_wf p n \<Longrightarrow> compactNode n ar = (n, ar @ live_prefixes n)"
proof (induction p n arbitrary: ar rule: art_wf.induct)
  case (3 p hdr b)
  then have "compactNode (snd x) ar = (snd x, ar @ live_prefixes (snd x))" if "x \<in> set (kids b)" for x ar
    using that by (simp add: art_wf_node node_ok_def)
  then show ?case
    using 3 compact_fold [of b "kids b" "ar @ pfx hdr"] by (cases hdr) (simp add: migratePrefix_eq art_wf_node node_ok_def)
qed auto

section \<open>Path compression\<close>

function inner_nodes :: "'v node option \<Rightarrow> nat" where
  "inner_nodes None = 0"
| "inner_nodes (Some (Leaf lf)) = 0"
| "inner_nodes (Some (Nd hdr b)) = 1 + sum_list (map (\<lambda>x. inner_nodes (snd x)) (kids b))"
  by pat_completeness auto
termination by (relation "measure osize") (auto intro: osize_kids)

lemma sum_list_succ:
  "(\<And>x. x \<in> set xs \<Longrightarrow> f x + 1 \<le> (g x :: nat)) \<Longrightarrow> sum_list (map f xs) + length xs \<le> sum_list (map g xs)"
  by (induction xs) force+

lemma inner_nodes_less: "art_wf p n \<Longrightarrow> inner_nodes n + 1 \<le> length (entries n)"
proof (induction p n rule: art_wf.induct)
  case (3 p hdr b)
  then have "inner_nodes (snd x) + 1 \<le> length (entries (snd x))" if "x \<in> set (kids b)" for x
    using that by (simp add: art_wf_node node_ok_def)
  then have "sum_list (map (\<lambda>x. inner_nodes (snd x)) (kids b)) + length (kids b) \<le>
      length (concat (map (\<lambda>x. entries (snd x)) (kids b)))"
    unfolding length_concat map_map comp_def by (rule sum_list_succ)
  then show ?case using "3.prems" by (auto simp: art_wf_node entries_Nd leaf_entry_def split: if_splits option.splits)
qed auto

section \<open>Properties of the tree\<close>

text \<open>A tree with a compressed path, a leaf on an inner node and a split.\<close>

definition demo_tree :: "nat tree" where
  "demo_tree = snd (mrun Put Delete Get [MPut [1, 2, 3] 10, MPut [1, 2, 4] 20, MPut [1, 2] 30, MPut [5] 40] zero_tree)"

lemma demo_tree_ok: "art_inv demo_tree"
  unfolding demo_tree_def using art.refines [OF zero_tree_ok(1) prod.collapse [symmetric]] by blast

text \<open>
  C1. The tree is a map: starting from a well-formed tree, every history of \<open>Put\<close>, \<open>Delete\<close> and
  \<open>Get\<close> calls returns exactly what the same history returns on the abstract map (the previous
  values included), the tree stays well formed, and \<open>Len\<close> is the number of keys.
\<close>

theorem art_refines_map:
  assumes "art_inv t" and "mrun Put Delete Get ops t = (rs, t')"
  shows "art_inv t' \<and> mrun map_put map_del map_get ops (art_abs t) = (rs, art_abs t') \<and>
    tree_Len t' = int (card (dom (art_abs t')))"
  using art.refines [OF assms] entries_card [of t'] by (auto simp: art_inv_def tree_Len_def)

theorem art_refines_map_witness:
  "art_inv demo_tree \<and> (\<exists>t'. mrun Put Delete Get [MDel [1, 2], MGet [1, 2, 4], MPut [5] 7, MDel [9]] demo_tree =
       ([Some 30, Some 20, Some 40, None], t') \<and> art_inv t' \<and> tree_Len t' = 3)"
proof -
  let ?r = "mrun Put Delete Get [MDel [1, 2], MGet [1, 2, 4], MPut [5] 7, MDel [9]] demo_tree"
  have r: "?r = ([Some 30, Some 20, Some 40, None], snd ?r)"
    by (intro prod_eqI) (simp_all, code_simp)
  moreover have "tree_Len (snd ?r) = 3" by code_simp
  ultimately show ?thesis using art_refines_map [OF demo_tree_ok r] demo_tree_ok by metis
qed

text \<open>
  \<open>ForEach\<close> calls the callback on the entries in strictly ascending key order, each binding of
  the map once, and stops when it returns false.
\<close>

theorem ForEach_in_order:
  assumes "art_inv t"
  shows "\<exists>es. ksorted es \<and> map_of es = art_abs t \<and> ForEach t fn s = iter_while (\<lambda>e. fn (fst e) (snd e)) es s"
  using root_sorted [OF assms] by (auto simp: ForEach_def art_abs_def forEach_entries intro!: exI [of _ "entries (root t)"])

theorem ForEach_in_order_witness:
  "art_inv demo_tree \<and> (\<exists>es. ksorted es \<and> map_of es = art_abs demo_tree \<and>
     iter_while (\<lambda>e s. (\<lambda>k v s. (length s < 2, s @ [v])) (fst e) (snd e) s) es [] = (False, [30, 10, 20]))"
proof -
  have "ForEach demo_tree (\<lambda>k v s. (length s < 2, s @ [v])) [] = (False, [30, 10, 20])" by code_simp
  then show ?thesis
    using ForEach_in_order [OF demo_tree_ok, of "\<lambda>k v s. (length s < 2, s @ [v])" "[]"] demo_tree_ok by auto
qed

text \<open>
  C16. \<open>Seek\<close> visits exactly the entries whose key is greater than the start key and
  \<open>ScanPrefix\<close> exactly those whose key extends the query, both in the order of \<open>ForEach\<close>, however
  the keys share compressed paths with the start or the query.
\<close>

theorem Seek_and_ScanPrefix:
  assumes "art_inv t"
  shows "\<exists>es. ksorted es \<and> map_of es = art_abs t \<and>
    Seek t start fn s = iter_while (\<lambda>e. fn (fst e) (snd e)) (filter (\<lambda>e. start < fst e) es) s \<and>
    ScanPrefix t query fn s = iter_while (\<lambda>e. fn (fst e) (snd e)) (filter (\<lambda>e. starts query (fst e)) es) s"
proof -
  have wf: "root t = None \<or> art_wf [] (root t)" using assms by (simp add: art_inv_def)
  have "Seek t start fn s = iter_while (\<lambda>e. fn (fst e) (snd e)) (filter (\<lambda>e. start < fst e) (entries (root t))) s"
    using wf seek_entries [of "[]" start "root t" fn s] by (auto simp: Seek_def)
  moreover have "ScanPrefix t query fn s =
      iter_while (\<lambda>e. fn (fst e) (snd e)) (filter (\<lambda>e. starts query (fst e)) (entries (root t))) s"
    using wf scanPrefix_entries [of "[]" query "root t" fn s] by (auto simp: ScanPrefix_def)
  ultimately show ?thesis using root_sorted [OF assms] by (auto simp: art_abs_def intro!: exI [of _ "entries (root t)"])
qed

theorem Seek_and_ScanPrefix_witness:
  "art_inv demo_tree \<and> (\<exists>es. ksorted es \<and> map_of es = art_abs demo_tree \<and>
     Seek demo_tree [1, 2] (\<lambda>k v s. (True, s @ [v])) [] =
       iter_while (\<lambda>e s. (True, s @ [snd e])) (filter (\<lambda>e. [1, 2] < fst e) es) []) \<and>
   Seek demo_tree [1, 2] (\<lambda>k v s. (True, s @ [v])) [] = (True, [10, 20, 40]) \<and>
   ScanPrefix demo_tree [1] (\<lambda>k v s. (True, s @ [v])) [] = (True, [30, 10, 20])"
proof (intro conjI)
  show "Seek demo_tree [1, 2] (\<lambda>k v s. (True, s @ [v])) [] = (True, [10, 20, 40])" by code_simp
  show "ScanPrefix demo_tree [1] (\<lambda>k v s. (True, s @ [v])) [] = (True, [30, 10, 20])" by code_simp
qed (use demo_tree_ok Seek_and_ScanPrefix [OF demo_tree_ok, of "[1, 2]" "\<lambda>k v s. (True, s @ [v])" "[]" "[1]"] in auto)

text \<open>
  \<open>CompactPrefixArena\<close> changes neither the tree nor its size, and afterwards the arena holds
  the compressed prefixes of the live nodes and nothing else.
\<close>

theorem CompactPrefixArena_keeps:
  assumes "art_inv t"
  shows "root (CompactPrefixArena t) = root t \<and> tree_Len (CompactPrefixArena t) = tree_Len t \<and>
    art_inv (CompactPrefixArena t) \<and> PrefixArenaBytes (CompactPrefixArena t) = length (live_prefixes (root t))"
proof (cases "root t = None")
  case True
  then show ?thesis using assms
    by (simp add: CompactPrefixArena_def art_inv_def tree_Len_def PrefixArenaBytes_def)
next
  case False
  then have "compactNode (root t) [] = (root t, live_prefixes (root t))"
    using assms compactNode_eq [of "[]" "root t" "[]"] by (auto simp: art_inv_def)
  then show ?thesis using assms False
    by (auto simp: CompactPrefixArena_def art_inv_def tree_Len_def PrefixArenaBytes_def)
qed

theorem CompactPrefixArena_keeps_witness:
  "art_inv demo_tree \<and> PrefixArenaBytes demo_tree = 3 \<and> PrefixArenaBytes (CompactPrefixArena demo_tree) = 1 \<and>
   root (CompactPrefixArena demo_tree) = root demo_tree"
proof (intro conjI)
  show "PrefixArenaBytes demo_tree = 3" by code_simp
  show "PrefixArenaBytes (CompactPrefixArena demo_tree) = 1" by code_simp
qed (use demo_tree_ok CompactPrefixArena_keeps [OF demo_tree_ok] in auto)

text \<open>
  Path compression bounds the space: a tree that is not empty has fewer inner nodes than keys,
  so deletions leave no chains of one-way nodes behind.
\<close>

theorem inner_nodes_bound:
  assumes "art_inv t" and "root t \<noteq> None"
  shows "int (inner_nodes (root t)) < tree_Len t"
  using assms inner_nodes_less [of "[]" "root t"] by (auto simp: art_inv_def tree_Len_def)

theorem inner_nodes_bound_witness:
  "art_inv demo_tree \<and> root demo_tree \<noteq> None \<and> int (inner_nodes (root demo_tree)) < 4 \<and> inner_nodes (root demo_tree) = 2"
proof -
  have r: "root demo_tree \<noteq> None" "tree_Len demo_tree = 4" by code_simp+
  moreover have "inner_nodes (root demo_tree) = 2" by code_simp
  ultimately show ?thesis using demo_tree_ok inner_nodes_bound [OF demo_tree_ok r(1)] by simp
qed

end
