(* ===== verification/Dll.thy ===== *)
theory Dll
  imports Main
begin

text \<open>
  Circular doubly linked lists with a sentinel, as packages \<open>lru\<close> and \<open>wheel\<close> build them: the
  \<open>next\<close> and \<open>prev\<close> fields of all nodes are two functions on addresses, linking and unlinking
  are the pointer assignments of the code in their order, and \<open>dll\<close> relates the fields to the
  list of addresses behind a sentinel.
\<close>

section \<open>Pointer assignments\<close>

type_synonym links = "(nat \<Rightarrow> nat) \<times> (nat \<Rightarrow> nat)"

text \<open>
  \<open>n.prev = h; n.next = h.next; h.next.prev = n; h.next = n\<close>, on the pair of fields
  \<open>(next, prev)\<close>. With the fields exchanged it is insertion before \<open>h\<close>.
\<close>

definition link_after :: "nat \<Rightarrow> nat \<Rightarrow> links \<Rightarrow> links" where
  "link_after h n = (\<lambda>(nx, pv).
     let pv = pv(n := h); nx = nx(n := nx h); pv = pv(nx h := n); nx = nx(h := n) in (nx, pv))"

definition link_before :: "nat \<Rightarrow> nat \<Rightarrow> links \<Rightarrow> links" where
  "link_before h n = (\<lambda>(nx, pv).
     let pv = pv(n := pv h); nx = nx(n := h); nx = nx(pv h := n); pv = pv(h := n) in (nx, pv))"

text \<open>\<open>n.prev.next = n.next; n.next.prev = n.prev\<close>.\<close>

definition unlink :: "nat \<Rightarrow> links \<Rightarrow> links" where
  "unlink n = (\<lambda>(nx, pv). let nx = nx(pv n := nx n); pv = pv(nx n := pv n) in (nx, pv))"

text \<open>The loop \<open>for n := first; n != h; n = n.next\<close>: the nodes it visits.\<close>

partial_function (option) walk :: "(nat \<Rightarrow> nat) \<Rightarrow> nat \<Rightarrow> nat \<Rightarrow> nat list option" where
  "walk nx h n = (if n = h then Some [] else Option.bind (walk nx h (nx n)) (\<lambda>xs. Some (n # xs)))"

declare walk.simps [code]

section \<open>Segments\<close>

fun lseg :: "(nat \<Rightarrow> nat) \<Rightarrow> (nat \<Rightarrow> nat) \<Rightarrow> nat \<Rightarrow> nat list \<Rightarrow> nat \<Rightarrow> bool" where
  "lseg nx pv a [] b \<longleftrightarrow> nx a = b \<and> pv b = a"
| "lseg nx pv a (x # xs) b \<longleftrightarrow> nx a = x \<and> pv x = a \<and> lseg nx pv x xs b"

definition dll :: "links \<Rightarrow> nat \<Rightarrow> nat list \<Rightarrow> bool" where
  "dll l h xs \<longleftrightarrow> lseg (fst l) (snd l) h xs h \<and> distinct (h # xs)"

lemma lseg_append: "lseg nx pv a (xs @ y # ys) b \<longleftrightarrow> lseg nx pv a xs y \<and> lseg nx pv y ys b"
  by (induction xs arbitrary: a) auto

lemma lseg_rev: "lseg nx pv a xs b \<longleftrightarrow> lseg pv nx b (rev xs) a"
  by (induction xs arbitrary: a) (auto simp: lseg_append)

lemma lseg_frame:
  "lseg nx pv a xs b \<Longrightarrow> (\<And>y. y \<in> set (a # xs) \<Longrightarrow> nx' y = nx y) \<Longrightarrow> (\<And>y. y \<in> set (xs @ [b]) \<Longrightarrow> pv' y = pv y) \<Longrightarrow>
    lseg nx' pv' a xs b"
  by (induction xs arbitrary: a) auto

lemma lseg_first: "lseg nx pv a xs b \<Longrightarrow> nx a = (case xs of [] \<Rightarrow> b | x # _ \<Rightarrow> x)"
  by (cases xs) auto

lemma lseg_last: "lseg nx pv a xs b \<Longrightarrow> pv b = (if xs = [] then a else last xs)"
  by (induction xs arbitrary: a) auto

lemma lseg_unlink:
  "lseg nx pv a (xs @ y # ys) b \<Longrightarrow> distinct (a # xs @ y # ys) \<Longrightarrow> distinct (xs @ y # ys @ [b]) \<Longrightarrow>
    lseg (nx(pv y := nx y)) (pv(nx y := pv y)) a (xs @ ys) b"
proof (induction xs arbitrary: a)
  case Nil
  then show ?case
  proof (cases ys)
    case (Cons z zs)
    with Nil have z: "lseg nx pv z zs b" "pv y = a" "nx y = z" "nx a = y" "a \<notin> set (z # zs)" "z \<notin> set (zs @ [b])"
      by simp_all
    have "lseg (nx(a := z)) (pv(z := a)) z zs b" by (rule lseg_frame [OF z(1)]) (use z(5,6) in auto)
    then show ?thesis unfolding Cons append_Nil z(2,3) lseg.simps by (simp only: fun_upd_same simp_thms)
  qed auto
next
  case (Cons x xs)
  moreover have "pv y \<noteq> a" using Cons.prems lseg_last [of nx pv x xs y] by (auto simp: lseg_append split: if_splits)
  moreover have "nx y \<noteq> x"
    using Cons.prems lseg_first [of nx pv y ys b] by (auto simp: lseg_append split: list.splits)
  ultimately show ?case by auto
qed

section \<open>Operations on the list behind the sentinel\<close>

lemma dll_empty: "nx h = h \<Longrightarrow> pv h = h \<Longrightarrow> dll (nx, pv) h []"
  by (simp add: dll_def)

lemma dll_link_after:
  assumes "dll l h xs" and "n \<notin> set (h # xs)"
  shows "dll (link_after h n l) h (n # xs)"
proof -
  obtain nx pv where l: "l = (nx, pv)" by (cases l)
  have s: "lseg nx pv h xs h" and d: "distinct (h # xs)" using assms by (simp_all add: dll_def l)
  have e: "link_after h n l = (nx(n := nx h, h := n), pv(n := h, nx h := n))"
    using assms by (simp add: link_after_def l)
  show ?thesis
  proof (cases xs)
    case Nil
    then show ?thesis unfolding e using s assms(2) by (simp add: dll_def)
  next
    case (Cons z zs)
    then have "nx h = z" "lseg nx pv z zs h" using s by auto
    have "lseg (nx(n := z, h := n)) (pv(n := h, z := n)) z zs h"
      by (rule lseg_frame [OF \<open>lseg nx pv z zs h\<close>]) (use d assms(2) Cons in auto)
    then show ?thesis unfolding e using d assms(2) Cons \<open>nx h = z\<close> by (simp add: dll_def)
  qed
qed

text \<open>Exchanging the fields reverses the list.\<close>

lemma dll_swap: "dll (prod.swap l) h xs \<longleftrightarrow> dll l h (rev xs)"
  using lseg_rev [of "snd l" "fst l" h xs h] by (simp add: dll_def)

lemma link_before_swap: "link_before h n l = prod.swap (link_after h n (prod.swap l))"
  by (cases l) (simp add: link_before_def link_after_def Let_def)

lemma dll_link_before:
  assumes "dll l h xs" and "n \<notin> set (h # xs)"
  shows "dll (link_before h n l) h (xs @ [n])"
proof -
  have "dll (prod.swap l) h (rev xs)" using assms(1) by (simp add: dll_swap)
  then have "dll (link_after h n (prod.swap l)) h (n # rev xs)" using assms(2) by (intro dll_link_after) auto
  then show ?thesis by (simp add: link_before_swap dll_swap)
qed

lemma dll_unlink:
  assumes "dll l h (xs @ y # ys)"
  shows "dll (unlink y l) h (xs @ ys)"
proof -
  obtain nx pv where l: "l = (nx, pv)" by (cases l)
  have s: "lseg nx pv h (xs @ y # ys) h" and d: "distinct (h # xs @ y # ys)" using assms by (simp_all add: dll_def l)
  have "pv y \<noteq> y" using s d lseg_last [of nx pv h xs y] by (auto simp: lseg_append split: if_splits)
  then have e: "unlink y l = (nx(pv y := nx y), pv(nx y := pv y))"
    by (simp add: unlink_def l Let_def)
  show ?thesis unfolding e using lseg_unlink [OF s] d by (auto simp: dll_def)
qed

text \<open>Lists behind other sentinels are not touched.\<close>

lemma dll_frame:
  assumes "dll l h xs" and "\<And>y. y \<in> set (h # xs) \<Longrightarrow> fst l' y = fst l y \<and> snd l' y = snd l y"
  shows "dll l' h xs"
  using assms lseg_frame [of "fst l" "snd l" h xs h "fst l'" "snd l'"] by (auto simp: dll_def)

lemma dll_first: "dll l h xs \<Longrightarrow> fst l h = (case xs of [] \<Rightarrow> h | x # _ \<Rightarrow> x)"
  by (auto simp: dll_def dest: lseg_first)

lemma dll_last: "dll l h xs \<Longrightarrow> snd l h = (if xs = [] then h else last xs)"
  by (auto simp: dll_def dest: lseg_last split: if_splits)

lemma dll_neighbours:
  assumes "dll l h xs" and "y \<in> set xs"
  shows "fst l y \<in> set (h # xs)" "snd l y \<in> set (h # xs)"
proof -
  obtain us vs where xs: "xs = us @ y # vs" using assms(2) by (meson split_list)
  have "lseg (fst l) (snd l) h us y" "lseg (fst l) (snd l) y vs h" using assms(1) xs by (simp_all add: dll_def lseg_append)
  from lseg_first [OF this(2)] lseg_last [OF this(1)] show "fst l y \<in> set (h # xs)" "snd l y \<in> set (h # xs)"
    using xs by (auto split: list.splits)
qed

lemma walk_lseg: "lseg nx pv a xs h \<Longrightarrow> h \<notin> set xs \<Longrightarrow> walk nx h (nx a) = Some xs"
  by (induction xs arbitrary: a) (auto simp: walk.simps [of nx h])

lemma walk_dll: "dll l h xs \<Longrightarrow> walk (fst l) h (fst l h) = Some xs"
  by (auto simp: dll_def intro: walk_lseg)

text \<open>Walking from a node on visits the rest of the list.\<close>

lemma walk_from:
  assumes "dll l h (xs @ y # ys)"
  shows "walk (fst l) h y = Some (y # ys)"
proof -
  have "lseg (fst l) (snd l) y ys h" "h \<notin> set ys" "y \<noteq> h" using assms by (auto simp: dll_def lseg_append)
  then show ?thesis using walk_lseg [of "fst l" "snd l" y ys h] by (simp add: walk.simps [of _ _ y])
qed

lemma dll_unique: "dll l h xs \<Longrightarrow> dll l h ys \<Longrightarrow> xs = ys"
  using walk_dll [of l h xs] walk_dll [of l h ys] by simp

end
