(* ===== verification/Lru.thy ===== *)
theory Lru
  imports Words Dll SortedAL Interfaces
begin

text \<open>
  Package \<open>lru\<close> (src/lru/lru.go): a cache of shards, each a map from keys to the nodes of a
  circular doubly linked list ordered by recency. Nodes live in a heap of addresses; the sentinel
  of a shard's list has address 0 and a new node gets the next free address. The clock is read at
  most once per call: a call takes what each clock would show (\<open>clock \<Rightarrow> int\<close>), and the hash
  function \<open>hash.Sum64sMap\<close>, which depends on a random seed, is a parameter. A set returns the
  pair the eviction callback is called with.
\<close>

section \<open>Shards\<close>

datatype clock = Wall | Injected

record 'v lnode =
  lkey :: bytes
  lval :: 'v
  created :: int

record 'v shard =
  items :: "(bytes \<times> nat) list"
  links :: links
  nodes :: "nat \<rightharpoonup> 'v lnode"
  fresh :: nat
  nowFn :: "clock option"
  scap :: int
  ttl :: int
  onEvict :: bool

definition shard_init :: "int \<Rightarrow> int \<Rightarrow> bool \<Rightarrow> clock option \<Rightarrow> 'v shard" where
  "shard_init c t ev now =
     \<lparr>items = [], links = (\<lambda>_. 0, \<lambda>_. 0), nodes = Map.empty, fresh = 1,
      nowFn = (if t > 0 then (case now of Some f \<Rightarrow> Some f | None \<Rightarrow> Some Wall) else None),
      scap = c, ttl = t, onEvict = ev\<rparr>"

definition pushFront :: "nat \<Rightarrow> 'v shard \<Rightarrow> 'v shard" where
  "pushFront n s = s\<lparr>links := link_after 0 n (links s)\<rparr>"

definition shard_remove :: "nat \<Rightarrow> 'v shard \<Rightarrow> 'v shard" where
  "shard_remove n s = s\<lparr>links := unlink n (links s)\<rparr>"

definition moveToFront :: "nat \<Rightarrow> 'v shard \<Rightarrow> 'v shard" where
  "moveToFront n s = pushFront n (shard_remove n s)"

definition node_at :: "'v shard \<Rightarrow> nat \<Rightarrow> 'v lnode" where "node_at s n = the (nodes s n)"

definition expired :: "'v shard \<Rightarrow> int \<Rightarrow> nat \<Rightarrow> bool" where
  "expired s now n \<longleftrightarrow> ttl s > 0 \<and> swrap64 (now - created (node_at s n)) > ttl s"

definition shard_get :: "bytes \<Rightarrow> (clock \<Rightarrow> int) \<Rightarrow> 'v shard \<Rightarrow> 'v option \<times> 'v shard" where
  "shard_get key now s =
     (case map_of (items s) key of
        None \<Rightarrow> (None, s)
      | Some n \<Rightarrow>
          if ttl s > 0 \<and> expired s (now (the (nowFn s))) n
          then (None, (shard_remove n s)\<lparr>items := kv_del key (items s)\<rparr>)
          else (Some (lval (node_at s n)), moveToFront n s))"

definition unlinkOldest :: "'v shard \<Rightarrow> (bytes \<times> 'v) option \<times> 'v shard" where
  "unlinkOldest s =
     (let tail = snd (links s) 0
      in if tail = 0 then (None, s)
         else let nd = node_at s tail
              in (Some (lkey nd, lval nd), (shard_remove tail s)\<lparr>items := kv_del (lkey nd) (items s)\<rparr>))"

definition shard_set :: "bytes \<Rightarrow> 'v \<Rightarrow> (clock \<Rightarrow> int) \<Rightarrow> 'v shard \<Rightarrow> (bytes \<times> 'v) option \<times> 'v shard" where
  "shard_set key val now s =
     (case map_of (items s) key of
        Some n \<Rightarrow>
          let nd = (node_at s n)\<lparr>lval := val\<rparr>;
              nd = (if ttl s > 0 then nd\<lparr>created := now (the (nowFn s))\<rparr> else nd)
          in (None, moveToFront n (s\<lparr>nodes := (nodes s)(n \<mapsto> nd)\<rparr>))
      | None \<Rightarrow>
          let ts = (if ttl s > 0 then now (the (nowFn s)) else 0);
              n = fresh s;
              s = s\<lparr>nodes := (nodes s)(n \<mapsto> \<lparr>lkey = key, lval = val, created = ts\<rparr>), fresh := Suc n\<rparr>;
              s = s\<lparr>items := mput key n (items s)\<rparr>;
              s = pushFront n s;
              (ev, s) = (if int (length (items s)) > scap s then unlinkOldest s else (None, s))
          in (if onEvict s then ev else None, s))"

definition shard_del :: "bytes \<Rightarrow> 'v shard \<Rightarrow> 'v shard" where
  "shard_del key s =
     (case map_of (items s) key of
        Some n \<Rightarrow> (shard_remove n s)\<lparr>items := kv_del key (items s)\<rparr>
      | None \<Rightarrow> s)"

definition shard_len :: "'v shard \<Rightarrow> int" where "shard_len s = int (length (items s))"

text \<open>
  The iterations. \<open>None\<close> means that a loop does not end; a callback has a state of its own, gets
  a key and a value, and stops the iteration with \<open>False\<close>.
\<close>

type_synonym ('v, 'st) visitor = "bytes \<Rightarrow> 'v \<Rightarrow> 'st \<Rightarrow> bool \<times> 'st"

definition rangeAll :: "int \<Rightarrow> ('v, 'st) visitor \<Rightarrow> 'v shard \<Rightarrow> 'st \<Rightarrow> (bool \<times> 'st) option" where
  "rangeAll now fn s st =
     Option.bind (walk (fst (links s)) 0 (fst (links s) 0)) (\<lambda>ns.
       let snap = map (\<lambda>n. (lkey (node_at s n), lval (node_at s n))) (filter (\<lambda>n. \<not> expired s now n) ns)
       in Some (iter_while (\<lambda>e. fn (fst e) (snd e)) snap st))"

text \<open>One pass of \<open>rangeBatch\<close> under the lock: the batch and the new \<open>lastKey\<close>.\<close>

fun batch_loop :: "'v shard \<Rightarrow> int \<Rightarrow> nat \<Rightarrow> nat list \<Rightarrow> bool \<Rightarrow> bytes \<Rightarrow> (bytes \<times> 'v) list \<Rightarrow> (bytes \<times> 'v) list \<times> bytes" where
  "batch_loop s now batchSize [] skip lastKey batch = (batch, lastKey)"
| "batch_loop s now batchSize (n # ns) skip lastKey batch =
     (if skip then batch_loop s now batchSize ns (lkey (node_at s n) \<noteq> lastKey) lastKey batch
      else if expired s now n then batch_loop s now batchSize ns skip lastKey batch
      else let batch = batch @ [(lkey (node_at s n), lval (node_at s n))]
           in if length batch = batchSize then (batch, lkey (node_at s n))
              else batch_loop s now batchSize ns skip lastKey batch)"

partial_function (option) rangeBatch_loop ::
    "'v shard \<Rightarrow> int \<Rightarrow> nat \<Rightarrow> ('v, 'st) visitor \<Rightarrow> bytes \<Rightarrow> bool \<Rightarrow> 'st \<Rightarrow> (bool \<times> 'st) option" where
  "rangeBatch_loop s now batchSize fn lastKey first st =
     Option.bind (walk (fst (links s)) 0 (fst (links s) 0)) (\<lambda>ns.
       case batch_loop s now batchSize ns first lastKey [] of
         (batch, lastKey) \<Rightarrow>
           if batch = [] then Some (True, st)
           else case iter_while (\<lambda>e. fn (fst e) (snd e)) batch st of
                  (cont, st) \<Rightarrow>
                    if \<not> cont then Some (False, st)
                    else if length batch < batchSize then Some (True, st)
                    else rangeBatch_loop s now batchSize fn lastKey False st)"

declare rangeBatch_loop.simps [code]

definition rangeBatch :: "int \<Rightarrow> nat \<Rightarrow> ('v, 'st) visitor \<Rightarrow> 'v shard \<Rightarrow> 'st \<Rightarrow> (bool \<times> 'st) option" where
  "rangeBatch now batchSize fn s st = rangeBatch_loop s now batchSize fn [] True st"

definition purge :: "'v shard \<Rightarrow> 'v shard" where
  "purge s = s\<lparr>items := [], links := (\<lambda>(nx, pv). (nx(0 := 0), pv(0 := 0))) (links s)\<rparr>"

section \<open>The cache\<close>

record 'v cache =
  shards :: "'v shard list"
  cmask :: u64

record cacheOpts =
  oEvict :: bool
  oTtl :: int
  oNow :: "clock option"

definition WithEvict :: "cacheOpts \<Rightarrow> cacheOpts" where "WithEvict o1 = o1\<lparr>oEvict := True\<rparr>"
definition WithTTL :: "int \<Rightarrow> cacheOpts \<Rightarrow> cacheOpts" where "WithTTL d o1 = o1\<lparr>oTtl := d\<rparr>"
definition WithClock :: "cacheOpts \<Rightarrow> cacheOpts" where "WithClock o1 = o1\<lparr>oNow := Some Injected\<rparr>"

text \<open>\<open>None\<close>: the doubling loop does not end (more than \<open>2 ^ 62\<close> shards).\<close>

definition Cache_New :: "int \<Rightarrow> int \<Rightarrow> (cacheOpts \<Rightarrow> cacheOpts) list \<Rightarrow> 'v cache option" where
  "Cache_New numShards capPerShard opts =
     (let o1 = fold (\<lambda>opt. opt) opts \<lparr>oEvict = False, oTtl = 0, oNow = None\<rparr>
      in map_option (\<lambda>sz.
           \<lparr>shards = replicate (nat sz) (shard_init capPerShard (oTtl o1) (oEvict o1) (oNow o1)),
            cmask = of_int (sz - 1)\<rparr>) (pow2_loop 4 numShards))"

definition shardFor :: "(bytes \<Rightarrow> u64) \<Rightarrow> bytes \<Rightarrow> 'v cache \<Rightarrow> nat" where
  "shardFor h key c = unat (h key AND cmask c)"

definition Cache_Get :: "(bytes \<Rightarrow> u64) \<Rightarrow> bytes \<Rightarrow> (clock \<Rightarrow> int) \<Rightarrow> 'v cache \<Rightarrow> 'v option \<times> 'v cache" where
  "Cache_Get h key now c =
     (let i = shardFor h key c
      in case shard_get key now (shards c ! i) of (r, s) \<Rightarrow> (r, c\<lparr>shards := (shards c)[i := s]\<rparr>))"

definition Cache_Set :: "(bytes \<Rightarrow> u64) \<Rightarrow> bytes \<Rightarrow> 'v \<Rightarrow> (clock \<Rightarrow> int) \<Rightarrow> 'v cache \<Rightarrow> (bytes \<times> 'v) option \<times> 'v cache" where
  "Cache_Set h key val now c =
     (let i = shardFor h key c
      in case shard_set key val now (shards c ! i) of (r, s) \<Rightarrow> (r, c\<lparr>shards := (shards c)[i := s]\<rparr>))"

definition Cache_Del :: "(bytes \<Rightarrow> u64) \<Rightarrow> bytes \<Rightarrow> 'v cache \<Rightarrow> 'v cache" where
  "Cache_Del h key c = (let i = shardFor h key c in c\<lparr>shards := (shards c)[i := shard_del key (shards c ! i)]\<rparr>)"

definition Cache_Len :: "'v cache \<Rightarrow> int" where
  "Cache_Len c = fold (\<lambda>s n. n + shard_len s) (shards c) 0"

definition range_now :: "(clock \<Rightarrow> int) \<Rightarrow> 'v cache \<Rightarrow> int" where
  "range_now now c = (if ttl (shards c ! 0) > 0 then now (the (nowFn (shards c ! 0))) else 0)"

fun over_shards :: "('v shard \<Rightarrow> 'st \<Rightarrow> (bool \<times> 'st) option) \<Rightarrow> 'v shard list \<Rightarrow> 'st \<Rightarrow> 'st option" where
  "over_shards f [] st = Some st"
| "over_shards f (s # ss) st =
     (case f s st of None \<Rightarrow> None | Some (False, st) \<Rightarrow> Some st | Some (True, st) \<Rightarrow> over_shards f ss st)"

definition Cache_Range :: "(clock \<Rightarrow> int) \<Rightarrow> ('v, 'st) visitor \<Rightarrow> 'v cache \<Rightarrow> 'st \<Rightarrow> 'st option" where
  "Cache_Range now fn c st = over_shards (rangeAll (range_now now c) fn) (shards c) st"

definition RangeLimit :: "(clock \<Rightarrow> int) \<Rightarrow> int \<Rightarrow> ('v, 'st) visitor \<Rightarrow> 'v cache \<Rightarrow> 'st \<Rightarrow> 'st option" where
  "RangeLimit now batchSize fn c st =
     (if batchSize \<le> 0 then Cache_Range now fn c st
      else over_shards (rangeBatch (range_now now c) (nat batchSize) fn) (shards c) st)"

definition Cache_Purge :: "'v cache \<Rightarrow> 'v cache" where
  "Cache_Purge c = c\<lparr>shards := map purge (shards c)\<rparr>"

section \<open>The abstract cache\<close>

text \<open>
  What a shard stands for: its entries from the most to the least recently used one, each with its
  value and the time it was stored.
\<close>

type_synonym 'v recency = "(bytes \<times> 'v \<times> int) list"

definition entry_of :: "'v lnode \<Rightarrow> bytes \<times> 'v \<times> int" where
  "entry_of nd = (lkey nd, lval nd, created nd)"

definition shard_ok :: "'v shard \<Rightarrow> nat list \<Rightarrow> bool" where
  "shard_ok s ns \<longleftrightarrow>
     dll (links s) 0 ns \<and> (\<forall>n \<in> set ns. n < fresh s \<and> nodes s n \<noteq> None) \<and> 0 < fresh s \<and>
     distinct (map fst (items s)) \<and> distinct (map (\<lambda>n. lkey (node_at s n)) ns) \<and>
     map_of (items s) = map_of (map (\<lambda>n. (lkey (node_at s n), n)) ns) \<and>
     int (length ns) \<le> max 0 (scap s)"

definition lru_rep :: "'v shard \<Rightarrow> 'v recency \<Rightarrow> bool" where
  "lru_rep s L \<longleftrightarrow> (\<exists>ns. shard_ok s ns \<and> L = map (\<lambda>n. entry_of (node_at s n)) ns)"

definition is_expired :: "int \<Rightarrow> int \<Rightarrow> int \<Rightarrow> bool" where
  "is_expired t now cr \<longleftrightarrow> t > 0 \<and> swrap64 (now - cr) > t"

definition spec_get :: "int \<Rightarrow> bytes \<Rightarrow> int \<Rightarrow> 'v recency \<Rightarrow> 'v option \<times> 'v recency" where
  "spec_get t key now L =
     (case map_of L key of
        None \<Rightarrow> (None, L)
      | Some (v, cr) \<Rightarrow> if is_expired t now cr then (None, kv_del key L) else (Some v, mput key (v, cr) L))"

definition spec_set :: "bool \<Rightarrow> int \<Rightarrow> int \<Rightarrow> bytes \<Rightarrow> 'v \<Rightarrow> int \<Rightarrow> 'v recency \<Rightarrow> (bytes \<times> 'v) option \<times> 'v recency" where
  "spec_set ev cap t key val now L =
     (let cr = (if t > 0 then now else case map_of L key of Some (v, cr) \<Rightarrow> cr | None \<Rightarrow> 0);
          L' = mput key (val, cr) L
      in if map_of L key = None \<and> int (length L') > cap
         then (if ev then Some (fst (last L'), fst (snd (last L'))) else None, butlast L') else (None, L'))"

lemma length_rep: "distinct (map fst (items s)) \<Longrightarrow> distinct (map f ns) \<Longrightarrow>
    map_of (items s) = map_of (map (\<lambda>n. (f n, n)) ns) \<Longrightarrow> length (items s) = length ns"
  using length_map_of [of "items s"] length_map_of [of "map (\<lambda>n. (f n, n)) ns"] by (simp add: comp_def)

lemma shard_ok_items: "shard_ok s ns \<Longrightarrow> length (items s) = length ns"
  by (rule length_rep [of s "\<lambda>n. lkey (node_at s n)"]) (simp_all add: shard_ok_def)

lemma ok_lookup:
  assumes "shard_ok s ns"
  shows "map_of (map (\<lambda>n. entry_of (node_at s n)) ns) key =
    map_option (\<lambda>n. (lval (node_at s n), created (node_at s n))) (map_of (items s) key)"
proof -
  have "map_of (map (\<lambda>n. entry_of (node_at s n)) ns) key =
      map_option (\<lambda>n. (lval (node_at s n), created (node_at s n))) (map_of (map (\<lambda>n. (lkey (node_at s n), n)) ns) key)"
    by (induction ns) (auto simp: entry_of_def)
  then show ?thesis using assms by (simp add: shard_ok_def)
qed

lemma distinct_split: "distinct (map f (us @ n # vs)) \<Longrightarrow> m \<in> set us \<union> set vs \<Longrightarrow> f m \<noteq> f n"
  by auto (metis imageI)+

lemma ok_split:
  assumes ok: "shard_ok s ns" and it: "map_of (items s) key = Some n"
  obtains us vs where "ns = us @ n # vs" "lkey (node_at s n) = key" "\<forall>m \<in> set us \<union> set vs. lkey (node_at s m) \<noteq> key"
proof -
  have "map_of (map (\<lambda>n. (lkey (node_at s n), n)) ns) key = Some n" using ok it by (simp add: shard_ok_def)
  then have n: "n \<in> set ns" "lkey (node_at s n) = key" by (auto dest!: map_of_SomeD)
  then obtain us vs where ns: "ns = us @ n # vs" by (meson split_list)
  have d: "distinct (map (\<lambda>n. lkey (node_at s n)) (us @ n # vs))" using ok unfolding ns by (simp only: shard_ok_def)
  have "lkey (node_at s m) \<noteq> key" if "m \<in> set us \<union> set vs" for m
    using distinct_split [OF d that] n(2) by simp
  then have "\<forall>m \<in> set us \<union> set vs. lkey (node_at s m) \<noteq> key" ..
  with ns n(2) show ?thesis by (rule that)
qed

lemma kv_del_split:
  "\<forall>m \<in> set us \<union> set vs. fst (f m) \<noteq> key \<Longrightarrow> fst (f n) = key \<Longrightarrow>
    kv_del key (map f (us @ n # vs)) = map f (us @ vs)"
  unfolding kv_del_def by (auto simp: case_prod_unfold filter_id_conv)

lemma entry_sel [simp]: "fst (entry_of nd) = lkey nd" "snd (entry_of nd) = (lval nd, created nd)"
  by (simp_all add: entry_of_def)

text \<open>Unlinking a node and dropping its key.\<close>

lemma map_of_drop:
  assumes "distinct (map f (us @ n # vs))"
  shows "(map_of (map (\<lambda>n. (f n, n)) (us @ n # vs)))(f n := None) = map_of (map (\<lambda>n. (f n, n)) (us @ vs))"
proof -
  have "kv_del (f n) (map (\<lambda>n. (f n, n)) (us @ n # vs)) = map (\<lambda>n. (f n, n)) (us @ vs)"
    by (rule kv_del_split) (use distinct_split [OF assms] in auto)
  then show ?thesis by (auto simp only: fun_eq_iff map_of_kv_del [symmetric] fun_upd_apply split: if_splits)
qed

lemma remove_ok:
  assumes ok: "shard_ok s (us @ n # vs)"
  shows "shard_ok ((shard_remove n s)\<lparr>items := kv_del (lkey (node_at s n)) (items s)\<rparr>) (us @ vs)"
proof -
  let ?f = "\<lambda>n. lkey (node_at s n)"
  have d: "distinct (map ?f (us @ n # vs))" and it: "map_of (items s) = map_of (map (\<lambda>n. (?f n, n)) (us @ n # vs))"
    and dl: "dll (links s) 0 (us @ n # vs)"
    using ok by (simp_all add: shard_ok_def)
  have "map_of (kv_del (?f n) (items s)) = map_of (map (\<lambda>n. (?f n, n)) (us @ vs))"
    unfolding map_of_drop [OF d, symmetric] it [symmetric] by (auto simp: fun_eq_iff map_of_kv_del)
  moreover have "distinct (map ?f (us @ vs))" using d by auto
  ultimately show ?thesis
    using ok dll_unlink [OF dl] by (auto simp: shard_ok_def shard_remove_def node_at_def distinct_kv_del)
qed

text \<open>Moving a node to the front, possibly after an update of its value and time.\<close>

lemma move_ok:
  assumes ok: "shard_ok s (us @ n # vs)"
  shows "shard_ok (moveToFront n s) (n # us @ vs)"
proof -
  let ?f = "\<lambda>n. lkey (node_at s n)"
  have d: "distinct (map ?f (us @ n # vs))" and it: "map_of (items s) = map_of (map (\<lambda>n. (?f n, n)) (us @ n # vs))"
    and dl: "dll (links s) 0 (us @ n # vs)"
    using ok by (simp_all add: shard_ok_def)
  have "n \<notin> set (0 # us @ vs)" using dl by (auto simp: dll_def)
  then have "dll (link_after 0 n (unlink n (links s))) 0 (n # us @ vs)"
    by (intro dll_link_after dll_unlink dl)
  moreover have "map_of (items s) = map_of (map (\<lambda>n. (?f n, n)) (n # us @ vs))"
  proof -
    have "map_of (map (\<lambda>n. (?f n, n)) (n # us @ vs)) = (map_of (map (\<lambda>n. (?f n, n)) (us @ vs)))(?f n \<mapsto> n)" by simp
    also have "\<dots> = (map_of (items s))(?f n \<mapsto> n)" unfolding map_of_drop [OF d, symmetric] it by simp
    also have "\<dots> = map_of (items s)"
    proof (rule fun_upd_idem)
      show "map_of (items s) (?f n) = Some n" unfolding it using d by (intro map_of_is_SomeI) (auto simp: comp_def)
    qed
    finally show ?thesis ..
  qed
  moreover have "distinct (map ?f (n # us @ vs))" using d by auto
  ultimately show ?thesis
    using ok by (auto simp: shard_ok_def moveToFront_def pushFront_def shard_remove_def node_at_def)
qed

lemma update_ok:
  assumes ok: "shard_ok s ns" and k: "n \<in> set ns \<Longrightarrow> lkey nd = lkey (node_at s n)"
  shows "shard_ok (s\<lparr>nodes := (nodes s)(n \<mapsto> nd)\<rparr>) ns"
proof -
  let ?s = "s\<lparr>nodes := (nodes s)(n \<mapsto> nd)\<rparr>"
  have eq: "lkey (node_at ?s m) = lkey (node_at s m)" if "m \<in> set ns" for m
    using that k by (auto simp: node_at_def)
  have m: "map (\<lambda>n. (lkey (node_at ?s n), n)) ns = map (\<lambda>n. (lkey (node_at s n), n)) ns"
    "map (\<lambda>n. lkey (node_at ?s n)) ns = map (\<lambda>n. lkey (node_at s n)) ns" using eq by simp_all
  show ?thesis using ok unfolding shard_ok_def m by auto
qed

section \<open>The operations implement the abstract cache\<close>

lemma rep_lookup:
  assumes "shard_ok s ns"
  shows "map_of (map (\<lambda>n. entry_of (node_at s n)) ns) key = None \<longleftrightarrow> map_of (items s) key = None"
  unfolding ok_lookup [OF assms] by simp

lemma sel_simps [simp]:
  "node_at (shard_remove n s) = node_at s" "node_at (moveToFront n s) = node_at s"
  "node_at (s\<lparr>items := it\<rparr>) = node_at s" "node_at (pushFront n s) = node_at s"
  "scap (moveToFront n s) = scap s" "ttl (moveToFront n s) = ttl s" "nowFn (moveToFront n s) = nowFn s"
  "onEvict (moveToFront n s) = onEvict s" "scap (shard_remove n s) = scap s" "ttl (shard_remove n s) = ttl s"
  "nowFn (shard_remove n s) = nowFn s" "onEvict (shard_remove n s) = onEvict s"
  by (simp_all add: fun_eq_iff node_at_def shard_remove_def moveToFront_def pushFront_def)

definition same_conf :: "'v shard \<Rightarrow> 'v shard \<Rightarrow> bool" where
  "same_conf s s' \<longleftrightarrow> scap s' = scap s \<and> ttl s' = ttl s \<and> nowFn s' = nowFn s \<and> onEvict s' = onEvict s"

lemma shard_get_ok:
  assumes rep: "lru_rep s L" and g: "shard_get key now s = (r, s')"
  shows "\<exists>L'. spec_get (ttl s) key (now (the (nowFn s))) L = (r, L') \<and> lru_rep s' L' \<and> same_conf s s'"
proof -
  obtain ns where ok: "shard_ok s ns" and L: "L = map (\<lambda>n. entry_of (node_at s n)) ns" using rep by (auto simp: lru_rep_def)
  note lk = ok_lookup [OF ok, of key, folded L]
  show ?thesis
  proof (cases "map_of (items s) key")
    case None
    then show ?thesis using g rep lk by (simp add: shard_get_def spec_get_def same_conf_def)
  next
    case (Some n)
    obtain us vs where sp: "ns = us @ n # vs" "lkey (node_at s n) = key" "\<forall>m \<in> set us \<union> set vs. lkey (node_at s m) \<noteq> key"
      by (rule ok_split [OF ok Some])
    have ok': "shard_ok s (us @ n # vs)" using ok sp(1) by simp
    have del: "kv_del key L = map (\<lambda>n. entry_of (node_at s n)) (us @ vs)"
      unfolding L sp(1) by (rule kv_del_split) (use sp in auto)
    let ?now = "now (the (nowFn s))"
    have e: "expired s ?now n = is_expired (ttl s) ?now (created (node_at s n))" by (simp add: expired_def is_expired_def)
    show ?thesis
    proof (cases "expired s ?now n")
      case True
      then have "s' = (shard_remove n s)\<lparr>items := kv_del (lkey (node_at s n)) (items s)\<rparr>" "r = None"
        using g Some sp(2) by (auto simp: shard_get_def expired_def)
      then show ?thesis
        using remove_ok [OF ok'] lk Some True e del by (auto simp: spec_get_def lru_rep_def same_conf_def)
    next
      case False
      then have s': "s' = moveToFront n s" "r = Some (lval (node_at s n))" using g Some by (auto simp: shard_get_def)
      have "mput key (lval (node_at s n), created (node_at s n)) L = map (\<lambda>n. entry_of (node_at s n)) (n # us @ vs)"
        unfolding mput_def del using sp(2) by (simp add: entry_of_def)
      then have "lru_rep s' (mput key (lval (node_at s n), created (node_at s n)) L)"
        unfolding lru_rep_def s' using move_ok [OF ok'] by (intro exI [of _ "n # us @ vs"]) simp
      then show ?thesis using lk Some False e s' by (simp add: spec_get_def same_conf_def)
    qed
  qed
qed

lemma shard_del_ok:
  assumes rep: "lru_rep s L"
  shows "lru_rep (shard_del key s) (kv_del key L) \<and> same_conf s (shard_del key s)"
proof -
  obtain ns where ok: "shard_ok s ns" and L: "L = map (\<lambda>n. entry_of (node_at s n)) ns" using rep by (auto simp: lru_rep_def)
  show ?thesis
  proof (cases "map_of (items s) key")
    case None
    then have "map_of L key = None" using ok_lookup [OF ok] L by simp
    then show ?thesis using None rep by (simp add: shard_del_def kv_del_absent same_conf_def)
  next
    case (Some n)
    obtain us vs where sp: "ns = us @ n # vs" "lkey (node_at s n) = key" "\<forall>m \<in> set us \<union> set vs. lkey (node_at s m) \<noteq> key"
      by (rule ok_split [OF ok Some])
    have ok': "shard_ok s (us @ n # vs)" using ok sp(1) by simp
    have del: "kv_del key L = map (\<lambda>n. entry_of (node_at s n)) (us @ vs)"
      unfolding L sp(1) by (rule kv_del_split) (use sp in auto)
    show ?thesis using remove_ok [OF ok'] Some sp(2) del by (auto simp: shard_del_def lru_rep_def same_conf_def)
  qed
qed

text \<open>The list may be one entry over capacity between the insertion and the eviction.\<close>

definition shard_pre :: "'v shard \<Rightarrow> nat list \<Rightarrow> bool" where
  "shard_pre s ns \<longleftrightarrow> shard_ok (s\<lparr>scap := int (length ns)\<rparr>) ns"

lemma shard_pre_iff: "shard_ok s ns \<longleftrightarrow> shard_pre s ns \<and> int (length ns) \<le> max 0 (scap s)"
  by (auto simp: shard_pre_def shard_ok_def node_at_def)

lemma insert_pre:
  assumes ok: "shard_ok s ns" and no: "map_of (items s) key = None" and k: "lkey nd = key"
  shows "shard_pre (pushFront (fresh s) (s\<lparr>nodes := (nodes s)(fresh s \<mapsto> nd), fresh := Suc (fresh s),
    items := mput key (fresh s) (items s)\<rparr>)) (fresh s # ns)" (is "shard_pre ?s _")
proof -
  have f: "fresh s \<notin> set (0 # ns)" using ok by (auto simp: shard_ok_def)
  have na: "node_at ?s m = (if m = fresh s then nd else node_at s m)" for m by (simp add: node_at_def pushFront_def)
  have key: "key \<notin> (\<lambda>n. lkey (node_at s n)) ` set ns"
    using rep_lookup [OF ok, of key] no by (force simp: map_of_eq_None_iff)
  have eq: "lkey (node_at ?s x) = lkey (node_at s x)" if "x \<in> set ns" for x unfolding na using f that by auto
  have m: "map (\<lambda>n. lkey (node_at ?s n)) ns = map (\<lambda>n. lkey (node_at s n)) ns"
    "map (\<lambda>n. (lkey (node_at ?s n), n)) ns = map (\<lambda>n. (lkey (node_at s n), n)) ns"
    by (intro map_cong refl; simp only: eq)+
  have "map_of (items ?s) = map_of (map (\<lambda>n. (lkey (node_at ?s n), n)) (fresh s # ns))"
    unfolding list.map unfolding m unfolding map_of.simps na using ok k by (simp add: pushFront_def shard_ok_def)
  moreover have "distinct (map (\<lambda>n. lkey (node_at ?s n)) (fresh s # ns))"
    unfolding list.map unfolding m unfolding na using ok k key by (simp add: shard_ok_def)
  moreover have "dll (links ?s) 0 (fresh s # ns)"
    using dll_link_after [OF _ f] ok by (simp add: shard_ok_def pushFront_def)
  ultimately show ?thesis using ok
    by (auto simp: shard_pre_def shard_ok_def node_at_def pushFront_def distinct_mput)
qed

lemma evict_ok:
  assumes pre: "shard_pre s (ns @ [n])" and cap: "int (length ns) \<le> max 0 (scap s)"
  shows "\<exists>s'. unlinkOldest s = (Some (lkey (node_at s n), lval (node_at s n)), s') \<and> shard_ok s' ns \<and>
    node_at s' = node_at s \<and> same_conf s s'"
proof -
  let ?t = "s\<lparr>scap := int (length (ns @ [n]))\<rparr>" and ?k = "lkey (node_at s n)"
  let ?s = "(shard_remove n s)\<lparr>items := kv_del ?k (items s)\<rparr>"
  have na: "node_at ?t = node_at s" by (simp add: fun_eq_iff node_at_def)
  have ok: "shard_ok ?t (ns @ n # [])" using pre by (simp add: shard_pre_def)
  then have d: "dll (links s) 0 (ns @ [n])" by (simp add: shard_ok_def)
  then have tail: "snd (links s) 0 = n" "n \<noteq> 0" using dll_last [OF d] by (auto simp: dll_def)
  then have "unlinkOldest s = (Some (?k, lval (node_at s n)), ?s)" by (simp add: unlinkOldest_def Let_def)
  moreover have "shard_ok ?s ns"
    using remove_ok [OF ok] cap unfolding na by (auto simp: shard_ok_def shard_remove_def node_at_def)
  ultimately show ?thesis by (auto simp: same_conf_def)
qed

lemma shard_set_old:
  assumes ok: "shard_ok s ns" and L: "L = map (\<lambda>n. entry_of (node_at s n)) ns" and it: "map_of (items s) key = Some n"
    and nd: "nd = \<lparr>lkey = lkey (node_at s n), lval = val, created = cr\<rparr>"
  shows "lru_rep (moveToFront n (s\<lparr>nodes := (nodes s)(n \<mapsto> nd)\<rparr>)) (mput key (val, cr) L)"
proof -
  let ?s = "s\<lparr>nodes := (nodes s)(n \<mapsto> nd)\<rparr>"
  obtain us vs where sp: "ns = us @ n # vs" "lkey (node_at s n) = key" "\<forall>m \<in> set us \<union> set vs. lkey (node_at s m) \<noteq> key"
    by (rule ok_split [OF ok it])
  have ok': "shard_ok ?s (us @ n # vs)" unfolding sp(1) [symmetric] by (rule update_ok [OF ok]) (simp add: nd)
  have dst: "n \<notin> set us \<union> set vs" using ok sp(1) by (auto simp: shard_ok_def dll_def)
  have na: "node_at ?s m = (if m = n then nd else node_at s m)" for m by (simp add: node_at_def)
  have m: "map (\<lambda>n. entry_of (node_at ?s n)) (us @ vs) = map (\<lambda>n. entry_of (node_at s n)) (us @ vs)"
    by (intro map_cong refl) (use dst na in auto)
  have "kv_del key L = map (\<lambda>n. entry_of (node_at s n)) (us @ vs)"
    unfolding L sp(1) by (rule kv_del_split) (use sp in auto)
  then have "mput key (val, cr) L = map (\<lambda>n. entry_of (node_at ?s n)) (n # us @ vs)"
    unfolding mput_def list.map unfolding m unfolding na using sp(2) nd by (simp add: entry_of_def)
  then show ?thesis unfolding lru_rep_def using move_ok [OF ok'] by (intro exI [of _ "n # us @ vs"]) simp
qed

lemma shard_set_ok:
  assumes rep: "lru_rep s L" and g: "shard_set key val now s = (r, s')"
  shows "\<exists>L'. spec_set (onEvict s) (scap s) (ttl s) key val (now (the (nowFn s))) L = (r, L') \<and> lru_rep s' L' \<and> same_conf s s'"
proof -
  obtain ns where ok: "shard_ok s ns" and L: "L = map (\<lambda>n. entry_of (node_at s n)) ns" using rep by (auto simp: lru_rep_def)
  note lk = ok_lookup [OF ok, of key, folded L]
  let ?now = "now (the (nowFn s))"
  show ?thesis
  proof (cases "map_of (items s) key")
    case (Some n)
    define cr where "cr = (if ttl s > 0 then ?now else created (node_at s n))"
    define nd where "nd = \<lparr>lkey = lkey (node_at s n), lval = val, created = cr\<rparr>"
    have "(if ttl s > 0 then (node_at s n)\<lparr>lval := val\<rparr>\<lparr>created := ?now\<rparr> else (node_at s n)\<lparr>lval := val\<rparr>) = nd"
      by (cases "node_at s n") (simp add: nd_def cr_def)
    then have "r = None" "s' = moveToFront n (s\<lparr>nodes := (nodes s)(n \<mapsto> nd)\<rparr>)" using g Some by (auto simp: shard_set_def Let_def)
    moreover note shard_set_old [OF ok L Some nd_def]
    ultimately show ?thesis using lk Some by (auto simp: spec_set_def cr_def same_conf_def)
  next
    case None
    define cr where "cr = (if ttl s > 0 then ?now else 0)"
    define nd where "nd = \<lparr>lkey = key, lval = val, created = cr\<rparr>"
    define s1 where "s1 = pushFront (fresh s) (s\<lparr>nodes := (nodes s)(fresh s \<mapsto> nd), fresh := Suc (fresh s),
      items := mput key (fresh s) (items s)\<rparr>)"
    have pre: "shard_pre s1 (fresh s # ns)" unfolding s1_def by (rule insert_pre [OF ok None]) (simp add: nd_def)
    have conf: "same_conf s s1" by (simp add: s1_def same_conf_def pushFront_def)
    have na: "node_at s1 m = (if m = fresh s then nd else node_at s m)" for m by (simp add: node_at_def pushFront_def s1_def)
    have f: "fresh s \<notin> set ns" using ok by (auto simp: shard_ok_def)
    have m: "map (\<lambda>n. entry_of (node_at s1 n)) (fresh s # ns) = mput key (val, cr) L"
    proof -
      have "map_of L key = None" using lk None by simp
      then have "kv_del key L = L" by (rule kv_del_absent)
      then show ?thesis using f unfolding mput_def L list.map na by (auto simp: nd_def entry_of_def na)
    qed
    have len: "length (items s1) = length ns + 1" "length (mput key (val, cr) L) = length ns + 1"
      using shard_ok_items [OF pre [unfolded shard_pre_def]] m [symmetric] by simp_all
    have g': "(r, s') = (case if int (length (items s1)) > scap s1 then unlinkOldest s1 else (None, s1) of
        (ev, s2) \<Rightarrow> (if onEvict s2 then ev else None, s2))"
      unfolding g [symmetric] shard_set_def Let_def s1_def nd_def cr_def using None by (simp split del: if_split cong: if_cong)
    show ?thesis
    proof (cases "int (length ns + 1) > scap s")
      case True
      obtain us n where un: "fresh s # ns = us @ [n]" using rev_exhaust [of "fresh s # ns"] by blast
      then have lu: "length us = length ns" by (metis length_Cons length_append_singleton nat.inject)
      have "int (length us) \<le> max 0 (scap s1)" using ok conf lu by (simp add: shard_ok_def same_conf_def)
      then obtain s2 where s2: "unlinkOldest s1 = (Some (lkey (node_at s1 n), lval (node_at s1 n)), s2)" "shard_ok s2 us"
          "node_at s2 = node_at s1" "same_conf s1 s2"
        using evict_ok [of s1 us n] pre unfolding un by blast
      have "mput key (val, cr) L = map (\<lambda>n. entry_of (node_at s1 n)) us @ [entry_of (node_at s1 n)]"
        unfolding m [symmetric] un by simp
      moreover have "lru_rep s2 (map (\<lambda>n. entry_of (node_at s1 n)) us)" using s2 by (auto simp: lru_rep_def)
      moreover have "r = (if onEvict s then Some (lkey (node_at s1 n), lval (node_at s1 n)) else None)" "s' = s2"
        using g' True len conf s2 by (auto simp: same_conf_def)
      ultimately show ?thesis
        using True len lk None conf s2(4) by (auto simp: spec_set_def Let_def cr_def same_conf_def)
    next
      case False
      then have "r = None" "s' = s1" using g' len conf by (auto simp: same_conf_def split: if_splits)
      moreover have "shard_ok s1 (fresh s # ns)" unfolding shard_pre_iff using pre False conf by (auto simp: same_conf_def)
      then have "lru_rep s1 (mput key (val, cr) L)" unfolding lru_rep_def m [symmetric] by blast
      ultimately show ?thesis using False len lk None conf by (auto simp: spec_set_def Let_def cr_def)
    qed
  qed
qed

section \<open>Histories of the whole cache\<close>

datatype 'v lop = LGet bytes "clock \<Rightarrow> int" | LSet bytes 'v "clock \<Rightarrow> int" | LDel bytes | LPurge | LLen
datatype 'v lout = Got "'v option" | Evicted "(bytes \<times> 'v) option" | Done | Count int

fun lru_step :: "(bytes \<Rightarrow> u64) \<Rightarrow> 'v lop \<Rightarrow> 'v cache \<Rightarrow> 'v lout \<times> 'v cache" where
  "lru_step h (LGet key now) c = (case Cache_Get h key now c of (r, c) \<Rightarrow> (Got r, c))"
| "lru_step h (LSet key val now) c = (case Cache_Set h key val now c of (r, c) \<Rightarrow> (Evicted r, c))"
| "lru_step h (LDel key) c = (Done, Cache_Del h key c)"
| "lru_step h LPurge c = (Done, Cache_Purge c)"
| "lru_step h LLen c = (Count (Cache_Len c), c)"

text \<open>The configuration all shards share, and the abstract cache under it.\<close>

record lconf =
  fcap :: int
  fttl :: int
  fclock :: "clock option"
  fevict :: bool

fun lru_spec :: "(bytes \<Rightarrow> u64) \<Rightarrow> lconf \<Rightarrow> 'v lop \<Rightarrow> 'v recency list \<Rightarrow> 'v lout \<times> 'v recency list" where
  "lru_spec h f (LGet key now) Ls =
     (let i = unat (h key) mod length Ls
      in case spec_get (fttl f) key (now (the (fclock f))) (Ls ! i) of (r, L) \<Rightarrow> (Got r, Ls[i := L]))"
| "lru_spec h f (LSet key val now) Ls =
     (let i = unat (h key) mod length Ls
      in case spec_set (fevict f) (fcap f) (fttl f) key val (now (the (fclock f))) (Ls ! i) of
           (r, L) \<Rightarrow> (Evicted r, Ls[i := L]))"
| "lru_spec h f (LDel key) Ls = (let i = unat (h key) mod length Ls in (Done, Ls[i := kv_del key (Ls ! i)]))"
| "lru_spec h f LPurge Ls = (Done, map (\<lambda>_. []) Ls)"
| "lru_spec h f LLen Ls = (Count (int (sum_list (map length Ls))), Ls)"

definition conf_of :: "'v shard \<Rightarrow> lconf" where
  "conf_of s = \<lparr>fcap = scap s, fttl = ttl s, fclock = nowFn s, fevict = onEvict s\<rparr>"

definition cache_rep :: "lconf \<Rightarrow> 'v cache \<Rightarrow> 'v recency list \<Rightarrow> bool" where
  "cache_rep f c Ls \<longleftrightarrow>
     (\<exists>k. length (shards c) = 2 ^ k \<and> cmask c = 2 ^ k - 1) \<and>
     list_all2 (\<lambda>s L. lru_rep s L \<and> conf_of s = f) (shards c) Ls"

lemma same_conf_of: "same_conf s s' \<longleftrightarrow> conf_of s' = conf_of s"
  by (auto simp: same_conf_def conf_of_def)

lemma shardFor_eq:
  assumes "cache_rep f c Ls"
  shows "shardFor h key c = unat (h key) mod length Ls" "unat (h key) mod length Ls < length (shards c)"
    "length Ls = length (shards c)"
proof -
  obtain k where k: "length (shards c) = 2 ^ k" "cmask c = 2 ^ k - 1" "length Ls = 2 ^ k"
    using assms by (auto simp: cache_rep_def dest: list_all2_lengthD)
  show "shardFor h key c = unat (h key) mod length Ls" unfolding shardFor_def k by (rule unat_and_mask)
  show "unat (h key) mod length Ls < length (shards c)" "length Ls = length (shards c)" using k by simp_all
qed

lemma cache_upd:
  assumes rep: "cache_rep f c Ls" and "lru_rep s L" "conf_of s = f"
  shows "cache_rep f (c\<lparr>shards := (shards c)[i := s]\<rparr>) (Ls[i := L])"
  using assms by (auto simp: cache_rep_def intro: list_all2_update_cong)

lemma cache_nth:
  "cache_rep f c Ls \<Longrightarrow> i < length (shards c) \<Longrightarrow> lru_rep (shards c ! i) (Ls ! i) \<and> conf_of (shards c ! i) = f"
  by (auto simp: cache_rep_def dest: list_all2_nthD)

lemma lru_rep_length: "lru_rep s L \<Longrightarrow> shard_len s = int (length L) \<and> int (length L) \<le> max 0 (scap s)"
  using shard_ok_items [of s] by (auto simp: lru_rep_def shard_len_def) (auto simp: shard_ok_def)

lemma purge_ok: "lru_rep s L \<Longrightarrow> lru_rep (purge s) [] \<and> conf_of (purge s) = conf_of s"
  by (auto simp: lru_rep_def purge_def shard_ok_def conf_of_def dll_def split: prod.splits)

lemma Cache_Len_sum: "Cache_Len c = sum_list (map shard_len (shards c))"
proof -
  have "fold (\<lambda>s n. n + shard_len s) xs a = a + sum_list (map shard_len xs)" for xs :: "'a shard list" and a
    by (induction xs arbitrary: a) auto
  then show ?thesis by (simp add: Cache_Len_def)
qed

lemma Cache_Len_ok: "cache_rep f c Ls \<Longrightarrow> Cache_Len c = int (sum_list (map length Ls))"
proof -
  assume "cache_rep f c Ls"
  then have "list_all2 (\<lambda>s L. lru_rep s L \<and> conf_of s = f) (shards c) Ls" by (simp add: cache_rep_def)
  then have "sum_list (map shard_len (shards c)) = int (sum_list (map length Ls))"
    by (induction rule: list_all2_induct) (auto dest: lru_rep_length)
  then show ?thesis by (simp add: Cache_Len_sum)
qed

lemma lru_step_sim:
  assumes rep: "cache_rep f c Ls" and st: "lru_step h i c = (out, c')"
  shows "\<exists>Ls'. lru_spec h f i Ls = (out, Ls') \<and> cache_rep f c' Ls'"
proof -
  note sh = shardFor_eq [OF rep]
  show ?thesis
  proof (cases i)
    case (LGet key now)
    let ?i = "unat (h key) mod length Ls"
    obtain r s where g: "shard_get key now (shards c ! ?i) = (r, s)" by fastforce
    have n: "lru_rep (shards c ! ?i) (Ls ! ?i)" "conf_of (shards c ! ?i) = f"
      using cache_nth [OF rep sh(2)] by simp_all
    obtain L where L: "spec_get (fttl f) key (now (the (fclock f))) (Ls ! ?i) = (r, L)" "lru_rep s L" "conf_of s = f"
      using shard_get_ok [OF n(1) g] n(2) by (auto simp: same_conf_of conf_of_def)
    then show ?thesis using st g LGet cache_upd [OF rep L(2,3), of ?i] by (simp add: Cache_Get_def sh(1) Let_def)
  next
    case (LSet key val now)
    let ?i = "unat (h key) mod length Ls"
    obtain r s where g: "shard_set key val now (shards c ! ?i) = (r, s)" by fastforce
    have n: "lru_rep (shards c ! ?i) (Ls ! ?i)" "conf_of (shards c ! ?i) = f"
      using cache_nth [OF rep sh(2)] by simp_all
    obtain L where L: "spec_set (fevict f) (fcap f) (fttl f) key val (now (the (fclock f))) (Ls ! ?i) = (r, L)"
        "lru_rep s L" "conf_of s = f"
      using shard_set_ok [OF n(1) g] n(2) by (auto simp: same_conf_of conf_of_def)
    then show ?thesis using st g LSet cache_upd [OF rep L(2,3), of ?i] by (simp add: Cache_Set_def sh(1) Let_def)
  next
    case (LDel key)
    let ?i = "unat (h key) mod length Ls"
    have n: "lru_rep (shards c ! ?i) (Ls ! ?i)" "conf_of (shards c ! ?i) = f"
      using cache_nth [OF rep sh(2)] by simp_all
    have d: "lru_rep (shard_del key (shards c ! ?i)) (kv_del key (Ls ! ?i))" "conf_of (shard_del key (shards c ! ?i)) = f"
      using shard_del_ok [OF n(1)] n(2) by (auto simp: same_conf_of)
    show ?thesis using st LDel cache_upd [OF rep d, of ?i] by (auto simp: Cache_Del_def sh(1) Let_def)
  next
    case LPurge
    have "list_all2 (\<lambda>s L. lru_rep s L \<and> conf_of s = f) (map purge (shards c)) (map (\<lambda>_. []) Ls)"
      using rep by (auto simp: cache_rep_def list_all2_map1 list_all2_map2 elim!: list_all2_mono dest: purge_ok)
    then show ?thesis using rep st LPurge by (auto simp: cache_rep_def Cache_Purge_def)
  next
    case LLen
    then show ?thesis using st rep by (simp add: Cache_Len_ok)
  qed
qed

interpretation lru: simulation "\<lambda>_. cache_rep f" "lru_step h" "lru_spec h f" for f h
  by unfold_locales (rule lru_step_sim)

lemma Cache_New_ok:
  assumes "numShards \<le> 2 ^ 62"
  shows "\<exists>c f k. Cache_New numShards cap opts = Some c \<and> cache_rep f c (replicate (2 ^ k) []) \<and> fcap f = cap \<and> numShards \<le> 2 ^ k"
proof -
  obtain k where k: "pow2_loop (2 ^ 2) numShards = Some (2 ^ k)" "numShards \<le> 2 ^ k"
    using pow2_loop_Some [of 2 numShards] assms by auto
  define o1 where "o1 = fold (\<lambda>opt. opt) opts \<lparr>oEvict = False, oTtl = 0, oNow = None\<rparr>"
  define s :: "'a shard" where "s = shard_init cap (oTtl o1) (oEvict o1) (oNow o1)"
  have s: "lru_rep s []" "fcap (conf_of s) = cap"
    by (auto simp: s_def lru_rep_def shard_ok_def shard_init_def conf_of_def dll_def)
  let ?c = "\<lparr>shards = replicate (2 ^ k) s, cmask = 2 ^ k - 1\<rparr>"
  have "Cache_New numShards cap opts = Some ?c"
    using k(1) by (simp add: Cache_New_def Let_def o1_def s_def nat_power_eq)
  moreover have "cache_rep (conf_of s) ?c (replicate (2 ^ k) [])"
    using s by (auto simp: cache_rep_def list_all2_conv_all_nth)
  ultimately show ?thesis using s k(2) by blast
qed

section \<open>Iteration\<close>

definition live :: "int \<Rightarrow> int \<Rightarrow> 'v recency \<Rightarrow> (bytes \<times> 'v) list" where
  "live t now L = map (\<lambda>(k, v, cr). (k, v)) (filter (\<lambda>(k, v, cr). \<not> is_expired t now cr) L)"

definition live_nodes :: "'v shard \<Rightarrow> int \<Rightarrow> nat list \<Rightarrow> (bytes \<times> 'v) list" where
  "live_nodes s now ns = map (\<lambda>n. (lkey (node_at s n), lval (node_at s n))) (filter (\<lambda>n. \<not> expired s now n) ns)"

lemma live_nodes_eq: "live_nodes s now ns = live (ttl s) now (map (\<lambda>n. entry_of (node_at s n)) ns)"
  by (simp add: live_nodes_def live_def filter_map comp_def entry_of_def expired_def is_expired_def)

lemma walk_ok: "shard_ok s ns \<Longrightarrow> walk (fst (links s)) 0 (fst (links s) 0) = Some ns"
  by (rule walk_dll) (simp add: shard_ok_def)

lemma rangeAll_ok:
  "lru_rep s L \<Longrightarrow> rangeAll now fn s st = Some (iter_while (\<lambda>e. fn (fst e) (snd e)) (live (ttl s) now L) st)"
  by (auto simp: lru_rep_def rangeAll_def walk_ok live_nodes_eq [symmetric] live_nodes_def)

lemma over_shards_iter:
  assumes "list_all2 (\<lambda>s L. \<forall>st. f s st = Some (iter_while g (h L) st)) ss Ls"
  shows "over_shards f ss st = Some (snd (iter_while g (concat (map h Ls)) st))"
  using assms
proof (induction arbitrary: st rule: list_all2_induct)
  case (Cons s ss L Ls)
  then show ?case by (auto simp: iter_while_append split: prod.splits bool.splits)
qed simp

lemma batch_loop_False:
  "length batch < bs \<Longrightarrow> fst (batch_loop s now bs ns False lk batch) = take bs (batch @ live_nodes s now ns)"
proof (induction ns arbitrary: batch)
  case (Cons n ns)
  then show ?case by (auto simp: Let_def live_nodes_def take_Cons')
qed (simp add: live_nodes_def)

text \<open>A pass that is still looking for \<open>lastKey\<close> skips everything up to it.\<close>

lemma batch_loop_skip:
  "\<forall>n \<in> set ns. lkey (node_at s n) \<noteq> lk \<Longrightarrow> batch_loop s now bs ns True lk [] = ([], lk)"
  by (induction ns) auto

lemma batch_loop_resume:
  "\<forall>m \<in> set us. lkey (node_at s m) \<noteq> lk \<Longrightarrow> lkey (node_at s n) = lk \<Longrightarrow>
    batch_loop s now bs (us @ n # vs) True lk [] = batch_loop s now bs vs False lk []"
  by (induction us) auto

lemma iter_while_all: "(\<And>x s. fst (f x s)) \<Longrightarrow> fst (iter_while f xs s)"
proof (induction xs arbitrary: s)
  case (Cons x xs)
  obtain b s' where f: "f x s = (b, s')" by fastforce
  then have b by (metis Cons.prems fst_conv)
  then show ?case using f Cons by simp
qed simp

lemma rangeBatch_loop_diverges:
  assumes ok: "shard_ok s ns" and bs: "0 < bs" "bs \<le> length (live_nodes s now ns)"
    and go: "\<And>e st. fst (fn (fst e) (snd e) st)"
  shows "rangeBatch_loop s now bs fn lk False st = None"
proof (rule ccontr)
  have all: "fst (iter_while (\<lambda>e. fn (fst e) (snd e)) es st)" for es st by (rule iter_while_all) (rule go)
  assume "rangeBatch_loop s now bs fn lk False st \<noteq> None"
  then obtain r where "rangeBatch_loop s now bs fn lk False st = Some r" by blast
  then have "False = False \<longrightarrow> s = s \<and> now = now \<and> bs = bs \<and> fn = fn \<longrightarrow> False"
  proof (rule rangeBatch_loop.raw_induct
      [where P = "\<lambda>s' now' bs' fn' lk first st r. first = False \<longrightarrow> s' = s \<and> now' = now \<and> bs' = bs \<and> fn' = fn \<longrightarrow> False",
       rotated])
    fix f s' now' bs' fn' lk first st r
    assume IH: "\<And>s' now' bs' fn' lk first st r. f s' now' bs' fn' lk first st = Some r \<Longrightarrow>
        first = False \<longrightarrow> s' = s \<and> now' = now \<and> bs' = bs \<and> fn' = fn \<longrightarrow> False"
      and r: "Option.bind (walk (fst (links s')) 0 (fst (links s') 0)) (\<lambda>ns.
       case batch_loop s' now' bs' ns first lk [] of
         (batch, lastKey) \<Rightarrow>
           if batch = [] then Some (True, st)
           else case iter_while (\<lambda>e. fn' (fst e) (snd e)) batch st of
                  (cont, st) \<Rightarrow>
                    if \<not> cont then Some (False, st)
                    else if length batch < bs' then Some (True, st)
                    else f s' now' bs' fn' lastKey False st) = Some r"
    show "first = False \<longrightarrow> s' = s \<and> now' = now \<and> bs' = bs \<and> fn' = fn \<longrightarrow> False"
    proof (intro impI, elim conjE)
      assume e: "first = False" "s' = s" "now' = now" "bs' = bs" "fn' = fn"
      obtain b lk' where b: "batch_loop s now bs ns False lk [] = (b, lk')" by fastforce
      have lb: "length b = bs" using batch_loop_False [of "[]" bs s now ns lk] b bs by simp
      obtain c st' where it: "iter_while (\<lambda>e. fn (fst e) (snd e)) b st = (c, st')" by fastforce
      then have "c" using all [of b st] by simp
      then have "f s now bs fn lk' False st' = Some r"
        using r lb bs(1) it unfolding e walk_ok [OF ok] by (auto simp: b)
      from IH [OF this] show False by simp
    qed
  qed
  then show False by simp
qed

section \<open>Properties\<close>

text \<open>A cache of four shards with two entries each.\<close>

definition demo_conf :: lconf where "demo_conf = \<lparr>fcap = 2, fttl = 0, fclock = None, fevict = True\<rparr>"

definition demo_cache :: "nat cache" where "demo_cache = the (Cache_New 3 2 [WithEvict])"

lemma demo_cache_ok: "cache_rep demo_conf demo_cache (replicate 4 [])"
proof -
  have p: "pow2_loop 4 3 = Some 4" by (simp add: pow2_loop_done)
  have "lru_rep (shard_init 2 0 True None :: nat shard) []" "conf_of (shard_init 2 0 True None :: nat shard) = demo_conf"
    by (auto simp: lru_rep_def shard_ok_def shard_init_def conf_of_def dll_def demo_conf_def)
  then show ?thesis
    by (auto simp: demo_cache_def Cache_New_def p WithEvict_def cache_rep_def list_all2_conv_all_nth intro!: exI [of _ 2])
qed

definition demo_run :: "nat lop list \<Rightarrow> nat cache" where
  "demo_run ops = snd (run (lru_step (\<lambda>k. 0)) ops demo_cache)"

lemma demo_run_ok: "run (lru_spec (\<lambda>k. 0) demo_conf) ops (replicate 4 []) = (outs, Ls) \<Longrightarrow> cache_rep demo_conf (demo_run ops) Ls"
  using lru.run_sim [OF demo_cache_ok prod.collapse [symmetric], of "\<lambda>k. 0" ops] by (auto simp: demo_run_def)

text \<open>
  C2. The pointer structure implements the abstract cache: for every hash function, over every
  history of \<open>Get\<close>, \<open>Set\<close>, \<open>Del\<close>, \<open>Purge\<close> and \<open>Len\<close> calls, whatever the clocks show, the cache returns
  what per-shard recency lists return: a hit moves the entry to the front, an expired entry is a
  miss and is dropped, a set of a new key beyond the capacity evicts the least recently used
  entry (and reports it when a callback is set), and all structural invariants are kept.
\<close>

theorem lru_refines_recency_lists:
  assumes "cache_rep f c Ls" and "run (lru_step h) ops c = (outs, c')"
  shows "\<exists>Ls'. run (lru_spec h f) ops Ls = (outs, Ls') \<and> cache_rep f c' Ls'"
  using assms by (rule lru.run_sim)

theorem lru_refines_recency_lists_witness:
  "cache_rep demo_conf demo_cache (replicate 4 []) \<and>
   (\<exists>c'. run (lru_step (\<lambda>k. 0)) [LSet [1] 10 (\<lambda>_. 0), LSet [2] 20 (\<lambda>_. 0), LGet [1] (\<lambda>_. 0), LSet [3] 30 (\<lambda>_. 0),
       LGet [2] (\<lambda>_. 0), LLen] demo_cache =
     ([Evicted None, Evicted None, Got (Some 10), Evicted (Some ([2], 20)), Got None, Count 2], c') \<and>
     (\<exists>Ls'. cache_rep demo_conf c' Ls'))"
proof -
  let ?r = "run (lru_step (\<lambda>k. 0)) [LSet [1] 10 (\<lambda>_. 0), LSet [2] 20 (\<lambda>_. 0), LGet [1] (\<lambda>_. 0), LSet [3] 30 (\<lambda>_. 0),
       LGet [2] (\<lambda>_. 0), LLen] demo_cache"
  have r: "?r = ([Evicted None, Evicted None, Got (Some 10), Evicted (Some ([2], 20)), Got None, Count 2], snd ?r)"
    by (intro prod_eqI) (simp_all only: fst_conv snd_conv, code_simp)
  from lru_refines_recency_lists [OF demo_cache_ok r] r demo_cache_ok show ?thesis by metis
qed

text \<open>
  The capacity is respected after every history: no shard ever holds more than
  \<open>capPerShard\<close> entries (none at all when that is not positive), so \<open>Len\<close> is at most the number of
  shards times the capacity.
\<close>

theorem lru_capacity:
  assumes "cache_rep f c Ls" and "run (lru_step h) ops c = (outs, c')"
  shows "(\<forall>s \<in> set (shards c'). shard_len s \<le> max 0 (fcap f)) \<and>
    Cache_Len c' \<le> int (length (shards c')) * max 0 (fcap f)"
proof -
  obtain Ls' where rep: "cache_rep f c' Ls'" using lru.run_sim [OF assms] by blast
  then have le: "shard_len s \<le> max 0 (fcap f)" if "s \<in> set (shards c')" for s
    using that lru_rep_length by (fastforce simp: cache_rep_def conf_of_def in_set_conv_nth list_all2_conv_all_nth)
  have "sum_list (map shard_len xs) \<le> int (length xs) * max 0 (fcap f)" if "set xs \<subseteq> set (shards c')" for xs
    using that by (induction xs) (auto simp: distrib_right le add_mono)
  then show ?thesis using le by (simp add: Cache_Len_sum)
qed

theorem lru_capacity_witness:
  "cache_rep demo_conf demo_cache (replicate 4 []) \<and>
   Cache_Len (demo_run [LSet [1] 10 (\<lambda>_. 0), LSet [2] 20 (\<lambda>_. 0), LSet [3] 30 (\<lambda>_. 0)]) \<le>
     int (length (shards (demo_run [LSet [1] 10 (\<lambda>_. 0), LSet [2] 20 (\<lambda>_. 0), LSet [3] 30 (\<lambda>_. 0)]))) * 2"
proof -
  have m: "max 0 (fcap demo_conf) = 2" by (simp add: demo_conf_def)
  show ?thesis
    using lru_capacity [OF demo_cache_ok prod.collapse [symmetric],
        of "\<lambda>k. 0" "[LSet [1] 10 (\<lambda>_. 0), LSet [2] 20 (\<lambda>_. 0), LSet [3] 30 (\<lambda>_. 0)]"] demo_cache_ok unfolding m demo_run_def by blast
qed

text \<open>
  \<open>Range\<close> returns, and visits exactly the entries that have not expired, shard by shard from the
  most to the least recently used one, until the callback stops it.
\<close>

theorem Range_visits_live:
  assumes "cache_rep f c Ls"
  shows "Cache_Range now fn c st =
    Some (snd (iter_while (\<lambda>e. fn (fst e) (snd e)) (concat (map (live (fttl f) (range_now now c)) Ls)) st))"
proof -
  have "list_all2 (\<lambda>s L. \<forall>st. rangeAll (range_now now c) fn s st =
      Some (iter_while (\<lambda>e. fn (fst e) (snd e)) (live (fttl f) (range_now now c) L) st)) (shards c) Ls"
    using assms by (auto simp: cache_rep_def rangeAll_ok conf_of_def elim!: list_all2_mono)
  then show ?thesis unfolding Cache_Range_def by (rule over_shards_iter)
qed

theorem Range_visits_live_witness:
  "cache_rep demo_conf (demo_run [LSet [1] 10 (\<lambda>_. 0), LSet [2] 20 (\<lambda>_. 0)]) [[([2], 20, 0), ([1], 10, 0)], [], [], []] \<and>
   Cache_Range (\<lambda>_. 0) (\<lambda>k v st. (True, st @ [v])) (demo_run [LSet [1] 10 (\<lambda>_. 0), LSet [2] 20 (\<lambda>_. 0)]) [7] = Some [7, 20, 10]"
proof -
  have "run (lru_spec (\<lambda>k. 0) demo_conf) [LSet [1] (10 :: nat) (\<lambda>_. 0), LSet [2] 20 (\<lambda>_. 0)] (replicate 4 []) =
      ([Evicted None, Evicted None], [[([2], 20, 0), ([1], 10, 0)], [], [], []])" by code_simp
  note ok = demo_run_ok [OF this]
  show ?thesis
    using ok Range_visits_live [OF ok, of "\<lambda>_. 0" "\<lambda>k v st. (True, st @ [v])" "[7]"]
    by (simp add: live_def is_expired_def demo_conf_def)
qed

lemma rangeBatch_skips:
  "lru_rep s L \<Longrightarrow> [] \<notin> fst ` set L \<Longrightarrow> rangeBatch t n fn s st = Some (iter_while (\<lambda>e. fn (fst e) (snd e)) [] st)"
proof -
  assume "lru_rep s L" and none: "[] \<notin> fst ` set L"
  then obtain ns where ns: "shard_ok s ns" "L = map (\<lambda>n. entry_of (node_at s n)) ns" by (auto simp: lru_rep_def)
  then have "\<forall>n \<in> set ns. lkey (node_at s n) \<noteq> []" using none by (force simp: entry_of_def)
  then show ?thesis
    unfolding rangeBatch_def by (subst rangeBatch_loop.simps) (simp add: walk_ok [OF ns(1)] batch_loop_skip)
qed

lemma rangeBatch_diverges:
  assumes rep: "lru_rep s (L1 @ ([], e) # L2)" and bs: "0 < bs" "bs \<le> length (live (ttl s) t L2)"
  shows "rangeBatch t bs (\<lambda>k v st. (True, g k v st)) s st = None"
proof -
  let ?e = "\<lambda>n. entry_of (node_at s n)" and ?fn = "\<lambda>k v st. (True, g k v st)"
  obtain ns where ns: "shard_ok s ns" "map ?e ns = L1 @ ([], e) # L2" using rep by (auto simp: lru_rep_def)
  then obtain us n vs where m: "ns = us @ n # vs" "([], e) = ?e n" "L2 = map ?e vs"
    by (auto simp: map_eq_append_conv map_eq_Cons_conv)
  have ok: "shard_ok s (us @ n # vs)" using ns(1) m(1) by simp
  then have d: "distinct (map (\<lambda>n. lkey (node_at s n)) (us @ n # vs))" by (simp only: shard_ok_def)
  have n: "lkey (node_at s n) = []" using m(2) by (simp add: entry_of_def)
  have k: "\<forall>m \<in> set us. lkey (node_at s m) \<noteq> []" using distinct_split [OF d] n by simp
  have lv: "bs \<le> length (live_nodes s t vs)" using bs(2) m(3) by (simp add: live_nodes_eq)
  then have lall: "bs \<le> length (live_nodes s t (us @ n # vs))" by (auto simp: live_nodes_def)
  obtain b lk where b: "batch_loop s t bs vs False [] [] = (b, lk)" by fastforce
  have lb: "length b = bs" "b \<noteq> []" using batch_loop_False [of "[]" bs s t vs "[]"] b lv bs(1) by auto
  have none: "rangeBatch_loop s t bs ?fn lk False st = None" for lk st
    by (rule rangeBatch_loop_diverges [OF ok bs(1) lall]) simp
  have "fst (iter_while (\<lambda>e. ?fn (fst e) (snd e)) b st)" by (rule iter_while_all) simp
  then show ?thesis
    unfolding rangeBatch_def using lb none
    by (subst rangeBatch_loop.simps) (auto simp: walk_ok [OF ok] batch_loop_resume [OF k n] b split: prod.splits)
qed

text \<open>
  C25. \<open>RangeLimit\<close> does not do what \<open>Range\<close> does in batches. The first pass over a shard skips every
  entry up to one whose key is the empty string, so when there is no such key nothing is visited
  at all; and when the first shard has one with a full batch of live entries behind it, every
  later pass starts at the head again and the loop never returns.
\<close>

theorem RangeLimit_broken:
  assumes rep: "cache_rep f c Ls" and bs: "0 < batchSize"
  shows "((\<forall>L \<in> set Ls. [] \<notin> fst ` set L) \<longrightarrow> RangeLimit now batchSize fn c st = Some st) \<and>
    ((\<exists>L1 e L2 Ls'. Ls = (L1 @ ([], e) # L2) # Ls' \<and> batchSize \<le> int (length (live (fttl f) (range_now now c) L2))) \<longrightarrow>
      RangeLimit now batchSize (\<lambda>k v st. (True, g k v st)) c st = None)"
proof (intro conjI impI)
  assume none: "\<forall>L \<in> set Ls. [] \<notin> fst ` set L"
  have "list_all2 (\<lambda>s L. \<forall>st. rangeBatch (range_now now c) (nat batchSize) fn s st =
      Some (iter_while (\<lambda>e. fn (fst e) (snd e)) [] st)) (shards c) Ls"
    using rep none unfolding cache_rep_def list_all2_conv_all_nth
    by (auto intro!: rangeBatch_skips simp del: iter_while.simps)
  from over_shards_iter [where h = "\<lambda>_. []", OF this] show "RangeLimit now batchSize fn c st = Some st"
    using bs by (simp add: RangeLimit_def map_replicate_const)
next
  assume "\<exists>L1 e L2 Ls'. Ls = (L1 @ ([], e) # L2) # Ls' \<and> batchSize \<le> int (length (live (fttl f) (range_now now c) L2))"
  then obtain L1 e L2 Ls' where L: "Ls = (L1 @ ([], e) # L2) # Ls'"
      "batchSize \<le> int (length (live (fttl f) (range_now now c) L2))" by blast
  then obtain s ss where s: "shards c = s # ss" "lru_rep s (L1 @ ([], e) # L2)" "conf_of s = f"
    using rep by (auto simp: cache_rep_def list_all2_Cons2)
  have "rangeBatch (range_now now c) (nat batchSize) (\<lambda>k v st. (True, g k v st)) s st = None"
    using s L(2) bs by (intro rangeBatch_diverges [OF s(2)]) (auto simp: conf_of_def)
  then show "RangeLimit now batchSize (\<lambda>k v st. (True, g k v st)) c st = None"
    using bs s(1) by (simp add: RangeLimit_def)
qed

theorem RangeLimit_broken_witness:
  "RangeLimit (\<lambda>_. 0) 1 (\<lambda>k v st. (True, st @ [v])) (demo_run [LSet [1] 10 (\<lambda>_. 0), LSet [2] 20 (\<lambda>_. 0)]) [7] = Some [7] \<and>
   RangeLimit (\<lambda>_. 0) 1 (\<lambda>k v st. (True, st @ [v])) (demo_run [LSet [1] 10 (\<lambda>_. 0), LSet [] 20 (\<lambda>_. 0)]) [7] = None"
proof -
  have "run (lru_spec (\<lambda>k. 0) demo_conf) [LSet [1] (10 :: nat) (\<lambda>_. 0), LSet [2] 20 (\<lambda>_. 0)] (replicate 4 []) =
      ([Evicted None, Evicted None], [[([2], 20, 0), ([1], 10, 0)], [], [], []])" by code_simp
  note a = demo_run_ok [OF this]
  have "run (lru_spec (\<lambda>k. 0) demo_conf) [LSet [1] (10 :: nat) (\<lambda>_. 0), LSet [] 20 (\<lambda>_. 0)] (replicate 4 []) =
      ([Evicted None, Evicted None], [[([], 20, 0), ([1], 10, 0)], [], [], []])" by code_simp
  note b = demo_run_ok [OF this]
  have l: "(1 :: int) \<le> int (length (live (fttl demo_conf) t [([1], 10 :: nat, 0)]))" for t
    by (simp add: live_def is_expired_def demo_conf_def)
  have "\<exists>L1 e L2 Ls'. [[([], 20, 0), ([1], 10 :: nat, 0)], [], [], []] = (L1 @ ([], e) # L2) # Ls' \<and>
      (1 :: int) \<le> int (length (live (fttl demo_conf) t L2))" for t
    by (rule exI [of _ "[]"], rule exI [of _ "(20, 0)"], rule exI [of _ "[([1], 10, 0)]"],
        rule exI [of _ "[[], [], []]"]) (use l [of t] in simp)
  then show ?thesis
    using RangeLimit_broken [OF a zero_less_one, of "\<lambda>_. 0" "\<lambda>k v st. (True, st @ [v])" "[7]"]
      RangeLimit_broken [OF b zero_less_one, of "\<lambda>_. 0" "\<lambda>k v st. (True, st @ [v])" "[7]" "\<lambda>k v st. st @ [v]"] by auto
qed

end
