(* ===== verification/Wheel.thy ===== *)
theory Wheel
  imports Words Dll SortedAL Interfaces "HOL-Library.Signed_Division"
begin

text \<open>
  Package \<open>wheel\<close> (src/wheel/wheel.go): a timing wheel. The slots are circular doubly linked lists
  in one heap: address 0 is nil, the sentinel of slot \<open>i\<close> is \<open>Suc i\<close>, entries come after the
  sentinels. Entries are recycled through a \<open>sync.Pool\<close>, which may hand out any of the entries
  put back or a new one: a call of \<open>Add\<close> carries that choice. \<open>Run\<close> only calls \<open>Advance\<close> on each tick
  of a timer and is not modelled. The abstract wheel is a list of timers with the number of ticks
  that remain.
\<close>

section \<open>The program\<close>

record 'a entry =
  eid :: u64
  eval :: "'a option"
  rounds :: int

record 'a wheel =
  wtick :: int
  wslots :: nat
  wmask :: int
  wcur :: int
  nextID :: u64
  windex :: "(u64 \<times> nat) list"
  wlinks :: links
  wents :: "nat \<Rightarrow> 'a entry"
  wpool :: "nat list"
  wfresh :: nat

definition slot_init :: "nat \<Rightarrow> links \<Rightarrow> links" where
  "slot_init i = (\<lambda>(nx, pv). (nx(Suc i := Suc i), pv(Suc i := Suc i)))"

definition pushBack :: "nat \<Rightarrow> nat \<Rightarrow> links \<Rightarrow> links" where
  "pushBack i e l = link_before (Suc i) e l"

definition removeEntry :: "nat \<Rightarrow> links \<Rightarrow> links" where
  "removeEntry e l = (case unlink e l of (nx, pv) \<Rightarrow> (nx(e := 0), pv(e := 0)))"

definition Wheel_New :: "int \<Rightarrow> int \<Rightarrow> 'a wheel option" where
  "Wheel_New tick numSlots =
     map_option (\<lambda>sz.
       \<lparr>wtick = tick, wslots = nat sz, wmask = sz - 1, wcur = 0, nextID = 0, windex = [],
        wlinks = fold slot_init [0..<nat sz] (\<lambda>_. 0, \<lambda>_. 0),
        wents = (\<lambda>_. \<lparr>eid = 0, eval = None, rounds = 0\<rparr>), wpool = [], wfresh = nat sz + 1\<rparr>)
       (pow2_loop 16 numSlots)"

text \<open>\<open>pool.Get\<close>: the chosen pooled entry, or a new one.\<close>

definition pool_get :: "nat option \<Rightarrow> 'a wheel \<Rightarrow> nat \<times> 'a wheel" where
  "pool_get pick w =
     (case pick of
        Some i \<Rightarrow>
          if i < length (wpool w)
          then (wpool w ! i, w\<lparr>wpool := take i (wpool w) @ drop (Suc i) (wpool w)\<rparr>)
          else (wfresh w, w\<lparr>wfresh := Suc (wfresh w)\<rparr>)
      | None \<Rightarrow> (wfresh w, w\<lparr>wfresh := Suc (wfresh w)\<rparr>))"

text \<open>\<open>None\<close>: the division panics.\<close>

definition Wheel_Add :: "nat option \<Rightarrow> int \<Rightarrow> 'a \<Rightarrow> 'a wheel \<Rightarrow> (u64 \<times> 'a wheel) option" where
  "Wheel_Add pick d val w =
     (if wtick w = 0 then None
      else let ticks = swrap64 (d sdiv wtick w);
               ticks = (if ticks \<le> 0 then 1 else ticks);
               ident = nextID w + 1;
               w = w\<lparr>nextID := ident\<rparr>;
               (e, w) = pool_get pick w;
               pos = nat (swrap64 (wcur w + ticks) AND wmask w);
               w = w\<lparr>wents := (wents w)(e := \<lparr>eid = ident, eval = Some val, rounds = ticks sdiv (wmask w + 1)\<rparr>)\<rparr>;
               w = w\<lparr>wlinks := pushBack pos e (wlinks w)\<rparr>
           in Some (ident, w\<lparr>windex := mput ident e (windex w)\<rparr>))"

definition Wheel_Cancel :: "u64 \<Rightarrow> 'a wheel \<Rightarrow> bool \<times> 'a wheel" where
  "Wheel_Cancel ident w =
     (case map_of (windex w) ident of
        None \<Rightarrow> (False, w)
      | Some e \<Rightarrow>
          (True, w\<lparr>windex := kv_del ident (windex w), wlinks := removeEntry e (wlinks w),
             wents := (wents w)(e := (wents w e)\<lparr>eval := None\<rparr>), wpool := e # wpool w\<rparr>))"

partial_function (option) advance_loop :: "nat \<Rightarrow> nat \<Rightarrow> 'a list \<Rightarrow> 'a wheel \<Rightarrow> ('a list \<times> 'a wheel) option" where
  "advance_loop h c expired w =
     (if c = h then Some (expired, w)
      else let next = fst (wlinks w) c; e = wents w c
           in if rounds e > 0
              then advance_loop h next expired (w\<lparr>wents := (wents w)(c := e\<lparr>rounds := rounds e - 1\<rparr>)\<rparr>)
              else advance_loop h next (expired @ [the (eval e)])
                (w\<lparr>wlinks := removeEntry c (wlinks w), windex := kv_del (eid e) (windex w),
                   wents := (wents w)(c := e\<lparr>eval := None\<rparr>), wpool := c # wpool w\<rparr>))"

declare advance_loop.simps [code]

text \<open>The values the callback is called with, in order.\<close>

definition Wheel_Advance :: "'a wheel \<Rightarrow> ('a list \<times> 'a wheel) option" where
  "Wheel_Advance w =
     (let w = w\<lparr>wcur := swrap64 (wcur w + 1) AND wmask w\<rparr>;
          h = Suc (nat (wcur w))
      in advance_loop h (fst (wlinks w) h) [] w)"

text \<open>\<open>Run\<close> until its context is done after \<open>n\<close> ticks of the ticker: what was called back, in order.\<close>

fun Wheel_Run :: "nat \<Rightarrow> 'a wheel \<Rightarrow> ('a list \<times> 'a wheel) option" where
  "Wheel_Run 0 w = Some ([], w)"
| "Wheel_Run (Suc n) w =
     (case Wheel_Advance w of
        None \<Rightarrow> None
      | Some (vs, w) \<Rightarrow> (case Wheel_Run n w of None \<Rightarrow> None | Some (us, w) \<Rightarrow> Some (vs @ us, w)))"

definition Wheel_Len :: "'a wheel \<Rightarrow> int" where "Wheel_Len w = int (length (windex w))"

definition Wheel_Tick :: "'a wheel \<Rightarrow> int" where "Wheel_Tick w = wtick w"

section \<open>Removing entries\<close>

lemma dll_removeEntry:
  assumes "dll l h (xs @ y # ys)"
  shows "dll (removeEntry y l) h (xs @ ys)"
proof -
  obtain nx pv where u: "unlink y l = (nx, pv)" by fastforce
  have "dll (nx, pv) h (xs @ ys)" using dll_unlink [OF assms] u by simp
  moreover have "y \<notin> set (h # xs @ ys)" using assms by (auto simp: dll_def)
  ultimately show ?thesis unfolding removeEntry_def u by (auto elim!: dll_frame)
qed

text \<open>Only the entry and its neighbours are written.\<close>

lemma removeEntry_frame:
  assumes "dll l h xs" "y \<in> set xs" "a \<notin> set (h # xs)"
  shows "fst (removeEntry y l) a = fst l a \<and> snd (removeEntry y l) a = snd l a"
proof -
  have "a \<noteq> fst l y" "a \<noteq> snd l y" "a \<noteq> y" using dll_neighbours [OF assms(1,2)] assms(2,3) by auto
  moreover have "snd l y \<noteq> y" 
  proof -
    obtain us vs where xs: "xs = us @ y # vs" using assms(2) by (meson split_list)
    then show ?thesis using assms(1) lseg_last [of "fst l" "snd l" h us y] by (auto simp: dll_def lseg_append split: if_splits)
  qed
  ultimately show ?thesis by (cases l) (auto simp: removeEntry_def unlink_def Let_def)
qed

lemma pushBack_frame:
  assumes "dll l (Suc i) xs" "a \<notin> set (Suc i # xs)" "a \<noteq> e" "e \<notin> set (Suc i # xs)"
  shows "fst (pushBack i e l) a = fst l a \<and> snd (pushBack i e l) a = snd l a"
proof -
  have "snd l (Suc i) \<in> set (Suc i # xs)" using dll_last [OF assms(1)] by auto
  then show ?thesis using assms(2-4) by (cases l) (auto simp: pushBack_def link_before_def Let_def)
qed

section \<open>The loop of an advance\<close>

definition fires :: "'a wheel \<Rightarrow> nat \<Rightarrow> bool" where "fires w e \<longleftrightarrow> rounds (wents w e) \<le> 0"

definition after_tick :: "'a entry \<Rightarrow> 'a entry" where
  "after_tick e = (if rounds e > 0 then e\<lparr>rounds := rounds e - 1\<rparr> else e\<lparr>eval := None\<rparr>)"

text \<open>
  From the first of the entries \<open>cs\<close> on, with \<open>us\<close> already passed: the loop returns, the entries
  whose rounds are used up leave the list and are reported in order, the others lose a round.
\<close>

definition tick_slot :: "links \<Rightarrow> nat list \<Rightarrow> 'a wheel \<Rightarrow> 'a wheel" where
  "tick_slot l cs w = w\<lparr>wlinks := l, wents := (\<lambda>a. if a \<in> set cs then after_tick (wents w a) else wents w a),
     windex := fold kv_del (map (\<lambda>e. eid (wents w e)) (filter (fires w) cs)) (windex w),
     wpool := rev (filter (fires w) cs) @ wpool w\<rparr>"

definition fired :: "nat list \<Rightarrow> 'a wheel \<Rightarrow> 'a list" where
  "fired cs w = map (\<lambda>e. the (eval (wents w e))) (filter (fires w) cs)"

lemma fires_cong:
  assumes "\<forall>e \<in> set cs. wents w' e = wents w e"
  shows "filter (fires w') cs = filter (fires w) cs" "filter (\<lambda>e. \<not> fires w' e) cs = filter (\<lambda>e. \<not> fires w e) cs"
    "map (\<lambda>e. eid (wents w' e)) (filter (fires w) cs) = map (\<lambda>e. eid (wents w e)) (filter (fires w) cs)"
    "fired cs w' = fired cs w"
  using assms unfolding fired_def fires_def by (induction cs) auto

lemma advance_loop_ok:
  assumes "dll (wlinks w) h (us @ cs)"
  shows "\<exists>l. advance_loop h (hd (cs @ [h])) ex w = Some (ex @ fired cs w, tick_slot l cs w) \<and>
    dll l h (us @ filter (\<lambda>e. \<not> fires w e) cs) \<and>
    (\<forall>a. a \<notin> set (h # us @ cs) \<longrightarrow> fst l a = fst (wlinks w) a \<and> snd l a = snd (wlinks w) a)"
  using assms
proof (induction cs arbitrary: us w ex)
  case Nil
  then have "advance_loop h (hd ([] @ [h])) ex w = Some (ex @ fired [] w, tick_slot (wlinks w) [] w)"
    by (simp add: advance_loop.simps fired_def tick_slot_def)
  with Nil show ?case by (intro exI [of _ "wlinks w"]) simp
next
  case (Cons c cs)
  have c: "c \<noteq> h" "c \<notin> set cs" "fst (wlinks w) c = hd (cs @ [h])"
    using Cons.prems lseg_first [of "fst (wlinks w)" "snd (wlinks w)" c cs h]
    by (auto simp: dll_def lseg_append split: list.splits)
  show ?case
  proof (cases "fires w c")
    case False
    define w1 where "w1 = w\<lparr>wents := (wents w)(c := (wents w c)\<lparr>rounds := rounds (wents w c) - 1\<rparr>)\<rparr>"
    have "\<forall>e \<in> set cs. wents w1 e = wents w e" using c(2) by (auto simp: w1_def)
    note f = fires_cong [of cs w1 w, OF this]
    obtain l where IH: "advance_loop h (hd (cs @ [h])) ex w1 = Some (ex @ fired cs w1, tick_slot l cs w1)"
        "dll l h ((us @ [c]) @ filter (\<lambda>e. \<not> fires w1 e) cs)"
        "\<forall>a. a \<notin> set (h # (us @ [c]) @ cs) \<longrightarrow> fst l a = fst (wlinks w1) a \<and> snd l a = snd (wlinks w1) a"
      using Cons.IH [of w1 "us @ [c]" ex] Cons.prems by (auto simp: w1_def)
    have "advance_loop h c ex w = advance_loop h (hd (cs @ [h])) ex w1"
      using False c by (subst advance_loop.simps) (simp add: fires_def Let_def w1_def)
    moreover have "tick_slot l cs w1 = tick_slot l (c # cs) w"
      unfolding tick_slot_def unfolding f(1) unfolding f(3) using False c(2)
      by (intro wheel.equality) (auto simp: fun_eq_iff after_tick_def fires_def w1_def)
    moreover have "fired (c # cs) w = fired cs w" using False by (simp add: fired_def)
    moreover have "wlinks w1 = wlinks w" by (simp add: w1_def)
    ultimately show ?thesis using False IH f by (intro exI [of _ l]) simp
  next
    case True
    let ?e = "wents w c" and ?rl = "removeEntry c (wlinks w)"
    define w1 where "w1 = w\<lparr>wlinks := ?rl, windex := kv_del (eid ?e) (windex w),
      wents := (wents w)(c := ?e\<lparr>eval := None\<rparr>), wpool := c # wpool w\<rparr>"
    have "\<forall>e \<in> set cs. wents w1 e = wents w e" using c(2) by (auto simp: w1_def)
    note f = fires_cong [of cs w1 w, OF this]
    have "dll (wlinks w1) h (us @ cs)" using dll_removeEntry [OF Cons.prems] by (simp add: w1_def)
    then obtain l where IH: "advance_loop h (hd (cs @ [h])) (ex @ [the (eval ?e)]) w1 =
          Some ((ex @ [the (eval ?e)]) @ fired cs w1, tick_slot l cs w1)"
        "dll l h (us @ filter (\<lambda>e. \<not> fires w1 e) cs)"
        "\<forall>a. a \<notin> set (h # us @ cs) \<longrightarrow> fst l a = fst (wlinks w1) a \<and> snd l a = snd (wlinks w1) a"
      using Cons.IH [of w1 us "ex @ [the (eval ?e)]"] by blast
    have "advance_loop h c ex w = advance_loop h (hd (cs @ [h])) (ex @ [the (eval ?e)]) w1"
      using True c by (subst advance_loop.simps) (simp add: fires_def Let_def w1_def)
    moreover have "tick_slot l cs w1 = tick_slot l (c # cs) w"
      unfolding tick_slot_def unfolding f(1) unfolding f(3) using True c(2)
      by (intro wheel.equality) (auto simp: fun_eq_iff after_tick_def fires_def w1_def)
    moreover have "fired (c # cs) w = the (eval ?e) # fired cs w" using True by (simp add: fired_def)
    moreover have "fst l a = fst (wlinks w) a \<and> snd l a = snd (wlinks w) a" if "a \<notin> set (h # us @ c # cs)" for a
      using IH(3) that removeEntry_frame [OF Cons.prems, of c a] by (auto simp: w1_def)
    ultimately show ?thesis using True IH(1,2) f by (intro exI [of _ l]) simp
  qed
qed

section \<open>The abstract wheel\<close>

text \<open>
  A timer is its id, its value and the number of ticks after which it fires. A delay of \<open>ticks\<close> ticks
  fires after exactly that many advances, except that a delay that is a multiple of the number
  of slots needs a whole revolution more.
\<close>

type_synonym 'a timers = "(u64 \<times> 'a \<times> nat) list"

definition ticks_of :: "int \<Rightarrow> int \<Rightarrow> nat" where
  "ticks_of tick d = nat (if swrap64 (d sdiv tick) \<le> 0 then 1 else swrap64 (d sdiv tick))"

definition delay :: "nat \<Rightarrow> nat \<Rightarrow> nat" where
  "delay sz ticks = (if ticks mod sz = 0 then ticks + sz else ticks)"

datatype 'a wop = WAdd "nat option" int 'a | WCancel u64 | WAdvance | WLen
datatype 'a wout = Ident u64 | Panic | Cancelled bool | Fired "'a list" | Stuck | Pending int

fun wheel_step :: "'a wop \<Rightarrow> 'a wheel \<Rightarrow> 'a wout \<times> 'a wheel" where
  "wheel_step (WAdd pick d v) w = (case Wheel_Add pick d v w of None \<Rightarrow> (Panic, w) | Some (i, w) \<Rightarrow> (Ident i, w))"
| "wheel_step (WCancel i) w = (case Wheel_Cancel i w of (b, w) \<Rightarrow> (Cancelled b, w))"
| "wheel_step WAdvance w = (case Wheel_Advance w of None \<Rightarrow> (Stuck, w) | Some (vs, w) \<Rightarrow> (Fired vs, w))"
| "wheel_step WLen w = (Pending (Wheel_Len w), w)"

fun wheel_spec :: "int \<Rightarrow> nat \<Rightarrow> 'a wop \<Rightarrow> nat \<times> 'a timers \<Rightarrow> 'a wout \<times> nat \<times> 'a timers" where
  "wheel_spec tick sz (WAdd pick d v) (n, T) =
     (if tick = 0 then (Panic, n, T)
      else (Ident (of_nat (n + 1)), n + 1, T @ [(of_nat (n + 1), v, delay sz (ticks_of tick d))]))"
| "wheel_spec tick sz (WCancel i) (n, T) = (Cancelled (i \<in> fst ` set T), n, kv_del i T)"
| "wheel_spec tick sz WAdvance (n, T) =
     (Fired (map (\<lambda>(i, v, r). v) (filter (\<lambda>(i, v, r). r = 1) T)), n,
      map (\<lambda>(i, v, r). (i, v, r - 1)) (filter (\<lambda>(i, v, r). r \<noteq> 1) T))"
| "wheel_spec tick sz WLen (n, T) = (Pending (int (length T)), n, T)"

text \<open>
  The slot and the rounds of a timer with \<open>r\<close> ticks to go, and how the entries of the slots, in
  their lists, stand for the timers.
\<close>

definition slot_of :: "nat \<Rightarrow> nat \<Rightarrow> nat \<Rightarrow> nat" where "slot_of sz c r = (c + r) mod sz"

definition slot_view :: "nat \<Rightarrow> nat \<Rightarrow> 'a timers \<Rightarrow> nat \<Rightarrow> (u64 \<times> 'a option \<times> int) list" where
  "slot_view sz c T p = map (\<lambda>(i, v, r). (i, Some v, int ((r - 1) div sz))) (filter (\<lambda>(i, v, r). slot_of sz c r = p) T)"

definition view :: "'a entry \<Rightarrow> u64 \<times> 'a option \<times> int" where "view e = (eid e, eval e, rounds e)"

definition timers_ok :: "nat \<Rightarrow> 'a timers \<Rightarrow> bool" where
  "timers_ok n T \<longleftrightarrow> distinct (map fst T) \<and> (\<forall>(i, v, r) \<in> set T. 0 < r \<and> unat i \<le> n)"

definition geometry :: "'a wheel \<Rightarrow> nat \<Rightarrow> bool" where
  "geometry w sz \<longleftrightarrow> (\<exists>k \<le> 62. sz = 2 ^ k) \<and> wslots w = sz \<and> wmask w = int sz - 1 \<and> 0 \<le> wcur w \<and> wcur w < int sz"

definition heap_ok :: "'a wheel \<Rightarrow> nat \<Rightarrow> (nat \<Rightarrow> nat list) \<Rightarrow> bool" where
  "heap_ok w sz xs \<longleftrightarrow>
     (\<forall>p < sz. dll (wlinks w) (Suc p) (xs p)) \<and>
     (\<forall>p < sz. \<forall>e \<in> set (xs p). sz < e \<and> e < wfresh w \<and> e \<notin> set (wpool w)) \<and>
     (\<forall>p < sz. \<forall>q < sz. p \<noteq> q \<longrightarrow> set (xs p) \<inter> set (xs q) = {}) \<and>
     distinct (wpool w) \<and> (\<forall>e \<in> set (wpool w). sz < e \<and> e < wfresh w) \<and> sz < wfresh w"

definition index_ok :: "'a wheel \<Rightarrow> nat \<Rightarrow> (nat \<Rightarrow> nat list) \<Rightarrow> bool" where
  "index_ok w sz xs \<longleftrightarrow> distinct (map fst (windex w)) \<and>
     (\<forall>i e. map_of (windex w) i = Some e \<longleftrightarrow> (\<exists>p < sz. e \<in> set (xs p)) \<and> eid (wents w e) = i)"

definition wheel_rep :: "int \<Rightarrow> nat \<Rightarrow> nat \<Rightarrow> 'a wheel \<Rightarrow> nat \<times> 'a timers \<Rightarrow> bool" where
  "wheel_rep tick sz b w a \<longleftrightarrow> (\<exists>xs. geometry w sz \<and> wtick w = tick \<and> heap_ok w sz xs \<and> index_ok w sz xs \<and>
     b + fst a < 2 ^ 64 \<and> nextID w = of_nat (fst a) \<and> timers_ok (fst a) (snd a) \<and>
     (\<forall>p < sz. map (\<lambda>e. view (wents w e)) (xs p) = slot_view sz (nat (wcur w)) (snd a) p))"

section \<open>Arithmetic of slots and rounds\<close>

lemma swrap64_and_mask:
  assumes "k \<le> 62" shows "swrap64 x AND (2 ^ k - 1) = x mod 2 ^ k"
proof -
  have "(2 :: int) ^ k dvd 2 ^ 63" "(2 :: int) ^ k dvd 2 ^ 64"
    by (rule le_imp_power_dvd, use assms in simp)+
  then have "swrap64 x mod 2 ^ k = x mod 2 ^ k"
    unfolding swrap64_def by (metis add_diff_cancel_right' mod_diff_left_eq mod_mod_cancel)
  moreover have "swrap64 x AND (2 ^ k - 1) = take_bit k (swrap64 x)" by (simp add: take_bit_eq_mask mask_eq_exp_minus_1)
  ultimately show ?thesis by (simp add: take_bit_eq_mod)
qed

lemma masked:
  assumes "geometry w sz" shows "swrap64 x AND wmask w = x mod int sz" "0 < sz"
  using assms swrap64_and_mask [of _ x] by (auto simp: geometry_def)

lemma block: "r < sz \<Longrightarrow> (r + sz * q) div sz = q" "r < sz \<Longrightarrow> (r + sz * q) mod sz = r" for r sz q :: nat
  by simp_all

lemma rounds_delay:
  assumes "0 < sz" "0 < t" shows "(delay sz t - 1) div sz = t div sz"
proof -
  obtain q r where e: "t div sz = q" "t mod sz = r" by simp
  have t: "t = r + sz * q" "r < sz" using assms e by auto
  show ?thesis
  proof (cases "r = 0")
    case True
    have "delay sz t = t + sz" unfolding delay_def e using True by simp
    then have "delay sz t - 1 = (sz - 1) + sz * q" using t(1) True assms by linarith
    then show ?thesis unfolding e using block(1) [of "sz - 1" sz q] assms by simp
  next
    case False
    have "delay sz t = t" unfolding delay_def e using False by simp
    then have "delay sz t - 1 = (r - 1) + sz * q" using t(1) False by linarith
    then show ?thesis unfolding e using block(1) [of "r - 1" sz q] t(2) by simp
  qed
qed

lemma slot_delay: "slot_of sz c (delay sz t) = (c + t) mod sz"
  by (simp add: slot_of_def delay_def flip: add.assoc)

lemma slot_next: "0 < r \<Longrightarrow> slot_of sz ((c + 1) mod sz) (r - 1) = slot_of sz c r"
  by (cases r) (simp_all add: slot_of_def mod_add_left_eq)

lemma due_slot:
  assumes "0 < sz" "0 < r" shows "slot_of sz c r = (c + 1) mod sz \<longleftrightarrow> (r - 1) mod sz = 0"
proof -
  obtain s where r: "r = s + 1" using assms(2) by (cases r) auto
  have "(c + 1 + s) mod sz = (c + 1) mod sz \<longleftrightarrow> sz dvd c + 1 + s - (c + 1)" by (rule mod_eq_dvd_iff_nat) simp
  then show ?thesis using r by (simp add: slot_of_def ac_simps dvd_eq_mod_eq_0)
qed

lemma rounds_next:
  fixes sz s :: nat
  assumes "0 < sz" "0 < s"
  shows "(s - 1) div sz = (if s mod sz = 0 then s div sz - 1 else s div sz)"
proof -
  obtain q r where e: "s div sz = q" "s mod sz = r" by simp
  have t: "s = r + sz * q" "r < sz" using assms e by auto
  show ?thesis
  proof (cases "r = 0")
    case True
    then obtain q' where q': "q = Suc q'" using t assms by (cases q) auto
    then have "s = sz + sz * q'" using t(1) True by simp
    then have "s - 1 = (sz - 1) + sz * q'" using assms by linarith
    then show ?thesis unfolding e using block(1) [of "sz - 1" sz q'] True q' assms by simp
  next
    case False
    then have "s - 1 = (r - 1) + sz * q" using t(1) by linarith
    then show ?thesis unfolding e using block(1) [of "r - 1" sz q] False t(2) by simp
  qed
qed

section \<open>The operations implement the abstract wheel\<close>

lemma heap_sentinel:
  assumes "heap_ok w sz xs" "p < sz" "q < sz" "p \<noteq> q"
  shows "a \<in> set (Suc q # xs q) \<Longrightarrow> a \<notin> set (Suc p # xs p)"
proof -
  have "sz < e" if "e \<in> set (xs p) \<union> set (xs q)" for e using assms that by (auto simp: heap_ok_def)
  moreover have "set (xs p) \<inter> set (xs q) = {}" using assms by (simp add: heap_ok_def)
  ultimately show "a \<in> set (Suc q # xs q) \<Longrightarrow> a \<notin> set (Suc p # xs p)" using assms(2-4) by fastforce
qed

lemma view_sel: "view e = (a, b, c) \<longleftrightarrow> eid e = a \<and> eval e = b \<and> rounds e = c"
  by (auto simp: view_def)

lemma slot_view_mem:
  "(i, v', n) \<in> set (slot_view sz c T p) \<longleftrightarrow>
    (\<exists>v r. (i, v, r) \<in> set T \<and> slot_of sz c r = p \<and> v' = Some v \<and> n = int ((r - 1) div sz))"
  by (auto simp: slot_view_def image_iff)

text \<open>The ids of the linked entries are those of the timers, each of them once.\<close>

lemma ids_eq:
  assumes sz: "0 < sz" and v: "\<forall>p < sz. map (\<lambda>e. view (wents w e)) (xs p) = slot_view sz c T p"
  shows "(\<exists>p < sz. \<exists>e \<in> set (xs p). eid (wents w e) = i) \<longleftrightarrow> i \<in> fst ` set T"
proof
  assume "\<exists>p < sz. \<exists>e \<in> set (xs p). eid (wents w e) = i"
  then obtain p e where p: "p < sz" "e \<in> set (xs p)" "eid (wents w e) = i" by blast
  then have "view (wents w e) \<in> set (slot_view sz c T p)" using v by (metis image_eqI set_map)
  then show "i \<in> fst ` set T" using p(3) by (force simp: view_def slot_view_mem)
next
  assume "i \<in> fst ` set T"
  then obtain v r where t: "(i, v, r) \<in> set T" by force
  let ?p = "slot_of sz c r"
  have "?p < sz" using sz by (simp add: slot_of_def)
  moreover have "(i, Some v, int ((r - 1) div sz)) \<in> set (map (\<lambda>e. view (wents w e)) (xs ?p))"
    using v t \<open>?p < sz\<close> by (auto simp: slot_view_mem)
  ultimately show "\<exists>p < sz. \<exists>e \<in> set (xs p). eid (wents w e) = i" by (auto simp: view_def)
qed

lemma index_dom:
  assumes "index_ok w sz xs" "0 < sz" "\<forall>p < sz. map (\<lambda>e. view (wents w e)) (xs p) = slot_view sz c T p"
  shows "map_of (windex w) i = None \<longleftrightarrow> i \<notin> fst ` set T"
  unfolding ids_eq [OF assms(2,3), symmetric] using assms(1) unfolding index_ok_def
  by (metis option.distinct(1) option.exhaust_sel option.sel)

lemma pool_get_ok:
  assumes h: "heap_ok w sz xs" and g: "pool_get pick w = (e, w')"
  shows "heap_ok w' sz xs \<and> e \<notin> set (wpool w') \<and> sz < e \<and> e < wfresh w' \<and> (\<forall>p < sz. e \<notin> set (xs p)) \<and>
    w' = w\<lparr>wpool := wpool w', wfresh := wfresh w'\<rparr>"
proof -
  have new: "wfresh w \<notin> set (wpool w)" "\<forall>p < sz. wfresh w \<notin> set (xs p)" "sz < wfresh w" using h by (auto simp: heap_ok_def)
  consider (pooled) i where "i < length (wpool w)" "e = wpool w ! i" "w' = w\<lparr>wpool := take i (wpool w) @ drop (Suc i) (wpool w)\<rparr>"
    | (new) "e = wfresh w" "w' = w\<lparr>wfresh := Suc (wfresh w)\<rparr>"
    using g by (auto simp: pool_get_def split: option.splits if_splits)
  then show ?thesis
  proof cases
    case pooled
    have pl: "wpool w = take i (wpool w) @ e # drop (Suc i) (wpool w)" using pooled by (simp add: id_take_nth_drop)
    have d: "distinct (take i (wpool w) @ e # drop (Suc i) (wpool w))" unfolding pl [symmetric] using h by (simp add: heap_ok_def)
    have sub: "set (wpool w') \<subseteq> set (wpool w)" "distinct (wpool w')" "e \<notin> set (wpool w')"
      using d pooled(3) by (auto dest: in_set_takeD in_set_dropD)
    have "e \<in> set (wpool w)" using pooled by simp
    then show ?thesis
      using h sub pooled(3) by (auto simp: heap_ok_def)
  next
    case new
    then show ?thesis
      using h by (auto simp: heap_ok_def less_Suc_eq)
  qed
qed

lemma heap_push:
  assumes h: "heap_ok w sz xs" and p: "p < sz" and e: "e \<notin> set (wpool w)" "sz < e" "e < wfresh w" "\<forall>p < sz. e \<notin> set (xs p)"
  shows "heap_ok (w\<lparr>wlinks := pushBack p e (wlinks w)\<rparr>) sz (xs(p := xs p @ [e]))"
proof -
  let ?l = "pushBack p e (wlinks w)"
  have d: "dll (wlinks w) (Suc q) (xs q)" if "q < sz" for q using h that by (simp add: heap_ok_def)
  have ne: "e \<notin> set (Suc q # xs q)" if "q < sz" for q using e that by auto
  have "dll ?l (Suc q) ((xs(p := xs p @ [e])) q)" if q: "q < sz" for q
  proof (cases "q = p")
    case True
    then show ?thesis using dll_link_before [OF d [OF p] ne [OF p]] by (simp add: pushBack_def)
  next
    case False
    have "dll ?l (Suc q) (xs q)"
    proof (rule dll_frame [OF d [OF q]])
      fix y assume y: "y \<in> set (Suc q # xs q)"
      then show "fst ?l y = fst (wlinks w) y \<and> snd ?l y = snd (wlinks w) y"
        using heap_sentinel [OF h p q] False ne [OF q] by (intro pushBack_frame [OF d [OF p] _ _ ne [OF p]]) auto
    qed
    then show ?thesis using False by simp
  qed
  then show ?thesis using h e p unfolding heap_ok_def by (auto split: if_splits)
qed

lemma heap_remove:
  assumes h: "heap_ok w sz xs" and p: "p < sz" and e: "e \<in> set (xs p)"
  shows "heap_ok (w\<lparr>wlinks := removeEntry e (wlinks w), wpool := e # wpool w\<rparr>) sz (\<lambda>q. filter (\<lambda>a. a \<noteq> e) (xs q))"
proof -
  let ?l = "removeEntry e (wlinks w)"
  have d: "dll (wlinks w) (Suc q) (xs q)" if "q < sz" for q using h that by (simp add: heap_ok_def)
  have "dll ?l (Suc q) (filter (\<lambda>a. a \<noteq> e) (xs q))" if q: "q < sz" for q
  proof (cases "q = p")
    case True
    obtain us vs where xs: "xs p = us @ e # vs" using e by (meson split_list)
    then have "e \<notin> set us" "e \<notin> set vs" using d [OF p] by (auto simp: dll_def)
    then have "filter (\<lambda>a. a \<noteq> e) us = us" "filter (\<lambda>a. a \<noteq> e) vs = vs" by (auto simp: filter_id_conv)
    then have "filter (\<lambda>a. a \<noteq> e) (xs p) = us @ vs" unfolding xs by simp
    then show ?thesis using dll_removeEntry d [OF p] xs True by simp
  next
    case False
    have "e \<notin> set (xs q)" using heap_sentinel [OF h p q, of e] False e by auto
    then have "filter (\<lambda>a. a \<noteq> e) (xs q) = xs q" by (auto simp: filter_id_conv)
    moreover have "dll ?l (Suc q) (xs q)"
      using heap_sentinel [OF h p q] False by (intro dll_frame [OF d [OF q]] removeEntry_frame [OF d [OF p] e]) auto
    ultimately show ?thesis by simp
  qed
  then show ?thesis using h e p unfolding heap_ok_def by (auto; blast)
qed

lemma rep_add:
  assumes rep: "wheel_rep tick sz (Suc b) w (n, T)" and t: "tick \<noteq> 0"
  shows "\<exists>w'. Wheel_Add pick d v w = Some (of_nat (n + 1), w') \<and>
    wheel_rep tick sz b w' (n + 1, T @ [(of_nat (n + 1), v, delay sz (ticks_of tick d))])"
proof -
  obtain xs where g: "geometry w sz" and tk: "wtick w = tick" and h: "heap_ok w sz xs" and ix: "index_ok w sz xs"
    and bd: "Suc b + n < 2 ^ 64" and nid: "nextID w = of_nat n" and T: "timers_ok n T"
    and vw: "\<forall>p < sz. map (\<lambda>e. view (wents w e)) (xs p) = slot_view sz (nat (wcur w)) T p"
    using rep by (auto simp: wheel_rep_def)
  define i :: u64 where "i = of_nat (n + 1)"
  define ticks where "ticks = ticks_of tick d"
  define p where "p = (nat (wcur w) + ticks) mod sz"
  note sz = masked(2) [OF g] and m = masked(1) [OF g]
  have tpos: "0 < ticks" by (auto simp: ticks_def ticks_of_def)
  have ui: "unat i = n + 1" unfolding i_def using bd by (intro unat_of_nat_u64) simp
  have iT: "i \<notin> fst ` set T" using T ui by (force simp: timers_ok_def)
  obtain e w1 where pg: "pool_get pick (w\<lparr>nextID := i\<rparr>) = (e, w1)" by fastforce
  have h0: "heap_ok (w\<lparr>nextID := i\<rparr>) sz xs" using h by (simp add: heap_ok_def)
  have w1: "heap_ok w1 sz xs" "e \<notin> set (wpool w1)" "sz < e" "e < wfresh w1" "\<forall>p < sz. e \<notin> set (xs p)"
      "w1 = w\<lparr>nextID := i, wpool := wpool w1, wfresh := wfresh w1\<rparr>"
    using pool_get_ok [OF h0 pg] by auto
  have c0: "0 \<le> wcur w" "wcur w < int sz" using g by (auto simp: geometry_def)
  have w1c: "wcur w1 = wcur w" "wmask w1 = wmask w" "wlinks w1 = wlinks w" "wents w1 = wents w" "windex w1 = windex w"
    by (subst w1(6), simp)+
  have p: "nat (swrap64 (wcur w1 + int ticks) AND wmask w1) = p" "p < sz"
    unfolding w1c m p_def using sz c0 by (simp_all add: nat_mod_distrib nat_add_distrib)
  define ent where "ent = \<lparr>eid = i, eval = Some v, rounds = int ticks sdiv (wmask w1 + 1)\<rparr>"
  define w2 where "w2 = w1\<lparr>wents := (wents w1)(e := ent), wlinks := pushBack p e (wlinks w1), windex := mput i e (windex w1)\<rparr>"
  have rd: "rounds ent = int ((delay sz ticks - 1) div sz)"
    unfolding rounds_delay [OF sz tpos] using g tpos sz
    by (simp add: ent_def w1c geometry_def signed_divide_int_def zdiv_int)
  have tq: "(if swrap64 (d sdiv wtick w) \<le> 0 then 1 else swrap64 (d sdiv wtick w)) = int ticks"
    unfolding ticks_def ticks_of_def tk by auto
  have iq: "nextID w + 1 = i" by (simp add: nid i_def add.commute)
  have add: "Wheel_Add pick d v w = Some (i, w2)"
    unfolding Wheel_Add_def Let_def tq iq using t tk pg by (simp add: w2_def ent_def p(1))
  let ?xs = "xs(p := xs p @ [e])" and ?T = "T @ [(i, v, delay sz ticks)]"
  have h2: "heap_ok w2 sz ?xs" using heap_push [OF w1(1) p(2) w1(2-5)] by (simp add: heap_ok_def w2_def)
  have old: "wents w2 a = wents w a" if "q < sz" "a \<in> set (xs q)" for q a
    using that w1(5) by (auto simp: w2_def w1c)
  have new: "wents w2 e = ent" by (simp add: w2_def)
  have "map (\<lambda>e. view (wents w2 e)) (?xs q) = slot_view sz (nat (wcur w2)) ?T q" if q: "q < sz" for q
  proof -
    have "map (\<lambda>e. view (wents w2 e)) (xs q) = slot_view sz (nat (wcur w)) T q"
      using vw q old [OF q] by (metis (no_types, lifting) map_cong)
    moreover have "view (wents w2 e) = (i, Some v, int ((delay sz ticks - 1) div sz))"
      unfolding new view_sel rd by (simp add: ent_def)
    moreover have "slot_of sz (nat (wcur w)) (delay sz ticks) = p" by (simp add: slot_delay p_def)
    moreover have "wcur w2 = wcur w" by (simp add: w2_def w1c)
    ultimately show ?thesis by (auto simp: slot_view_def)
  qed
  moreover have "index_ok w2 sz ?xs"
  proof -
    have none: "map_of (windex w) i = None" using index_dom [OF ix sz vw] iT by simp
    have "map_of (windex w2) j = Some a \<longleftrightarrow> (\<exists>q < sz. a \<in> set (?xs q)) \<and> eid (wents w2 a) = j" for j a
    proof (cases "a = e")
      case True
      have "map_of (windex w) j \<noteq> Some e" using ix w1(5) by (auto simp: index_ok_def)
      then show ?thesis using True p(2) new by (auto simp: w2_def w1c ent_def)
    next
      case False
      have "(\<exists>q < sz. a \<in> set (?xs q)) \<longleftrightarrow> (\<exists>q < sz. a \<in> set (xs q))" using False by auto
      moreover have "wents w2 a = wents w a" using False by (simp add: w2_def w1c)
      moreover have "eid (wents w a) \<noteq> i" if "\<exists>q < sz. a \<in> set (xs q)"
        using none that ix by (metis index_ok_def option.distinct(1))
      ultimately show ?thesis using False ix by (auto simp: w2_def w1c index_ok_def)
    qed
    then show ?thesis using ix by (simp add: index_ok_def w2_def w1c distinct_mput)
  qed
  moreover have "geometry w2 sz" "wtick w2 = tick" "nextID w2 = of_nat (n + 1)"
    using g tk unfolding w2_def i_def by (subst w1(6), simp add: geometry_def i_def)+
  moreover have "timers_ok (n + 1) ?T"
    using T iT ui tpos by (auto simp: timers_ok_def delay_def)
  ultimately have "wheel_rep tick sz b w2 (n + 1, ?T)"
    unfolding wheel_rep_def using h2 bd by (intro exI [of _ ?xs]) simp
  then show ?thesis using add by (auto simp: i_def ticks_def)
qed

lemma rep_cancel:
  assumes rep: "wheel_rep tick sz (Suc b) w (n, T)" and c: "Wheel_Cancel i w = (r, w')"
  shows "r = (i \<in> fst ` set T) \<and> wheel_rep tick sz b w' (n, kv_del i T)"
proof -
  obtain xs where g: "geometry w sz" and tk: "wtick w = tick" and h: "heap_ok w sz xs" and ix: "index_ok w sz xs"
    and bd: "Suc b + n < 2 ^ 64" and nid: "nextID w = of_nat n" and T: "timers_ok n T"
    and vw: "\<forall>p < sz. map (\<lambda>e. view (wents w e)) (xs p) = slot_view sz (nat (wcur w)) T p"
    using rep by (auto simp: wheel_rep_def)
  note sz = masked(2) [OF g]
  note dm = index_dom [OF ix sz vw]
  show ?thesis
  proof (cases "map_of (windex w) i")
    case None
    then have "i \<notin> fst ` set T" "r = False" "w' = w" using dm [of i] c by (simp_all add: Wheel_Cancel_def)
    moreover have "wheel_rep tick sz b w (n, T)" using rep by (auto simp: wheel_rep_def)
    moreover have "kv_del i T = T" using \<open>i \<notin> fst ` set T\<close> by (intro kv_del_absent) (auto simp: map_of_eq_None_iff)
    ultimately show ?thesis by simp
  next
    case (Some e)
    then obtain p where p: "p < sz" "e \<in> set (xs p)" "eid (wents w e) = i" using ix by (auto simp: index_ok_def)
    have r: "r = True" and w': "w' = w\<lparr>windex := kv_del i (windex w), wlinks := removeEntry e (wlinks w),
        wents := (wents w)(e := (wents w e)\<lparr>eval := None\<rparr>), wpool := e # wpool w\<rparr>"
      using c Some by (auto simp: Wheel_Cancel_def)
    have only: "eid (wents w a) = i \<longleftrightarrow> a = e" if "q < sz" "a \<in> set (xs q)" for q a
      using that ix Some p by (metis index_ok_def option.inject)
    let ?xs = "\<lambda>q. filter (\<lambda>a. a \<noteq> e) (xs q)"
    have "heap_ok w' sz ?xs" using heap_remove [OF h p(1,2)] by (simp add: heap_ok_def w')
    moreover have "index_ok w' sz ?xs"
    proof -
      have "map_of (windex w') j = Some a \<longleftrightarrow> (\<exists>q < sz. a \<in> set (?xs q)) \<and> eid (wents w' a) = j" for j a
        using ix only p by (auto simp: w' map_of_kv_del index_ok_def)
      then show ?thesis using ix by (simp add: index_ok_def w' distinct_kv_del)
    qed
    moreover have "map (\<lambda>e. view (wents w' e)) (?xs q) = slot_view sz (nat (wcur w')) (kv_del i T) q" if q: "q < sz" for q
    proof -
      have "map (\<lambda>e. view (wents w' e)) (?xs q) = map (\<lambda>e. view (wents w e)) (?xs q)" by (auto simp: w')
      also have "\<dots> = map (\<lambda>e. view (wents w e)) (filter (\<lambda>a. eid (wents w a) \<noteq> i) (xs q))"
        using only [OF q] by (intro arg_cong [of _ _ "map _"] filter_cong) auto
      also have "\<dots> = filter (\<lambda>x. fst x \<noteq> i) (map (\<lambda>e. view (wents w e)) (xs q))"
        by (simp add: filter_map comp_def view_def)
      also have "\<dots> = slot_view sz (nat (wcur w')) (kv_del i T) q"
        using vw q by (auto simp: slot_view_def kv_del_def filter_map comp_def w' case_prod_unfold intro!: arg_cong [of _ _ "map _"] filter_cong)
      finally show ?thesis .
    qed
    moreover have "timers_ok n (kv_del i T)" using T distinct_kv_del [of T i] by (auto simp: timers_ok_def) (auto simp: kv_del_def)
    ultimately have "wheel_rep tick sz b w' (n, kv_del i T)"
      unfolding wheel_rep_def using g tk bd nid by (intro exI [of _ ?xs]) (simp add: w' geometry_def)
    then show ?thesis using r dm [of i] Some by auto
  qed
qed

lemma map_of_fold_kv_del: "map_of (fold kv_del is m) k = (if k \<in> set is then None else map_of m k)"
  by (induction "is" arbitrary: m) (auto simp: map_of_kv_del)

lemma distinct_fold_kv_del: "distinct (map fst m) \<Longrightarrow> distinct (map fst (fold kv_del is m))"
  by (induction "is" arbitrary: m) (auto simp: distinct_kv_del)

text \<open>The timers of a slot before and after a tick.\<close>

definition tick_timers :: "'a timers \<Rightarrow> 'a timers" where
  "tick_timers T = map (\<lambda>(i, v, r). (i, v, r - 1)) (filter (\<lambda>(i, v, r). r \<noteq> 1) T)"

lemma slot_view_tick_other:
  assumes "0 < sz" "\<forall>(i, v, r) \<in> set T. 0 < r" "q \<noteq> (c + 1) mod sz"
  shows "slot_view sz ((c + 1) mod sz) (tick_timers T) q = slot_view sz c T q"
  using assms(2)
proof (induction T)
  case (Cons t T)
  obtain i v r where t: "t = (i, v, r)" by (cases t)
  then have r: "0 < r" using Cons.prems by auto
  have "r \<noteq> 1 \<Longrightarrow> slot_of sz ((c + 1) mod sz) (r - 1) = slot_of sz c r" using slot_next r by blast
  moreover have "slot_of sz c 1 \<noteq> q" using assms(3) by (simp add: slot_of_def)
  moreover have "(r - 1 - 1) div sz = (r - 1) div sz" if "slot_of sz c r = q" "r \<noteq> 1"
    using rounds_next [of sz "r - 1"] due_slot [of sz r c] assms(1,3) r that by simp
  ultimately show ?case using Cons r by (auto simp: t slot_view_def tick_timers_def)
qed (simp add: slot_view_def tick_timers_def)

lemma slot_view_tick_due:
  assumes "0 < sz" "\<forall>(i, v, r) \<in> set T. 0 < r"
  shows "slot_view sz ((c + 1) mod sz) (tick_timers T) ((c + 1) mod sz) =
      map (\<lambda>(i, v, n). (i, v, n - 1)) (filter (\<lambda>(i, v, n). \<not> n \<le> 0) (slot_view sz c T ((c + 1) mod sz)))"
    and "map (\<lambda>(i, v, n). the v) (filter (\<lambda>(i, v, n). n \<le> 0) (slot_view sz c T ((c + 1) mod sz))) =
      map (\<lambda>(i, v, r). v) (filter (\<lambda>(i, v, r). r = 1) T)"
proof -
  let ?q = "(c + 1) mod sz"
  have due: "slot_of sz c r = ?q \<longleftrightarrow> (r - 1) mod sz = 0" if "0 < r" for r using due_slot [OF assms(1) that] .
  have nxt: "slot_of sz ?q (r - 1) = slot_of sz c r" if "0 < r" for r using slot_next [OF that] .
  have rd: "(r - 1) div sz = 0 \<longleftrightarrow> r = 1" if "0 < r" "(r - 1) mod sz = 0" for r
    using that by (metis (no_types, opaque_lifting) add.right_neutral add_0_left assms(1) diff_Suc_1 div_0 less_one
        mult.commute mult_0 mult_div_mod_eq Suc_pred' One_nat_def)
  have rn: "int ((r - 1 - 1) div sz) = int ((r - 1) div sz) - 1" if "0 < r" "r \<noteq> 1" "(r - 1) mod sz = 0" for r
    using rounds_next [OF assms(1), of "r - 1"] rd [OF that(1,3)] that by (simp add: of_nat_diff)
  show "slot_view sz ?q (tick_timers T) ?q =
      map (\<lambda>(i, v, n). (i, v, n - 1)) (filter (\<lambda>(i, v, n). \<not> n \<le> 0) (slot_view sz c T ?q))"
    using assms(2)
  proof (induction T)
    case (Cons t T)
    obtain i v r where t: "t = (i, v, r)" by (cases t)
    then have r: "0 < r" using Cons.prems by auto
    show ?case using Cons r due [OF r] nxt [OF r] rd [OF r] rn [OF r] by (auto simp: t slot_view_def tick_timers_def)
  qed (simp add: slot_view_def tick_timers_def)
  show "map (\<lambda>(i, v, n). the v) (filter (\<lambda>(i, v, n). n \<le> 0) (slot_view sz c T ?q)) =
      map (\<lambda>(i, v, r). v) (filter (\<lambda>(i, v, r). r = 1) T)"
    using assms(2)
  proof (induction T)
    case (Cons t T)
    obtain i v r where t: "t = (i, v, r)" by (cases t)
    then have r: "0 < r" using Cons.prems by auto
    show ?case using Cons r due [OF r] rd [OF r] by (auto simp: t slot_view_def)
  qed (simp add: slot_view_def)
qed

lemma rep_advance:
  assumes rep: "wheel_rep tick sz (Suc b) w (n, T)"
  shows "\<exists>w'. Wheel_Advance w = Some (map (\<lambda>(i, v, r). v) (filter (\<lambda>(i, v, r). r = 1) T), w') \<and>
    wheel_rep tick sz b w' (n, tick_timers T)"
proof -
  obtain xs where g: "geometry w sz" and tk: "wtick w = tick" and h: "heap_ok w sz xs" and ix: "index_ok w sz xs"
    and bd: "Suc b + n < 2 ^ 64" and nid: "nextID w = of_nat n" and T: "timers_ok n T"
    and vw: "\<forall>p < sz. map (\<lambda>e. view (wents w e)) (xs p) = slot_view sz (nat (wcur w)) T p"
    using rep by (auto simp: wheel_rep_def)
  define c where "c = nat (wcur w)"
  define p where "p = (c + 1) mod sz"
  note sz = masked(2) [OF g] and m = masked(1) [OF g]
  have c0: "0 \<le> wcur w" "wcur w < int sz" "wcur w = int c" using g by (auto simp: geometry_def c_def)
  have p: "p < sz" "swrap64 (wcur w + 1) AND wmask w = int p"
    using sz c0 by (simp_all add: p_def m zmod_int add.commute)
  define w1 where "w1 = w\<lparr>wcur := int p\<rparr>"
  have d: "dll (wlinks w1) (Suc p) ([] @ xs p)" using h p(1) by (simp add: heap_ok_def w1_def)
  have fw: "fires w1 = fires w" by (auto simp: w1_def fun_eq_iff fires_def)
  have same: "fires w1 = fires w" "fired cs w1 = fired cs w" for cs
    unfolding fired_def fw by (simp_all add: w1_def)
  obtain l where l: "advance_loop (Suc p) (hd (xs p @ [Suc p])) [] w1 = Some (fired (xs p) w, tick_slot l (xs p) w1)"
      "dll l (Suc p) (filter (\<lambda>e. \<not> fires w e) (xs p))"
      "\<forall>a. a \<notin> set (Suc p # xs p) \<longrightarrow> fst l a = fst (wlinks w) a \<and> snd l a = snd (wlinks w) a"
    using advance_loop_ok [OF d, of "[]"] unfolding same by (auto simp: w1_def)
  define w2 where "w2 = tick_slot l (xs p) w1"
  have "fst (wlinks w1) (Suc p) = hd (xs p @ [Suc p])" using dll_first [OF d] by (auto split: list.splits)
  moreover have "wcur w1 = int p" by (simp add: w1_def)
  ultimately have adv: "Wheel_Advance w = Some (fired (xs p) w, w2)"
    using l(1) by (simp add: Wheel_Advance_def Let_def p(2) w1_def [symmetric] w2_def)
  have rp: "\<forall>(i, v, r) \<in> set T. 0 < r" using T by (auto simp: timers_ok_def)
  note due = slot_view_tick_due [OF sz rp, of c, folded p_def]
  have vp: "map (\<lambda>e. view (wents w e)) (xs p) = slot_view sz c T p" using vw p(1) by (simp add: c_def)
  have out: "fired (xs p) w = map (\<lambda>(i, v, r). v) (filter (\<lambda>(i, v, r). r = 1) T)"
    unfolding due(2) [symmetric] vp [symmetric]
    by (simp add: fired_def fires_def [abs_def] filter_map comp_def view_def case_prod_unfold)
  let ?xs = "xs(p := filter (\<lambda>e. \<not> fires w e) (xs p))"
  have sub: "set (?xs q) \<subseteq> set (xs q)" for q by auto
  have w2: "wents w2 = (\<lambda>a. if a \<in> set (xs p) then after_tick (wents w a) else wents w a)"
      "windex w2 = fold kv_del (map (\<lambda>e. eid (wents w e)) (filter (fires w) (xs p))) (windex w)"
      "wpool w2 = rev (filter (fires w) (xs p)) @ wpool w" "wlinks w2 = l" "wcur w2 = int p" "wfresh w2 = wfresh w"
      "geometry w2 sz" "wtick w2 = tick" "nextID w2 = of_nat n"
    unfolding w2_def tick_slot_def fw using g tk nid p(1) by (auto simp: w1_def geometry_def fun_eq_iff)
  have dis: "e \<notin> set (xs p)" if "q < sz" "q \<noteq> p" "e \<in> set (xs q)" for q e
    using heap_sentinel [OF h p(1) that(1), of e] that by auto
  have "dll l (Suc q) (?xs q)" if q: "q < sz" for q
  proof (cases "q = p")
    case False
    have "dll l (Suc q) (xs q)"
    proof (rule dll_frame [of "wlinks w"])
      show "dll (wlinks w) (Suc q) (xs q)" using h q by (simp add: heap_ok_def)
      fix y assume "y \<in> set (Suc q # xs q)"
      then have "y \<notin> set (Suc p # xs p)" using False by (intro heap_sentinel [OF h p(1) q]) auto
      then show "fst l y = fst (wlinks w) y \<and> snd l y = snd (wlinks w) y" using l(3) by blast
    qed
    then show ?thesis using False by simp
  qed (use l(2) in simp)
  moreover have "distinct (xs p)" using d by (simp add: dll_def)
  ultimately have h2: "heap_ok w2 sz ?xs"
    using h p(1) dis unfolding heap_ok_def w2 by (auto split: if_splits)
  have eids: "eid (wents w2 e) = eid (wents w e)" for e by (simp add: w2 after_tick_def)
  have i2: "index_ok w2 sz ?xs"
  proof -
    have "map_of (windex w2) j = Some a \<longleftrightarrow> (\<exists>q < sz. a \<in> set (?xs q)) \<and> eid (wents w2 a) = j" for j a
    proof
      assume *: "map_of (windex w2) j = Some a"
      then have "map_of (windex w) j = Some a" "\<forall>e \<in> set (xs p). fires w e \<longrightarrow> eid (wents w e) \<noteq> j"
        by (auto simp: w2 map_of_fold_kv_del split: if_splits)
      moreover from this(1) obtain q where q: "q < sz" "a \<in> set (xs q)" "eid (wents w a) = j" using ix by (auto simp: index_ok_def)
      ultimately have "a \<in> set (?xs q)" by auto
      then show "(\<exists>q < sz. a \<in> set (?xs q)) \<and> eid (wents w2 a) = j" unfolding eids using q by blast
    next
      assume *: "(\<exists>q < sz. a \<in> set (?xs q)) \<and> eid (wents w2 a) = j"
      then obtain q where q: "q < sz" "a \<in> set (?xs q)" "eid (wents w a) = j" unfolding eids by blast
      then have mo: "map_of (windex w) j = Some a" using ix sub unfolding index_ok_def by blast
      have "eid (wents w e) \<noteq> j" if "e \<in> set (xs p)" "fires w e" for e
      proof
        assume "eid (wents w e) = j"
        then have "e = a" using ix that(1) p(1) mo unfolding index_ok_def by (metis option.inject)
        then show False using q that dis by (auto split: if_splits)
      qed
      then show "map_of (windex w2) j = Some a" using mo by (auto simp: w2 map_of_fold_kv_del)
    qed
    then show ?thesis using ix by (simp add: index_ok_def w2(2) distinct_fold_kv_del)
  qed
  have v2: "map (\<lambda>e. view (wents w2 e)) (?xs q) = slot_view sz (nat (wcur w2)) (tick_timers T) q" if q: "q < sz" for q
  proof (cases "q = p")
    case False
    then have "map (\<lambda>e. view (wents w2 e)) (xs q) = map (\<lambda>e. view (wents w e)) (xs q)" using dis [OF q] by (auto simp: w2(1))
    then show ?thesis
      using False vw q slot_view_tick_other [OF sz rp, of q c, folded p_def] by (simp add: w2(5) c_def)
  next
    case True
    have "map (\<lambda>e. view (wents w2 e)) (filter (\<lambda>e. \<not> fires w e) (xs p)) =
        map (\<lambda>(i, v, n). (i, v, n - 1)) (filter (\<lambda>(i, v, n). \<not> n \<le> 0) (map (\<lambda>e. view (wents w e)) (xs p)))"
      by (auto simp: filter_map comp_def view_def case_prod_unfold w2(1) fires_def after_tick_def)
    then show ?thesis using True unfolding vp by (simp add: due(1) w2(5))
  qed
  have "timers_ok n (tick_timers T)"
    using T by (auto simp: timers_ok_def tick_timers_def case_prod_unfold comp_def distinct_map_filter)
  then have "wheel_rep tick sz b w2 (n, tick_timers T)"
    unfolding wheel_rep_def using h2 i2 v2 w2(7-9) bd by (intro exI [of _ ?xs]) simp
  then show ?thesis using adv out by auto
qed

lemma rep_length:
  assumes "wheel_rep tick sz b w (n, T)" shows "Wheel_Len w = int (length T)"
proof -
  obtain xs where g: "geometry w sz" and ix: "index_ok w sz xs" and T: "timers_ok n T"
    and vw: "\<forall>p < sz. map (\<lambda>e. view (wents w e)) (xs p) = slot_view sz (nat (wcur w)) T p"
    using assms by (auto simp: wheel_rep_def)
  have "dom (map_of (windex w)) = fst ` set T"
    by (simp only: set_eq_iff domIff index_dom [OF ix masked(2) [OF g] vw] not_not simp_thms)
  then have "length (windex w) = card (fst ` set T)"
    using length_map_of [of "windex w"] ix by (simp add: index_ok_def)
  also have "\<dots> = length T" using T distinct_card [of "map fst T"] by (simp add: timers_ok_def)
  finally show ?thesis by (simp add: Wheel_Len_def)
qed

lemma wheel_step_sim:
  assumes rep: "wheel_rep tick sz (Suc b) w a" and st: "wheel_step i w = (out, w')"
  shows "\<exists>a'. wheel_spec tick sz i a = (out, a') \<and> wheel_rep tick sz b w' a'"
proof -
  obtain n T where a: "a = (n, T)" by (cases a)
  have less: "wheel_rep tick sz b w (n, T)" "wtick w = tick" using rep by (auto simp: wheel_rep_def a)
  show ?thesis
  proof (cases i)
    case (WAdd pick d v)
    show ?thesis
    proof (cases "tick = 0")
      case True
      then show ?thesis using st WAdd less a by (simp add: Wheel_Add_def)
    next
      case False
      then obtain w'' where "Wheel_Add pick d v w = Some (of_nat (n + 1), w'')"
          "wheel_rep tick sz b w'' (n + 1, T @ [(of_nat (n + 1), v, delay sz (ticks_of tick d))])"
        using rep_add [OF rep [unfolded a]] by blast
      then show ?thesis using st WAdd False a by simp
    qed
  next
    case (WCancel j)
    then show ?thesis using rep_cancel [OF rep [unfolded a]] st a by (cases "Wheel_Cancel j w") auto
  next
    case WAdvance
    then show ?thesis using rep_advance [OF rep [unfolded a]] st a by (auto simp: tick_timers_def)
  next
    case WLen
    then show ?thesis using rep_length [OF less(1)] less st a by simp
  qed
qed

interpretation wh: simulation "wheel_rep tick sz" wheel_step "wheel_spec tick sz" for tick sz
  by unfold_locales (rule wheel_step_sim)

lemma slot_init_fold: "fst (fold slot_init [0..<m] l) (Suc q) = (if q < m then Suc q else fst l (Suc q)) \<and>
    snd (fold slot_init [0..<m] l) (Suc q) = (if q < m then Suc q else snd l (Suc q))"
  by (induction m) (auto simp: slot_init_def split: prod.splits)

lemma Wheel_New_ok:
  assumes "numSlots \<le> 2 ^ 62" and "b < 2 ^ 64"
  shows "\<exists>(w :: 'a wheel) sz. Wheel_New tick numSlots = Some w \<and> wheel_rep tick sz b w (0, []) \<and> numSlots \<le> int sz \<and> 16 \<le> sz"
proof -
  obtain k where k: "4 \<le> k" "k \<le> 62" "pow2_loop (2 ^ 4) numSlots = Some (2 ^ k)" "numSlots \<le> 2 ^ k"
    using pow2_loop_Some [of 4 numSlots] assms(1) by auto
  obtain w :: "'a wheel" where w: "Wheel_New tick numSlots = Some w"
      "w = \<lparr>wtick = tick, wslots = 2 ^ k, wmask = 2 ^ k - 1, wcur = 0, nextID = 0, windex = [],
        wlinks = fold slot_init [0..<2 ^ k] (\<lambda>_. 0, \<lambda>_. 0),
        wents = (\<lambda>_. \<lparr>eid = 0, eval = None, rounds = 0\<rparr>), wpool = [], wfresh = 2 ^ k + 1\<rparr>"
    using k(3) by (simp add: Wheel_New_def nat_power_eq)
  have "(2 :: nat) ^ 4 \<le> 2 ^ k" using k(1) by (intro power_increasing) auto
  then have le: "numSlots \<le> int (2 ^ k) \<and> 16 \<le> (2 :: nat) ^ k" using k(4) by simp
  have "wheel_rep tick (2 ^ k) b w (0, [])"
    unfolding wheel_rep_def
  proof (intro exI [of _ "\<lambda>_. []"] conjI)
    show "geometry w (2 ^ k)" using k(2) by (auto simp: geometry_def w(2))
    show "heap_ok w (2 ^ k) (\<lambda>_. [])" by (auto simp: heap_ok_def w(2) dll_def slot_init_fold)
  qed (use assms(2) in \<open>auto simp: w(2) index_ok_def timers_ok_def slot_view_def\<close>)
  then show ?thesis using w(1) le by blast
qed

text \<open>\<open>Run\<close> is a sequence of advances.\<close>

lemma Run_advances:
  "run wheel_step (replicate n WAdvance) w = (map Fired vss, w') \<Longrightarrow> Wheel_Run n w = Some (concat vss, w')"
proof (induction n arbitrary: w vss)
  case (Suc n)
  then show ?case by (cases vss) (auto split: option.splits prod.splits)
qed simp

section \<open>Properties\<close>

definition demo_wheel :: "nat wheel" where "demo_wheel = the (Wheel_New 10 16)"

lemma demo_wheel_ok: "b < 2 ^ 64 \<Longrightarrow> wheel_rep 10 16 b demo_wheel (0, [])"
proof -
  assume b: "b < 2 ^ 64"
  have p: "pow2_loop 16 16 = Some 16" by (simp add: pow2_loop_done)
  show ?thesis unfolding wheel_rep_def
  proof (intro exI [of _ "\<lambda>_. []"] conjI)
    show "geometry demo_wheel 16" by (auto simp: geometry_def demo_wheel_def Wheel_New_def p intro!: exI [of _ 4])
    show "heap_ok demo_wheel 16 (\<lambda>_. [])" by (auto simp: heap_ok_def demo_wheel_def Wheel_New_def p dll_def slot_init_fold simp del: upt_conv_Cons upt_rec)
  qed (use b in \<open>auto simp: demo_wheel_def Wheel_New_def p index_ok_def timers_ok_def slot_view_def\<close>)
qed

text \<open>
  C3. The wheel implements the list of timers: over every history of fewer than \<open>2 ^ 64\<close> calls of \<open>Add\<close>,
  \<open>Cancel\<close>, \<open>Advance\<close> and \<open>Len\<close>, whichever pooled entries \<open>Add\<close> is handed, ids are fresh, \<open>Cancel\<close>
  removes exactly the timer it names and reports whether there was one, every \<open>Advance\<close> returns
  and calls back exactly the timers whose delay is over, in the order they were added, and \<open>Len\<close>
  counts the pending ones.
\<close>

theorem wheel_refines_timers:
  assumes "wheel_rep tick sz (length ops + b) w a" and "run wheel_step ops w = (outs, w')"
  shows "\<exists>a'. run (wheel_spec tick sz) ops a = (outs, a') \<and> wheel_rep tick sz b w' a'"
  using assms by (rule wh.run_sim)

theorem wheel_refines_timers_witness:
  "\<exists>w'. run wheel_step [WAdd None 30 7, WAdd None 20 8, WCancel 2, WAdd (Some 0) 25 9, WAdvance, WAdvance, WLen, WAdvance] demo_wheel =
     ([Ident 1, Ident 2, Cancelled True, Ident 3, Fired [], Fired [9], Pending 1, Fired [7]], w') \<and>
     (\<exists>a'. wheel_rep 10 16 0 w' a')"
proof -
  let ?ops = "[WAdd None 30 (7 :: nat), WAdd None 20 8, WCancel 2, WAdd (Some 0) 25 9, WAdvance, WAdvance, WLen, WAdvance]"
  obtain outs w' where r: "run wheel_step ?ops demo_wheel = (outs, w')" by fastforce
  have "wheel_rep 10 16 (length ?ops + 0) demo_wheel (0, [])" by (rule demo_wheel_ok) simp
  from wheel_refines_timers [OF this r] obtain a' where a: "run (wheel_spec 10 16) ?ops (0, []) = (outs, a')" "wheel_rep 10 16 0 w' a'"
    by blast
  have "fst (run (wheel_spec 10 16) ?ops (0, [])) =
      [Ident 1, Ident 2, Cancelled True, Ident 3, Fired [], Fired [9], Pending 1, Fired [7]]" by code_simp
  then show ?thesis using r a by auto
qed

section \<open>One timer among others\<close>

definition advances :: "'a wop list \<Rightarrow> nat" where "advances ops = length (filter (\<lambda>i. i = WAdvance) ops)"

lemma advances_simps [simp]:
  "advances [] = 0" "advances (WAdvance # ops) = Suc (advances ops)"
  "advances (WCancel j # ops) = advances ops" "advances (WAdd pick d v # ops) = advances ops" "advances (WLen # ops) = advances ops"
  by (simp_all add: advances_def)

fun adds :: "'a wop list \<Rightarrow> nat" where
  "adds [] = 0"
| "adds (WAdd pick d v # ops) = Suc (adds ops)"
| "adds (_ # ops) = adds ops"

lemma adds_le: "adds ops \<le> length ops"
  by (induction ops rule: adds.induct) auto

text \<open>The entries with the id or the value of a timer.\<close>

definition tracked :: "u64 \<Rightarrow> 'a \<Rightarrow> 'a timers \<Rightarrow> 'a timers" where
  "tracked x v T = filter (\<lambda>(i, u, r). i = x \<or> u = v) T"

definition only :: "u64 \<Rightarrow> 'a \<Rightarrow> nat option \<Rightarrow> 'a timers" where
  "only x v st = (case st of None \<Rightarrow> [] | Some r \<Rightarrow> [(x, v, r)])"

text \<open>One operation on the rest of the delay of the timer, if it is still pending.\<close>

fun track :: "u64 \<Rightarrow> nat option \<Rightarrow> 'a wop \<Rightarrow> nat option" where
  "track x None _ = None"
| "track x (Some r) WAdvance = (if r = 1 then None else Some (r - 1))"
| "track x (Some r) (WCancel j) = (if j = x then None else Some r)"
| "track x (Some r) _ = Some r"

lemma tracked_add: "i \<noteq> x \<Longrightarrow> u \<noteq> v \<Longrightarrow> tracked x v (T @ [(i, u, r)]) = tracked x v T"
  by (simp add: tracked_def)

lemma tracked_cancel: "tracked x v (kv_del j T) = kv_del j (tracked x v T)"
  unfolding tracked_def kv_del_def by (simp add: filter_filter conj_commute)

lemma tracked_advance:
  "tracked x v (map (\<lambda>(i, u, r). (i, u, r - 1)) (filter (\<lambda>(i, u, r). r \<noteq> 1) T)) =
    map (\<lambda>(i, u, r). (i, u, r - 1)) (filter (\<lambda>(i, u, r). r \<noteq> 1) (tracked x v T))"
  by (induction T) (auto simp: tracked_def)

lemma count_tracked:
  "count_list (map (\<lambda>(i, u, r). u) (filter (\<lambda>(i, u, r). r = 1) T)) v =
    count_list (map (\<lambda>(i, u, r). u) (filter (\<lambda>(i, u, r). r = 1) (tracked x v T))) v"
  by (induction T) (auto simp: tracked_def)

lemma ids_tracked: "x \<in> fst ` set T \<longleftrightarrow> x \<in> fst ` set (tracked x v T)"
  by (force simp: tracked_def)

lemma tracked_step:
  assumes T: "tracked x v T = only x v st" "\<forall>r. st = Some r \<longrightarrow> 0 < r" and "unat x \<le> n" "n + 1 < 2 ^ 64" "tick \<noteq> 0"
    and "\<And>pick d. i \<noteq> WAdd pick d v" "wheel_spec tick sz i (n, T) = (out, n', T')"
  shows "tracked x v T' = only x v (track x st i)" "n \<le> n'" "n' \<le> n + 1"
    "i = WAdvance \<Longrightarrow> \<exists>vs. out = Fired vs \<and> count_list vs v = of_bool (st = Some 1)"
    "i = WCancel x \<Longrightarrow> out = Cancelled (st \<noteq> None)"
proof -
  have "of_nat (n + 1) \<noteq> x"
  proof
    assume "of_nat (n + 1) = x"
    then have "unat x = n + 1" using assms(4) unat_of_nat_u64 by blast
    then show False using assms(3) by simp
  qed
  then have "T' = (case i of WAdd pick d u \<Rightarrow> T @ [(of_nat (n + 1), u, delay sz (ticks_of tick d))] | WCancel j \<Rightarrow> kv_del j T
      | WAdvance \<Rightarrow> map (\<lambda>(i, u, r). (i, u, r - 1)) (filter (\<lambda>(i, u, r). r \<noteq> 1) T) | WLen \<Rightarrow> T)"
    using assms(5,7) by (cases i) auto
  moreover have "tracked x v (T @ [(of_nat (n + 1), u, q)]) = tracked x v T" if "u \<noteq> v" for u q
    using \<open>of_nat (n + 1) \<noteq> x\<close> that by (rule tracked_add)
  ultimately show "tracked x v T' = only x v (track x st i)"
    using assms(6) by (cases i; cases st) (auto simp only: wop.case tracked_cancel tracked_advance T track.simps, auto simp: only_def kv_del_def)
  show "n \<le> n'" "n' \<le> n + 1" using assms(5,7) by (cases i; auto)+
  show "\<exists>vs. out = Fired vs \<and> count_list vs v = of_bool (st = Some 1)" if "i = WAdvance"
    using assms(1,7) that count_tracked [of T v x] by (cases st) (auto simp: only_def)
  show "out = Cancelled (st \<noteq> None)" if "i = WCancel x"
    using assms(1,7) that ids_tracked [of x T v] by (cases st) (auto simp: only_def)
qed

lemma track_pos: "\<forall>r. st = Some r \<longrightarrow> 0 < r \<Longrightarrow> \<forall>r. track x st i = Some r \<longrightarrow> 0 < r"
  by (cases "(x, st, i)" rule: track.cases) (auto split: if_splits)

definition pending :: "u64 \<Rightarrow> nat option \<Rightarrow> 'a wop list \<Rightarrow> bool" where
  "pending x st ops \<longleftrightarrow> (\<exists>r. st = Some r \<and> WCancel x \<notin> set ops \<and> advances ops < r)"

lemma pending_Cons:
  assumes "\<forall>r. st = Some r \<longrightarrow> 0 < r"
  shows "pending x (track x st i) ops \<longleftrightarrow> pending x st (i # ops)"
  using assms by (cases "(x, st, i)" rule: track.cases) (auto simp: pending_def)

definition due :: "u64 \<Rightarrow> nat option \<Rightarrow> 'a wop list \<Rightarrow> bool" where
  "due x st ops \<longleftrightarrow> pending x st ops \<and> st = Some (Suc (advances ops))"

lemma due_Cons:
  assumes "\<forall>r. st = Some r \<longrightarrow> 0 < r"
  shows "due x (track x st i) ops \<longleftrightarrow> due x st (i # ops)"
  using assms by (cases "(x, st, i)" rule: track.cases) (auto simp: pending_def due_def)

lemma spec_track:
  assumes "tracked x v T = only x v st" "\<forall>r. st = Some r \<longrightarrow> 0 < r" "unat x \<le> n" "n + length ops < 2 ^ 64" "tick \<noteq> 0"
    and "\<And>pick d. WAdd pick d v \<notin> set ops" "run (wheel_spec tick sz) ops (n, T) = (outs, a')" "k < length ops"
  shows "(ops ! k = WAdvance \<longrightarrow> (\<exists>vs. outs ! k = Fired vs \<and>
      count_list vs v = of_bool (due x st (take k ops)))) \<and>
    (ops ! k = WCancel x \<longrightarrow> outs ! k = Cancelled (pending x st (take k ops)))"
  using assms
proof (induction ops arbitrary: n T st outs k)
  case (Cons i ops)
  obtain out n1 T1 where s: "wheel_spec tick sz i (n, T) = (out, n1, T1)" by (metis prod_cases3)
  obtain outs1 where o: "run (wheel_spec tick sz) ops (n1, T1) = (outs1, a')" "outs = out # outs1"
    using Cons.prems(7) s by (auto split: prod.splits)
  have ni: "i \<noteq> WAdd pick d v" for pick d using Cons.prems(6) by auto
  note st = tracked_step [OF Cons.prems(1,2,3) _ Cons.prems(5) ni s]
  have n: "n + 1 < 2 ^ 64" using Cons.prems(4) by simp
  show ?case
  proof (cases k)
    case 0
    have "st = Some 1 \<longleftrightarrow> due x st []" "st \<noteq> None \<longleftrightarrow> pending x st []"
      using Cons.prems(2) by (auto simp: pending_def due_def)
    then show ?thesis using st(4,5) [OF n] 0 o(2) by auto
  next
    case (Suc j)
    have "(ops ! j = WAdvance \<longrightarrow> (\<exists>vs. outs1 ! j = Fired vs \<and>
        count_list vs v = of_bool (due x (track x st i) (take j ops)))) \<and>
      (ops ! j = WCancel x \<longrightarrow> outs1 ! j = Cancelled (pending x (track x st i) (take j ops)))"
    proof (rule Cons.IH [OF st(1) [OF n] _ _ _ Cons.prems(5) _ o(1)])
      show "\<forall>r. track x st i = Some r \<longrightarrow> 0 < r" by (rule track_pos [OF Cons.prems(2)])
      show "unat x \<le> n1" "n1 + length ops < 2 ^ 64" using st(2,3) [OF n] Cons.prems(3,4) by auto
    qed (use Cons.prems(6,8) Suc in auto)
    then show ?thesis using Suc o(2) by (simp add: pending_Cons [OF Cons.prems(2)] due_Cons [OF Cons.prems(2)])
  qed
qed simp

text \<open>What is pending was added.\<close>

lemma spec_values:
  "run (wheel_spec tick sz) ops (n, T) = (outs, n', T') \<Longrightarrow> \<forall>(i, u, r) \<in> set T. \<exists>pick d. WAdd pick d u \<in> X \<Longrightarrow> set ops \<subseteq> X \<Longrightarrow>
    tick \<noteq> 0 \<Longrightarrow> (\<forall>(i, u, r) \<in> set T'. \<exists>pick d. WAdd pick d u \<in> X) \<and> n' = n + adds ops"
proof (induction ops arbitrary: n T outs)
  case (Cons i ops)
  obtain out n1 T1 where s: "wheel_spec tick sz i (n, T) = (out, n1, T1)" by (metis prod_cases3)
  obtain outs1 where o: "run (wheel_spec tick sz) ops (n1, T1) = (outs1, n', T')"
    using Cons.prems(1) s by (auto split: prod.splits)
  have "\<forall>(i, u, r) \<in> set T1. \<exists>pick d. WAdd pick d u \<in> X"
    using s Cons.prems(2,3) by (cases i) (fastforce simp: kv_del_def split: if_splits)+
  moreover have "n1 = n + adds [i]" "adds (i # ops) = adds [i] + adds ops" using s Cons.prems(4) by (cases i; auto)+
  ultimately show ?case using Cons.IH [OF o] Cons.prems(3,4) by auto
qed simp

lemma wheel_run_append: "run step (xs @ ys) s = (case run step xs s of (os, t) \<Rightarrow> case run step ys t of (ps, u) \<Rightarrow> (os @ ps, u))"
  by (induction xs arbitrary: s) (auto split: prod.splits)

lemma wheel_run_length: "run step xs s = (os, t) \<Longrightarrow> length os = length xs"
  by (induction xs arbitrary: s os) (auto split: prod.splits)

text \<open>
  C15. A timer among any others, on a wheel that was made by \<open>New\<close> and used in any way before and after:
  \<open>Add\<close> returns its id, the number of timers added so far, and of the calls of \<open>Advance\<close> that follow exactly the one with the number of its
  ticks calls it back, once, unless \<open>Cancel\<close> is called with the id before. \<open>Cancel\<close> reports exactly whether
  it was still pending. The delay in ticks is \<open>d div tick\<close>, at least 1, but a delay that is a multiple of the
  number of slots is one whole revolution longer. (\<open>v\<close> is a value that no other timer has.)
\<close>

theorem wheel_fires_on_time:
  fixes w0 :: "'a wheel"
  assumes "Wheel_New tick numSlots = Some w0" "numSlots \<le> 2 ^ 62" "0 < tick" "0 \<le> d" "d < 2 ^ 63"
    and "run wheel_step (before @ WAdd pick d v # ops) w0 = (outs, w')" "length before + length ops < 2 ^ 63"
    and "\<forall>pick' d'. WAdd pick' d' v \<notin> set before \<union> set ops"
  defines "ticks \<equiv> nat (max 1 (d div tick))"
  defines "D \<equiv> ticks + (if wslots w0 dvd ticks then wslots w0 else 0)"
  defines "x \<equiv> of_nat (adds before + 1)"
  shows "outs ! length before = Ident x \<and>
    (\<forall>k < length ops. let live = WCancel x \<notin> set (take k ops) \<and> advances (take k ops) < D; out = outs ! (length before + 1 + k)
      in (ops ! k = WAdvance \<longrightarrow> (\<exists>vs. out = Fired vs \<and> count_list vs v = (if live \<and> advances (take k ops) + 1 = D then 1 else 0))) \<and>
         (ops ! k = WCancel x \<longrightarrow> out = Cancelled live))"
proof -
  let ?all = "before @ WAdd pick d v # ops"
  obtain sz where rep: "wheel_rep tick sz (length ?all + 0) w0 (0, [])"
    using Wheel_New_ok [of numSlots "length ?all" tick, where 'a = 'a] assms(1,2,7) by auto
  then have sz: "wslots w0 = sz" "0 < sz" by (auto simp: wheel_rep_def geometry_def)
  obtain a' where a': "run (wheel_spec tick sz) ?all (0, []) = (outs, a')" using wh.run_sim [OF rep assms(6)] by blast
  obtain os n T where b: "run (wheel_spec tick sz) before (0, []) = (os, n, T)" by (metis prod_cases3)
  have q: "ticks_of tick d = ticks"
  proof -
    have "d sdiv tick = d div tick" using assms(3,4) by (cases "d = 0") (simp_all add: signed_divide_int_def)
    moreover have "0 \<le> d div tick" "d div tick \<le> d" using assms(3,4) using zdiv_mono2 [of d 1 tick] by (simp_all add: pos_imp_zdiv_nonneg_iff)
    ultimately show ?thesis using assms(5) by (simp add: ticks_of_def ticks_def swrap64_id max_def)
  qed
  then have D: "delay sz (ticks_of tick d) = D" by (auto simp: delay_def D_def sz(1) mod_eq_0_iff_dvd)
  have n: "n \<le> length before" "\<forall>(i, u, r) \<in> set T. \<exists>pick d. WAdd pick d u \<in> set before" and x: "x = of_nat (n + 1)"
    using spec_values [OF b, of "set before"] assms(3) adds_le [of before] by (simp_all add: x_def)
  obtain ps where ps: "run (wheel_spec tick sz) ops (n + 1, T @ [(x, v, D)]) = (ps, a')" "outs = os @ Ident x # ps"
    using a' b assms(3) by (auto simp: wheel_run_append D x split: prod.splits)
  have ux: "unat x = n + 1" using n(1) assms(7) unat_of_nat_u64 [of "n + 1"] by (simp add: x)
  have "wheel_rep tick sz (length before + (length ops + 1)) w0 (0, [])" using rep by (simp add: add.commute)
  from wh.run_sim [OF this prod.collapse [symmetric]] have "timers_ok n T" using b by (auto simp: wheel_rep_def)
  then have "i \<noteq> x" if "(i, u, r) \<in> set T" for i u r using that ux by (force simp: timers_ok_def)
  moreover have "u \<noteq> v" if "(i, u, r) \<in> set T" for i u r using that n(2) assms(8) by fastforce
  ultimately have "tracked x v T = []" unfolding tracked_def filter_empty_conv by blast
  then have "tracked x v (T @ [(x, v, D)]) = only x v (Some D)" by (simp add: tracked_def only_def)
  note track = spec_track [OF this _ _ _ _ _ ps(1)]
  have "0 < D" by (auto simp: D_def ticks_def)
  have len: "length os = length before" by (rule wheel_run_length [OF b])
  show ?thesis
  proof (intro conjI allI impI)
    show "outs ! length before = Ident x" by (simp add: ps(2) len nth_append)
    fix k assume k: "k < length ops"
    have "(ops ! k = WAdvance \<longrightarrow> (\<exists>vs. ps ! k = Fired vs \<and> count_list vs v = of_bool (due x (Some D) (take k ops)))) \<and>
        (ops ! k = WCancel x \<longrightarrow> ps ! k = Cancelled (pending x (Some D) (take k ops)))"
      by (rule track) (use k \<open>0 < D\<close> ux n(1) assms(3,7,8) in auto)
    moreover have "outs ! (length before + 1 + k) = ps ! k" by (simp add: ps(2) len nth_append)
    ultimately show "let live = WCancel x \<notin> set (take k ops) \<and> advances (take k ops) < D; out = outs ! (length before + 1 + k)
      in (ops ! k = WAdvance \<longrightarrow> (\<exists>vs. out = Fired vs \<and> count_list vs v = (if live \<and> advances (take k ops) + 1 = D then 1 else 0))) \<and>
         (ops ! k = WCancel x \<longrightarrow> out = Cancelled live)"
      by (auto simp: due_def pending_def Let_def)
  qed
qed

lemma demo_wheel_new: "Wheel_New 10 16 = Some demo_wheel \<and> wslots demo_wheel = 16"
proof -
  have "pow2_loop 16 16 = Some 16" by (simp add: pow2_loop_done)
  then show ?thesis by (simp add: demo_wheel_def Wheel_New_def)
qed

text \<open>A delay of 3 ticks and one of a revolution of 16, which takes 32, with other timers before and after.\<close>

theorem wheel_fires_on_time_witness:
  "\<exists>os w' ps w''. run wheel_step ([WAdd None 30 1, WAdvance] @ WAdd None 35 7 # [WAdd None 160 9, WAdvance, WCancel 1, WAdvance, WAdvance]) demo_wheel = (os, w') \<and>
     (\<exists>vs us. os ! 4 = Fired us \<and> count_list us 7 = 0 \<and> os ! 7 = Fired vs \<and> count_list vs 7 = 1) \<and>
     run wheel_step ([WAdd None 30 1] @ WAdd None 160 7 # replicate 32 WAdvance) demo_wheel = (ps, w'') \<and>
     (\<exists>vs us. ps ! 17 = Fired us \<and> count_list us 7 = 0 \<and> ps ! 33 = Fired vs \<and> count_list vs 7 = 1)"
proof -
  note new = demo_wheel_new [THEN conjunct1] and slots = demo_wheel_new [THEN conjunct2]
  let ?ops = "[WAdd None 160 9, WAdvance, WCancel 1, WAdvance, WAdvance] :: nat wop list"
  obtain os w' where r: "run wheel_step ([WAdd None 30 1, WAdvance] @ WAdd None 35 7 # ?ops) demo_wheel = (os, w')" by fastforce
  note t = wheel_fires_on_time [OF new _ _ _ _ r]
  have four: "Suc (Suc (Suc (Suc 0))) = 4" by simp
  have one: "\<exists>vs us. os ! 4 = Fired us \<and> count_list us 7 = 0 \<and> os ! 7 = Fired vs \<and> count_list vs 7 = 1"
    using t [THEN conjunct2, rule_format, of 1] t [THEN conjunct2, rule_format, of 4] by (auto simp: slots Let_def four)
  let ?qs = "replicate 32 WAdvance :: nat wop list"
  obtain ps w'' where q: "run wheel_step ([WAdd None 30 1] @ WAdd None 160 7 # ?qs) demo_wheel = (ps, w'')" by fastforce
  have n: "advances (replicate k WAdvance) = k" for k by (simp add: advances_def)
  note u = wheel_fires_on_time [OF new _ _ _ _ q]
  have "\<exists>vs us. ps ! 17 = Fired us \<and> count_list us 7 = 0 \<and> ps ! 33 = Fired vs \<and> count_list vs 7 = 1"
    using u [THEN conjunct2, rule_format, of 15] u [THEN conjunct2, rule_format, of 31] by (auto simp: slots Let_def n)
  then show ?thesis using one r q by auto
qed

end
