(* ===== verification/Spsc.thy ===== *)
theory Spsc
  imports Words Interfaces
begin

text \<open>
  Package \<open>spsc\<close> (src/spsc/ring.go): the wait-free queue for one producer and one consumer. The
  operations are modelled twice: as whole calls, and as a step relation in which producer and
  consumer interleave between any two accesses to shared memory (the Go atomics are sequentially
  consistent). The invariant of the step relation shows that values are delivered in order and
  that the two sides never touch the same slot at the same time; the positions are 64-bit words
  that wrap around.
\<close>

section \<open>The program\<close>

text \<open>A slot that has been cleared holds the zero value, written \<open>None\<close>.\<close>

record 'a spsc =
  sbuf :: "'a option list"
  smask :: u64
  tail :: u64
  cachedHead :: u64
  head :: u64
  cachedTail :: u64

definition Spsc_New :: "int \<Rightarrow> 'a spsc option" where
  "Spsc_New cap =
     map_option (\<lambda>sz. let sz = (if sz < 2 then 2 else sz)
       in \<lparr>sbuf = replicate (nat sz) None, smask = of_int (sz - 1), tail = 0, cachedHead = 0, head = 0, cachedTail = 0\<rparr>)
       (pow2_loop 1 cap)"

definition full :: "'a spsc \<Rightarrow> bool" where
  "full r \<longleftrightarrow> tail r - cachedHead r \<ge> of_nat (length (sbuf r))"

definition refreshHead :: "'a spsc \<Rightarrow> 'a spsc" where "refreshHead r = r\<lparr>cachedHead := head r\<rparr>"
definition refreshTail :: "'a spsc \<Rightarrow> 'a spsc" where "refreshTail r = r\<lparr>cachedTail := tail r\<rparr>"

definition write_slot :: "'a \<Rightarrow> 'a spsc \<Rightarrow> 'a spsc" where
  "write_slot v r = r\<lparr>sbuf := (sbuf r)[unat (tail r AND smask r) := Some v]\<rparr>"

definition publishTail :: "'a spsc \<Rightarrow> 'a spsc" where "publishTail r = r\<lparr>tail := tail r + 1\<rparr>"

definition Push :: "'a \<Rightarrow> 'a spsc \<Rightarrow> bool \<times> 'a spsc" where
  "Push v r =
     (if full r
      then let r = refreshHead r in if full r then (False, r) else (True, publishTail (write_slot v r))
      else (True, publishTail (write_slot v r)))"

definition read_slot :: "'a spsc \<Rightarrow> 'a option" where
  "read_slot r = sbuf r ! unat (head r AND smask r)"

definition clear_slot :: "'a spsc \<Rightarrow> 'a spsc" where
  "clear_slot r = r\<lparr>sbuf := (sbuf r)[unat (head r AND smask r) := None]\<rparr>"

definition publishHead :: "'a spsc \<Rightarrow> 'a spsc" where "publishHead r = r\<lparr>head := head r + 1\<rparr>"

text \<open>The result is the value of the slot, and whether there was one.\<close>

definition Pop :: "'a spsc \<Rightarrow> ('a option \<times> bool) \<times> 'a spsc" where
  "Pop r =
     (if head r = cachedTail r
      then let r = refreshTail r
           in if head r = cachedTail r then ((None, False), r)
              else ((read_slot r, True), publishHead (clear_slot r))
      else ((read_slot r, True), publishHead (clear_slot r)))"

definition Spsc_Len :: "'a spsc \<Rightarrow> int" where
  "Spsc_Len r = (let t = tail r; h = head r in if t \<ge> h then uint (t - h) else 0)"

definition Spsc_Cap :: "'a spsc \<Rightarrow> int" where "Spsc_Cap r = int (length (sbuf r))"

section \<open>Interleaving\<close>

text \<open>Where each side is inside its operation, and what has been handed over so far.\<close>

datatype 'a ppc = PIdle | PRefresh 'a | PWrite 'a | PPublish 'a
datatype 'a cpc = CIdle | CRefresh | CRead | CClear "'a option" | CPublish "'a option"

record 'a sys =
  ring :: "'a spsc"
  pp :: "'a ppc"
  cp :: "'a cpc"
  pushed :: "'a list"
  popped :: "'a option list"

inductive sstep :: "'a sys \<Rightarrow> 'a sys \<Rightarrow> bool" where
  push_start: "pp s = PIdle \<Longrightarrow> sstep s (s\<lparr>pp := (if full (ring s) then PRefresh v else PWrite v)\<rparr>)"
| push_refresh: "pp s = PRefresh v \<Longrightarrow> r = refreshHead (ring s) \<Longrightarrow>
    sstep s (s\<lparr>ring := r, pp := (if full r then PIdle else PWrite v)\<rparr>)"
| push_write: "pp s = PWrite v \<Longrightarrow> sstep s (s\<lparr>ring := write_slot v (ring s), pp := PPublish v\<rparr>)"
| push_publish: "pp s = PPublish v \<Longrightarrow>
    sstep s (s\<lparr>ring := publishTail (ring s), pp := PIdle, pushed := pushed s @ [v]\<rparr>)"
| pop_start: "cp s = CIdle \<Longrightarrow> sstep s (s\<lparr>cp := (if head (ring s) = cachedTail (ring s) then CRefresh else CRead)\<rparr>)"
| pop_refresh: "cp s = CRefresh \<Longrightarrow> r = refreshTail (ring s) \<Longrightarrow>
    sstep s (s\<lparr>ring := r, cp := (if head r = cachedTail r then CIdle else CRead)\<rparr>)"
| pop_read: "cp s = CRead \<Longrightarrow> sstep s (s\<lparr>cp := CClear (read_slot (ring s))\<rparr>)"
| pop_clear: "cp s = CClear x \<Longrightarrow> sstep s (s\<lparr>ring := clear_slot (ring s), cp := CPublish x\<rparr>)"
| pop_publish: "cp s = CPublish x \<Longrightarrow>
    sstep s (s\<lparr>ring := publishHead (ring s), cp := CIdle, popped := popped s @ [x]\<rparr>)"

definition start_sys :: "'a spsc \<Rightarrow> 'a sys" where
  "start_sys r = \<lparr>ring = r, pp = PIdle, cp = CIdle, pushed = [], popped = []\<rparr>"

section \<open>Positions\<close>

text \<open>
  The positions count the pushes and the pops modulo \<open>2 ^ 64\<close>; the cached copies are older values of
  the other side's position, and never so old that the queue could be overfull.
\<close>

definition pos_ok :: "'a spsc \<Rightarrow> nat \<Rightarrow> nat \<Rightarrow> nat \<Rightarrow> nat \<Rightarrow> bool" where
  "pos_ok r T H cH cT \<longleftrightarrow>
     (\<exists>k \<le> 62. length (sbuf r) = 2 ^ k \<and> smask r = 2 ^ k - 1) \<and>
     tail r = of_nat T \<and> head r = of_nat H \<and> cachedHead r = of_nat cH \<and> cachedTail r = of_nat cT \<and>
     cH \<le> H \<and> H \<le> cT \<and> cT \<le> T \<and> T \<le> cH + length (sbuf r)"

lemma small_size: "pos_ok r T H cH cT \<Longrightarrow> length (sbuf r) < 2 ^ 63 \<and> 0 < length (sbuf r)"
proof -
  assume "pos_ok r T H cH cT"
  then obtain k where k: "k \<le> 62" "length (sbuf r) = 2 ^ k" by (auto simp: pos_ok_def)
  have "(2 :: nat) ^ k \<le> 2 ^ 62" using k(1) by (intro power_increasing) auto
  also have "\<dots> < 2 ^ 63" by simp
  finally show ?thesis using k by simp
qed

lemma of_nat_diff_u64: "b \<le> a \<Longrightarrow> a - b < 2 ^ 64 \<Longrightarrow> unat ((of_nat a :: u64) - of_nat b) = a - b"
  using unat_of_nat_u64 [of "a - b"] by (simp add: of_nat_diff)

lemma full_iff: "pos_ok r T H cH cT \<Longrightarrow> full r \<longleftrightarrow> T = cH + length (sbuf r)"
proof -
  assume p: "pos_ok r T H cH cT"
  then have s: "tail r = of_nat T" "cachedHead r = of_nat cH" "cH \<le> T" "T - cH \<le> length (sbuf r)" by (auto simp: pos_ok_def)
  note sz = small_size [OF p]
  have "unat (tail r - cachedHead r) = T - cH" unfolding s(1,2) by (rule of_nat_diff_u64) (use s(3,4) sz in auto)
  moreover have "unat (of_nat (length (sbuf r)) :: u64) = length (sbuf r)" using sz by (intro unat_of_nat_u64) simp
  ultimately show ?thesis using s by (auto simp: full_def word_le_nat_alt)
qed

lemma empty_iff: "pos_ok r T H cH cT \<Longrightarrow> head r = cachedTail r \<longleftrightarrow> H = cT"
proof -
  assume p: "pos_ok r T H cH cT"
  then have s: "head r = of_nat H" "cachedTail r = of_nat cT" "H \<le> cT" "cT - H \<le> length (sbuf r)" by (auto simp: pos_ok_def)
  have "unat (cachedTail r - head r) = cT - H" unfolding s(1,2) by (rule of_nat_diff_u64) (use s(3,4) small_size [OF p] in auto)
  then have "cachedTail r - head r = 0 \<longleftrightarrow> cT - H = 0" by (simp only: unat_eq_zero [symmetric])
  then show ?thesis using s(3) by auto
qed

lemma slot_index: "pos_ok r T H cH cT \<Longrightarrow> unat (of_nat i AND smask r) = i mod length (sbuf r)"
proof -
  assume "pos_ok r T H cH cT"
  then obtain k where k: "k \<le> 62" "length (sbuf r) = 2 ^ k" "smask r = 2 ^ k - 1" by (auto simp: pos_ok_def)
  have "(2 :: nat) ^ k dvd 2 ^ 64" using k(1) by (intro le_imp_power_dvd) simp
  then show ?thesis unfolding k unat_and_mask by (simp add: unsigned_of_nat take_bit_eq_mod mod_mod_cancel)
qed

lemma mod_inj: "a < b \<Longrightarrow> b < a + n \<Longrightarrow> a mod n \<noteq> b mod (n :: nat)"
  using mod_eq_dvd_iff_nat [of a b n] by (auto dest: dvd_imp_le)

section \<open>The invariant\<close>

definition stored :: "'a option list \<Rightarrow> 'a list \<Rightarrow> nat \<Rightarrow> bool" where
  "stored b ps i \<longleftrightarrow> b ! (i mod length b) = Some (ps ! i)"

fun producer_ok :: "'a ppc \<Rightarrow> 'a option list \<Rightarrow> nat \<Rightarrow> nat \<Rightarrow> bool" where
  "producer_ok (PWrite v) b T cH \<longleftrightarrow> T < cH + length b"
| "producer_ok (PPublish v) b T cH \<longleftrightarrow> T < cH + length b \<and> b ! (T mod length b) = Some v"
| "producer_ok _ b T cH \<longleftrightarrow> True"

fun consumer_ok :: "'a cpc \<Rightarrow> 'a list \<Rightarrow> nat \<Rightarrow> nat \<Rightarrow> bool" where
  "consumer_ok CRead ps H cT \<longleftrightarrow> H < cT"
| "consumer_ok (CClear x) ps H cT \<longleftrightarrow> H < cT \<and> x = Some (ps ! H)"
| "consumer_ok (CPublish x) ps H cT \<longleftrightarrow> H < cT \<and> x = Some (ps ! H)"
| "consumer_ok _ ps H cT \<longleftrightarrow> True"

text \<open>The oldest value is still in its slot unless the consumer has just cleared it.\<close>

fun first_live :: "'a cpc \<Rightarrow> nat \<Rightarrow> nat" where
  "first_live (CPublish x) H = Suc H"
| "first_live _ H = H"

definition sys_rep :: "'a sys \<Rightarrow> nat \<Rightarrow> nat \<Rightarrow> bool" where
  "sys_rep s cH cT \<longleftrightarrow> pos_ok (ring s) (length (pushed s)) (length (popped s)) cH cT \<and>
     producer_ok (pp s) (sbuf (ring s)) (length (pushed s)) cH \<and>
     consumer_ok (cp s) (pushed s) (length (popped s)) cT \<and>
     (\<forall>i. first_live (cp s) (length (popped s)) \<le> i \<longrightarrow> i < length (pushed s) \<longrightarrow> stored (sbuf (ring s)) (pushed s) i) \<and>
     popped s = map Some (take (length (popped s)) (pushed s))"

definition sys_inv :: "'a sys \<Rightarrow> bool" where "sys_inv s \<longleftrightarrow> (\<exists>cH cT. sys_rep s cH cT)"

lemma inv_start: "pos_ok r 0 0 0 0 \<Longrightarrow> sys_inv (start_sys r)"
  by (auto simp: sys_inv_def sys_rep_def start_sys_def)

lemma first_live_ge: "H \<le> first_live c H"
  by (cases c) auto

lemma consumer_grow: "consumer_ok c ps H cT \<Longrightarrow> cT \<le> length ps \<Longrightarrow> consumer_ok c (ps @ [v]) H cT"
  by (cases c) (auto simp: nth_append)

lemma rep_step:
  assumes step: "sstep s s'" and rep: "sys_rep s cH cT" shows "\<exists>cH' cT'. sys_rep s' cH' cT'"
proof -
  let ?T = "length (pushed s)" and ?H = "length (popped s)" and ?n = "length (sbuf (ring s))"
  have p: "pos_ok (ring s) ?T ?H cH cT" and pr: "producer_ok (pp s) (sbuf (ring s)) ?T cH"
    and co: "consumer_ok (cp s) (pushed s) ?H cT"
    and st: "first_live (cp s) ?H \<le> i \<Longrightarrow> i < ?T \<Longrightarrow> stored (sbuf (ring s)) (pushed s) i"
    and po: "popped s = map Some (take ?H (pushed s))" for i
    using rep by (auto simp: sys_rep_def)
  have ord: "cH \<le> ?H" "?H \<le> cT" "cT \<le> ?T" "?T \<le> cH + ?n" "tail (ring s) = of_nat ?T" "head (ring s) = of_nat ?H"
    using p by (auto simp: pos_ok_def)
  note sl = slot_index [OF p] and n = small_size [OF p]
  show ?thesis using step
  proof cases
    case (push_start v)
    have "sys_rep s' cH cT" unfolding push_start(1) using p co st po ord full_iff [OF p] by (auto simp: sys_rep_def)
    then show ?thesis by blast
  next
    case (push_refresh v r)
    have p': "pos_ok r ?T ?H ?H cT" using p unfolding push_refresh(3) by (auto simp: pos_ok_def refreshHead_def)
    have "sbuf r = sbuf (ring s)" by (simp add: push_refresh(3) refreshHead_def)
    then have "sys_rep s' ?H cT" unfolding push_refresh(1) using p' co st po ord full_iff [OF p'] by (auto simp: sys_rep_def)
    then show ?thesis by blast
  next
    case (push_write v)
    then have room: "?T < cH + ?n" using pr by simp
    have ne: "?T mod ?n \<noteq> i mod ?n" if "?H \<le> i" "i < ?T" for i using mod_inj [of i ?T ?n] that room ord by auto
    have "stored (sbuf (write_slot v (ring s))) (pushed s) i" if "first_live (cp s) ?H \<le> i" "i < ?T" for i
      using st [OF that] ne [of i] that first_live_ge [of ?H "cp s"] by (simp add: stored_def write_slot_def ord sl nth_list_update)
    moreover have "sbuf (write_slot v (ring s)) ! (?T mod ?n) = Some v" "length (sbuf (write_slot v (ring s))) = ?n"
      using n by (simp_all add: write_slot_def ord sl)
    moreover have "pos_ok (write_slot v (ring s)) ?T ?H cH cT" using p by (simp add: pos_ok_def write_slot_def)
    ultimately have "sys_rep s' cH cT" unfolding push_write(1) using co po room by (simp add: sys_rep_def)
    then show ?thesis by blast
  next
    case (push_publish v)
    then have room: "?T < cH + ?n" and v: "sbuf (ring s) ! (?T mod ?n) = Some v" using pr by auto
    have "stored (sbuf (ring s)) (pushed s @ [v]) i" if "first_live (cp s) ?H \<le> i" "i < Suc ?T" for i
      using st [of i] v that by (auto simp: stored_def nth_append less_Suc_eq)
    moreover have "pos_ok (publishTail (ring s)) (Suc ?T) ?H cH cT"
      using p room by (auto simp: pos_ok_def publishTail_def)
    moreover have "popped s = map Some (take ?H (pushed s @ [v]))" using po ord by simp
    ultimately have "sys_rep s' cH cT"
      unfolding push_publish(1) using consumer_grow [OF co ord(3)] by (simp add: sys_rep_def publishTail_def)
    then show ?thesis by blast
  next
    case pop_start
    have "sys_rep s' cH cT" unfolding pop_start(1) using p pr st po ord empty_iff [OF p] pop_start(2) by (auto simp: sys_rep_def)
    then show ?thesis by blast
  next
    case (pop_refresh r)
    have p': "pos_ok r ?T ?H cH ?T" using p unfolding pop_refresh(3) by (auto simp: pos_ok_def refreshTail_def)
    have "sbuf r = sbuf (ring s)" by (simp add: pop_refresh(3) refreshTail_def)
    then have "sys_rep s' cH ?T"
      unfolding pop_refresh(1) using p' pr st po ord empty_iff [OF p'] pop_refresh(2) by (auto simp: sys_rep_def)
    then show ?thesis by blast
  next
    case pop_read
    then have "?H < cT" using co by simp
    moreover from this have "stored (sbuf (ring s)) (pushed s) ?H" using st [of ?H] ord pop_read by simp
    ultimately have "sys_rep s' cH cT" unfolding pop_read(1) using p pr st po pop_read(2)
      by (simp add: sys_rep_def stored_def read_slot_def ord sl)
    then show ?thesis by blast
  next
    case (pop_clear x)
    then have h: "?H < cT" "x = Some (pushed s ! ?H)" using co by auto
    let ?b = "sbuf (clear_slot (ring s))"
    have b: "?b = (sbuf (ring s))[?H mod ?n := None]" "length ?b = ?n" by (simp_all add: clear_slot_def ord sl)
    have ne: "?H mod ?n \<noteq> i mod ?n" if "?H < i" "i < ?T" for i using mod_inj [of ?H i ?n] that ord by auto
    have neT: "?H mod ?n \<noteq> ?T mod ?n" if "?T < cH + ?n" using mod_inj [of ?H ?T ?n] that ord h by auto
    have "producer_ok (pp s) ?b ?T cH" using pr neT unfolding b by (cases "pp s") (auto simp: nth_list_update)
    moreover have "stored ?b (pushed s) i" if "Suc ?H \<le> i" "i < ?T" for i
      using st [of i] ne [of i] that pop_clear(2) unfolding b stored_def by (simp add: nth_list_update)
    moreover have "pos_ok (clear_slot (ring s)) ?T ?H cH cT" using p by (simp add: pos_ok_def clear_slot_def)
    ultimately have "sys_rep s' cH cT" unfolding pop_clear(1) using h po by (simp add: sys_rep_def)
    then show ?thesis by blast
  next
    case (pop_publish x)
    then have h: "?H < cT" "x = Some (pushed s ! ?H)" using co by auto
    have "pos_ok (publishHead (ring s)) ?T (Suc ?H) cH cT" using p h by (auto simp: pos_ok_def publishHead_def)
    moreover have "popped s @ [x] = map Some (take (Suc ?H) (pushed s))"
      using po h ord by (simp add: take_Suc_conv_app_nth)
    moreover have "min ?T (Suc ?H) = Suc ?H" using h ord by simp
    ultimately have "sys_rep s' cH cT" unfolding pop_publish(1) using pr st pop_publish(2)
      by (simp add: sys_rep_def publishHead_def)
    then show ?thesis by blast
  qed
qed

lemma reach_inv: "sstep\<^sup>*\<^sup>* s s' \<Longrightarrow> sys_inv s \<Longrightarrow> sys_inv s'"
  by (induction rule: rtranclp_induct) (auto simp: sys_inv_def dest: rep_step)

section \<open>Whole calls\<close>

text \<open>A call that is not interrupted takes the steps of its side one after the other.\<close>

lemma step_then: "sstep s t \<Longrightarrow> sstep\<^sup>*\<^sup>* t u \<Longrightarrow> sstep\<^sup>*\<^sup>* s u"
  by (rule converse_rtranclp_into_rtranclp)

lemma push_finish:
  assumes "pp s = PWrite v"
  shows "sstep\<^sup>*\<^sup>* s (s\<lparr>ring := publishTail (write_slot v (ring s)), pp := PIdle, pushed := pushed s @ [v]\<rparr>)"
proof -
  let ?t = "s\<lparr>ring := write_slot v (ring s), pp := PPublish v\<rparr>"
  have "sstep s ?t" using assms by (rule sstep.push_write)
  moreover have "sstep ?t (?t\<lparr>ring := publishTail (ring ?t), pp := PIdle, pushed := pushed ?t @ [v]\<rparr>)"
    by (rule sstep.push_publish) simp
  ultimately show ?thesis by (auto intro: step_then)
qed

lemma Push_steps:
  assumes idle: "pp s = PIdle" and call: "Push v (ring s) = (ok, r)"
  shows "sstep\<^sup>*\<^sup>* s (s\<lparr>ring := r, pp := PIdle, pushed := pushed s @ (if ok then [v] else [])\<rparr>)"
proof (cases "full (ring s)")
  case False
  let ?t = "s\<lparr>pp := PWrite v\<rparr>"
  have "sstep s ?t" using sstep.push_start [OF idle, of v] False by simp
  then have "sstep\<^sup>*\<^sup>* s (?t\<lparr>ring := publishTail (write_slot v (ring ?t)), pp := PIdle, pushed := pushed ?t @ [v]\<rparr>)"
    by (rule step_then [OF _ push_finish]) simp
  then show ?thesis using False call idle by (auto simp: Push_def Let_def)
next
  case True
  let ?r = "refreshHead (ring s)"
  let ?t = "s\<lparr>pp := PRefresh v\<rparr>" and ?u = "s\<lparr>ring := ?r, pp := (if full ?r then PIdle else PWrite v)\<rparr>"
  have st: "sstep s ?t" using sstep.push_start [OF idle, of v] True by simp
  have tu: "sstep ?t ?u" using sstep.push_refresh [of ?t v ?r] by simp
  show ?thesis
  proof (cases "full ?r")
    case True
    then show ?thesis using st tu \<open>full (ring s)\<close> call idle by (auto simp: Push_def Let_def intro: step_then)
  next
    case False
    have "sstep\<^sup>*\<^sup>* ?u (?u\<lparr>ring := publishTail (write_slot v (ring ?u)), pp := PIdle, pushed := pushed ?u @ [v]\<rparr>)"
      by (rule push_finish) (use False in simp)
    then have "sstep\<^sup>*\<^sup>* s (?u\<lparr>ring := publishTail (write_slot v (ring ?u)), pp := PIdle, pushed := pushed ?u @ [v]\<rparr>)"
      using st tu by (blast intro: step_then)
    then show ?thesis using False \<open>full (ring s)\<close> call idle by (auto simp: Push_def Let_def)
  qed
qed

lemma pop_finish:
  assumes "cp s = CRead"
  shows "sstep\<^sup>*\<^sup>* s (s\<lparr>ring := publishHead (clear_slot (ring s)), cp := CIdle, popped := popped s @ [read_slot (ring s)]\<rparr>)"
proof -
  let ?x = "read_slot (ring s)"
  let ?t = "s\<lparr>cp := CClear ?x\<rparr>" and ?u = "s\<lparr>ring := clear_slot (ring s), cp := CPublish ?x\<rparr>"
  have "sstep s ?t" using assms by (rule sstep.pop_read)
  moreover have "sstep ?t ?u" using sstep.pop_clear [of ?t ?x] by simp
  moreover have "sstep ?u (?u\<lparr>ring := publishHead (ring ?u), cp := CIdle, popped := popped ?u @ [?x]\<rparr>)"
    by (rule sstep.pop_publish) simp
  ultimately show ?thesis by (auto intro: step_then)
qed

lemma Pop_steps:
  assumes idle: "cp s = CIdle" and call: "Pop (ring s) = ((x, ok), r)"
  shows "sstep\<^sup>*\<^sup>* s (s\<lparr>ring := r, cp := CIdle, popped := popped s @ (if ok then [x] else [])\<rparr>)"
proof (cases "head (ring s) = cachedTail (ring s)")
  case False
  let ?t = "s\<lparr>cp := CRead\<rparr>"
  have "sstep s ?t" using sstep.pop_start [OF idle] False by simp
  then have "sstep\<^sup>*\<^sup>* s (?t\<lparr>ring := publishHead (clear_slot (ring ?t)), cp := CIdle, popped := popped ?t @ [read_slot (ring ?t)]\<rparr>)"
    by (rule step_then [OF _ pop_finish]) simp
  then show ?thesis using False call idle by (auto simp: Pop_def Let_def)
next
  case True
  let ?r = "refreshTail (ring s)"
  let ?t = "s\<lparr>cp := CRefresh\<rparr>" and ?u = "s\<lparr>ring := ?r, cp := (if head ?r = cachedTail ?r then CIdle else CRead)\<rparr>"
  have st: "sstep s ?t" using sstep.pop_start [OF idle] True by simp
  have tu: "sstep ?t ?u" using sstep.pop_refresh [of ?t ?r] by simp
  show ?thesis
  proof (cases "head ?r = cachedTail ?r")
    case True
    then show ?thesis using st tu \<open>head (ring s) = cachedTail (ring s)\<close> call idle by (auto simp: Pop_def Let_def intro: step_then)
  next
    case False
    have "sstep\<^sup>*\<^sup>* ?u (?u\<lparr>ring := publishHead (clear_slot (ring ?u)), cp := CIdle, popped := popped ?u @ [read_slot (ring ?u)]\<rparr>)"
      by (rule pop_finish) (use False in simp)
    then have "sstep\<^sup>*\<^sup>* s (?u\<lparr>ring := publishHead (clear_slot (ring ?u)), cp := CIdle, popped := popped ?u @ [read_slot (ring ?u)]\<rparr>)"
      using st tu by (blast intro: step_then)
    then show ?thesis using False \<open>head (ring s) = cachedTail (ring s)\<close> call idle by (auto simp: Pop_def Let_def)
  qed
qed

text \<open>The queue between calls.\<close>

definition spsc_contents :: "'a spsc \<Rightarrow> 'a list" where
  "spsc_contents r = map (\<lambda>i. the (sbuf r ! unat ((head r + of_nat i) AND smask r))) [0..<unat (tail r - head r)]"

definition seq_inv :: "'a spsc \<Rightarrow> bool" where
  "seq_inv r \<longleftrightarrow> (\<exists>s. sys_inv s \<and> pp s = PIdle \<and> cp s = CIdle \<and> ring s = r)"

lemma contents_idle:
  assumes rep: "sys_rep s cH cT" and idle: "cp s = CIdle"
  shows "spsc_contents (ring s) = drop (length (popped s)) (pushed s)"
proof -
  let ?T = "length (pushed s)" and ?H = "length (popped s)" and ?r = "ring s"
  have p: "pos_ok ?r ?T ?H cH cT" and st: "?H \<le> i \<Longrightarrow> i < ?T \<Longrightarrow> stored (sbuf ?r) (pushed s) i" for i
    using rep idle by (auto simp: sys_rep_def)
  have ord: "?H \<le> ?T" "?T - ?H < 2 ^ 64" "tail ?r = of_nat ?T" "head ?r = of_nat ?H"
    using p small_size [OF p] by (auto simp: pos_ok_def)
  have len: "unat (tail ?r - head ?r) = ?T - ?H" unfolding ord(3,4) by (rule of_nat_diff_u64) (use ord in auto)
  have "the (sbuf ?r ! unat ((head ?r + of_nat i) AND smask ?r)) = pushed s ! (?H + i)" if "i < ?T - ?H" for i
    using st [of "?H + i"] that slot_index [OF p, of "?H + i"] by (simp add: ord stored_def)
  then show ?thesis unfolding spsc_contents_def len by (intro nth_equalityI) auto
qed

lemma seq_Push:
  assumes "seq_inv r" and call: "Push v r = (ok, r')"
  shows "seq_inv r'" "ok \<longleftrightarrow> length (spsc_contents r) < length (sbuf r)"
    "spsc_contents r' = spsc_contents r @ (if ok then [v] else [])"
proof -
  obtain s cH cT where s: "sys_rep s cH cT" "pp s = PIdle" "cp s = CIdle" "ring s = r"
    using assms(1) by (auto simp: seq_inv_def sys_inv_def)
  let ?s = "s\<lparr>ring := r', pp := PIdle, pushed := pushed s @ (if ok then [v] else [])\<rparr>"
  have "sstep\<^sup>*\<^sup>* s ?s" using Push_steps [OF s(2)] call s(4) by simp
  moreover have "sys_inv s" using s(1) by (auto simp: sys_inv_def)
  ultimately have i: "sys_inv ?s" by (rule reach_inv)
  then show "seq_inv r'" unfolding seq_inv_def using s(2,3) by (intro exI [of _ ?s]) simp
  obtain cH' cT' where "sys_rep ?s cH' cT'" using i by (auto simp: sys_inv_def)
  then have c': "spsc_contents r' = drop (length (popped s)) (pushed s @ (if ok then [v] else []))"
    using contents_idle [of ?s cH' cT'] s(3) by simp
  have c: "spsc_contents r = drop (length (popped s)) (pushed s)" using contents_idle [OF s(1,3)] s(4) by simp
  have p: "pos_ok r (length (pushed s)) (length (popped s)) cH cT" using s by (auto simp: sys_rep_def)
  then have p': "pos_ok (refreshHead r) (length (pushed s)) (length (popped s)) (length (popped s)) cT"
    and le: "length (popped s) \<le> length (pushed s)" "length (pushed s) \<le> cH + length (sbuf r)" "cH \<le> length (popped s)"
    by (auto simp: pos_ok_def refreshHead_def)
  show "spsc_contents r' = spsc_contents r @ (if ok then [v] else [])" using c c' le by simp
  have "sbuf (refreshHead r) = sbuf r" by (simp add: refreshHead_def)
  then show "ok \<longleftrightarrow> length (spsc_contents r) < length (sbuf r)"
    using call full_iff [OF p] full_iff [OF p'] le c by (auto simp: Push_def Let_def split: if_splits)
qed

lemma seq_Pop:
  assumes "seq_inv r" and call: "Pop r = ((x, ok), r')"
  shows "seq_inv r'" "ok \<longleftrightarrow> spsc_contents r \<noteq> []" "ok \<Longrightarrow> x = Some (hd (spsc_contents r))"
    "spsc_contents r' = (if ok then tl (spsc_contents r) else spsc_contents r)"
proof -
  obtain s cH cT where s: "sys_rep s cH cT" "pp s = PIdle" "cp s = CIdle" "ring s = r"
    using assms(1) by (auto simp: seq_inv_def sys_inv_def)
  let ?s = "s\<lparr>ring := r', cp := CIdle, popped := popped s @ (if ok then [x] else [])\<rparr>"
  have "sstep\<^sup>*\<^sup>* s ?s" using Pop_steps [OF s(3)] call s(4) by simp
  moreover have "sys_inv s" using s(1) by (auto simp: sys_inv_def)
  ultimately have i: "sys_inv ?s" by (rule reach_inv)
  then show "seq_inv r'" unfolding seq_inv_def using s(2,3) by (intro exI [of _ ?s]) simp
  obtain cH' cT' where rep': "sys_rep ?s cH' cT'" using i by (auto simp: sys_inv_def)
  then have c': "spsc_contents r' = drop (length (popped s @ (if ok then [x] else []))) (pushed s)"
    using contents_idle [of ?s cH' cT'] s(3) by simp
  have c: "spsc_contents r = drop (length (popped s)) (pushed s)" using contents_idle [OF s(1,3)] s(4) by simp
  have p: "pos_ok r (length (pushed s)) (length (popped s)) cH cT" using s by (auto simp: sys_rep_def)
  then have p': "pos_ok (refreshTail r) (length (pushed s)) (length (popped s)) cH (length (pushed s))"
    and le: "length (popped s) \<le> cT" "cT \<le> length (pushed s)"
    by (auto simp: pos_ok_def refreshTail_def)
  show "spsc_contents r' = (if ok then tl (spsc_contents r) else spsc_contents r)"
    using c c' by (simp add: drop_Suc drop_tl)
  show ok: "ok \<longleftrightarrow> spsc_contents r \<noteq> []"
    using call empty_iff [OF p] empty_iff [OF p'] le c by (auto simp: Pop_def Let_def split: if_splits)
  assume ok
  then have "popped s @ [x] = map Some (take (Suc (length (popped s))) (pushed s))" using rep' by (simp add: sys_rep_def)
  moreover have "length (popped s) < length (pushed s)" using ok \<open>ok\<close> c by simp
  ultimately have "x = Some (pushed s ! length (popped s))" by (simp add: take_Suc_conv_app_nth)
  then show "x = Some (hd (spsc_contents r))" using c \<open>length (popped s) < length (pushed s)\<close> by (simp add: hd_drop_conv_nth)
qed

definition spsc_enq :: "'a \<Rightarrow> 'a spsc \<Rightarrow> 'a spsc option" where
  "spsc_enq v r = (case Push v r of (ok, r') \<Rightarrow> if ok then Some r' else None)"

definition spsc_deq :: "'a spsc \<Rightarrow> ('a \<times> 'a spsc) option" where
  "spsc_deq r = (case Pop r of ((x, ok), r') \<Rightarrow> if ok then Some (the x, r') else None)"

interpretation spsc: fifo seq_inv spsc_contents spsc_enq spsc_deq
proof
  show "seq_inv r' \<and> spsc_contents r' = spsc_contents r @ [v]" if "seq_inv r" "spsc_enq v r = Some r'" for r v and r' :: "'a spsc"
    using that seq_Push [OF that(1)] by (auto simp: spsc_enq_def split: prod.splits if_splits)
  show "spsc_deq r = None \<longleftrightarrow> spsc_contents r = []" if "seq_inv r" for r :: "'a spsc"
    using seq_Pop(2) [OF that] by (auto simp: spsc_deq_def split: prod.splits)
  show "seq_inv r' \<and> spsc_contents r = x # spsc_contents r'" if inv: "seq_inv r" and deq: "spsc_deq r = Some (x, r')" for r x and r' :: "'a spsc"
  proof -
    obtain y ok where c: "Pop r = ((y, ok), r')" "ok" "x = the y" using deq by (auto simp: spsc_deq_def split: prod.splits if_splits)
    then show ?thesis using seq_Pop [OF inv c(1)] by auto
  qed
qed

lemma Spsc_New_ok:
  assumes "cap \<le> 2 ^ 62"
  shows "\<exists>r. Spsc_New cap = Some (r :: 'a spsc) \<and> pos_ok r 0 0 0 0 \<and> cap \<le> int (length (sbuf r)) \<and> 2 \<le> length (sbuf r)"
proof -
  obtain k where k: "k \<le> 62" "pow2_loop (2 ^ 0) cap = Some (2 ^ k)" "cap \<le> 2 ^ k" using pow2_loop_Some [of 0 cap] assms by auto
  let ?k = "max 1 k"
  have sz: "(if (2 :: int) ^ k < 2 then 2 else 2 ^ k) = (2 :: int) ^ ?k"
  proof (cases k)
    case (Suc j)
    have "1 \<le> (2 :: int) ^ j" by (rule one_le_power) simp
    then show ?thesis using Suc by (simp add: not_less)
  qed simp
  let ?r = "\<lparr>sbuf = replicate (2 ^ ?k) None, smask = 2 ^ ?k - 1, tail = 0, cachedHead = 0, head = 0, cachedTail = 0\<rparr> :: 'a spsc"
  have "Spsc_New cap = Some ?r" using k(2) unfolding Spsc_New_def by (simp add: Let_def sz nat_power_eq)
  moreover have "pos_ok ?r 0 0 0 0" using k(1) by (auto simp: pos_ok_def intro!: exI [of _ ?k])
  moreover have "cap \<le> int (length (sbuf ?r))"
  proof -
    have "(2 :: int) ^ k \<le> 2 ^ ?k" by (intro power_increasing) auto
    then have "cap \<le> 2 ^ ?k" using k(3) by linarith
    then show ?thesis by (simp only: spsc.simps length_replicate of_nat_power of_nat_numeral)
  qed
  moreover have "2 \<le> length (sbuf ?r)"
  proof -
    have "(2 :: nat) ^ 1 \<le> 2 ^ ?k" by (intro power_increasing) auto
    then show ?thesis by simp
  qed
  ultimately show ?thesis by blast
qed

section \<open>Properties\<close>

definition demo_spsc :: "nat spsc" where "demo_spsc = the (Spsc_New 2)"

lemma demo_spsc_ok: "pos_ok demo_spsc 0 0 0 0" "length (sbuf demo_spsc) = 2"
proof -
  have "pow2_loop 1 2 = Some 2" by (subst pow2_loop.simps) (simp add: pow2_loop_done swrap64_def)
  then have d: "demo_spsc = \<lparr>sbuf = [None, None], smask = 1, tail = 0, cachedHead = 0, head = 0, cachedTail = 0\<rparr>"
    by (simp add: demo_spsc_def Spsc_New_def numeral_2_eq_2)
  show "pos_ok demo_spsc 0 0 0 0" "length (sbuf demo_spsc) = 2" by (auto simp: d pos_ok_def intro!: exI [of _ 1])
qed

text \<open>
  C5. Under every interleaving of one producer and one consumer the queue delivers the pushed values
  in order, each once and none invented; at most its capacity of them are inside; and whenever
  the producer is about to write its slot while the consumer is about to read or clear one, these are
  different slots, so there is no data race on the buffer.
\<close>

theorem spsc_interleaving_safe:
  assumes "pos_ok r 0 0 0 0" and "sstep\<^sup>*\<^sup>* (start_sys r) s"
  shows "popped s = map Some (take (length (popped s)) (pushed s)) \<and>
    length (pushed s) \<le> length (popped s) + length (sbuf (ring s)) \<and>
    ((\<exists>v. pp s = PWrite v) \<and> (cp s = CRead \<or> (\<exists>x. cp s = CClear x)) \<longrightarrow>
      unat (tail (ring s) AND smask (ring s)) \<noteq> unat (head (ring s) AND smask (ring s)))"
proof -
  have "sys_inv s" using reach_inv [OF assms(2) inv_start [OF assms(1)]] .
  then obtain cH cT where rep: "sys_rep s cH cT" by (auto simp: sys_inv_def)
  then have p: "pos_ok (ring s) (length (pushed s)) (length (popped s)) cH cT" by (simp add: sys_rep_def)
  let ?n = "length (sbuf (ring s))"
  have "length (pushed s) mod ?n \<noteq> length (popped s) mod ?n" if "pp s = PWrite v" "cp s = CRead \<or> (\<exists>x. cp s = CClear x)" for v
    using rep that mod_inj [of "length (popped s)" "length (pushed s)" ?n] by (auto simp: sys_rep_def pos_ok_def)
  then show ?thesis using rep p slot_index [OF p] by (auto simp: sys_rep_def pos_ok_def)
qed

theorem spsc_interleaving_safe_witness:
  "pos_ok demo_spsc 0 0 0 0 \<and>
   (\<exists>s. sstep\<^sup>*\<^sup>* (start_sys demo_spsc) s \<and> pp s = PWrite 7 \<and> length (pushed s) \<le> length (popped s) + length (sbuf (ring s)))"
proof -
  let ?s = "start_sys demo_spsc" 
  have "\<not> full demo_spsc" using full_iff [OF demo_spsc_ok(1)] demo_spsc_ok(2) by simp
  then have "sstep ?s (?s\<lparr>pp := PWrite 7\<rparr>)" using sstep.push_start [of ?s 7] by (simp add: start_sys_def)
  then have r: "sstep\<^sup>*\<^sup>* ?s (?s\<lparr>pp := PWrite 7\<rparr>)" by blast
  from spsc_interleaving_safe [OF demo_spsc_ok(1) r] demo_spsc_ok(1) show ?thesis
    by (intro conjI exI [of _ "?s\<lparr>pp := PWrite 7\<rparr>"] r) simp_all
qed

text \<open>
  As whole calls the operations are a bounded queue over every history: what comes out, followed by what is
  inside, is what was inside followed by what was accepted, \<open>Push\<close> refuses exactly when the ring
  is full and \<open>Pop\<close> exactly when it is empty, although both judge by stale copies of the other
  side's position first.
\<close>

theorem spsc_bounded_queue:
  assumes "seq_inv r" and "qrun spsc_enq spsc_deq ops r = (ins, outs, r')"
  shows "seq_inv r' \<and> spsc_contents r @ ins = outs @ spsc_contents r' \<and>
    (fst (Push v r') \<longleftrightarrow> length (spsc_contents r') < length (sbuf r')) \<and>
    (snd (fst (Pop r')) \<longleftrightarrow> spsc_contents r' \<noteq> [])"
proof -
  have h: "seq_inv r'" "spsc_contents r @ ins = outs @ spsc_contents r'" using spsc.history [OF assms] by auto
  obtain ok r1 x ok2 r2 where "Push v r' = (ok, r1)" "Pop r' = ((x, ok2), r2)" by (metis prod.collapse)
  then show ?thesis using h seq_Push(2) [OF h(1)] seq_Pop(2) [OF h(1)] by auto
qed

theorem spsc_bounded_queue_witness:
  "seq_inv demo_spsc \<and> (\<exists>r'. qrun spsc_enq spsc_deq [Enq 1, Enq 2, Enq 3, Deq, Enq 4, Deq] demo_spsc = ([1, 2, 4], [1, 2], r') \<and>
     spsc_contents r' = [4])"
proof -
  have inv: "seq_inv demo_spsc"
    unfolding seq_inv_def using inv_start [OF demo_spsc_ok(1)] by (intro exI [of _ "start_sys demo_spsc"]) (simp add: start_sys_def)
  have c: "spsc_contents demo_spsc = []" by code_simp
  let ?q = "qrun spsc_enq spsc_deq [Enq 1, Enq 2, Enq 3, Deq, Enq 4, Deq] demo_spsc"
  have r: "?q = ([1, 2, 4], [1, 2], snd (snd ?q))" by (intro prod_eqI) (simp_all only: fst_conv snd_conv, code_simp+)
  from spsc_bounded_queue [OF inv r, of 0] c r inv show ?thesis by auto
qed

end
