(* ===== verification/Smap.thy ===== *)
theory Smap
  imports Words SortedAL Interfaces
begin

text \<open>
  Package \<open>smap\<close> (src/smap/smap.go): maps split into shards, for string keys (routed by
  \<open>hash.Sum64sMap\<close>, a parameter of the model) and for 64-bit keys (routed by Fibonacci hashing).
  Every critical section is one step. \<open>GetOrSet\<close> has two of them (the check under the read lock
  and the check and creation under the write lock), between which other goroutines may run: it is
  also modelled as a step relation over threads.
\<close>

section \<open>Shards\<close>

type_synonym ('k, 'v) mshard = "('k \<times> 'v) list"

definition shard_Len :: "('k, 'v) mshard list \<Rightarrow> int" where
  "shard_Len ms = fold (\<lambda>s n. n + int (length s)) ms 0"

text \<open>
  A Go map is iterated in an order that is not specified: \<open>orders\<close> holds for every shard the order
  of this iteration.
\<close>

fun shard_Range :: "('k \<times> 'v) list list \<Rightarrow> ('k \<Rightarrow> 'v \<Rightarrow> 's \<Rightarrow> bool \<times> 's) \<Rightarrow> 's \<Rightarrow> 's" where
  "shard_Range [] fn st = st"
| "shard_Range (s # ss) fn st =
     (case iter_while (\<lambda>e. fn (fst e) (snd e)) s st of (True, st) \<Rightarrow> shard_Range ss fn st | (False, st) \<Rightarrow> st)"

section \<open>String keys\<close>

record 'v smap =
  sm_shards :: "(bytes, 'v) mshard list"
  sm_mask :: u64

definition Map_New :: "int \<Rightarrow> 'v smap option" where
  "Map_New n = map_option (\<lambda>sz. \<lparr>sm_shards = replicate (nat sz) [], sm_mask = of_int (sz - 1)\<rparr>) (pow2_loop 4 n)"

definition Map_shard :: "(bytes \<Rightarrow> u64) \<Rightarrow> 'v smap \<Rightarrow> bytes \<Rightarrow> nat" where
  "Map_shard h m key = unat (h key AND sm_mask m)"

definition Map_Get :: "(bytes \<Rightarrow> u64) \<Rightarrow> 'v smap \<Rightarrow> bytes \<Rightarrow> 'v option" where
  "Map_Get h m key = map_of (sm_shards m ! Map_shard h m key) key"

definition Map_Set :: "(bytes \<Rightarrow> u64) \<Rightarrow> 'v smap \<Rightarrow> bytes \<Rightarrow> 'v \<Rightarrow> 'v smap" where
  "Map_Set h m key val =
     (let i = Map_shard h m key in m\<lparr>sm_shards := (sm_shards m)[i := mput key val (sm_shards m ! i)]\<rparr>)"

definition Map_Del :: "(bytes \<Rightarrow> u64) \<Rightarrow> 'v smap \<Rightarrow> bytes \<Rightarrow> 'v smap" where
  "Map_Del h m key =
     (let i = Map_shard h m key in m\<lparr>sm_shards := (sm_shards m)[i := kv_del key (sm_shards m ! i)]\<rparr>)"

definition Map_Len :: "'v smap \<Rightarrow> int" where "Map_Len m = shard_Len (sm_shards m)"

definition Map_Range :: "(bytes \<times> 'v) list list \<Rightarrow> (bytes \<Rightarrow> 'v \<Rightarrow> 's \<Rightarrow> bool \<times> 's) \<Rightarrow> 's \<Rightarrow> 's" where
  "Map_Range orders fn st = shard_Range orders fn st"

text \<open>The value the creation function returns is \<open>val\<close>; the result says whether it was called.\<close>

definition Map_GetOrSet :: "(bytes \<Rightarrow> u64) \<Rightarrow> 'v smap \<Rightarrow> bytes \<Rightarrow> 'v \<Rightarrow> ('v \<times> bool) \<times> 'v smap" where
  "Map_GetOrSet h m key val =
     (case Map_Get h m key of
        Some v \<Rightarrow> ((v, False), m)
      | None \<Rightarrow>
          (case Map_Get h m key of
             Some v \<Rightarrow> ((v, False), m)
           | None \<Rightarrow> ((val, True), Map_Set h m key val)))"

section \<open>64-bit keys\<close>

record 'v smap64 =
  s64_shards :: "(u64, 'v) mshard list"
  s64_mask :: u64
  s64_shift :: nat

text \<open>\<open>bits.Len\<close>.\<close>

fun bits_Len :: "nat \<Rightarrow> nat" where "bits_Len n = (if n = 0 then 0 else Suc (bits_Len (n div 2)))"

declare bits_Len.simps [simp del]

definition New64 :: "int \<Rightarrow> 'v smap64 option" where
  "New64 n = map_option (\<lambda>sz. \<lparr>s64_shards = replicate (nat sz) [], s64_mask = of_int (sz - 1),
     s64_shift = 64 - bits_Len (nat (sz - 1))\<rparr>) (pow2_loop 4 n)"

definition shard64 :: "'v smap64 \<Rightarrow> u64 \<Rightarrow> nat" where
  "shard64 m key = unat (drop_bit (s64_shift m) (key * 11400714819323198485) AND s64_mask m)"

definition Get64 :: "'v smap64 \<Rightarrow> u64 \<Rightarrow> 'v option" where
  "Get64 m key = map_of (s64_shards m ! shard64 m key) key"

definition Set64 :: "'v smap64 \<Rightarrow> u64 \<Rightarrow> 'v \<Rightarrow> 'v smap64" where
  "Set64 m key val =
     (let i = shard64 m key in m\<lparr>s64_shards := (s64_shards m)[i := mput key val (s64_shards m ! i)]\<rparr>)"

definition Del64 :: "'v smap64 \<Rightarrow> u64 \<Rightarrow> 'v smap64" where
  "Del64 m key = (let i = shard64 m key in m\<lparr>s64_shards := (s64_shards m)[i := kv_del key (s64_shards m ! i)]\<rparr>)"

definition Len64 :: "'v smap64 \<Rightarrow> int" where "Len64 m = shard_Len (s64_shards m)"

definition Range64 :: "(u64 \<times> 'v) list list \<Rightarrow> (u64 \<Rightarrow> 'v \<Rightarrow> 's \<Rightarrow> bool \<times> 's) \<Rightarrow> 's \<Rightarrow> 's" where
  "Range64 orders fn st = shard_Range orders fn st"

definition GetOrSet64 :: "'v smap64 \<Rightarrow> u64 \<Rightarrow> 'v \<Rightarrow> ('v \<times> bool) \<times> 'v smap64" where
  "GetOrSet64 m key val =
     (case Get64 m key of
        Some v \<Rightarrow> ((v, False), m)
      | None \<Rightarrow> (case Get64 m key of Some v \<Rightarrow> ((v, False), m) | None \<Rightarrow> ((val, True), Set64 m key val)))"

section \<open>Concurrent GetOrSet\<close>

text \<open>
  A thread is a call of \<open>GetOrSet\<close> with its key and the value its creation function would return,
  and how far it is: not started, missed under the read lock, or finished with a value and whether it
  created it.
\<close>

datatype 'v gpc = GStart | GMissed | GDone 'v bool

type_synonym ('k, 'v) threads = "('k \<times> 'v \<times> 'v gpc) list"

inductive gos_step :: "('m \<Rightarrow> 'k \<Rightarrow> 'v option) \<Rightarrow> ('m \<Rightarrow> 'k \<Rightarrow> 'v \<Rightarrow> 'm) \<Rightarrow> 'm \<times> ('k, 'v) threads \<Rightarrow> 'm \<times> ('k, 'v) threads \<Rightarrow> bool"
  for get put where
  read_hit: "j < length ts \<Longrightarrow> ts ! j = (k, v, GStart) \<Longrightarrow> get m k = Some w \<Longrightarrow>
    gos_step get put (m, ts) (m, ts[j := (k, v, GDone w False)])"
| read_miss: "j < length ts \<Longrightarrow> ts ! j = (k, v, GStart) \<Longrightarrow> get m k = None \<Longrightarrow>
    gos_step get put (m, ts) (m, ts[j := (k, v, GMissed)])"
| write_hit: "j < length ts \<Longrightarrow> ts ! j = (k, v, GMissed) \<Longrightarrow> get m k = Some w \<Longrightarrow>
    gos_step get put (m, ts) (m, ts[j := (k, v, GDone w False)])"
| write_new: "j < length ts \<Longrightarrow> ts ! j = (k, v, GMissed) \<Longrightarrow> get m k = None \<Longrightarrow>
    gos_step get put (m, ts) (put m k v, ts[j := (k, v, GDone v True)])"

text \<open>The calls for a key whose creation function has run.\<close>

definition creators :: "('k, 'v) threads \<Rightarrow> 'k \<Rightarrow> nat set" where
  "creators ts k = {j. j < length ts \<and> (\<exists>v w. ts ! j = (k, v, GDone w True))}"

definition gos_inv :: "('m \<Rightarrow> 'k \<Rightarrow> 'v option) \<Rightarrow> ('k \<rightharpoonup> 'v) \<Rightarrow> 'm \<times> ('k, 'v) threads \<Rightarrow> bool" where
  "gos_inv get M0 s \<longleftrightarrow> (case s of (m, ts) \<Rightarrow>
     (\<forall>j < length ts. \<forall>k v w c. ts ! j = (k, v, GDone w c) \<longrightarrow> get m k = Some w) \<and>
     (\<forall>k. card (creators ts k) = (if M0 k = None \<and> get m k \<noteq> None then 1 else 0)) \<and>
     (\<forall>k w. M0 k = Some w \<longrightarrow> get m k = Some w))"

lemma finite_creators [simp]: "finite (creators ts k)"
  by (simp add: creators_def)

lemma creators_upd:
  assumes "j < length ts" "\<And>w. snd (snd (ts ! j)) \<noteq> GDone w True"
  shows "creators (ts[j := (k, v, s)]) k' = (if k' = k \<and> (\<exists>w. s = GDone w True) then insert j (creators ts k') else creators ts k')"
  using assms by (auto simp: creators_def nth_list_update split: if_splits) (metis snd_conv)+

lemma gos_step_inv:
  assumes get: "\<And>m k v k'. good m \<Longrightarrow> get (put m k v) k' = (if k' = k then Some v else get m k')"
    and good: "\<And>m k v. good m \<Longrightarrow> good (put m k v)"
    and st: "gos_step get put s s'" and inv: "good (fst s) \<and> gos_inv get M0 s"
  shows "good (fst s') \<and> gos_inv get M0 s'"
  using st
proof cases
  case (read_hit j ts k v m w)
  then show ?thesis using inv by (auto simp: gos_inv_def nth_list_update creators_upd)
next
  case (read_miss j ts k v m)
  then show ?thesis using inv by (auto simp: gos_inv_def nth_list_update creators_upd)
next
  case (write_hit j ts k v m w)
  then show ?thesis using inv by (auto simp: gos_inv_def nth_list_update creators_upd)
next
  case (write_new j ts k v m)
  then have g: "good m" "gos_inv get M0 (m, ts)" and c0: "creators ts k = {}"
    using inv card_0_eq [OF finite_creators [of ts k]] by (auto simp: gos_inv_def)
  have "M0 k = None" using g(2) write_new(5) by (cases "M0 k") (auto simp: gos_inv_def)
  then show ?thesis using g write_new c0 get [OF g(1)] good [OF g(1)]
    by (auto simp: gos_inv_def nth_list_update creators_upd split: if_splits) (metis empty_iff option.distinct(1))+
qed

text \<open>For the clients of a dictionary: what all interleavings of calls on it have in common.\<close>

context dictionary
begin

lemma get_or_set_once:
  assumes "inv m" and "\<forall>t \<in> set ts. snd (snd t) = GStart"
    and "(gos_step get (\<lambda>m k v. snd (put m k v)))\<^sup>*\<^sup>* (m, ts) (m', ts')"
  shows "inv m' \<and> gos_inv get (abs m) (m', ts')"
proof -
  have g: "get (snd (put m k v)) k' = (if k' = k then Some v else get m k')" "inv (snd (put m k v))" if "inv m" for m k v k'
    using put_law [OF that, of k v "fst (put m k v)" "snd (put m k v)"] get_law that by auto
  have "inv (fst s) \<and> gos_inv get (abs m) s" if "(gos_step get (\<lambda>m k v. snd (put m k v)))\<^sup>*\<^sup>* (m, ts) s" for s
    using that
  proof (induction rule: rtranclp_induct)
    case base
    have "\<forall>j < length ts. snd (snd (ts ! j)) = GStart" using assms(2) by simp
    then have c: "creators ts k = {}" "j < length ts \<Longrightarrow> ts ! j \<noteq> (k, v, GDone w b)" for j k v w b
      by (auto simp: creators_def)
    show ?case using assms(1) get_law [OF assms(1)] c by (auto simp: gos_inv_def)
  next
    case (step s s')
    show ?case
      by (rule gos_step_inv [where good = inv and put = "\<lambda>m k v. snd (put m k v)"]) (use step g in simp_all)
  qed
  from this [OF assms(3)] show ?thesis by simp
qed

end

section \<open>Sharding is transparent\<close>

definition sharded :: "('k \<Rightarrow> nat) \<Rightarrow> ('k, 'v) mshard list \<Rightarrow> bool" where
  "sharded route ms \<longleftrightarrow> (\<forall>k. route k < length ms) \<and>
     (\<forall>i < length ms. distinct (map fst (ms ! i)) \<and> (\<forall>k \<in> fst ` set (ms ! i). route k = i))"

definition sharded_map :: "('k \<Rightarrow> nat) \<Rightarrow> ('k, 'v) mshard list \<Rightarrow> 'k \<rightharpoonup> 'v" where
  "sharded_map route ms k = map_of (ms ! route k) k"

lemma keys_mput: "fst ` set (mput k v m) = insert k (fst ` set m)"
  by (auto simp: mput_def kv_del_def image_iff)

lemma keys_kv_del: "fst ` set (kv_del k m) = fst ` set m - {k}"
  by (force simp: kv_del_def)

lemma sharded_upd:
  assumes sh: "sharded route ms" and "distinct (map fst s)" and "fst ` set s \<subseteq> insert k (fst ` set (ms ! route k))"
  shows "sharded route (ms[route k := s])"
proof -
  have "route k' = route k" if "k' \<in> fst ` set (ms ! route k)" for k' using sh that by (auto simp: sharded_def)
  then have r: "\<forall>k' \<in> fst ` set s. route k' = route k" using assms(3) by blast
  have "distinct (map fst (ms[route k := s] ! i)) \<and> (\<forall>k' \<in> fst ` set (ms[route k := s] ! i). route k' = i)"
    if "i < length ms" for i
    using sh that r assms(2) by (cases "i = route k") (simp_all add: sharded_def)
  then show ?thesis using sh by (simp add: sharded_def)
qed

lemma sharded_put:
  assumes sh: "sharded route ms"
  shows "sharded route (ms[route k := mput k v (ms ! route k)])"
    "sharded_map route (ms[route k := mput k v (ms ! route k)]) = (sharded_map route ms)(k \<mapsto> v)"
proof -
  have d: "distinct (map fst (ms ! route k))" "route k < length ms" for k using sh by (auto simp: sharded_def)
  show "sharded route (ms[route k := mput k v (ms ! route k)])"
    by (rule sharded_upd [OF sh]) (simp_all add: distinct_mput d keys_mput)
  show "sharded_map route (ms[route k := mput k v (ms ! route k)]) = (sharded_map route ms)(k \<mapsto> v)"
    using d(2) by (auto simp: sharded_map_def nth_list_update fun_eq_iff)
qed

lemma sharded_del:
  assumes sh: "sharded route ms"
  shows "sharded route (ms[route k := kv_del k (ms ! route k)])"
    "sharded_map route (ms[route k := kv_del k (ms ! route k)]) = (sharded_map route ms)(k := None)"
proof -
  have d: "distinct (map fst (ms ! route k))" "route k < length ms" for k using sh by (auto simp: sharded_def)
  show "sharded route (ms[route k := kv_del k (ms ! route k)])"
    by (rule sharded_upd [OF sh]) (auto simp: distinct_kv_del d keys_kv_del)
  show "sharded_map route (ms[route k := kv_del k (ms ! route k)]) = (sharded_map route ms)(k := None)"
    using d(2) by (auto simp: sharded_map_def nth_list_update fun_eq_iff map_of_kv_del)
qed

lemma shard_Len_sum: "shard_Len ms = int (length (concat ms))"
proof -
  have "fold (\<lambda>s n. n + int (length s)) ms a = a + int (length (concat ms))" for a
    by (induction ms arbitrary: a) auto
  then show ?thesis by (simp add: shard_Len_def)
qed

text \<open>All shards together are one list without duplicate keys.\<close>

lemma concat_shards:
  assumes "\<forall>i < length ms. distinct (map fst (ms ! i)) \<and> (\<forall>k \<in> fst ` set (ms ! i). route k = b + i)"
  shows "distinct (map fst (concat ms)) \<and>
    (\<forall>k. map_of (concat ms) k = (if b \<le> route k \<and> route k < b + length ms then map_of (ms ! (route k - b)) k else None))"
  using assms
proof (induction ms arbitrary: b)
  case (Cons s ms)
  have s: "distinct (map fst s)" "\<forall>k \<in> fst ` set s. route k = b" using Cons.prems by force+
  have "\<forall>i < length ms. distinct (map fst (ms ! i)) \<and> (\<forall>k \<in> fst ` set (ms ! i). route k = Suc b + i)"
    using Cons.prems by force
  note IH = Cons.IH [OF this]
  have out: "map_of (concat ms) k = None" if "route k = b" for k using IH that by simp
  then have "fst ` set s \<inter> fst ` set (concat ms) = {}" using s(2) unfolding map_of_eq_None_iff by auto
  moreover have "map_of (concat (s # ms)) k = (if b \<le> route k \<and> route k < b + length (s # ms) then map_of ((s # ms) ! (route k - b)) k else None)" for k
  proof (cases "route k = b")
    case True
    then show ?thesis using out [OF True] by (simp add: map_add_def split: option.splits)
  next
    case False
    then have "map_of s k = None" using s(2) by (auto simp: map_of_eq_None_iff)
    moreover have "route k - b = Suc (route k - Suc b)" if "b \<le> route k" using that False by simp
    ultimately show ?thesis using IH False by (auto simp: map_add_def)
  qed
  ultimately show ?case using s(1) IH by auto
qed auto

lemma sharded_concat:
  assumes "sharded route ms"
  shows "distinct (map fst (concat ms))" "map_of (concat ms) = sharded_map route ms"
  using concat_shards [of ms route 0] assms by (auto simp: sharded_def sharded_map_def fun_eq_iff)

lemma sharded_Len: "sharded route ms \<Longrightarrow> shard_Len ms = int (card (dom (sharded_map route ms)))"
  using sharded_concat [of route ms] length_map_of [of "concat ms"] by (simp add: shard_Len_sum)

lemma shard_Range_iter: "shard_Range orders fn st = snd (iter_while (\<lambda>e. fn (fst e) (snd e)) (concat orders) st)"
  by (induction orders arbitrary: st) (auto simp: iter_while_append split: prod.splits bool.splits)

section \<open>Both maps are dictionaries\<close>

definition Map_inv :: "(bytes \<Rightarrow> u64) \<Rightarrow> 'v smap \<Rightarrow> bool" where
  "Map_inv h m \<longleftrightarrow> (\<exists>k. length (sm_shards m) = 2 ^ k \<and> sm_mask m = 2 ^ k - 1) \<and> sharded (Map_shard h m) (sm_shards m)"

definition Map_abs :: "(bytes \<Rightarrow> u64) \<Rightarrow> 'v smap \<Rightarrow> bytes \<rightharpoonup> 'v" where "Map_abs h m = Map_Get h m"

definition inv64 :: "'v smap64 \<Rightarrow> bool" where "inv64 m \<longleftrightarrow> sharded (shard64 m) (s64_shards m)"

lemma route_upd [simp]: "Map_shard h (m\<lparr>sm_shards := x\<rparr>) = Map_shard h m" "shard64 (n\<lparr>s64_shards := y\<rparr>) = shard64 n"
  by (auto simp: Map_shard_def shard64_def fun_eq_iff)

lemma get_sharded: "Map_Get h m = sharded_map (Map_shard h m) (sm_shards m)" "Get64 n = sharded_map (shard64 n) (s64_shards n)"
  by (auto simp: Map_Get_def Get64_def sharded_map_def fun_eq_iff)

interpretation smap: dictionary "Map_inv h" "Map_Get h" "\<lambda>m k v. (Map_Get h m k, Map_Set h m k v)"
    "\<lambda>m k. (Map_Get h m k, Map_Del h m k)" "Map_Get h" for h
  by unfold_locales
    (auto simp: get_sharded Map_inv_def Map_Set_def Map_Del_def Let_def sharded_put sharded_del simp del: fun_upd_apply)

interpretation smap64: dictionary inv64 Get64 "\<lambda>m k v. (Get64 m k, Set64 m k v)" "\<lambda>m k. (Get64 m k, Del64 m k)" Get64
  by unfold_locales
    (auto simp: get_sharded inv64_def Set64_def Del64_def Let_def sharded_put sharded_del simp del: fun_upd_apply)

section \<open>Construction\<close>

lemma bits_Len_ones: "bits_Len (2 ^ k - 1) = k"
proof (induction k)
  case (Suc k)
  have "(2 ^ Suc k - 1) div 2 = (2 :: nat) ^ k - 1" "(2 :: nat) ^ Suc k - 1 \<noteq> 0" by (induction k) auto
  then show ?case using Suc by (subst bits_Len.simps) simp
qed (simp add: bits_Len.simps)

lemma sharded_empty: "(\<And>k. route k < n) \<Longrightarrow> sharded route (replicate n [])"
  by (simp add: sharded_def)

lemma Map_New_ok:
  assumes "n \<le> 2 ^ 62"
  shows "\<exists>(m :: 'v smap). Map_New n = Some m \<and> Map_inv h m \<and> Map_Get h m = Map.empty"
proof -
  obtain k where k: "pow2_loop (2 ^ 2) n = Some (2 ^ k)" using pow2_loop_Some [of 2 n] assms by auto
  let ?m = "\<lparr>sm_shards = replicate (2 ^ k) [], sm_mask = 2 ^ k - 1\<rparr> :: 'v smap"
  have "Map_New n = Some ?m" using k by (simp add: Map_New_def nat_power_eq)
  moreover have r: "Map_shard h ?m key < 2 ^ k" for key by (simp add: Map_shard_def unat_and_mask)
  then have "Map_inv h ?m" by (auto simp: Map_inv_def intro!: sharded_empty)
  moreover have "Map_Get h ?m = Map.empty" using r by (auto simp: Map_Get_def fun_eq_iff)
  ultimately show ?thesis by blast
qed

lemma New64_ok:
  assumes "n \<le> 2 ^ 62"
  shows "\<exists>(m :: 'v smap64) k. New64 n = Some m \<and> inv64 m \<and> Get64 m = Map.empty \<and> length (s64_shards m) = 2 ^ k \<and>
    s64_mask m = 2 ^ k - 1 \<and> s64_shift m = 64 - k \<and> k \<le> 62"
proof -
  obtain k where k: "pow2_loop (2 ^ 2) n = Some (2 ^ k)" "k \<le> 62" using pow2_loop_Some [of 2 n] assms by auto
  let ?m = "\<lparr>s64_shards = replicate (2 ^ k) [], s64_mask = 2 ^ k - 1, s64_shift = 64 - k\<rparr> :: 'v smap64"
  have "nat (2 ^ k - 1) = 2 ^ k - 1" by (simp add: nat_diff_distrib nat_power_eq)
  then have "New64 n = Some ?m" using k(1) bits_Len_ones [of k] by (simp add: New64_def nat_power_eq)
  moreover have r: "shard64 ?m key < 2 ^ k" for key by (simp add: shard64_def unat_and_mask)
  then have "inv64 ?m" by (auto simp: inv64_def intro!: sharded_empty)
  moreover have "Get64 ?m = Map.empty" using r by (auto simp: Get64_def fun_eq_iff)
  ultimately show ?thesis using k(2) by (intro exI [of _ ?m] exI [of _ k]) auto
qed

section \<open>Properties\<close>

text \<open>
  C27. Sharding is transparent: whatever the hash function does, every history of \<open>Set\<close>, \<open>Del\<close> and
  \<open>Get\<close> calls on a sharded map gives what it gives on one map, and \<open>Len\<close> is the number of its
  keys. The same holds for the map with 64-bit keys and its Fibonacci routing.
\<close>

theorem smap_refines_map:
  assumes "Map_inv h m" and "mrun (\<lambda>m k v. (Map_Get h m k, Map_Set h m k v)) (\<lambda>m k. (Map_Get h m k, Map_Del h m k)) (Map_Get h) ops m = (rs, m')"
    and "inv64 n" and "mrun (\<lambda>m k v. (Get64 m k, Set64 m k v)) (\<lambda>m k. (Get64 m k, Del64 m k)) Get64 ops' n = (rs', n')"
  shows "mrun map_put map_del map_get ops (Map_Get h m) = (rs, Map_Get h m') \<and> Map_Len m' = int (card (dom (Map_Get h m'))) \<and>
    mrun map_put map_del map_get ops' (Get64 n) = (rs', Get64 n') \<and> Len64 n' = int (card (dom (Get64 n')))"
proof -
  have a: "Map_inv h m'" "mrun map_put map_del map_get ops (Map_Get h m) = (rs, Map_Get h m')"
    using smap.refines [OF assms(1,2)] by auto
  have b: "inv64 n'" "mrun map_put map_del map_get ops' (Get64 n) = (rs', Get64 n')"
    using smap64.refines [OF assms(3,4)] by auto
  have "Map_Len m' = int (card (dom (Map_Get h m')))"
    using a(1) unfolding Map_inv_def Map_Len_def get_sharded by (intro sharded_Len) simp
  moreover have "Len64 n' = int (card (dom (Get64 n')))"
    using b(1) unfolding inv64_def Len64_def get_sharded by (rule sharded_Len)
  ultimately show ?thesis using a(2) b(2) by blast
qed

definition demo_hash :: "bytes \<Rightarrow> u64" where "demo_hash k = of_nat (length k)"
definition demo_map :: "nat smap" where "demo_map = the (Map_New 4)"
definition demo_map64 :: "nat smap64" where "demo_map64 = the (New64 4)"

lemma demo_map_ok: "Map_inv h demo_map" "Map_Get h demo_map = Map.empty"
  using Map_New_ok [of 4 h, where 'v = nat] by (auto simp: demo_map_def)

lemma demo_map64_ok: "inv64 demo_map64" "Get64 demo_map64 = Map.empty"
  using New64_ok [of 4, where 'v = nat] by (auto simp: demo_map64_def)

theorem smap_refines_map_witness:
  "fst (mrun (\<lambda>m k v. (Map_Get demo_hash m k, Map_Set demo_hash m k v)) (\<lambda>m k. (Map_Get demo_hash m k, Map_Del demo_hash m k))
     (Map_Get demo_hash) [MPut [1] 5, MPut [2] 6, MGet [1], MDel [1], MGet [1]] demo_map) = [None, None, Some 5, Some 5, None]"
  using smap_refines_map [OF demo_map_ok(1) prod.collapse [symmetric] demo_map64_ok(1) prod.collapse [symmetric],
      where h = demo_hash and ops = "[MPut [1] 5, MPut [2] 6, MGet [1], MDel [1], MGet [1]]"]
  by (simp add: demo_map_ok map_put_def map_del_def map_get_def)

text \<open>
  C6. However the lock sections of any number of \<open>GetOrSet\<close> calls interleave, all calls for a key
  return the value the map has for it, a key that was there is never overwritten, and the creation
  function runs exactly once for a key that is new and never for a key that was there.
\<close>

theorem GetOrSet_exactly_once:
  assumes "Map_inv h m" and "\<forall>t \<in> set ts. snd (snd t) = GStart"
    and "(gos_step (Map_Get h) (Map_Set h))\<^sup>*\<^sup>* (m, ts) (m', ts')"
  shows "(j < length ts' \<and> ts' ! j = (k, v, GDone w c) \<longrightarrow> Map_Get h m' k = Some w) \<and>
    card (creators ts' k) = (if Map_Get h m k = None \<and> Map_Get h m' k \<noteq> None then 1 else 0) \<and>
    (Map_Get h m k = Some x \<longrightarrow> Map_Get h m' k = Some x)"
  using smap.get_or_set_once [OF assms(1,2)] assms(3) unfolding snd_conv by (auto simp: gos_inv_def)

definition demo_thread :: "nat gpc \<Rightarrow> bytes \<times> nat \<times> nat gpc" where "demo_thread pc = ([7], 3, pc)"

lemma demo_calls:
  "(gos_step (Map_Get demo_hash) (Map_Set demo_hash))\<^sup>*\<^sup>* (demo_map, [demo_thread GStart])
     (Map_Set demo_hash demo_map [7] 3, [demo_thread (GDone 3 True)])"
proof -
  let ?S = "gos_step (Map_Get demo_hash) (Map_Set demo_hash)"
  have "?S (demo_map, [demo_thread GStart]) (demo_map, [demo_thread GMissed])"
    using gos_step.read_miss [of 0 "[demo_thread GStart]" "[7]" 3 "Map_Get demo_hash" demo_map] by (simp add: demo_thread_def demo_map_ok)
  moreover have "?S (demo_map, [demo_thread GMissed]) (Map_Set demo_hash demo_map [7] 3, [demo_thread (GDone 3 True)])"
    using gos_step.write_new [of 0 "[demo_thread GMissed]" "[7]" 3 "Map_Get demo_hash" demo_map] by (simp add: demo_thread_def demo_map_ok)
  ultimately show ?thesis by (meson rtranclp.rtrancl_into_rtrancl rtranclp.rtrancl_refl)
qed

theorem GetOrSet_exactly_once_witness:
  "Map_Get demo_hash (Map_Set demo_hash demo_map [7] 3) [7] = Some 3 \<and>
   card (creators [demo_thread (GDone 3 True)] [7]) = 1"
  using GetOrSet_exactly_once [OF demo_map_ok(1) _ demo_calls, where j = 0 and k = "[7]" and v = 3 and w = 3 and c = True]
  by (simp add: demo_thread_def demo_map_ok)

end
