(* ===== verification/Itable.thy ===== *)
theory Itable
  imports Prelude SortedAL Interfaces
begin

text \<open>
  Package \<open>itable\<close> (src/itable/itable.go): a lookup table for integer keys. Small keys live in an
  array of atomic pointers, all others in a \<open>sync.Map\<close>, which is a Go map here. A pointer to a
  value is an option of what it points to; \<open>nil\<close> is \<open>None\<close>. Every operation is a single atomic
  access of one entry.
\<close>

section \<open>Table\<close>

definition DefaultThreshold :: int where "DefaultThreshold = 65536"

record 'v table =
  fast :: "'v option list"
  slow :: "(int \<times> 'v) list"
  sz :: int

definition Table_New :: "int \<Rightarrow> 'v table" where
  "Table_New threshold =
     (let threshold = (if threshold \<le> 0 then DefaultThreshold else threshold)
      in \<lparr>fast = replicate (nat threshold) None, slow = [], sz = threshold\<rparr>)"

definition Table_Get :: "'v table \<Rightarrow> int \<Rightarrow> 'v option" where
  "Table_Get t key =
     (if 0 \<le> key \<and> key < sz t then
        case fast t ! nat key of None \<Rightarrow> None | Some p \<Rightarrow> Some p
      else map_of (slow t) key)"

definition Table_Set :: "'v table \<Rightarrow> int \<Rightarrow> 'v option \<Rightarrow> 'v table" where
  "Table_Set t key val =
     (if 0 \<le> key \<and> key < sz t then t\<lparr>fast := (fast t)[nat key := val]\<rparr>
      else case val of
        None \<Rightarrow> t\<lparr>slow := kv_del key (slow t)\<rparr>
      | Some v \<Rightarrow> t\<lparr>slow := mput key v (slow t)\<rparr>)"

definition Table_Del :: "'v table \<Rightarrow> int \<Rightarrow> 'v table" where
  "Table_Del t key =
     (if 0 \<le> key \<and> key < sz t then t\<lparr>fast := (fast t)[nat key := None]\<rparr>
      else t\<lparr>slow := kv_del key (slow t)\<rparr>)"

definition Table_Swap :: "'v table \<Rightarrow> int \<Rightarrow> 'v option \<Rightarrow> 'v option \<times> 'v table" where
  "Table_Swap t key val =
     (if 0 \<le> key \<and> key < sz t then (fast t ! nat key, t\<lparr>fast := (fast t)[nat key := val]\<rparr>)
      else case val of
        None \<Rightarrow> (map_of (slow t) key, t\<lparr>slow := kv_del key (slow t)\<rparr>)
      | Some v \<Rightarrow> (map_of (slow t) key, t\<lparr>slow := mput key v (slow t)\<rparr>))"

section \<open>Histories\<close>

datatype 'v tcall = TGet int | TSet int "'v option" | TDel int | TSwap int "'v option"

fun table_call :: "'v tcall \<Rightarrow> 'v table \<Rightarrow> 'v option \<times> 'v table" where
  "table_call (TGet k) t = (Table_Get t k, t)"
| "table_call (TSet k v) t = (None, Table_Set t k v)"
| "table_call (TDel k) t = (None, Table_Del t k)"
| "table_call (TSwap k v) t = Table_Swap t k v"

text \<open>The specification is one map; storing \<open>nil\<close> removes the key.\<close>

fun map_call :: "'v tcall \<Rightarrow> (int \<rightharpoonup> 'v) \<Rightarrow> 'v option \<times> (int \<rightharpoonup> 'v)" where
  "map_call (TGet k) M = (M k, M)"
| "map_call (TSet k v) M = (None, M(k := v))"
| "map_call (TDel k) M = (None, M(k := None))"
| "map_call (TSwap k v) M = (M k, M(k := v))"

definition table_inv :: "'v table \<Rightarrow> bool" where
  "table_inv t \<longleftrightarrow> 0 < sz t \<and> length (fast t) = nat (sz t) \<and> distinct (map fst (slow t))"

lemma table_store:
  assumes "table_inv t"
  shows "table_inv (Table_Set t k v) \<and> Table_Get (Table_Set t k v) = (Table_Get t)(k := v)"
  using assms
  by (auto simp: table_inv_def Table_Set_def Table_Get_def fun_eq_iff nth_list_update nat_eq_iff
      distinct_mput distinct_kv_del map_of_kv_del split: option.splits)

lemma table_Del_Set: "Table_Del t k = Table_Set t k None"
  by (simp add: Table_Del_def Table_Set_def)

lemma table_Swap_Set: "Table_Swap t k v = (Table_Get t k, Table_Set t k v)"
  by (simp add: Table_Swap_def Table_Set_def Table_Get_def split: option.splits)

lemma table_New_ok:
  fixes n :: int defines "t \<equiv> Table_New n :: 'v table"
  shows "table_inv t \<and> Table_Get t = Map.empty"
  by (auto simp: t_def Table_New_def table_inv_def Table_Get_def DefaultThreshold_def Let_def fun_eq_iff)

definition table_rel :: "nat \<Rightarrow> 'v table \<Rightarrow> (int \<rightharpoonup> 'v) \<Rightarrow> bool" where
  "table_rel b t M \<longleftrightarrow> table_inv t \<and> M = Table_Get t"

interpretation table: simulation table_rel table_call map_call
proof
  fix b t and M :: "int \<rightharpoonup> 'v" and i out t'
  assume "table_rel (Suc b) t M" "table_call i t = (out, t')"
  then show "\<exists>M'. map_call i M = (out, M') \<and> table_rel b t' M'"
    using table_store [of t] by (cases i) (auto simp: table_rel_def table_Del_Set table_Swap_Set)
qed

section \<open>Properties\<close>

text \<open>
  C36. Whatever the threshold, every history of \<open>Get\<close>, \<open>Set\<close>, \<open>Del\<close> and \<open>Swap\<close> calls on a new
  table, with any integers as keys (negative ones too), returns what it returns on one map from
  integers, in which storing \<open>nil\<close> removes the key.
\<close>

theorem itable_refines_map:
  "fst (run table_call calls (Table_New threshold :: 'v table)) = fst (run map_call calls Map.empty)"
proof -
  have "table_rel (length calls + 0) (Table_New threshold :: 'v table) Map.empty"
    using table_New_ok [of threshold, where 'v = 'v] by (auto simp: table_rel_def)
  from table.run_sim [OF this prod.collapse [symmetric]] show ?thesis by (metis fst_conv)
qed

end
