(* ===== verification/Backoff.thy ===== *)
theory Backoff
  imports Words
begin

text \<open>
  Package \<open>backoff\<close> (src/backoff/backoff.go): one iteration of the three-phase back-off. What the
  iteration does to the processor is an output of the model (spin hint, yield, sleep); the counters
  are 32-bit words.
\<close>

section \<open>The back-off counter\<close>

definition DefaultSpinN :: u32 where "DefaultSpinN = 64"
definition DefaultYieldN :: u32 where "DefaultYieldN = 64"
definition DefaultMax :: int where "DefaultMax = 1000000"

record backoff =
  bo_N :: u32
  SpinN :: u32
  YieldN :: u32
  MaxWait :: int

datatype action = SpinHint | Gosched | Sleep int

definition Spin :: "backoff \<Rightarrow> action \<times> backoff" where
  "Spin b =
     (let spinN = (if SpinN b = 0 then DefaultSpinN else SpinN b);
          yieldN = (if YieldN b = 0 then DefaultYieldN else YieldN b);
          maxWait = (if MaxWait b = 0 then DefaultMax else MaxWait b);
          n = bo_N b;
          b = (if n < NOT 0 then b\<lparr>bo_N := n + 1\<rparr> else b)
      in (if n < spinN then SpinHint
          else if n < spinN + yieldN then Gosched
          else
            (let shift = n - spinN - yieldN;
                 shift = (if 10 < shift then 10 else shift);
                 d = swrap64 (push_bit (unat shift) 1000);
                 d = (if maxWait < d then maxWait else d)
             in Sleep d),
          b))"

definition Reset :: "backoff \<Rightarrow> backoff" where "Reset b = b\<lparr>bo_N := 0\<rparr>"

text \<open>The waiting loop of a client: what \<open>k\<close> iterations in a row do.\<close>

fun spins :: "nat \<Rightarrow> backoff \<Rightarrow> action list" where
  "spins 0 b = []"
| "spins (Suc k) b = (case Spin b of (a, b) \<Rightarrow> a # spins k b)"

section \<open>The phases\<close>

text \<open>The documented phases, over unbounded numbers.\<close>

definition phase :: "nat \<Rightarrow> nat \<Rightarrow> int \<Rightarrow> nat \<Rightarrow> action" where
  "phase s y mx i =
     (if i < s then SpinHint else if i < s + y then Gosched
      else Sleep (min (1000 * 2 ^ min 10 (i - s - y)) mx))"

definition spin_count :: "backoff \<Rightarrow> nat" where "spin_count b = (if SpinN b = 0 then 64 else unat (SpinN b))"
definition yield_count :: "backoff \<Rightarrow> nat" where "yield_count b = (if YieldN b = 0 then 64 else unat (YieldN b))"
definition max_wait :: "backoff \<Rightarrow> int" where "max_wait b = (if MaxWait b = 0 then 1000000 else MaxWait b)"

lemma pause_value:
  assumes "n \<le> 10" shows "swrap64 (push_bit n 1000) = 1000 * 2 ^ n"
proof -
  have "(2 :: int) ^ n \<le> 2 ^ 10" using assms by (intro power_increasing) auto
  moreover have "0 \<le> (2 :: int) ^ n" by simp
  ultimately have "- (2 ^ 63) \<le> 1000 * (2 :: int) ^ n \<and> 1000 * (2 :: int) ^ n < 2 ^ 63" by (auto intro: order_trans [of _ 0])
  then show ?thesis by (subst swrap64_id) (simp_all add: push_bit_eq_mult)
qed

lemma unat_sub_sub:
  fixes n s y :: u32
  assumes "unat s + unat y \<le> unat n" shows "unat (n - s - y) = unat n - unat s - unat y"
proof -
  have 1: "s \<le> n" using assms by (simp add: word_le_nat_alt)
  moreover have "y \<le> n - s" using assms 1 by (simp add: word_le_nat_alt unat_sub)
  ultimately show ?thesis by (simp add: unat_sub)
qed

lemma shift_cap:
  fixes x :: u32 shows "unat (if 10 < x then 10 else x) = min 10 (unat x)"
  by (auto simp: word_less_nat_alt min_def)

lemma Spin_phase:
  assumes "spin_count b + yield_count b < 2 ^ 32"
  shows "Spin b = (phase (spin_count b) (yield_count b) (max_wait b) (unat (bo_N b)),
    b\<lparr>bo_N := of_nat (min (unat (bo_N b) + 1) (2 ^ 32 - 1))\<rparr>)"
proof -
  define s y n where "s = (if SpinN b = 0 then DefaultSpinN else SpinN b)" and "y = (if YieldN b = 0 then DefaultYieldN else YieldN b)" and "n = bo_N b"
  have c: "spin_count b = unat s" "yield_count b = unat y" "(if MaxWait b = 0 then DefaultMax else MaxWait b) = max_wait b"
    by (simp_all add: s_def y_def spin_count_def yield_count_def max_wait_def DefaultSpinN_def DefaultYieldN_def DefaultMax_def)
  have sy: "unat (s + y) = unat s + unat y" using assms unfolding c by (simp add: unat_word_ariths)
  have cap: "unat (if 10 < n - s - y then 10 else n - s - y) = min 10 (unat n - unat s - unat y)" if "\<not> n < s + y"
  proof -
    have "unat (n - s - y) = unat n - unat s - unat y"
      using that sy by (intro unat_sub_sub) (simp add: word_less_nat_alt)
    then show ?thesis unfolding shift_cap by (rule arg_cong)
  qed
  have up: "(if n < NOT 0 then b\<lparr>bo_N := n + 1\<rparr> else b) = b\<lparr>bo_N := of_nat (min (unat n + 1) (2 ^ 32 - 1))\<rparr>"
  proof (cases "n = NOT 0")
    case True
    have "unat (NOT 0 :: u32) = 2 ^ 32 - 1" by (simp add: unsigned_minus_1_eq_mask mask_eq_exp_minus_1)
    then have "of_nat (min (unat n + 1) (2 ^ 32 - 1)) = n" using True by (simp add: of_nat_diff)
    then show ?thesis using True by (simp add: n_def)
  next
    case False
    then have "n < NOT 0" by (simp add: word_order.not_eq_extremum)
    moreover then have "unat n < 2 ^ 32 - 1" by (simp add: word_less_nat_alt unsigned_minus_1_eq_mask mask_eq_exp_minus_1)
    ultimately show ?thesis by simp
  qed
  have "fst (Spin b) = phase (unat s) (unat y) (max_wait b) (unat n)"
    using cap by (auto simp: Spin_def Let_def phase_def pause_value c(3) s_def [symmetric] y_def [symmetric] n_def [symmetric]
        word_less_nat_alt sy min_def)
  moreover have "snd (Spin b) = (if n < NOT 0 then b\<lparr>bo_N := n + 1\<rparr> else b)" by (simp add: Spin_def Let_def n_def)
  ultimately show ?thesis using up by (simp only: prod_eq_iff fst_conv snd_conv c n_def [symmetric])
qed

lemma counts_upd [simp]:
  "spin_count (b\<lparr>bo_N := x\<rparr>) = spin_count b" "yield_count (b\<lparr>bo_N := x\<rparr>) = yield_count b" "max_wait (b\<lparr>bo_N := x\<rparr>) = max_wait b"
  by (simp_all add: spin_count_def yield_count_def max_wait_def)

lemma spins_from:
  assumes "spin_count b + yield_count b < 2 ^ 32" "i < 2 ^ 32"
  shows "spins k (b\<lparr>bo_N := of_nat i\<rparr>) =
    map (\<lambda>j. phase (spin_count b) (yield_count b) (max_wait b) (min j (2 ^ 32 - 1))) [i ..< i + k]"
  using assms
proof (induction k arbitrary: i)
  case (Suc k)
  have i: "unat (of_nat i :: u32) = i" using Suc.prems(2) by (simp add: unat_of_nat)
  define j where "j = min (i + 1) (2 ^ 32 - 1)"
  have "Spin (b\<lparr>bo_N := of_nat i\<rparr>) = (phase (spin_count b) (yield_count b) (max_wait b) i, b\<lparr>bo_N := of_nat j\<rparr>)"
    using Spin_phase [of "b\<lparr>bo_N := of_nat i\<rparr>"] Suc.prems(1) by (simp add: i j_def)
  moreover have "map (\<lambda>x. phase s y m (min x (2 ^ 32 - 1))) [j ..< j + k] = map (\<lambda>x. phase s y m (min x (2 ^ 32 - 1))) [i + 1 ..< i + 1 + k]" for s y m
    using Suc.prems(2) by (simp add: list_eq_iff_nth_eq j_def min_def nth_append del: upt_Suc)
  moreover have "j < 2 ^ 32" "min i (2 ^ 32 - 1) = i" using Suc.prems(2) by (auto simp: j_def)
  ultimately show ?case using Suc.IH [of j] Suc.prems(1) by (simp add: upt_conv_Cons del: upt_Suc)
qed simp

section \<open>Properties\<close>

text \<open>
  After \<open>Reset\<close>, the iterations of a wait spin \<open>SpinN\<close> times, yield \<open>YieldN\<close> times, and then
  sleep 1, 2, 4, ... microseconds, at most 1024 and never more than \<open>MaxWait\<close>, for ever: the counter
  saturates and the schedule never starts again. It is enough that the two limits together fit 32 bits.
\<close>

theorem backoff_schedule:
  assumes "spin_count b + yield_count b < 2 ^ 32"
  shows "spins k (Reset b) = map (\<lambda>i. phase (spin_count b) (yield_count b) (max_wait b) (min i (2 ^ 32 - 1))) [0 ..< k]"
  using spins_from [OF assms, of 0 k] by (simp add: Reset_def)

theorem backoff_schedule_witness:
  "spins 5 (Reset \<lparr>bo_N = 9, SpinN = 1, YieldN = 1, MaxWait = 3000\<rparr>) = [SpinHint, Gosched, Sleep 1000, Sleep 2000, Sleep 3000]"
  by (subst backoff_schedule) (simp_all add: spin_count_def yield_count_def max_wait_def phase_def upt_rec)

end
