(* ===== verification/Topn.thy ===== *)
theory Topn
  imports Main "HOL-Library.Multiset"
begin

text \<open>
  Package \<open>topn\<close> (src/topn/topn.go): the best \<open>n\<close> elements of a slice under a caller's order, by
  partial selection when \<open>n\<close> is small and by \<open>slices.SortFunc\<close> otherwise. \<open>SortFunc\<close> does not say how
  it orders equivalent elements, so it is a parameter with its documented contract.
\<close>

section \<open>Selection\<close>

function best_loop :: "('a \<Rightarrow> 'a \<Rightarrow> bool) \<Rightarrow> 'a list \<Rightarrow> nat \<Rightarrow> nat \<Rightarrow> nat" where
  "best_loop lessf dst best j =
     (if j < length dst then best_loop lessf dst (if lessf (dst ! j) (dst ! best) then j else best) (j + 1) else best)"
  by pat_completeness auto
termination by (relation "measure (\<lambda>(lessf, dst, best, j). length dst - j)") auto

definition swap_at :: "nat \<Rightarrow> nat \<Rightarrow> 'a list \<Rightarrow> 'a list" where
  "swap_at i j xs = xs[i := xs ! j, j := xs ! i]"

function select_loop :: "('a \<Rightarrow> 'a \<Rightarrow> bool) \<Rightarrow> nat \<Rightarrow> nat \<Rightarrow> 'a list \<Rightarrow> 'a list" where
  "select_loop lessf n i dst =
     (if i < n then select_loop lessf n (i + 1) (swap_at i (best_loop lessf dst i (i + 1)) dst) else dst)"
  by pat_completeness auto
termination by (relation "measure (\<lambda>(lessf, n, i, dst). n - i)") auto

declare best_loop.simps [simp del] select_loop.simps [simp del]

definition cmp_of :: "('a \<Rightarrow> 'a \<Rightarrow> bool) \<Rightarrow> 'a \<Rightarrow> 'a \<Rightarrow> int" where
  "cmp_of lessf a b = (if lessf a b then - 1 else if lessf b a then 1 else 0)"

text \<open>\<open>None\<close> is the nil slice.\<close>

definition TopN :: "(('a \<Rightarrow> 'a \<Rightarrow> int) \<Rightarrow> 'a list \<Rightarrow> 'a list) \<Rightarrow> 'a list \<Rightarrow> int \<Rightarrow> ('a \<Rightarrow> 'a \<Rightarrow> bool) \<Rightarrow> 'a list option" where
  "TopN SortFunc src n lessf =
     (if n \<le> 0 \<or> length src = 0 then None
      else
        (let n = (if int (length src) < n then int (length src) else n);
             dst = src
         in if int (length dst) div 4 < n
            then Some (take (nat n) (SortFunc (cmp_of lessf) dst))
            else Some (take (nat n) (select_loop lessf (nat n) 0 dst))))"

definition ByKey :: "(('a \<Rightarrow> 'a \<Rightarrow> int) \<Rightarrow> 'a list \<Rightarrow> 'a list) \<Rightarrow> 'a list \<Rightarrow> int \<Rightarrow> ('a \<Rightarrow> 'k :: linorder) \<Rightarrow> 'a list option" where
  "ByKey SortFunc src n key = TopN SortFunc src n (\<lambda>a b. key a > key b)"

section \<open>Specification\<close>

text \<open>What the documentation of \<open>slices.SortFunc\<close> asks of a comparison: a strict weak order.\<close>

definition strict_weak :: "('a \<Rightarrow> 'a \<Rightarrow> bool) \<Rightarrow> bool" where
  "strict_weak lessf \<longleftrightarrow> (\<forall>x y. lessf x y \<longrightarrow> \<not> lessf y x) \<and> (\<forall>x y z. lessf x z \<longrightarrow> lessf x y \<or> lessf y z)"

lemma strict_weak_asym: "strict_weak lessf \<Longrightarrow> lessf x y \<Longrightarrow> \<not> lessf y x"
  by (simp add: strict_weak_def)

lemma strict_weak_split: "strict_weak lessf \<Longrightarrow> lessf x z \<Longrightarrow> lessf x y \<or> lessf y z"
  unfolding strict_weak_def by blast

definition SortFunc_ok :: "(('a \<Rightarrow> 'a \<Rightarrow> int) \<Rightarrow> 'a list \<Rightarrow> 'a list) \<Rightarrow> bool" where
  "SortFunc_ok SortFunc \<longleftrightarrow>
     (\<forall>lessf xs. strict_weak lessf \<longrightarrow>
        mset (SortFunc (cmp_of lessf) xs) = mset xs \<and> sorted_wrt (\<lambda>x y. \<not> lessf y x) (SortFunc (cmp_of lessf) xs))"

text \<open>
  The best elements in order: as many as asked for, none is preceded by a worse one, and what is left
  out contains nothing better.
\<close>

definition best_of :: "('a \<Rightarrow> 'a \<Rightarrow> bool) \<Rightarrow> 'a list \<Rightarrow> nat \<Rightarrow> 'a list \<Rightarrow> bool" where
  "best_of lessf src n out \<longleftrightarrow>
     length out = min n (length src) \<and> sorted_wrt (\<lambda>x y. \<not> lessf y x) out \<and>
     (\<exists>rest. mset src = mset out + mset rest \<and> (\<forall>x \<in> set rest. \<forall>y \<in> set out. \<not> lessf x y))"

lemma best_of_sorted:
  assumes "sorted_wrt (\<lambda>x y. \<not> lessf y x) ys" "mset ys = mset src"
  shows "best_of lessf src n (take n ys)"
proof -
  have "mset src = mset (take n ys) + mset (drop n ys)" using assms(2) by (metis append_take_drop_id mset_append)
  moreover have "sorted_wrt (\<lambda>x y. \<not> lessf y x) (take n ys @ drop n ys)" using assms(1) by simp
  then have "sorted_wrt (\<lambda>x y. \<not> lessf y x) (take n ys)" "\<forall>x \<in> set (drop n ys). \<forall>y \<in> set (take n ys). \<not> lessf x y"
    unfolding sorted_wrt_append by auto
  moreover have "length ys = length src" using assms(2) by (rule mset_eq_length)
  ultimately show ?thesis unfolding best_of_def by (metis length_take min.commute)
qed

section \<open>Selection finds the best\<close>

lemma best_loop_ok:
  assumes "strict_weak lessf" "i \<le> best" "best < j" "j \<le> length dst" "\<forall>k. i \<le> k \<and> k < j \<longrightarrow> \<not> lessf (dst ! k) (dst ! best)"
  shows "i \<le> best_loop lessf dst best j \<and> best_loop lessf dst best j < length dst \<and>
    (\<forall>k. i \<le> k \<and> k < length dst \<longrightarrow> \<not> lessf (dst ! k) (dst ! best_loop lessf dst best j))"
  using assms
proof (induction lessf dst best j rule: best_loop.induct)
  case (1 lessf dst best j)
  show ?case
  proof (cases "j < length dst")
    case True
    let ?b = "if lessf (dst ! j) (dst ! best) then j else best"
    have "\<not> lessf (dst ! k) (dst ! ?b)" if "i \<le> k" "k < j + 1" for k
      using "1.prems"(5) that strict_weak_asym [OF "1.prems"(1), of "dst ! j"] strict_weak_asym [OF "1.prems"(1), of "dst ! best"]
        strict_weak_split [OF "1.prems"(1), of "dst ! k" "dst ! j" "dst ! best"] "1.prems"(2,3)
      by (cases "k = j") auto
    then show ?thesis using "1.IH" [OF True] "1.prems"(1-4) True by (subst (1 2 3) best_loop.simps) auto
  next
    case False
    then have "j = length dst" using "1.prems"(4) by simp
    then show ?thesis using "1.prems" by (simp add: best_loop.simps)
  qed
qed

lemma swap_at_mset: "i < length xs \<Longrightarrow> j < length xs \<Longrightarrow> mset (swap_at i j xs) = mset xs"
  by (simp add: swap_at_def mset_swap)

text \<open>The first \<open>i\<close> positions are settled: in order and not worse than anything after them.\<close>

definition settled :: "('a \<Rightarrow> 'a \<Rightarrow> bool) \<Rightarrow> nat \<Rightarrow> 'a list \<Rightarrow> bool" where
  "settled lessf i xs \<longleftrightarrow> (\<forall>p q. p < i \<and> p < q \<and> q < length xs \<longrightarrow> \<not> lessf (xs ! q) (xs ! p))"

lemma settled_swap:
  assumes "settled lessf i xs" "i \<le> b" "b < length xs" "\<forall>k. i \<le> k \<and> k < length xs \<longrightarrow> \<not> lessf (xs ! k) (xs ! b)"
  shows "settled lessf (Suc i) (swap_at i b xs)"
proof -
  have nth: "swap_at i b xs ! k = xs ! (if k = i then b else if k = b then i else k)" if "k < length xs" for k
    using assms(2,3) that by (auto simp: swap_at_def nth_list_update)
  show ?thesis unfolding settled_def
  proof (intro allI impI)
    fix p q assume pq: "p < Suc i \<and> p < q \<and> q < length (swap_at i b xs)"
    then have q: "q < length xs" by (simp add: swap_at_def)
    show "\<not> lessf (swap_at i b xs ! q) (swap_at i b xs ! p)"
    proof (cases "p = i")
      case True
      then show ?thesis using pq q assms(2-4) nth by auto
    next
      case False
      then have "p < i" using pq by simp
      then show ?thesis using pq q assms(1-3) nth by (simp add: settled_def)
    qed
  qed
qed

lemma select_loop_ok:
  assumes "strict_weak lessf" "settled lessf i dst" "i \<le> n" "n \<le> length dst"
  shows "mset (select_loop lessf n i dst) = mset dst \<and> settled lessf n (select_loop lessf n i dst)"
  using assms
proof (induction lessf n i dst rule: select_loop.induct)
  case (1 lessf n i dst)
  show ?case
  proof (cases "i < n")
    case True
    define b where "b = best_loop lessf dst i (i + 1)"
    have "i \<le> b \<and> b < length dst \<and> (\<forall>k. i \<le> k \<and> k < length dst \<longrightarrow> \<not> lessf (dst ! k) (dst ! b))"
      unfolding b_def using "1.prems" True
      by (intro best_loop_ok) (auto simp: strict_weak_def less_Suc_eq)
    then have "settled lessf (Suc i) (swap_at i b dst)" "mset (swap_at i b dst) = mset dst" "length (swap_at i b dst) = length dst"
      using settled_swap "1.prems"(2) swap_at_mset [of i dst b] by (auto simp: swap_at_def)
    then show ?thesis using "1.IH" [OF True] "1.prems" True by (subst (1 2) select_loop.simps) (auto simp: b_def)
  next
    case False
    then show ?thesis using "1.prems" by (simp add: select_loop.simps)
  qed
qed

lemma best_of_settled:
  assumes "settled lessf n ys" "mset ys = mset src" "n \<le> length src"
  shows "best_of lessf src n (take n ys)"
proof -
  have len: "length ys = length src" using assms(2) by (rule mset_eq_length)
  have "mset src = mset (take n ys) + mset (drop n ys)" using assms(2) by (metis append_take_drop_id mset_append)
  moreover have "sorted_wrt (\<lambda>x y. \<not> lessf y x) (take n ys)"
    using assms(1,3) len by (auto simp: sorted_wrt_iff_nth_less settled_def)
  moreover have "\<forall>x \<in> set (drop n ys). \<forall>y \<in> set (take n ys). \<not> lessf x y"
    using assms(1,3) len by (auto simp: in_set_conv_nth settled_def)
  ultimately show ?thesis unfolding best_of_def using len by auto
qed

section \<open>Both algorithms\<close>

lemma TopN_best:
  assumes "SortFunc_ok SortFunc" and "strict_weak lessf"
  shows "case TopN SortFunc src n lessf of None \<Rightarrow> n \<le> 0 \<or> src = [] | Some out \<Rightarrow> 0 < n \<and> src \<noteq> [] \<and> best_of lessf src (nat n) out"
proof (cases "n \<le> 0 \<or> src = []")
  case False
  define m where "m = nat (if int (length src) < n then int (length src) else n)"
  have m: "m = min (nat n) (length src)" using False by (auto simp: m_def)
  let ?s = "SortFunc (cmp_of lessf) src" and ?t = "select_loop lessf m 0 src"
  have "best_of lessf src m (take m ?s)" "best_of lessf src m (take m ?t)"
    by (rule best_of_sorted, use assms in \<open>simp_all add: SortFunc_ok_def\<close>)
      (rule best_of_settled, use select_loop_ok [OF assms(2), of 0 src m] in \<open>simp_all add: settled_def m\<close>)
  then have "best_of lessf src (nat n) (take m ?s)" "best_of lessf src (nat n) (take m ?t)"
    by (auto simp: best_of_def m)
  then show ?thesis using False by (auto simp: TopN_def Let_def m_def)
qed (auto simp: TopN_def)

lemma ByKey_best:
  fixes key :: "'a \<Rightarrow> 'k :: linorder"
  assumes "SortFunc_ok SortFunc"
  shows "case ByKey SortFunc src n key of None \<Rightarrow> n \<le> 0 \<or> src = [] | Some out \<Rightarrow> 0 < n \<and> src \<noteq> [] \<and> best_of (\<lambda>a b. key a > key b) src (nat n) out"
  unfolding ByKey_def by (rule TopN_best [OF assms]) (auto simp: strict_weak_def)

section \<open>Properties\<close>

text \<open>
  C34. For every strict weak order and every \<open>SortFunc\<close> that keeps its contract, \<open>TopN\<close> returns nil
  exactly when nothing is asked for or there is nothing, and otherwise the best \<open>n\<close> elements in order
  (all of them when there are fewer), whichever of its two algorithms runs. \<open>ByKey\<close> does so for the
  descending order of the keys.
\<close>

theorem TopN_selects_best:
  fixes key :: "'a \<Rightarrow> 'k :: linorder"
  assumes "SortFunc_ok SortFunc" and "strict_weak lessf"
  shows "(case TopN SortFunc src n lessf of None \<Rightarrow> n \<le> 0 \<or> src = [] | Some out \<Rightarrow> 0 < n \<and> src \<noteq> [] \<and> best_of lessf src (nat n) out) \<and>
    (case ByKey SortFunc src n key of None \<Rightarrow> n \<le> 0 \<or> src = [] | Some out \<Rightarrow> 0 < n \<and> src \<noteq> [] \<and> best_of (\<lambda>a b. key a > key b) src (nat n) out)"
  using TopN_best [OF assms] ByKey_best [OF assms(1)] by blast

text \<open>A sort that keeps the contract: insertion of one element after the other.\<close>

fun insert_cmp :: "('a \<Rightarrow> 'a \<Rightarrow> int) \<Rightarrow> 'a \<Rightarrow> 'a list \<Rightarrow> 'a list" where
  "insert_cmp cmp x [] = [x]"
| "insert_cmp cmp x (y # ys) = (if cmp y x < 0 then y # insert_cmp cmp x ys else x # y # ys)"

definition insertion_sort :: "('a \<Rightarrow> 'a \<Rightarrow> int) \<Rightarrow> 'a list \<Rightarrow> 'a list" where
  "insertion_sort cmp xs = foldr (insert_cmp cmp) xs []"

lemma insert_cmp_mset [simp]: "mset (insert_cmp cmp x ys) = add_mset x (mset ys)"
  by (induction ys) auto

lemma insert_cmp_set: "set (insert_cmp cmp x ys) = insert x (set ys)"
  by (induction ys) auto

lemma insert_cmp_sorted:
  assumes "strict_weak lessf" "sorted_wrt (\<lambda>x y. \<not> lessf y x) ys"
  shows "sorted_wrt (\<lambda>x y. \<not> lessf y x) (insert_cmp (cmp_of lessf) x ys)"
  using assms(2)
proof (induction ys)
  case (Cons y ys)
  have "\<not> lessf z x" if "\<not> lessf y x" "z \<in> set ys" for z
    using that Cons.prems strict_weak_split [OF assms(1), of z x y] by auto
  moreover have "cmp_of lessf y x < 0 \<longleftrightarrow> lessf y x" by (simp add: cmp_of_def)
  ultimately show ?case using Cons strict_weak_asym [OF assms(1), of y x] by (auto simp: insert_cmp_set)
qed simp

lemma insertion_sort_ok: "SortFunc_ok insertion_sort"
proof -
  have "mset (insertion_sort (cmp_of lessf) xs) = mset xs \<and> sorted_wrt (\<lambda>x y. \<not> lessf y x) (insertion_sort (cmp_of lessf) xs)"
    if "strict_weak lessf" for lessf :: "'a \<Rightarrow> 'a \<Rightarrow> bool" and xs
    unfolding insertion_sort_def by (induction xs) (auto simp: insert_cmp_sorted [OF that])
  then show ?thesis by (simp add: SortFunc_ok_def)
qed

theorem TopN_selects_best_witness:
  "best_of (\<lambda>a b. b < a) [3, 9, 1, 7, 2, 8, 4, 5 :: nat] 2 [9, 8]"
proof -
  have "strict_weak (\<lambda>a b. b < (a :: nat))" by (auto simp: strict_weak_def)
  moreover have "TopN insertion_sort [3, 9, 1, 7, 2, 8, 4, 5 :: nat] 2 (\<lambda>a b. b < a) = Some [9, 8]"
    by code_simp
  ultimately show ?thesis
    using TopN_selects_best [OF insertion_sort_ok, where lessf = "\<lambda>a b. b < (a :: nat)" and src = "[3, 9, 1, 7, 2, 8, 4, 5]" and n = 2 and key = id] by simp
qed

end
