(* ===== verification/Floats.thy ===== *)
theory Floats
  imports Complex_Main
begin

text \<open>
  The \<open>float64\<close> arithmetic of \<open>hll\<close> and \<open>sketch\<close>. A value is the real number it stands for and every
  operation of the source is the operation on reals followed by \<open>fl\<close>, the rounding of IEEE 754 to 53
  significant bits with ties to even. Overflow and subnormal numbers are left out of \<open>fl\<close>: the values of
  the two packages that matter lie between \<open>2 ^ (-100)\<close> and \<open>2 ^ 100\<close>. The logarithm of package \<open>math\<close> is
  not correctly rounded and no accuracy is documented for the assembly versions; it is a parameter with
  a relative error of at most \<open>2 ^ (-50)\<close>.
\<close>

section \<open>Rounding\<close>

definition round_even :: "real \<Rightarrow> int" where
  "round_even y = (let f = \<lfloor>y\<rfloor> in if frac y < 1 / 2 \<or> (frac y = 1 / 2 \<and> even f) then f else f + 1)"

definition ulp :: "real \<Rightarrow> real" where "ulp x = 2 powr of_int (\<lfloor>log 2 \<bar>x\<bar>\<rfloor> - 52)"

definition fl :: "real \<Rightarrow> real" where
  "fl x = (if x = 0 then 0 else of_int (round_even (x / ulp x)) * ulp x)"

definition eps :: real where "eps = 1 / 2 ^ 53"

lemma round_even_err: "\<bar>of_int (round_even y) - y\<bar> \<le> 1 / 2"
  unfolding round_even_def Let_def frac_def by (auto simp: abs_le_iff)

lemma ulp_le: "x \<noteq> 0 \<Longrightarrow> ulp x \<le> \<bar>x\<bar> * (2 * eps)"
proof -
  assume "x \<noteq> 0"
  then have "2 powr \<lfloor>log 2 \<bar>x\<bar>\<rfloor> \<le> \<bar>x\<bar>"
    by (metis log_le_iff of_int_floor_le one_less_numeral_iff powr_le_cancel_iff powr_log_cancel semiring_norm(76)
        zero_less_abs_iff zero_less_numeral zero_neq_one less_numeral_extra(4) order_less_irrefl)
  moreover have "ulp x = 2 powr \<lfloor>log 2 \<bar>x\<bar>\<rfloor> * (2 * eps)"
    by (simp add: ulp_def eps_def powr_diff)
  ultimately show ?thesis by (simp add: eps_def)
qed

lemma ulp_pos: "0 < ulp x" by (simp add: ulp_def)

text \<open>The relative error of one operation.\<close>

lemma fl_err: "\<bar>fl x - x\<bar> \<le> \<bar>x\<bar> * eps"
proof (cases "x = 0")
  case False
  have "fl x - x = (of_int (round_even (x / ulp x)) - x / ulp x) * ulp x"
    using False ulp_pos [of x] by (simp add: fl_def left_diff_distrib)
  then have "\<bar>fl x - x\<bar> = \<bar>of_int (round_even (x / ulp x)) - x / ulp x\<bar> * ulp x"
    using ulp_pos [of x] by (simp add: abs_mult)
  also have "\<dots> \<le> 1 / 2 * ulp x"
    by (rule mult_right_mono [OF round_even_err less_imp_le [OF ulp_pos]])
  also have "\<dots> \<le> \<bar>x\<bar> * eps" using ulp_le [OF False] by simp
  finally show ?thesis .
qed (simp add: fl_def)

lemma fl_bounds:
  assumes "0 \<le> x" shows "x * (1 - eps) \<le> fl x" "fl x \<le> x * (1 + eps)"
  using fl_err [of x] assms by (simp_all add: abs_le_iff algebra_simps)

lemma fl_nonneg: "0 \<le> x \<Longrightarrow> 0 \<le> fl x"
proof -
  assume "0 \<le> x"
  then have "0 \<le> x * (1 - eps)" by (simp add: eps_def)
  with fl_bounds(1) [OF \<open>0 \<le> x\<close>] show ?thesis by linarith
qed

lemma fl_pos: "0 < x \<Longrightarrow> 0 < fl x"
proof -
  assume "0 < x"
  then have "0 < x * (1 - eps)" by (simp add: eps_def)
  with fl_bounds(1) [of x] \<open>0 < x\<close> show ?thesis by linarith
qed

text \<open>Integers of at most 53 bits are exact.\<close>

lemma fl_int: 
  assumes "\<bar>k\<bar> < 2 ^ 53" shows "fl (of_int k) = of_int k"
proof (cases "k = 0")
  case False
  let ?e = "\<lfloor>log 2 \<bar>of_int k :: real\<bar>\<rfloor>"
  have "log 2 \<bar>of_int k :: real\<bar> < 53"
  proof -
    have "real_of_int \<bar>k\<bar> < 2 ^ 53" using assms by (metis of_int_less_numeral_power_cancel_iff of_int_abs)
    then show ?thesis using False by (simp add: log_less_iff powr_numeral)
  qed
  then have e: "?e \<le> 52" "0 \<le> ?e" using False by (auto simp: floor_less_iff le_log_iff)
  have "ulp (of_int k) = 1 / 2 ^ nat (52 - ?e)"
    using e by (simp add: ulp_def powr_diff powr_realpow [symmetric] powr_minus_divide [symmetric])
  then have "of_int k / ulp (of_int k) = (of_int (k * 2 ^ nat (52 - ?e)) :: real)" by simp
  then have "round_even (of_int k / ulp (of_int k)) = k * 2 ^ nat (52 - ?e)"
    by (simp only: round_even_def Let_def floor_of_int frac_of_int) simp
  then show ?thesis using False \<open>ulp (of_int k) = _\<close> by (simp add: fl_def)
qed (simp add: fl_def)

section \<open>The logarithm\<close>

definition log_ok :: "(real \<Rightarrow> real) \<Rightarrow> bool" where
  "log_ok lg \<longleftrightarrow> (\<forall>x>0. \<bar>lg x - ln x\<bar> \<le> \<bar>ln x\<bar> / 2 ^ 50)"

lemma log_ok_ln: "log_ok ln" by (simp add: log_ok_def)

lemma ln_fl:
  assumes "0 < y" shows "\<bar>ln (fl y) - ln y\<bar> \<le> 1 / 2 ^ 52"
proof -
  have f: "y * (1 - eps) \<le> fl y" "fl y \<le> y * (1 + eps)" by (rule fl_bounds; use assms in simp)+
  have "ln (y * (1 - eps)) \<le> ln (fl y)" using f(1) assms fl_pos [OF assms] by (subst ln_le_cancel_iff) (simp_all add: eps_def)
  moreover have "ln (y * (1 - eps)) = ln y + ln (1 - eps)" using assms by (subst ln_mult) (simp_all add: eps_def)
  moreover have "- eps - 2 * eps\<^sup>2 \<le> ln (1 - eps)" by (rule ln_one_minus_pos_lower_bound) (simp_all add: eps_def)
  moreover have "ln (fl y) \<le> ln (y * (1 + eps))" using f(2) assms fl_pos [OF assms] by (subst ln_le_cancel_iff) (simp_all add: eps_def)
  moreover have "ln (y * (1 + eps)) = ln y + ln (1 + eps)" using assms by (subst ln_mult) (simp_all add: eps_def)
  moreover have "ln (1 + eps) \<le> eps" by (rule ln_add_one_self_le_self) (simp add: eps_def)
  moreover have "eps + 2 * eps\<^sup>2 \<le> 1 / 2 ^ 52" "eps \<le> 1 / 2 ^ 52" by (simp_all add: eps_def power2_eq_square)
  ultimately show ?thesis by linarith
qed

text \<open>The logarithm of a rounded argument.\<close>

lemma lg_fl:
  assumes "log_ok lg" "0 < y" "\<bar>ln y\<bar> \<le> b" shows "\<bar>lg (fl y) - ln y\<bar> \<le> (b + 2) / 2 ^ 50"
proof -
  note l = ln_fl [OF assms(2)]
  have "1 / 2 ^ 52 \<le> (1 :: real)" by simp
  then have "\<bar>ln (fl y)\<bar> \<le> b + 1" using l assms(3) by linarith
  then have "\<bar>ln (fl y)\<bar> / 2 ^ 50 \<le> (b + 1) / 2 ^ 50" by (rule divide_right_mono) simp
  moreover have "\<bar>lg (fl y) - ln (fl y)\<bar> \<le> \<bar>ln (fl y)\<bar> / 2 ^ 50" using assms(1) fl_pos [OF assms(2)] by (simp add: log_ok_def)
  moreover have "(b + 1) / 2 ^ 50 + 1 / 2 ^ 52 \<le> (b + 2) / 2 ^ 50" by (simp add: field_simps)
  ultimately show ?thesis using l by linarith
qed

lemma ln_le_exponent:
  assumes "0 < y" "y \<le> 2 ^ n" shows "ln y \<le> real n"
proof -
  have "ln y \<le> ln (2 ^ n)" using assms by (subst ln_le_cancel_iff) simp_all
  also have "\<dots> = n * ln 2" by (simp add: ln_realpow)
  also have "\<dots> \<le> real n * 1" using ln_add_one_self_le_self [of 1] by (intro mult_left_mono) simp_all
  finally show ?thesis by simp
qed

lemma ln_inverse_power:
  assumes "1 / 2 ^ n \<le> y" shows "ln (1 / y) \<le> real n"
proof -
  have pos: "0 < y" using assms by (rule less_le_trans [rotated]) simp
  then show ?thesis using assms by (intro ln_le_exponent) (simp_all add: field_simps)
qed

section \<open>Conversions to integers\<close>

text \<open>A conversion of a value outside the range of the integer type has no specified result.\<close>

definition to_uint64 :: "real \<Rightarrow> nat option" where
  "to_uint64 x = (if -1 < x \<and> x < 2 ^ 64 then Some (nat \<lfloor>x\<rfloor>) else None)"

definition to_int :: "real \<Rightarrow> int option" where
  "to_int x = (if - (2 ^ 63) - 1 < x \<and> x < 2 ^ 63 then Some (if 0 \<le> x then \<lfloor>x\<rfloor> else \<lceil>x\<rceil>) else None)"

lemma to_int_of_int:
  assumes "- (2 ^ 63) \<le> k" "k < 2 ^ 63" shows "to_int (of_int k) = Some k"
proof -
  have "(of_int k :: real) < of_int (2 ^ 63)" "(of_int (- (2 ^ 63) - 1) :: real) < of_int k"
    using assms by (simp_all only: of_int_less_iff)
  then show ?thesis by (simp add: to_int_def)
qed

lemma to_uint64_floor:
  assumes "of_nat n \<le> x" "x < of_nat n + 1" "n < 2 ^ 64" shows "to_uint64 x = Some n"
proof -
  have "\<lfloor>x\<rfloor> = int n" using assms(1,2) by (simp add: floor_eq_iff)
  moreover have "real n + 1 \<le> 2 ^ 64"
  proof -
    have "real (n + 1) \<le> real (2 ^ 64)" using assms(3) by (simp only: of_nat_le_iff Suc_eq_plus1 [symmetric] Suc_le_eq)
    then show ?thesis by simp
  qed
  moreover have "(0 :: real) \<le> of_nat n" by simp
  ultimately show ?thesis using assms(1,2) unfolding to_uint64_def by auto
qed

end
