(* ===== verification/Sketch.thy ===== *)
theory Sketch
  imports Words Floats "HOL-Library.Multiset"
begin

text \<open>
  Package \<open>sketch\<close> (src/sketch/sketch.go): the count-min sketch. Counters are \<open>int64\<close> and wrap.
  The keys are hashed by \<open>hash.Sum64Map\<close> and \<open>hash.Sum64sMap\<close> (src/hash/hash_maphash.go), both
  of which give the standard library's maphash of the bytes under the process' seed: the
  parameter \<open>mh\<close>.
\<close>

section \<open>Sketch\<close>

definition Sum64Map :: "(bytes \<Rightarrow> u64) \<Rightarrow> bytes \<Rightarrow> u64" where "Sum64Map mh b = mh b"
definition Sum64sMap :: "(bytes \<Rightarrow> u64) \<Rightarrow> bytes \<Rightarrow> u64" where "Sum64sMap mh s = mh s"

definition defaultWidth :: int where "defaultWidth = 2048"
definition defaultDepth :: int where "defaultDepth = 4"

record cms =
  cms_w :: int
  cms_d :: int
  table :: "int list list"
  seeds :: "u64 list"
  total :: int

definition NewSized :: "int \<Rightarrow> int \<Rightarrow> cms" where
  "NewSized w d =
     (let w = (if w < 1 then defaultWidth else w); d = (if d < 1 then defaultDepth else d)
      in \<lparr>cms_w = w, cms_d = d, table = map (\<lambda>i. replicate (nat w) 0) [0..<nat d],
          seeds = map (\<lambda>i. of_nat i * 0x9E3779B97F4A7C15 + 0xBF58476D1CE4E5B9) [0..<nat d], total = 0\<rparr>)"

definition CMS_New :: cms where "CMS_New = NewSized defaultWidth defaultDepth"

text \<open>
  The width and the depth for two error parameters. \<open>None\<close>: a quotient or a logarithm that is not a
  finite number, or a size that does not fit an \<open>int\<close>; the conversion has no specified result then.
\<close>

definition NewFromError :: "(real \<Rightarrow> real) \<Rightarrow> real \<Rightarrow> real \<Rightarrow> cms option" where
  "NewFromError lg epsilon delta =
     (if epsilon = 0 \<or> delta \<le> 0 then None
      else case (to_int (of_int \<lceil>fl (fl (exp 1) / epsilon)\<rceil>), to_int (of_int \<lceil>lg (fl (1 / delta))\<rceil>)) of
             (Some w, Some d) \<Rightarrow> Some (NewSized w d)
           | _ \<Rightarrow> None)"

definition hashIdx :: "cms \<Rightarrow> u64 \<Rightarrow> nat \<Rightarrow> nat" where
  "hashIdx c h i =
     (let h1 = h AND 0xFFFFFFFF; h2 = drop_bit 32 h XOR (seeds c ! i)
      in unat ((h1 + of_nat (i + 1) * h2) mod of_int (cms_w c)))"

definition bump :: "u64 \<Rightarrow> int \<Rightarrow> nat \<Rightarrow> cms \<Rightarrow> cms" where
  "bump h cnt i c =
     (let idx = hashIdx c h i
      in c\<lparr>table := (table c)[i := (table c ! i)[idx := swrap64 (table c ! i ! idx + cnt)]]\<rparr>)"

definition CMS_Add :: "(bytes \<Rightarrow> u64) \<Rightarrow> bytes \<Rightarrow> int \<Rightarrow> cms \<Rightarrow> cms" where
  "CMS_Add mh key cnt c =
     (let h = Sum64Map mh key; c = c\<lparr>total := swrap64 (total c + cnt)\<rparr>
      in fold (bump h cnt) [0..<nat (cms_d c)] c)"

definition CMS_AddStr :: "(bytes \<Rightarrow> u64) \<Rightarrow> bytes \<Rightarrow> cms \<Rightarrow> cms" where
  "CMS_AddStr mh key c =
     (let h = Sum64sMap mh key; c = c\<lparr>total := swrap64 (total c + 1)\<rparr>
      in fold (bump h 1) [0..<nat (cms_d c)] c)"

definition min_row :: "cms \<Rightarrow> u64 \<Rightarrow> nat \<Rightarrow> int \<Rightarrow> int" where
  "min_row c h i minVal = (let idx = hashIdx c h i in if table c ! i ! idx < minVal then table c ! i ! idx else minVal)"

definition CMS_Count :: "(bytes \<Rightarrow> u64) \<Rightarrow> cms \<Rightarrow> bytes \<Rightarrow> int" where
  "CMS_Count mh c key =
     (let h = Sum64Map mh key; minVal = fold (min_row c h) [0..<nat (cms_d c)] (2 ^ 63 - 1)
      in if minVal < 0 then 0 else minVal)"



definition CMS_Reset :: "cms \<Rightarrow> cms" where
  "CMS_Reset c = c\<lparr>table := map (\<lambda>row. map (\<lambda>_. 0) row) (table c), total := 0\<rparr>"

definition merge_cell :: "cms \<Rightarrow> nat \<Rightarrow> nat \<Rightarrow> cms \<Rightarrow> cms" where
  "merge_cell c' i j c = c\<lparr>table := (table c)[i := (table c ! i)[j := swrap64 (table c ! i ! j + table c' ! i ! j)]]\<rparr>"

text \<open>\<open>None\<close> is the panic on sketches of different shapes.\<close>

definition CMS_Merge :: "cms \<Rightarrow> cms \<Rightarrow> cms option" where
  "CMS_Merge c c' =
     (if cms_w c \<noteq> cms_w c' \<or> cms_d c \<noteq> cms_d c' then None
      else
        (let w = cms_w c; d = cms_d c;
             c = fold (\<lambda>i c. fold (\<lambda>j c. merge_cell c' i j c) [0..<nat w] c) [0..<nat d] c
         in Some (c\<lparr>total := swrap64 (total c + total c')\<rparr>)))"

section \<open>What the counters hold\<close>

text \<open>The index of a row depends on the shape only.\<close>

definition row_hash :: "int \<Rightarrow> u64 \<Rightarrow> nat \<Rightarrow> nat" where
  "row_hash w h i =
     unat (((h AND 0xFFFFFFFF) + of_nat (i + 1) * (drop_bit 32 h XOR (of_nat i * 0x9E3779B97F4A7C15 + 0xBF58476D1CE4E5B9))) mod of_int w)"

type_synonym stream = "(bytes \<times> int) list"

definition cell_sum :: "(bytes \<Rightarrow> u64) \<Rightarrow> int \<Rightarrow> nat \<Rightarrow> nat \<Rightarrow> stream \<Rightarrow> int" where
  "cell_sum mh w i j s = sum_list (map (\<lambda>(k, n). if row_hash w (mh k) i = j then n else 0) s)"

definition true_count :: "bytes \<Rightarrow> stream \<Rightarrow> int" where
  "true_count key s = sum_list (map (\<lambda>(k, n). if k = key then n else 0) s)"

text \<open>The sketch of shape \<open>w * d\<close> of a stream.\<close>

definition sketch_of :: "(bytes \<Rightarrow> u64) \<Rightarrow> int \<Rightarrow> int \<Rightarrow> stream \<Rightarrow> cms" where
  "sketch_of mh w d s =
     \<lparr>cms_w = w, cms_d = d, table = map (\<lambda>i. map (\<lambda>j. swrap64 (cell_sum mh w i j s)) [0..<nat w]) [0..<nat d],
      seeds = map (\<lambda>i. of_nat i * 0x9E3779B97F4A7C15 + 0xBF58476D1CE4E5B9) [0..<nat d],
      total = swrap64 (sum_list (map snd s))\<rparr>"

lemma sketch_sel [simp]:
  "cms_w (sketch_of mh w d s) = w" "cms_d (sketch_of mh w d s) = d" "length (table (sketch_of mh w d s)) = nat d"
  "total (sketch_of mh w d s) = swrap64 (sum_list (map snd s))"
  "i < nat d \<Longrightarrow> j < nat w \<Longrightarrow> table (sketch_of mh w d s) ! i ! j = swrap64 (cell_sum mh w i j s)"
  "i < nat d \<Longrightarrow> length (table (sketch_of mh w d s) ! i) = nat w"
  by (simp_all add: sketch_of_def)

lemma hashIdx_sketch: "i < nat d \<Longrightarrow> seeds c = seeds (sketch_of mh w d s) \<Longrightarrow> cms_w c = w \<Longrightarrow> hashIdx c h i = row_hash w h i"
  by (simp add: hashIdx_def row_hash_def sketch_of_def Let_def)

lemma row_hash_less:
  assumes "0 < w" "w < 2 ^ 63" shows "row_hash w h i < nat w"
proof -
  have "uint (of_int w :: u64) = w" using assms by (simp add: uint_word_of_int)
  then have "unat (of_int w :: u64) = nat w" by (metis unat_eq_nat_uint)
  then show ?thesis using assms by (simp add: row_hash_def unat_mod)
qed

lemma swrap64_0: "swrap64 0 = 0" by (simp add: swrap64_def)

lemma NewSized_sketch: "NewSized w d = sketch_of mh (if w < 1 then defaultWidth else w) (if d < 1 then defaultDepth else d) []"
  by (simp add: NewSized_def sketch_of_def cell_sum_def swrap64_0 Let_def map_replicate_const)

lemma CMS_Reset_sketch: "CMS_Reset (sketch_of mh w d s) = sketch_of mh w d []"
  by (simp add: CMS_Reset_def sketch_of_def cell_sum_def swrap64_0 comp_def)

text \<open>Rows \<open>0 .. n - 1\<close> are updated one after the other.\<close>

lemma bump_rows:
  assumes "0 < w" "w < 2 ^ 63" "n \<le> nat d" and tot: "c = (sketch_of mh w d s)\<lparr>total := t\<rparr>"
  shows "fold (bump (mh key) cnt) [0..<n] c = c\<lparr>table :=
    map (\<lambda>i. map (\<lambda>j. swrap64 (cell_sum mh w i j (if i < n then s @ [(key, cnt)] else s))) [0..<nat w]) [0..<nat d]\<rparr>"
  using assms(3)
proof (induction n)
  case 0
  then show ?case by (simp add: tot sketch_of_def)
next
  case (Suc n)
  let ?T = "\<lambda>n. map (\<lambda>i. map (\<lambda>j. swrap64 (cell_sum mh w i j (if i < n then s @ [(key, cnt)] else s))) [0..<nat w]) [0..<nat d]"
  have idx: "hashIdx (c\<lparr>table := ?T n\<rparr>) (mh key) n = row_hash w (mh key) n"
    using Suc.prems by (intro hashIdx_sketch [of _ d _ mh w s]) (simp_all add: tot sketch_of_def)
  have less: "row_hash w (mh key) n < nat w" using assms by (intro row_hash_less)
  have "?T (Suc n) = (?T n)[n := (?T n ! n)[row_hash w (mh key) n := swrap64 (?T n ! n ! row_hash w (mh key) n + cnt)]]"
    using Suc.prems less
    by (intro nth_equalityI) (auto simp: nth_list_update cell_sum_def less_Suc_eq swrap64_add_left intro!: nth_equalityI)
  then have "bump (mh key) cnt n (c\<lparr>table := ?T n\<rparr>) = c\<lparr>table := ?T (Suc n)\<rparr>"
    by (simp add: bump_def idx Let_def)
  then show ?case using Suc by simp
qed

lemma CMS_Add_sketch:
  assumes "0 < w" "w < 2 ^ 63"
  shows "CMS_Add mh key cnt (sketch_of mh w d s) = sketch_of mh w d (s @ [(key, cnt)])"
  using bump_rows [OF assms order_refl refl, where key = key and cnt = cnt and mh = mh and d = d and s = s
      and t = "swrap64 (total (sketch_of mh w d s) + cnt)"]
  by (simp add: CMS_Add_def Let_def Sum64Map_def) (simp add: sketch_of_def swrap64_add_left)

lemma CMS_AddStr_Add: "CMS_AddStr mh key c = CMS_Add mh key 1 c"
  by (simp add: CMS_AddStr_def CMS_Add_def Sum64Map_def Sum64sMap_def)


section \<open>Merging\<close>

lemma merge_row:
  assumes "i < length (table c)" "table c ! i = row" "length row = W" "n \<le> W"
  shows "fold (\<lambda>j c. merge_cell c' i j c) [0..<n] c =
    c\<lparr>table := (table c)[i := map (\<lambda>j. if j < n then swrap64 (row ! j + table c' ! i ! j) else row ! j) [0..<W]]\<rparr>"
  using assms(4)
proof (induction n)
  case 0
  have "map (\<lambda>j. row ! j) [0..<W] = row" using assms(3) by (metis map_nth)
  then show ?case using assms(2) by auto
next
  case (Suc n)
  then show ?case using assms(1-3)
    by (auto simp: merge_cell_def nth_list_update less_Suc_eq intro!: arg_cong [where f = "\<lambda>r. c\<lparr>table := (table c)[i := r]\<rparr>"] nth_equalityI)
qed

lemma swrap64_add_right: "swrap64 (x + swrap64 y) = swrap64 (x + y)"
  using swrap64_add_left [of y x] by (simp add: add.commute)

lemma merge_rows:
  fixes s s' :: stream and w d :: int and mh :: "bytes \<Rightarrow> u64"
  defines "T \<equiv> \<lambda>n. map (\<lambda>i. map (\<lambda>j. swrap64 (cell_sum mh w i j (if i < n then s @ s' else s))) [0..<nat w]) [0..<nat d]"
  assumes "n \<le> nat d" and c: "c = sketch_of mh w d s"
  shows "fold (\<lambda>i c. fold (\<lambda>j c. merge_cell (sketch_of mh w d s') i j c) [0..<nat w] c) [0..<n] c = c\<lparr>table := T n\<rparr>"
  using assms(2)
proof (induction n)
  case 0
  then show ?case by (simp add: c T_def sketch_of_def)
next
  case (Suc n)
  have len: "n < length (T n)" "length (T n ! n) = nat w" using Suc.prems by (simp_all add: T_def)
  have "T (Suc n) = (T n)[n := map (\<lambda>j. if j < nat w then swrap64 (T n ! n ! j + table (sketch_of mh w d s') ! n ! j) else T n ! n ! j) [0..<nat w]]"
    using Suc.prems
    by (intro nth_equalityI) (auto simp: T_def nth_list_update cell_sum_def less_Suc_eq swrap64_add_left swrap64_add_right)
  moreover have "fold (\<lambda>j c. merge_cell (sketch_of mh w d s') n j c) [0..<nat w] (c\<lparr>table := T n\<rparr>) =
    c\<lparr>table := (T n)[n := map (\<lambda>j. if j < nat w then swrap64 (T n ! n ! j + table (sketch_of mh w d s') ! n ! j) else T n ! n ! j) [0..<nat w]]\<rparr>"
    using merge_row [of n "c\<lparr>table := T n\<rparr>" "T n ! n" "nat w" "nat w" "sketch_of mh w d s'"] len by simp
  ultimately show ?case using Suc by simp
qed

lemma CMS_Merge_sketch: "CMS_Merge (sketch_of mh w d s) (sketch_of mh w d s') = Some (sketch_of mh w d (s @ s'))"
  using merge_rows [OF order_refl refl, where w = w and d = d and mh = mh and s = s and s' = s']
  by (simp add: CMS_Merge_def Let_def) (simp add: sketch_of_def swrap64_add_left swrap64_add_right)

section \<open>Estimates\<close>

lemma fold_min_row:
  "fold (min_row c h) is m = fold min (map (\<lambda>i. table c ! i ! hashIdx c h i) is) m"
  by (induction "is" arbitrary: m) (auto simp: min_row_def Let_def min_def)

lemma fold_min_le: "x \<in> set xs \<Longrightarrow> fold min xs m \<le> (x :: int)"
  by (metis Min.set_eq_fold List.finite_set Min_le list.set_intros(2))

lemma le_fold_min: "b \<le> m \<Longrightarrow> \<forall>x \<in> set xs. b \<le> x \<Longrightarrow> b \<le> fold min xs (m :: int)"
  by (induction xs arbitrary: m) auto

lemma sums_nonneg:
  fixes mh :: "bytes \<Rightarrow> u64"
  assumes "\<forall>(k, n) \<in> set s. 0 \<le> n"
  shows "true_count key s \<le> cell_sum mh w i (row_hash w (mh key) i) s" "cell_sum mh w i j s \<le> sum_list (map snd s)"
    "0 \<le> true_count key s"
  using assms by (induction s) (auto simp: true_count_def cell_sum_def)

lemma sum_no_collision:
  assumes "\<forall>(k, n) \<in> set s. k \<noteq> key \<longrightarrow> row_hash w (mh k) i \<noteq> row_hash w (mh key) i"
  shows "cell_sum mh w i (row_hash w (mh key) i) s = true_count key s"
  using assms by (induction s) (auto simp: true_count_def cell_sum_def)

lemma Count_bounds:
  assumes w: "0 < w" "w < 2 ^ 63" and d: "0 < d"
    and nn: "\<forall>(k, n) \<in> set s. 0 \<le> n" and sum: "sum_list (map snd s) < 2 ^ 63"
  shows "true_count key s \<le> CMS_Count mh (sketch_of mh w d s) key"
    "CMS_Count mh (sketch_of mh w d s) key \<le> sum_list (map snd s)"
    "i < nat d \<Longrightarrow> \<forall>(k, n) \<in> set s. k \<noteq> key \<longrightarrow> row_hash w (mh k) i \<noteq> row_hash w (mh key) i \<Longrightarrow>
      CMS_Count mh (sketch_of mh w d s) key = true_count key s"
    "i < nat d \<Longrightarrow> CMS_Count mh (sketch_of mh w d s) key \<le> cell_sum mh w i (row_hash w (mh key) i) s"
proof -
  let ?c = "sketch_of mh w d s" and ?f = "\<lambda>i. cell_sum mh w i (row_hash w (mh key) i) s"
  let ?m = "fold min (map ?f [0..<nat d]) (2 ^ 63 - 1)"
  have f: "true_count key s \<le> ?f i" "?f i \<le> sum_list (map snd s)" for i by (rule sums_nonneg [OF nn])+
  have t0: "0 \<le> true_count key s" by (rule sums_nonneg [OF nn])
  have cell: "table ?c ! i ! hashIdx ?c (mh key) i = ?f i" if "i < nat d" for i
  proof -
    have "hashIdx ?c (mh key) i = row_hash w (mh key) i" using that by (intro hashIdx_sketch) auto
    moreover have "swrap64 (?f i) = ?f i"
      using f [of i] t0 sum by (intro swrap64_id) auto
    ultimately show ?thesis using that row_hash_less [OF w] by simp
  qed
  then have "map (\<lambda>i. table ?c ! i ! hashIdx ?c (mh key) i) [0..<nat d] = map ?f [0..<nat d]" by (intro map_cong) auto
  then have m: "fold (min_row ?c (mh key)) [0..<nat d] (2 ^ 63 - 1) = ?m" unfolding fold_min_row by (rule arg_cong)
  have "true_count key s \<le> sum_list (map snd s)"
    using f [of 0] by linarith
  then have low: "true_count key s \<le> ?m" using f sum by (intro le_fold_min) auto
  then have c: "CMS_Count mh ?c key = ?m" using t0 m by (simp add: CMS_Count_def Sum64Map_def Let_def)
  then show "true_count key s \<le> CMS_Count mh ?c key" using low by simp
  have le: "?m \<le> ?f i" if "i < nat d" for i using that by (intro fold_min_le) auto
  show "CMS_Count mh ?c key \<le> ?f i" if "i < nat d" using c le [OF that] by simp
  show "CMS_Count mh ?c key \<le> sum_list (map snd s)"
    using c le [of 0] f(2) [of 0] d by simp
  show "CMS_Count mh ?c key = true_count key s"
    if "i < nat d" "\<forall>(k, n) \<in> set s. k \<noteq> key \<longrightarrow> row_hash w (mh k) i \<noteq> row_hash w (mh key) i"
    using c low le [OF that(1)] sum_no_collision [OF that(2)] by simp
qed

text \<open>The columns of a row in which the keys of a stream together exceed \<open>t\<close>.\<close>

definition heavy_columns :: "(bytes \<Rightarrow> u64) \<Rightarrow> int \<Rightarrow> nat \<Rightarrow> real \<Rightarrow> stream \<Rightarrow> nat set" where
  "heavy_columns mh w i t s = {j. j < nat w \<and> t < of_int (cell_sum mh w i j s)}"

definition other_keys :: "bytes \<Rightarrow> stream \<Rightarrow> stream" where "other_keys key s = filter (\<lambda>(k, n). k \<noteq> key) s"

lemma cell_sum_split:
  "cell_sum mh w i (row_hash w (mh key) i) s = true_count key s + cell_sum mh w i (row_hash w (mh key) i) (other_keys key s)"
  by (induction s) (auto simp: cell_sum_def true_count_def other_keys_def)

lemma row_total: 
  assumes "\<forall>(k, n) \<in> set s. 0 \<le> n" "finite J"
  shows "(\<Sum>j\<in>J. cell_sum mh w i j s) \<le> sum_list (map snd s)"
  using assms(1)
proof (induction s)
  case (Cons x s)
  obtain k n where x: "x = (k, n)" by force
  have "(\<Sum>j\<in>J. if row_hash w (mh k) i = j then n else 0) \<le> n"
    using Cons.prems assms(2) x by simp
  moreover have "(\<Sum>j\<in>J. cell_sum mh w i j (x # s)) =
    (\<Sum>j\<in>J. if row_hash w (mh k) i = j then n else 0) + (\<Sum>j\<in>J. cell_sum mh w i j s)"
    by (simp add: cell_sum_def x sum.distrib)
  ultimately show ?case using Cons x by simp
qed (simp add: cell_sum_def)

lemma few_heavy_columns:
  assumes nn: "\<forall>(k, n) \<in> set s. 0 \<le> n" and "0 < r" and tot: "sum_list (map snd s) \<le> N"
  shows "r * card (heavy_columns mh w i (r * of_int N) s) \<le> 1"
proof -
  let ?H = "heavy_columns mh w i (r * of_int N) s"
  have fin: "finite ?H" by (simp add: heavy_columns_def)
  have "0 \<le> sum_list (map snd s)" using nn by (induction s) auto
  then have N: "0 \<le> N" using tot by simp
  have "of_int (\<Sum>j\<in>?H. cell_sum mh w i j s) \<le> (of_int N :: real)"
    using row_total [OF nn fin, where w = w and mh = mh and i = i] tot by (simp del: of_int_sum)
  moreover have "(\<Sum>j\<in>?H. r * of_int N) \<le> of_int (\<Sum>j\<in>?H. cell_sum mh w i j s)"
    unfolding of_int_sum by (rule sum_mono) (simp add: heavy_columns_def)
  ultimately have le: "r * card ?H * of_int N \<le> of_int N" by (simp add: mult.commute mult.left_commute)
  show ?thesis
  proof (cases "N = 0")
    case True
    then have "cell_sum mh w i j s \<le> 0" for j using sums_nonneg(2) [OF nn, of mh w i j] tot by simp
    then have "?H = {}" using True by (auto simp: heavy_columns_def not_less)
    then show ?thesis by simp
  next
    case False
    then have "0 < (of_int N :: real)" using N by simp
    then show ?thesis using le by (simp add: mult_le_cancel_right1)
  qed
qed

section \<open>The parameters of the errors\<close>

lemma error_width:
  fixes \<epsilon> :: real
  assumes e: "1 / 2 ^ 50 \<le> \<epsilon>" "\<epsilon> < 1"
  defines "q \<equiv> fl (fl (exp 1) / \<epsilon>)"
  shows "exp 1 / \<epsilon> \<le> (1 + 1 / 2 ^ 50) * q" "to_int (of_int \<lceil>q\<rceil>) = Some \<lceil>q\<rceil>" "0 < \<lceil>q\<rceil>" "\<lceil>q\<rceil> < 2 ^ 63"
proof -
  have pos: "0 < \<epsilon>" using e(1) by (rule less_le_trans [rotated]) simp
  have E: "exp 1 * (1 - eps) \<le> fl (exp 1)" "fl (exp 1) \<le> exp 1 * (1 + eps)" by (rule fl_bounds; simp)+
  have "exp 1 / \<epsilon> * (1 - eps) \<le> fl (exp 1) / \<epsilon>" "fl (exp 1) / \<epsilon> \<le> exp 1 / \<epsilon> * (1 + eps)"
    using divide_right_mono [OF E(1), of \<epsilon>] divide_right_mono [OF E(2), of \<epsilon>] pos by (simp_all add: mult.commute)
  moreover have nn: "0 \<le> fl (exp 1) / \<epsilon>" using pos fl_nonneg [of "exp 1"] by simp
  ultimately have q: "exp 1 / \<epsilon> * (1 - eps) * (1 - eps) \<le> q" "q \<le> exp 1 / \<epsilon> * (1 + eps) * (1 + eps)"
    using fl_bounds [OF nn] unfolding q_def by (auto simp: eps_def elim!: order_trans [rotated] order_trans)
  have e0: "0 < exp 1 / \<epsilon>" using pos by simp
  then have "exp 1 / \<epsilon> * 1 \<le> exp 1 / \<epsilon> * ((1 + 1 / 2 ^ 50) * ((1 - eps) * (1 - eps)))"
    by (intro mult_left_mono) (simp_all add: eps_def)
  also have "\<dots> \<le> (1 + 1 / 2 ^ 50) * q"
    using mult_left_mono [OF q(1), of "1 + 1 / 2 ^ 50"] by (simp add: mult_ac)
  finally show w: "exp 1 / \<epsilon> \<le> (1 + 1 / 2 ^ 50) * q" by simp
  then have "0 < (1 + 1 / 2 ^ 50) * q" using e0 by linarith
  then have "0 < q" by (rule zero_less_mult_pos) simp
  then show p: "0 < \<lceil>q\<rceil>" by simp
  have "exp 1 \<le> (3 :: real)" by (rule exp_le)
  moreover have "1 \<le> \<epsilon> * 2 ^ 50" using e(1) by (simp add: field_simps)
  ultimately have "exp 1 \<le> 3 * (\<epsilon> * 2 ^ 50)" by linarith
  then have "exp 1 / \<epsilon> \<le> 3 * 2 ^ 50" using pos by (simp add: field_simps)
  then have "exp 1 / \<epsilon> * ((1 + eps) * (1 + eps)) \<le> 3 * 2 ^ 50 * 2"
    using e0 by (intro mult_mono) (simp_all add: eps_def)
  then have "q \<le> of_int (3 * 2 ^ 50 * 2)" using q(2) by (simp add: mult.assoc)
  then have "\<lceil>q\<rceil> \<le> 3 * 2 ^ 50 * 2" by (rule ceiling_le)
  then show less: "\<lceil>q\<rceil> < 2 ^ 63" by simp
  show "to_int (of_int \<lceil>q\<rceil>) = Some \<lceil>q\<rceil>" using p less by (intro to_int_of_int) simp_all
qed

lemma error_depth:
  fixes \<delta> :: real
  assumes lg: "log_ok lg" and d: "1 / 2 ^ 1000 \<le> \<delta>" "\<delta> < 1"
  defines "p \<equiv> lg (fl (1 / \<delta>))"
  shows "ln (1 / \<delta>) - 1 / 2 ^ 39 \<le> p" "to_int (of_int \<lceil>p\<rceil>) = Some \<lceil>p\<rceil>" "\<lceil>p\<rceil> \<le> 1002"
proof -
  have pos: "0 < \<delta>" using d(1) by (rule less_le_trans [rotated]) simp
  have "ln (1 / \<delta>) \<le> real 1000" by (rule ln_inverse_power [OF d(1)])
  then have L: "\<bar>ln (1 / \<delta>)\<bar> \<le> 1000" using d(2) pos by simp
  have "\<bar>p - ln (1 / \<delta>)\<bar> \<le> (1000 + 2) / 2 ^ 50" unfolding p_def using pos by (intro lg_fl [OF lg _ L]) simp
  moreover have "(1000 + 2) / 2 ^ 50 \<le> 1 / (2 ^ 39 :: real)" "1 / 2 ^ 39 \<le> (1 :: real)" by simp_all
  ultimately have "\<bar>p - ln (1 / \<delta>)\<bar> \<le> 1 / 2 ^ 39" "p \<le> 1002" "- 1002 \<le> p" using L by linarith+
  then show "ln (1 / \<delta>) - 1 / 2 ^ 39 \<le> p" by linarith
  show le: "\<lceil>p\<rceil> \<le> 1002" using \<open>p \<le> 1002\<close> by (simp add: ceiling_le_iff)
  have "- 1002 \<le> \<lceil>p\<rceil>" using \<open>- 1002 \<le> p\<close> by (simp add: le_ceiling_iff)
  then show "to_int (of_int \<lceil>p\<rceil>) = Some \<lceil>p\<rceil>" using le by (intro to_int_of_int) simp_all
qed

lemma exp_depth:
  assumes "0 < \<delta>" "ln (1 / \<delta>) - 1 / 2 ^ 39 \<le> of_int n"
  shows "exp (- of_int n) \<le> \<delta> * (1 + 1 / 2 ^ 30 :: real)"
proof -
  have "exp (- of_int n) \<le> exp (ln \<delta> + 1 / 2 ^ 39 :: real)" using assms by (simp add: ln_div)
  also have "\<dots> = \<delta> * exp (1 / 2 ^ 39)" using assms(1) by (simp add: exp_add)
  also have "\<dots> \<le> \<delta> * (1 + 1 / 2 ^ 30)"
  proof (rule mult_left_mono)
    have "exp (1 / 2 ^ 39 :: real) \<le> 1 + 1 / 2 ^ 39 + (1 / 2 ^ 39)\<^sup>2" by (rule exp_bound) simp_all
    then show "exp (1 / 2 ^ 39 :: real) \<le> 1 + 1 / 2 ^ 30" by (simp add: power2_eq_square)
  qed (use assms(1) in simp)
  finally show ?thesis .
qed

lemma true_count_le: "\<forall>(k, n) \<in> set s. 0 \<le> n \<Longrightarrow> sum_list (map snd (other_keys key s)) \<le> sum_list (map snd s)"
  by (induction s) (auto simp: other_keys_def)

section \<open>Properties\<close>

text \<open>The sketch after adding the keys of a stream to a new one.\<close>

definition sketched :: "(bytes \<Rightarrow> u64) \<Rightarrow> int \<Rightarrow> int \<Rightarrow> stream \<Rightarrow> cms" where
  "sketched mh w d s = fold (\<lambda>(k, n) c. CMS_Add mh k n c) s (NewSized w d)"

definition width :: "int \<Rightarrow> int" where "width w = (if w < 1 then defaultWidth else w)"
definition depth :: "int \<Rightarrow> int" where "depth d = (if d < 1 then defaultDepth else d)"

lemma sketched_eq:
  assumes "w < 2 ^ 63" shows "sketched mh w d s = sketch_of mh (width w) (depth d) s"
proof -
  have w: "0 < width w" "width w < 2 ^ 63" using assms by (auto simp: width_def defaultWidth_def)
  have "fold (\<lambda>(k, n) c. CMS_Add mh k n c) s (sketch_of mh (width w) (depth d) s0) = sketch_of mh (width w) (depth d) (s0 @ s)" for s0
    by (induction s arbitrary: s0) (auto simp: CMS_Add_sketch [OF w])
  from this [of "[]"] show ?thesis by (simp add: sketched_def NewSized_sketch [of w d mh] width_def depth_def)
qed



text \<open>
  A sketch depends only on the multiset of the counts added: the order does not matter, merging the
  sketches of two streams gives the sketch of both together, a reset sketch is a new one, \<open>AddStr\<close> is
  \<open>Add\<close> of one, and sketches of different shapes are not merged.
\<close>

theorem cms_merge_is_union:
  assumes "w < 2 ^ 63"
  shows "CMS_Merge (sketched mh w d s) (sketched mh w d s') = Some (sketched mh w d (s @ s')) \<and>
    CMS_Reset (sketched mh w d s) = NewSized w d \<and>
    CMS_AddStr mh key (sketched mh w d s) = sketched mh w d (s @ [(key, 1)]) \<and>
    (mset s = mset s' \<longrightarrow> sketched mh w d s = sketched mh w d s') \<and>
    (width w \<noteq> width w' \<or> depth d \<noteq> depth d' \<longrightarrow> CMS_Merge (sketched mh w d s) (NewSized w' d') = None)"
proof -
  have "sketch_of mh W D s = sketch_of mh W D s'" if "mset s = mset s'" for W D
  proof -
    have "sum_list (map f s) = sum_list (map f s')" for f :: "bytes \<times> int \<Rightarrow> int"
      using that by (metis sum_mset_sum_list mset_map)
    then show ?thesis by (simp add: sketch_of_def cell_sum_def)
  qed
  moreover have "width w < 2 ^ 63" "0 < width w" using assms by (auto simp: width_def defaultWidth_def)
  ultimately show ?thesis
    by (auto simp: sketched_eq [OF assms] CMS_Merge_sketch CMS_Reset_sketch CMS_AddStr_Add CMS_Add_sketch NewSized_sketch
        width_def [symmetric] depth_def [symmetric]) (simp_all add: CMS_Merge_def NewSized_sketch [where mh = mh] width_def [symmetric] depth_def [symmetric])
qed

theorem cms_merge_is_union_witness:
  "CMS_Merge (sketched (\<lambda>k. of_nat (length k)) 5 2 [([1], 2)]) (sketched (\<lambda>k. of_nat (length k)) 5 2 [([2, 3], 7)]) = Some (sketched (\<lambda>k. of_nat (length k)) 5 2 [([1], 2), ([2, 3], 7)])"
  using cms_merge_is_union [where w = 5 and s = "[([1], 2)]" and s' = "[([2, 3], 7)]" and d = 2 and mh = "\<lambda>k. of_nat (length k)"] by simp

text \<open>The placements of a key, one column for every row, that put it into a heavy column of all rows.\<close>

definition bad_placements :: "(bytes \<Rightarrow> u64) \<Rightarrow> int \<Rightarrow> int \<Rightarrow> real \<Rightarrow> stream \<Rightarrow> nat list set" where
  "bad_placements mh w d t s = {p. length p = nat d \<and> (\<forall>i < nat d. p ! i \<in> heavy_columns mh w i t s)}"

lemma card_placements:
  assumes "\<And>i. finite (H i)" "\<And>i. real (card (H i)) \<le> c"
  shows "finite {p. length p = n \<and> (\<forall>i < n. p ! i \<in> H i)} \<and> real (card {p. length p = n \<and> (\<forall>i < n. p ! i \<in> H i)}) \<le> c ^ n"
  using assms
proof (induction n arbitrary: H)
  case 0
  have "{p. length p = 0 \<and> (\<forall>i < 0. p ! i \<in> H i)} = {[]}" by auto
  then show ?case by simp
next
  case (Suc n)
  let ?P = "{p. length p = n \<and> (\<forall>i < n. p ! i \<in> H (Suc i))}"
  have IH: "finite ?P" "real (card ?P) \<le> c ^ n" using Suc.IH [of "\<lambda>i. H (Suc i)"] Suc.prems by auto
  have eq: "{p. length p = Suc n \<and> (\<forall>i < Suc n. p ! i \<in> H i)} = (\<lambda>(x, p). x # p) ` (H 0 \<times> ?P)"
  proof (intro subset_antisym subsetI)
    fix p assume p: "p \<in> {p. length p = Suc n \<and> (\<forall>i < Suc n. p ! i \<in> H i)}"
    then obtain x q where "p = x # q" by (cases p) auto
    moreover have "x \<in> H 0" "q \<in> ?P" using p \<open>p = x # q\<close> by (auto dest: spec [of _ "Suc _"])
    ultimately show "p \<in> (\<lambda>(x, p). x # p) ` (H 0 \<times> ?P)" by auto
  qed (auto simp: nth_Cons split: nat.splits)
  have "inj_on (\<lambda>(x, p). x # p) (H 0 \<times> ?P)" by (auto simp: inj_on_def)
  then have "card {p. length p = Suc n \<and> (\<forall>i < Suc n. p ! i \<in> H i)} = card (H 0) * card ?P"
    unfolding eq by (simp add: card_image card_cartesian_product)
  moreover have "real (card (H 0)) * real (card ?P) \<le> c * c ^ n"
    using Suc.prems(2) [of 0] IH(2) by (intro mult_mono) (auto intro: order_trans [of 0 "real (card (H 0))"])
  moreover have "finite ((\<lambda>(x, p). x # p) ` (H 0 \<times> ?P))" using IH(1) Suc.prems(1) by simp
  ultimately show ?case unfolding eq by simp
qed

lemma slack_power:
  assumes "n \<le> 1002" shows "(1 + 1 / 2 ^ 50 :: real) ^ n * (1 + 1 / 2 ^ 30) \<le> 1 + 1 / 2 ^ 29"
proof -
  have "(1 + 1 / 2 ^ 50 :: real) ^ n \<le> exp (1 / 2 ^ 50) ^ n" by (rule power_mono) (use exp_ge_add_one_self [of "1 / 2 ^ 50 :: real"] in auto)
  also have "\<dots> = exp (real n / 2 ^ 50)" by (simp add: exp_of_nat_mult [symmetric])
  also have "\<dots> \<le> exp (1 / 2 ^ 39)" using assms by simp
  also have "\<dots> \<le> 1 + 1 / 2 ^ 39 + (1 / 2 ^ 39)\<^sup>2" by (rule exp_bound) simp_all
  also have "\<dots> \<le> 1 + 1 / 2 ^ 38" by (simp add: power2_eq_square)
  finally have "(1 + 1 / 2 ^ 50 :: real) ^ n * (1 + 1 / 2 ^ 30) \<le> (1 + 1 / 2 ^ 38) * (1 + 1 / 2 ^ 30)" by (rule mult_right_mono) simp
  also have "\<dots> \<le> 1 + 1 / 2 ^ 29" by simp
  finally show ?thesis .
qed

text \<open>
  C29. \<open>NewFromError\<close>, computed in \<open>float64\<close> with any accurate logarithm: the width is at least \<open>e / \<epsilon>\<close> and
  the depth at least \<open>ln (1 / \<delta>)\<close>, up to the rounding of the arithmetic. For a stream of counts of at least
  0, an estimate is more than \<open>\<epsilon>\<close> times the total above the true count of its key only if the key is placed,
  in every row, in a column that is heavy with other keys. Of all \<open>w ^ d\<close> ways to place the key, at most
  the share \<open>\<delta> * (1 + 2 ^ -29)\<close> has this property, whatever the stream and the hash are. This is the guarantee
  of the comment for a key whose columns are uniform and independent; that the columns computed by \<open>hashIdx\<close>
  are so for a random seed is not claimed.
\<close>

theorem cms_error_parameters:
  fixes \<epsilon> \<delta> :: real
  assumes lg: "log_ok lg" and e: "1 / 2 ^ 50 \<le> \<epsilon>" "\<epsilon> < 1" and d: "1 / 2 ^ 1000 \<le> \<delta>" "\<delta> < 1"
    and nn: "\<forall>(k, n) \<in> set s. 0 \<le> n" and sum: "sum_list (map snd s) < 2 ^ 63"
  shows "\<exists>w d. NewFromError lg \<epsilon> \<delta> = Some (NewSized w d) \<and> 0 < w \<and> w < 2 ^ 63 \<and>
    exp 1 / \<epsilon> \<le> (1 + 1 / 2 ^ 50) * of_int w \<and> ln (1 / \<delta>) - 1 / 2 ^ 39 \<le> of_int (depth d) \<and>
    (true_count key s + \<epsilon> * of_int (sum_list (map snd s)) < CMS_Count mh (sketched mh w d s) key \<longrightarrow>
      map (row_hash w (mh key)) [0..<nat (depth d)] \<in>
        bad_placements mh w (depth d) (\<epsilon> * of_int (sum_list (map snd s))) (other_keys key s)) \<and>
    card (bad_placements mh w (depth d) (\<epsilon> * of_int (sum_list (map snd s))) (other_keys key s)) \<le>
      \<delta> * (1 + 1 / 2 ^ 29) * of_int w ^ nat (depth d)"
proof (intro exI conjI impI)
  let ?w = "\<lceil>fl (fl (exp 1) / \<epsilon>)\<rceil>" and ?d = "\<lceil>lg (fl (1 / \<delta>))\<rceil>" and ?N = "sum_list (map snd s)"
  let ?H = "\<lambda>i. heavy_columns mh ?w i (\<epsilon> * of_int ?N) (other_keys key s)" and ?n = "nat (depth ?d)"
  have pos: "0 < \<epsilon>" "0 < \<delta>" by (rule less_le_trans [OF _ e(1)] less_le_trans [OF _ d(1)]; simp)+
  note W = error_width [OF e] and D = error_depth [OF lg d]
  show "NewFromError lg \<epsilon> \<delta> = Some (NewSized ?w ?d)" using pos by (simp add: NewFromError_def W(2) D(2))
  show w: "0 < ?w" "?w < 2 ^ 63" by (fact W)+
  have "?d \<le> depth ?d" "0 < depth ?d" "depth ?d \<le> 1002" using D(3) by (auto simp: depth_def defaultDepth_def)
  then have n: "of_int (depth ?d) = real ?n" "?n \<le> 1002" and "(of_int ?d :: real) \<le> of_int (depth ?d)"
    by (simp_all only: of_int_le_iff)
  then show deep: "ln (1 / \<delta>) - 1 / 2 ^ 39 \<le> of_int (depth ?d)" using D(1) by linarith
  have "(1 + 1 / 2 ^ 50) * fl (fl (exp 1) / \<epsilon>) \<le> (1 + 1 / 2 ^ 50) * of_int ?w" by (rule mult_left_mono) simp_all
  with W(1) show wide: "exp 1 / \<epsilon> \<le> (1 + 1 / 2 ^ 50) * of_int ?w" by linarith
  have few: "real (card (?H i)) \<le> (1 + 1 / 2 ^ 50) * of_int ?w * exp (- 1)" for i
  proof -
    have "\<forall>(k, n) \<in> set (other_keys key s). 0 \<le> n" using nn by (auto simp: other_keys_def)
    then have "\<epsilon> * card (?H i) \<le> 1" by (rule few_heavy_columns [OF _ pos(1) true_count_le [OF nn]])
    then have "card (?H i) * exp 1 \<le> exp 1 / \<epsilon>" using pos by (simp add: field_simps mult_left_le)
    then have "card (?H i) * exp 1 \<le> (1 + 1 / 2 ^ 50) * of_int ?w" using wide by linarith
    then have "card (?H i) * exp 1 * exp (- 1) \<le> (1 + 1 / 2 ^ 50) * of_int ?w * exp (- 1)" by (rule mult_right_mono) simp
    then show ?thesis by (simp add: mult.assoc mult_exp_exp)
  qed
  have "real (card (bad_placements mh ?w (depth ?d) (\<epsilon> * of_int ?N) (other_keys key s))) \<le> ((1 + 1 / 2 ^ 50) * of_int ?w * exp (- 1)) ^ ?n"
    unfolding bad_placements_def by (rule card_placements [THEN conjunct2]) (use few in \<open>auto simp: heavy_columns_def\<close>)
  also have "\<dots> = (1 + 1 / 2 ^ 50) ^ ?n * exp (- of_int (depth ?d)) * of_int ?w ^ ?n"
    by (simp only: power_mult_distrib exp_of_nat_mult [symmetric] n(1)) simp
  also have "\<dots> \<le> (1 + 1 / 2 ^ 50) ^ ?n * (\<delta> * (1 + 1 / 2 ^ 30)) * of_int ?w ^ ?n"
    using exp_depth [OF pos(2) deep] w(1) by (intro mult_right_mono mult_left_mono) auto
  also have "\<dots> = \<delta> * ((1 + 1 / 2 ^ 50) ^ ?n * (1 + 1 / 2 ^ 30)) * of_int ?w ^ ?n" by (simp only: mult.assoc mult.left_commute)
  also have "\<dots> \<le> \<delta> * (1 + 1 / 2 ^ 29) * of_int ?w ^ ?n"
    using slack_power [OF n(2)] pos(2) w(1) by (intro mult_right_mono mult_left_mono) auto
  finally show "card (bad_placements mh ?w (depth ?d) (\<epsilon> * of_int ?N) (other_keys key s)) \<le> \<delta> * (1 + 1 / 2 ^ 29) * of_int ?w ^ ?n" .
  show "map (row_hash ?w (mh key)) [0..<?n] \<in> bad_placements mh ?w (depth ?d) (\<epsilon> * of_int ?N) (other_keys key s)"
    if big: "true_count key s + \<epsilon> * of_int ?N < CMS_Count mh (sketched mh ?w ?d s) key"
  proof -
    have "row_hash ?w (mh key) i \<in> ?H i" if i: "i < ?n" for i
    proof -
      have "width ?w = ?w" using w by (simp add: width_def)
      then have "CMS_Count mh (sketched mh ?w ?d s) key \<le> cell_sum mh ?w i (row_hash ?w (mh key) i) s"
        using Count_bounds(4) [OF w _ nn sum i] i by (simp add: sketched_eq [OF w(2)])
      moreover have "real_of_int (cell_sum mh ?w i (row_hash ?w (mh key) i) s) =
        true_count key s + cell_sum mh ?w i (row_hash ?w (mh key) i) (other_keys key s)" by (subst cell_sum_split) simp
      ultimately have "\<epsilon> * of_int ?N < of_int (cell_sum mh ?w i (row_hash ?w (mh key) i) (other_keys key s))"
        using big by linarith
      then show ?thesis using row_hash_less [OF w] by (simp add: heavy_columns_def)
    qed
    then show ?thesis by (simp add: bad_placements_def)
  qed
qed

theorem cms_error_parameters_witness:
  "\<exists>w d. NewFromError ln (1 / 100) (1 / 20) = Some (NewSized w d) \<and> 0 < w \<and>
     real (card (bad_placements (\<lambda>k. of_nat (length k)) w (depth d) (1 / 100 * of_int 9) [([2, 3], 7)])) \<le> 1 / 20 * (1 + 1 / 2 ^ 29) * of_int w ^ nat (depth d)"
proof -
  have o: "other_keys [1] [([1], 2), ([2, 3], 7)] = [([2, 3], 7)]" and n: "sum_list (map snd [([1 :: byte], 2), ([2, 3], 7)]) = (9 :: int)"
    by (simp_all add: other_keys_def)
  note t = cms_error_parameters [where mh = "\<lambda>k. of_nat (length k)" and key = "[1]" and s = "[([1], 2), ([2, 3], 7)]"
      and \<epsilon> = "1 / 100" and \<delta> = "1 / 20", OF log_ok_ln, unfolded o n]
  have "1 / 2 ^ 50 \<le> (1 / 100 :: real)" "1 / 100 < (1 :: real)" "1 / 2 ^ 1000 \<le> (1 / 20 :: real)" "1 / 20 < (1 :: real)"
    "\<forall>(k, n) \<in> set [([1 :: byte], 2), ([2, 3], 7)]. 0 \<le> (n :: int)" "(9 :: int) < 2 ^ 63" by simp_all
  from t [OF this] show ?thesis by (elim exE conjE) (intro exI conjI)
qed

end
