(* ===== verification/Hll.thy ===== *)
theory Hll
  imports Words Floats
begin

text \<open>
  Package \<open>hll\<close> (src/hll/hll.go): HyperLogLog. The hash of a key (\<open>hash.Sum64Map\<close>, maphash) is a
  parameter. The estimate \<open>Count\<close> is computed in the rounded arithmetic of theory \<open>Floats\<close>.
\<close>

section \<open>Registers\<close>

definition precision :: nat where "precision = 14"
definition m_regs :: nat where "m_regs = 2 ^ precision"

type_synonym regs = "byte list"

definition Sketch_New :: regs where "Sketch_New = replicate m_regs 0"

definition rho_of :: "u64 \<Rightarrow> byte" where
  "rho_of h = (let w = drop_bit precision h in if w = 0 then of_nat (64 - precision) + 1 else of_nat (ctz w) + 1)"

definition reg_index :: "u64 \<Rightarrow> nat" where "reg_index h = unat (h AND (of_nat m_regs - 1))"

definition addHash :: "u64 \<Rightarrow> regs \<Rightarrow> regs" where
  "addHash h s = (let idx = reg_index h; rho = rho_of h in if s ! idx < rho then s[idx := rho] else s)"

definition Hll_Add :: "(bytes \<Rightarrow> u64) \<Rightarrow> bytes \<Rightarrow> regs \<Rightarrow> regs" where "Hll_Add mh data s = addHash (mh data) s"
definition Hll_AddStr :: "(bytes \<Rightarrow> u64) \<Rightarrow> bytes \<Rightarrow> regs \<Rightarrow> regs" where "Hll_AddStr mh str s = addHash (mh str) s"

definition merge_reg :: "regs \<Rightarrow> nat \<Rightarrow> regs \<Rightarrow> regs" where
  "merge_reg s' i s = (if s ! i < s' ! i then s[i := s' ! i] else s)"

definition Hll_Merge :: "regs \<Rightarrow> regs \<Rightarrow> regs" where "Hll_Merge s s' = fold (merge_reg s') [0..<length s] s"

definition Hll_Reset :: "regs \<Rightarrow> regs" where "Hll_Reset s = map (\<lambda>_. 0) s"

section \<open>The estimate\<close>

definition alphaM :: real where "alphaM = fl (7213 / 10000 / (1 + 1079 / 1000 / of_nat m_regs))"

definition count_reg :: "byte \<Rightarrow> real \<times> nat \<Rightarrow> real \<times> nat" where
  "count_reg r acc =
     (let (sum, zeros) = acc; zeros = (if r = 0 then zeros + 1 else zeros)
      in (fl (sum + fl (1 / 2 ^ unat r)), zeros))"

text \<open>
  A register of 64 or more would make the shifted divisor 0, the sum infinite and the first estimate 0.
  \<open>None\<close> is an estimate outside the range of \<open>uint64\<close>, whose conversion has no specified result.
\<close>

definition Hll_Count :: "(real \<Rightarrow> real) \<Rightarrow> regs \<Rightarrow> nat option" where
  "Hll_Count lg s =
     (let (sum, zeros) = fold count_reg s (0, 0);
          est = (if \<exists>r \<in> set s. 64 \<le> unat r then 0 else fl (fl (alphaM * of_nat m_regs * of_nat m_regs) / sum));
          est = (if est \<le> 5 / 2 * of_nat m_regs \<and> zeros > 0
                 then fl (of_nat m_regs * lg (fl (of_nat m_regs / of_nat zeros))) else est)
      in to_uint64 (fl (est + 1 / 2)))"

section \<open>What a register holds\<close>

definition reg_of :: "u64 set \<Rightarrow> nat \<Rightarrow> byte" where
  "reg_of H i = Max (insert 0 (rho_of ` {h \<in> H. reg_index h = i}))"

definition regs_of :: "u64 set \<Rightarrow> regs" where "regs_of H = map (reg_of H) [0..<m_regs]"

lemma reg_index_less: "reg_index h < m_regs"
proof -
  have "of_nat m_regs - 1 = (2 ^ 14 - 1 :: u64)" by (simp add: m_regs_def precision_def)
  then show ?thesis unfolding reg_index_def m_regs_def precision_def by (metis unat_and_mask mod_less_divisor zero_less_numeral zero_less_power)
qed

lemma reg_of_insert:
  assumes "finite H"
  shows "reg_of (insert h H) i = (if reg_index h = i then max (reg_of H i) (rho_of h) else reg_of H i)"
proof -
  let ?A = "rho_of ` {x \<in> H. reg_index x = i}"
  have "finite (insert 0 ?A)" using assms by simp
  moreover have "insert 0 (rho_of ` {x \<in> insert h H. reg_index x = i}) = (if reg_index h = i then insert (rho_of h) (insert 0 ?A) else insert 0 ?A)"
    by auto
  ultimately show ?thesis by (simp add: reg_of_def max.commute del: Max_insert) (simp add: Max_insert max.commute)
qed

lemma reg_of_union:
  assumes "finite H" "finite H'" shows "reg_of (H \<union> H') i = max (reg_of H i) (reg_of H' i)"
proof -
  have "insert 0 (rho_of ` {h \<in> H \<union> H'. reg_index h = i}) =
    insert 0 (rho_of ` {h \<in> H. reg_index h = i}) \<union> insert 0 (rho_of ` {h \<in> H'. reg_index h = i})" by auto
  then show ?thesis unfolding reg_of_def using assms by (simp only: Max_Un finite_insert finite_imageI finite_Collect_conjI) (subst Max_Un, auto)
qed

lemma addHash_regs:
  assumes "finite H" shows "addHash h (regs_of H) = regs_of (insert h H)"
  using reg_index_less [of h]
  by (intro nth_equalityI) (auto simp: addHash_def regs_of_def reg_of_insert [OF assms] Let_def nth_list_update max_def split: if_splits)

lemma merge_regs_from:
  "n \<le> length s \<Longrightarrow> length (fold (merge_reg s') [0..<n] s) = length s \<and>
    (\<forall>i < length s. fold (merge_reg s') [0..<n] s ! i = (if i < n then max (s ! i) (s' ! i) else s ! i))"
  by (induction n) (auto simp: merge_reg_def nth_list_update less_Suc_eq max_def)

lemma Hll_Merge_regs:
  assumes "finite H" "finite H'" shows "Hll_Merge (regs_of H) (regs_of H') = regs_of (H \<union> H')"
  using merge_regs_from [of "length (regs_of H)" "regs_of H" "regs_of H'"]
  by (intro nth_equalityI) (auto simp: Hll_Merge_def regs_of_def reg_of_union [OF assms])

lemma ctz_rest:
  fixes h :: u64 assumes "drop_bit precision h \<noteq> 0" shows "ctz (drop_bit precision h) \<le> 49"
proof -
  let ?w = "drop_bit precision h"
  obtain j where "bit ?w j" using assms nonzero_bit by blast
  then have "bit h (j + 14)" by (simp add: bit_drop_bit_eq precision_def add.commute)
  then have "j + 14 < 64" by (rule bit_u64_less)
  moreover have "ctz ?w \<le> j" using ctz_less_bit [OF \<open>bit ?w j\<close>] by simp
  ultimately show ?thesis by simp
qed

lemma rho_bound: "rho_of h \<le> 51"
proof (cases "drop_bit precision h = 0")
  case False
  let ?w = "drop_bit precision h"
  have "ctz ?w \<le> 49" using False by (rule ctz_rest)
  then have "rho_of h = of_nat (ctz ?w + 1)" "ctz ?w + 1 \<le> 50" using False by (simp_all add: rho_of_def Let_def)
  then show ?thesis by (simp add: word_le_nat_alt unat_of_nat del: of_nat_add of_nat_Suc)
qed (simp add: rho_of_def precision_def)

section \<open>The accuracy of the estimate\<close>

definition zero_regs :: "regs \<Rightarrow> nat" where "zero_regs s = length (filter (\<lambda>r. r = 0) s)"

lemma count_zeros: "snd (fold count_reg s (x, n)) = n + zero_regs s"
  by (induction s arbitrary: x n) (auto simp: count_reg_def zero_regs_def Let_def)

text \<open>The rounded sum loses at most one part in \<open>2 ^ 53\<close> per addition.\<close>

lemma count_sum_low:
  assumes "0 \<le> x"
  shows "(x + sum_list (map (\<lambda>r. 1 / 2 ^ unat r) s) * (1 - eps)) * (1 - eps) ^ length s \<le> fst (fold count_reg s (x, n))"
  using assms
proof (induction s arbitrary: x n)
  case (Cons r s)
  let ?e = "1 - eps" and ?y = "1 / 2 ^ unat r :: real" and ?S = "sum_list (map (\<lambda>r. 1 / 2 ^ unat r :: real) s)"
  have e: "0 \<le> ?e" "?e \<le> 1" by (simp_all add: eps_def)
  have "?y * ?e \<le> fl ?y" by (rule fl_bounds(1)) simp
  moreover have "0 \<le> fl ?y" by (rule fl_nonneg) simp
  ultimately have y: "?y * ?e \<le> fl ?y" "0 \<le> fl ?y" by blast+
  then have nn: "0 \<le> x + fl ?y" using Cons.prems by simp
  have S: "0 \<le> ?S" by (rule sum_list_nonneg) auto
  have "(x + ?y * ?e) * ?e \<le> (x + fl ?y) * ?e" using y e by (intro mult_right_mono) simp_all
  also have "\<dots> \<le> fl (x + fl ?y)" by (rule fl_bounds(1) [OF nn])
  finally have "(x + ?y * ?e) * ?e \<le> fl (x + fl ?y)" .
  moreover have "?S * ?e * ?e \<le> ?S * ?e" using S e by (intro mult_right_le_one_le mult_nonneg_nonneg) simp_all
  ultimately have "((x + ?y * ?e) + ?S * ?e) * ?e \<le> fl (x + fl ?y) + ?S * ?e" by (simp add: distrib_right)
  then have "((x + ?y * ?e) + ?S * ?e) * ?e * ?e ^ length s \<le> (fl (x + fl ?y) + ?S * ?e) * ?e ^ length s"
    using e by (intro mult_right_mono zero_le_power)
  also have "\<dots> \<le> fst (fold count_reg s (fl (x + fl ?y), if r = 0 then n + 1 else n))"
    by (rule Cons.IH [OF fl_nonneg [OF nn]])
  finally have "((x + ?y * ?e) + ?S * ?e) * ?e * ?e ^ length s \<le> fst (fold count_reg s (count_reg r (x, n)))"
    by (simp only: count_reg_def Let_def prod.case)
  moreover have "(x + sum_list (map (\<lambda>r. 1 / 2 ^ unat r) (r # s)) * ?e) * ?e ^ length (r # s) = ((x + ?y * ?e) + ?S * ?e) * ?e * ?e ^ length s"
    by (simp add: distrib_right add.assoc mult.assoc)
  ultimately show ?case by (simp only: fold_simps)
qed simp

lemma count_sum:
  assumes "length s = m_regs" "b \<le> sum_list (map (\<lambda>r. 1 / 2 ^ unat r) s)" "0 \<le> b"
  shows "b * (1 - 1 / 2 ^ 38) \<le> fst (fold count_reg s (0, n))"
proof -
  have "1 - real (Suc m_regs) * eps \<le> (1 - eps) ^ Suc m_regs"
    using Bernoulli_inequality [of "- eps" "Suc m_regs"] by (simp add: eps_def del: power_Suc)
  moreover have "1 - 1 / 2 ^ 38 \<le> 1 - real (Suc m_regs) * eps" by (simp add: m_regs_def precision_def eps_def)
  ultimately have "1 - 1 / 2 ^ 38 \<le> (1 - eps) ^ Suc m_regs" by (rule order_trans [rotated])
  then have "b * (1 - 1 / 2 ^ 38) \<le> sum_list (map (\<lambda>r. 1 / 2 ^ unat r) s) * (1 - eps) ^ Suc m_regs"
    using assms by (intro mult_mono) simp_all
  also have "\<dots> \<le> fst (fold count_reg s (0, n))" using count_sum_low [of 0 s n] assms(1) by (simp add: mult.assoc)
  finally show ?thesis .
qed

lemma alpha_bound: "0 \<le> fl (alphaM * of_nat m_regs * of_nat m_regs)" "fl (alphaM * of_nat m_regs * of_nat m_regs) \<le> 722 / 1000 * 2 ^ 28"
proof -
  let ?a = "7213 / 10000 / (1 + 1079 / 1000 / of_nat m_regs) :: real"
  have m: "(of_nat m_regs :: real) = 2 ^ 14" by (simp add: m_regs_def precision_def)
  have a: "0 \<le> ?a" "?a \<le> 7213 / 10000" by (simp_all add: m)
  have "?a * (1 + eps) \<le> 7213 / 10000 * (1 + eps)" by (rule mult_right_mono [OF a(2)]) (simp add: eps_def)
  then have al: "0 \<le> alphaM" "alphaM \<le> 7213 / 10000 * (1 + eps)"
    using fl_nonneg [OF a(1)] fl_bounds(2) [OF a(1)] unfolding alphaM_def by linarith+
  then have nn: "0 \<le> alphaM * of_nat m_regs * of_nat m_regs" by simp
  then show "0 \<le> fl (alphaM * of_nat m_regs * of_nat m_regs)" by (rule fl_nonneg)
  show "fl (alphaM * of_nat m_regs * of_nat m_regs) \<le> 722 / 1000 * 2 ^ 28"
    using fl_bounds(2) [OF nn] al(2) by (simp add: m eps_def)
qed

text \<open>The first estimate, from a lower bound of the sum.\<close>

lemma first_estimate:
  assumes "0 < b" "b \<le> S"
  shows "0 \<le> fl (fl (alphaM * of_nat m_regs * of_nat m_regs) / S)"
    "fl (fl (alphaM * of_nat m_regs * of_nat m_regs) / S) \<le> 7221 / 10000 * 2 ^ 28 / b"
proof -
  let ?c = "fl (alphaM * of_nat m_regs * of_nat m_regs)"
  have c: "0 \<le> ?c / S" using alpha_bound(1) assms by simp
  then show "0 \<le> fl (?c / S)" by (rule fl_nonneg)
  have "?c / S \<le> 722 / 1000 * 2 ^ 28 / b" using alpha_bound assms by (intro frac_le) simp_all
  then have "?c / S * (1 + eps) \<le> 722 / 1000 * 2 ^ 28 / b * (1 + eps)" by (rule mult_right_mono) (simp add: eps_def)
  also have "\<dots> \<le> 7221 / 10000 * 2 ^ 28 / b" using assms(1) by (simp add: eps_def field_simps)
  finally show "fl (?c / S) \<le> 7221 / 10000 * 2 ^ 28 / b" using fl_bounds(2) [OF c] by linarith
qed

text \<open>The linear counting of \<open>z\<close> zero registers.\<close>

lemma linear_estimate:
  assumes lg: "log_ok lg" and z: "1 \<le> z" "z \<le> m_regs"
  shows "\<bar>fl (of_nat m_regs * lg (fl (of_nat m_regs / of_nat z))) - of_nat m_regs * ln (of_nat m_regs / of_nat z)\<bar> \<le> 1 / 2 ^ 30"
proof -
  let ?m = "of_nat m_regs :: real" and ?y = "of_nat m_regs / of_nat z :: real"
  let ?l = "lg (fl ?y)"
  have m: "?m = 2 ^ 14" by (simp add: m_regs_def precision_def)
  have "1 \<le> (of_nat z :: real)" "of_nat z \<le> ?m" using z by simp_all
  then have y: "1 \<le> ?y" "?y \<le> 2 ^ 14" by (simp_all add: field_simps m)
  then have L: "\<bar>ln ?y\<bar> \<le> 14" using ln_le_exponent [of ?y 14] by simp
  have l: "\<bar>?l - ln ?y\<bar> \<le> (14 + 2) / 2 ^ 50" using y by (intro lg_fl [OF lg _ L]) linarith
  have "?m * \<bar>?l - ln ?y\<bar> \<le> ?m * ((14 + 2) / 2 ^ 50)" by (rule mult_left_mono [OF l]) (simp add: m)
  then have d: "\<bar>?m * ?l - ?m * ln ?y\<bar> \<le> 1 / 2 ^ 32"
    unfolding right_diff_distrib [symmetric] abs_mult by (simp add: m)
  have "(14 + 2) / 2 ^ 50 \<le> (1 :: real)" by simp
  then have "\<bar>?l\<bar> \<le> 15" using l L by linarith
  then have "\<bar>?m * ?l\<bar> * eps \<le> 1 / 2 ^ 34" by (simp add: abs_mult m eps_def)
  then have "\<bar>fl (?m * ?l) - ?m * ?l\<bar> \<le> 1 / 2 ^ 34" by (rule order_trans [OF fl_err])
  moreover have "1 / 2 ^ 32 + 1 / 2 ^ 34 \<le> 1 / (2 ^ 30 :: real)" by simp
  ultimately show ?thesis using d by linarith
qed

lemma rho_bound_nat: "unat (rho_of h) \<le> 51" "rho_of h \<noteq> 0"
proof -
  show "unat (rho_of h) \<le> 51" using rho_bound [of h] by (simp add: word_le_nat_alt)
  show "rho_of h \<noteq> 0"
  proof (cases "drop_bit precision h = 0")
    case False
    then have "ctz (drop_bit precision h) \<le> 49" by (rule ctz_rest)
    then have "rho_of h = of_nat (ctz (drop_bit precision h) + 1)" "ctz (drop_bit precision h) + 1 < 256"
      using False by (simp_all add: rho_of_def Let_def)
    then have "unat (rho_of h) = ctz (drop_bit precision h) + 1" by (simp add: unat_of_nat del: of_nat_add of_nat_Suc)
    then show ?thesis by auto
  qed (simp add: rho_of_def precision_def)
qed

lemma zero_regs_of:
  assumes "finite H" shows "zero_regs (regs_of H) = m_regs - card (reg_index ` H)"
proof -
  have "reg_of H i = 0 \<longleftrightarrow> i \<notin> reg_index ` H" for i
    using assms rho_bound_nat(2) unfolding reg_of_def by (subst Max_eq_iff) (auto simp: word_le_nat_alt unat_eq_0)
  then have "zero_regs (regs_of H) = card ({..<m_regs} - reg_index ` H)"
    unfolding zero_regs_def regs_of_def length_filter_conv_card by (intro arg_cong [where f = card]) auto
  also have "\<dots> = m_regs - card (reg_index ` H)"
    using assms reg_index_less by (subst card_Diff_subset) auto
  finally show ?thesis .
qed

lemma zero_regs_le_sum: "real (zero_regs s) \<le> sum_list (map (\<lambda>r. 1 / 2 ^ unat r) s)"
  by (induction s) (auto simp: zero_regs_def intro: add_increasing)

lemma Hll_Count_eq:
  "Hll_Count lg s =
     (let est = (if \<exists>r \<in> set s. 64 \<le> unat r then 0
                 else fl (fl (alphaM * of_nat m_regs * of_nat m_regs) / fst (fold count_reg s (0, 0))));
          est = (if est \<le> 5 / 2 * of_nat m_regs \<and> zero_regs s > 0
                 then fl (of_nat m_regs * lg (fl (of_nat m_regs / of_nat (zero_regs s)))) else est)
      in to_uint64 (fl (est + 1 / 2)))"
  by (simp add: Hll_Count_def case_prod_unfold count_zeros Let_def)

text \<open>Few registers in use: linear counting gives their number.\<close>

lemma Count_few:
  assumes lg: "log_ok lg" and s: "length s = m_regs" "\<forall>r \<in> set s. unat r < 64" and k: "k \<le> 90" "zero_regs s = m_regs - k"
  shows "Hll_Count lg s = Some k"
proof -
  let ?m = "of_nat m_regs :: real" and ?S = "fst (fold count_reg s (0, 0))" and ?z = "zero_regs s"
  let ?est = "fl (of_nat m_regs * lg (fl (of_nat m_regs / of_nat (zero_regs s))))"
  have m: "m_regs = 16384" by (simp add: m_regs_def precision_def)
  have z: "1 \<le> ?z" "?z \<le> m_regs" "16294 \<le> ?z" "real ?z = 16384 - real k" using k by (simp_all add: m)
  have "16294 * (1 - 1 / 2 ^ 38) \<le> ?S" using zero_regs_le_sum [of s] z(3) by (intro count_sum [OF s(1)]) simp_all
  then have "16293 \<le> ?S" by simp
  then have "fl (fl (alphaM * ?m * ?m) / ?S) \<le> 7221 / 10000 * 2 ^ 28 / 16293" by (intro first_estimate) simp_all
  also have "\<dots> \<le> 5 / 2 * ?m" by (simp add: m)
  finally have small: "fl (fl (alphaM * ?m * ?m) / ?S) \<le> 5 / 2 * ?m" .
  have no64: "\<not> (\<exists>r \<in> set s. 64 \<le> unat r)" using s(2) by (auto simp: not_le)
  have c: "Hll_Count lg s = to_uint64 (fl (?est + 1 / 2))"
    unfolding Hll_Count_eq Let_def if_not_P [OF no64] using small z(1) by simp
  have e: "\<bar>?est - ?m * ln (?m / ?z)\<bar> \<le> 1 / 2 ^ 30" by (rule linear_estimate [OF lg z(1,2)])
  have "ln (?m / ?z) \<le> ?m / ?z - 1" using z by (intro ln_le_minus_one) (simp add: m)
  then have "?m * ln (?m / ?z) \<le> ?m * (?m / ?z - 1)" by (intro mult_left_mono) simp_all
  also have "\<dots> \<le> real k + 498 / 1000"
  proof -
    have mz: "?m = real k + real ?z" using z(4) by (simp add: m)
    have "?m * (?m / ?z - 1) = real k + real k * real k / ?z" unfolding mz using z(1) by (simp add: field_simps)
    moreover have "real k * real k \<le> 90 * 90" using k(1) by (intro mult_mono) simp_all
    then have "real k * real k / ?z \<le> 90 * 90 / 16294" using z(3) by (intro frac_le) simp_all
    ultimately show ?thesis by simp
  qed
  finally have up: "?m * ln (?m / ?z) \<le> real k + 498 / 1000" .
  have "ln (?z / ?m) \<le> ?z / ?m - 1" using z by (intro ln_le_minus_one) (simp add: m)
  then have "1 - ?z / ?m \<le> ln (?m / ?z)" using z by (simp add: ln_div m)
  then have "?m * (1 - ?z / ?m) \<le> ?m * ln (?m / ?z)" by (intro mult_left_mono) simp_all
  moreover have "?m * (1 - ?z / ?m) = real k" unfolding z(4) by (simp add: m field_simps)
  ultimately have low: "real k \<le> ?m * ln (?m / ?z)" by simp
  have tiny: "92 * eps \<le> 1 / 1000" "1 / 2 ^ 30 < (1 / 1000 :: real)" "0 \<le> eps" by (simp_all add: eps_def)
  have "real k \<le> 90" using k(1) by simp
  then have "\<bar>?est + 1 / 2\<bar> \<le> 92" using e up low tiny(2) by linarith
  then have "\<bar>?est + 1 / 2\<bar> * eps \<le> 92 * eps" using tiny(3) by (rule mult_right_mono)
  then have f: "\<bar>fl (?est + 1 / 2) - (?est + 1 / 2)\<bar> \<le> 92 * eps" by (rule order_trans [OF fl_err])
  have "of_nat k \<le> fl (?est + 1 / 2)" "fl (?est + 1 / 2) < of_nat k + 1" using f e up low tiny by linarith+
  then show ?thesis unfolding c using k(1) by (intro to_uint64_floor) simp_all
qed

text \<open>The estimate fits a \<open>uint64\<close> while all registers are below their maximum.\<close>

lemma Count_defined:
  assumes lg: "log_ok lg" and s: "length s = m_regs" "\<forall>r \<in> set s. unat r \<le> 50"
  shows "\<exists>n. Hll_Count lg s = Some n"
proof -
  let ?m = "of_nat m_regs :: real" and ?S = "fst (fold count_reg s (0, 0))" and ?z = "zero_regs s"
  let ?e1 = "fl (fl (alphaM * ?m * ?m) / ?S)" and ?e2 = "fl (of_nat m_regs * lg (fl (of_nat m_regs / of_nat (zero_regs s))))"
  have m: "m_regs = 16384" by (simp add: m_regs_def precision_def)
  have "sum_list (map (\<lambda>_. 1 / 2 ^ 50) s) \<le> sum_list (map (\<lambda>r. 1 / 2 ^ unat r :: real) s)"
    using s(2) by (intro sum_list_mono frac_le power_increasing) auto
  then have "real (length s) * (1 / 2 ^ 50) \<le> sum_list (map (\<lambda>r. 1 / 2 ^ unat r) s)" by (simp add: sum_list_triv)
  then have "?m * (1 / 2 ^ 50) * (1 - 1 / 2 ^ 38) \<le> ?S" unfolding s(1) by (intro count_sum [OF s(1)]) simp_all
  then have "1 / 2 ^ 36 * (1 - 1 / 2 ^ 38) \<le> ?S" by (simp add: m)
  then have "0 \<le> ?e1" "?e1 \<le> 7221 / 10000 * 2 ^ 28 / (1 / 2 ^ 36 * (1 - 1 / 2 ^ 38))" by (rule first_estimate [rotated]; simp)+
  then have e1: "0 \<le> ?e1" "?e1 \<le> 3 / 4 * 2 ^ 64" by simp_all
  have e2: "- (1 / 2 ^ 30) \<le> ?e2" "?e2 \<le> 2 ^ 19" if "0 < ?z"
  proof -
    have z: "1 \<le> ?z" "?z \<le> m_regs" using that s(1) length_filter_le [of "\<lambda>r. r = 0" s] by (simp_all add: zero_regs_def Suc_le_eq)
    note e = linear_estimate [OF lg z]
    have "1 \<le> ?m / ?z" "?m / ?z \<le> 2 ^ 14" using z by (simp_all add: field_simps m)
    then have "0 \<le> ln (?m / ?z)" "ln (?m / ?z) \<le> 14" using ln_le_exponent [of "?m / ?z" 14] by simp_all
    then have "0 \<le> ?m * ln (?m / ?z)" "?m * ln (?m / ?z) \<le> ?m * 14" by (simp_all add: m)
    moreover have "?m * 14 + 1 / 2 ^ 30 \<le> 2 ^ 19" by (simp add: m)
    ultimately show "- (1 / 2 ^ 30) \<le> ?e2" "?e2 \<le> 2 ^ 19" using e by linarith+
  qed
  have *: "\<exists>n. to_uint64 (fl (x + 1 / 2)) = Some n" if x: "- (1 / 2 ^ 30) \<le> x" "x \<le> 3 / 4 * 2 ^ 64" for x
  proof -
    have "0 \<le> x + 1 / 2" using x(1) by simp
    then have "0 \<le> fl (x + 1 / 2)" "fl (x + 1 / 2) \<le> (x + 1 / 2) * (1 + eps)" by (rule fl_nonneg, rule fl_bounds)
    moreover have "(x + 1 / 2) * (1 + eps) \<le> (3 / 4 * 2 ^ 64 + 1 / 2) * (1 + eps)" using x(2) by (intro mult_right_mono) (simp_all add: eps_def)
    ultimately show ?thesis by (simp add: to_uint64_def eps_def)
  qed
  have no64: "\<not> (\<exists>r \<in> set s. 64 \<le> unat r)" using s(2) by force
  show ?thesis
    unfolding Hll_Count_eq Let_def if_not_P [OF no64] using e1 e2 by (intro *) auto
qed

section \<open>Properties\<close>

definition hll_of :: "(bytes \<Rightarrow> u64) \<Rightarrow> bytes list \<Rightarrow> regs" where
  "hll_of mh keys = fold (Hll_Add mh) keys Sketch_New"

lemma hll_of_regs: "hll_of mh keys = regs_of (mh ` set keys)"
proof -
  have *: "fold (Hll_Add mh) keys (regs_of H) = regs_of (H \<union> mh ` set keys)" if "finite H" for H
    using that by (induction keys arbitrary: H) (auto simp: Hll_Add_def addHash_regs)
  have "reg_of {} = (\<lambda>_. 0)" by (simp add: reg_of_def fun_eq_iff)
  then have "Sketch_New = regs_of {}" by (simp add: Sketch_New_def regs_of_def map_replicate_const)
  then show ?thesis using * [of "{}"] by (simp add: hll_of_def)
qed

text \<open>
  C30. A sketch is a function of the set of keys: neither the order nor repeated keys matter, whether they
  are added as strings or bytes. Merging the sketches of two sets gives the sketch of the union, a reset
  sketch is a new one, and a register never exceeds 51, so that the shift in \<open>Count\<close> stays below 64.
\<close>

theorem hll_is_set_sketch:
  "(set keys = set keys' \<longrightarrow> hll_of mh keys = hll_of mh keys') \<and>
   Hll_AddStr mh key (hll_of mh keys) = hll_of mh (keys @ [key]) \<and>
   Hll_Merge (hll_of mh keys) (hll_of mh keys') = hll_of mh (keys @ keys') \<and>
   Hll_Reset (hll_of mh keys) = Sketch_New \<and>
   length (hll_of mh keys) = m_regs \<and> (\<forall>r \<in> set (hll_of mh keys). r \<le> 51)"
proof -
  have "Hll_AddStr mh key (hll_of mh keys) = hll_of mh (keys @ [key])" by (simp add: hll_of_def Hll_AddStr_def Hll_Add_def)
  moreover have "reg_of H i \<le> 51" if "finite H" for H i
    using that by (auto simp: reg_of_def rho_bound)
  moreover have "Hll_Merge (hll_of mh keys) (hll_of mh keys') = hll_of mh (keys @ keys')"
    by (simp add: hll_of_regs Hll_Merge_regs image_Un)
  ultimately show ?thesis
    by (auto simp: hll_of_regs Hll_Reset_def Sketch_New_def regs_of_def map_replicate_const)
qed

theorem hll_is_set_sketch_witness:
  "hll_of (\<lambda>k. of_nat (length k)) [[1], [2, 3], [1]] = hll_of (\<lambda>k. of_nat (length k)) [[2, 3], [1]]"
  using hll_is_set_sketch [where keys = "[[1], [2, 3], [1]]" and keys' = "[[2, 3], [1]]" and mh = "\<lambda>k. of_nat (length k)"] by auto

text \<open>
  C31. \<open>Count\<close> is the number of registers in use, hence the exact number of distinct keys when no two of
  them share a register, while at most 90 of the 16384 registers are in use: the rounding, including that
  of the logarithm, never changes the result. An estimate always fits the \<open>uint64\<close> it is converted to
  unless some hash has its 50 high bits all zero.
\<close>

theorem hll_count_small_exact:
  assumes "log_ok lg"
  shows "(card (reg_index ` mh ` set keys) \<le> 90 \<longrightarrow>
      Hll_Count lg (hll_of mh keys) = Some (card (reg_index ` mh ` set keys)) \<and>
      (inj_on (\<lambda>k. reg_index (mh k)) (set keys) \<longrightarrow> Hll_Count lg (hll_of mh keys) = Some (card (set keys)))) \<and>
    ((\<forall>k \<in> set keys. drop_bit precision (mh k) \<noteq> 0) \<longrightarrow> (\<exists>n. Hll_Count lg (hll_of mh keys) = Some n))"
proof (intro conjI impI)
  let ?H = "mh ` set keys" let ?s = "regs_of ?H" let ?k = "card (reg_index ` ?H)"
  have len: "length ?s = m_regs" by (simp add: regs_of_def)
  have regs: "\<forall>r \<in> set ?s. unat r \<le> N" if "\<And>h. h \<in> ?H \<Longrightarrow> unat (rho_of h) \<le> N" for N
  proof
    fix r assume "r \<in> set ?s"
    then obtain i where "r = reg_of ?H i" by (auto simp: regs_of_def)
    moreover have "reg_of ?H i \<in> insert 0 (rho_of ` {h \<in> ?H. reg_index h = i})" unfolding reg_of_def by (rule Max_in) auto
    ultimately show "unat r \<le> N" using that by auto
  qed
  have few: "Hll_Count lg (hll_of mh keys) = Some ?k" if "?k \<le> 90"
    unfolding hll_of_regs using regs [OF rho_bound_nat(1)] that
    by (intro Count_few assms len) (auto simp: zero_regs_of)
  then show "Hll_Count lg (hll_of mh keys) = Some ?k" if "?k \<le> 90" using that .
  show "Hll_Count lg (hll_of mh keys) = Some (card (set keys))"
    if "?k \<le> 90" "inj_on (\<lambda>k. reg_index (mh k)) (set keys)"
    using few [OF that(1)] card_image [OF that(2)] by (simp add: image_image)
  show "\<exists>n. Hll_Count lg (hll_of mh keys) = Some n" if nz: "\<forall>k \<in> set keys. drop_bit precision (mh k) \<noteq> 0"
    unfolding hll_of_regs
  proof (rule Count_defined [OF assms len regs])
    fix h assume "h \<in> ?H"
    then have "drop_bit precision h \<noteq> 0" using nz by auto
    then have "ctz (drop_bit precision h) \<le> 49" "rho_of h = of_nat (ctz (drop_bit precision h) + 1)" by (simp_all add: ctz_rest rho_of_def Let_def)
    then show "unat (rho_of h) \<le> 50" by (simp add: unat_of_nat del: of_nat_add of_nat_Suc)
  qed
qed

theorem hll_count_small_exact_witness:
  "Hll_Count ln (hll_of (\<lambda>k. of_nat (length k)) [[2, 3], [1], [4]]) = Some 2"
  using hll_count_small_exact [OF log_ok_ln, where keys = "[[2, 3], [1], [4]]" and mh = "\<lambda>k. of_nat (length k)"]
  by (simp add: reg_index_def m_regs_def precision_def)

end
