(* ===== verification/Semaphore.thy ===== *)
theory Semaphore
  imports Main
begin

text \<open>
  Package \<open>semaphore\<close> (src/semaphore/semaphore.go): a counting semaphore made of an atomic counter
  of permits and a buffered channel that only wakes parked goroutines. The operations are given
  twice: as functions, for one goroutine alone, and as step relations at the granularity of the
  atomic accesses and channel operations, for any number of goroutines.
\<close>

section \<open>One goroutine\<close>

record sem =
  avail :: int
  wake :: nat
  sem_cap :: int

text \<open>\<open>None\<close> is the panic for a capacity below one.\<close>

definition Sem_New :: "int \<Rightarrow> sem option" where
  "Sem_New n = (if n < 1 then None else Some \<lparr>avail = n, wake = 0, sem_cap = n\<rparr>)"

definition TryAcquire :: "sem \<Rightarrow> bool \<times> sem" where
  "TryAcquire s = (if avail s \<le> 0 then (False, s) else (True, s\<lparr>avail := avail s - 1\<rparr>))"

definition TryAcquireN :: "int \<Rightarrow> sem \<Rightarrow> bool \<times> sem" where
  "TryAcquireN n s =
     (if n < 1 \<or> sem_cap s < n then (False, s)
      else if avail s < n then (False, s) else (True, s\<lparr>avail := avail s - n\<rparr>))"

text \<open>A goroutine that finds no permit takes a wake-up and tries again; \<open>None\<close>: it parks for good.\<close>

function Acquire :: "sem \<Rightarrow> sem option" where
  "Acquire s =
     (if 0 < avail s then Some (s\<lparr>avail := avail s - 1\<rparr>)
      else if wake s = 0 then None else Acquire (s\<lparr>wake := wake s - 1\<rparr>))"
  by pat_completeness auto
termination by (relation "measure wake") auto

declare Acquire.simps [simp del]

definition send_wake :: "sem \<Rightarrow> sem" where
  "send_wake s = (if int (wake s) < sem_cap s then s\<lparr>wake := wake s + 1\<rparr> else s)"

fun wake_loop :: "nat \<Rightarrow> sem \<Rightarrow> sem" where
  "wake_loop 0 s = s"
| "wake_loop (Suc i) s = (if int (wake s) < sem_cap s then wake_loop i (s\<lparr>wake := wake s + 1\<rparr>) else s)"

text \<open>The flag says whether the call panics.\<close>

definition Release :: "sem \<Rightarrow> bool \<times> sem" where
  "Release s =
     (let nw = avail s + 1; s = s\<lparr>avail := nw\<rparr>
      in if sem_cap s < nw then (True, s\<lparr>avail := avail s - 1\<rparr>) else (False, send_wake s))"

definition ReleaseN :: "int \<Rightarrow> sem \<Rightarrow> bool \<times> sem" where
  "ReleaseN n s =
     (if n < 1 then (True, s)
      else
        (let nw = avail s + n; s = s\<lparr>avail := nw\<rparr>
         in if sem_cap s < nw then (True, s\<lparr>avail := avail s - n\<rparr>) else (False, wake_loop (nat n) s)))"

definition Sem_Count :: "sem \<Rightarrow> int" where "Sem_Count s = sem_cap s - avail s"
definition Sem_Cap :: "sem \<Rightarrow> int" where "Sem_Cap s = sem_cap s"
definition Available :: "sem \<Rightarrow> int" where "Available s = avail s"

section \<open>Many goroutines\<close>

text \<open>
  Where a goroutine is inside the package, and the permits it holds. The flag of an acquisition says
  that it is \<open>AcquireContext\<close>, which may give up while it is parked.
\<close>

datatype spc = Idle | AcqLoop bool | AcqCas bool int | AcqWait bool
  | TryLoop int | TryCas int int | RelWake nat | RelUndo int | Panicked

type_synonym sstate = "sem \<times> (spc \<times> int) list"

inductive acq_step :: "nat \<Rightarrow> sstate \<Rightarrow> sstate \<Rightarrow> bool" where
  call: "i < length ts \<Longrightarrow> ts ! i = (Idle, h) \<Longrightarrow> acq_step i (s, ts) (s, ts[i := (AcqLoop c, h)])"
| load_some: "i < length ts \<Longrightarrow> ts ! i = (AcqLoop c, h) \<Longrightarrow> 0 < avail s \<Longrightarrow>
    acq_step i (s, ts) (s, ts[i := (AcqCas c (avail s), h)])"
| load_none: "i < length ts \<Longrightarrow> ts ! i = (AcqLoop c, h) \<Longrightarrow> avail s \<le> 0 \<Longrightarrow>
    acq_step i (s, ts) (s, ts[i := (AcqWait c, h)])"
| cas_ok: "i < length ts \<Longrightarrow> ts ! i = (AcqCas c old, h) \<Longrightarrow> avail s = old \<Longrightarrow>
    acq_step i (s, ts) (s\<lparr>avail := old - 1\<rparr>, ts[i := (Idle, h + 1)])"
| cas_fail: "i < length ts \<Longrightarrow> ts ! i = (AcqCas c old, h) \<Longrightarrow> avail s \<noteq> old \<Longrightarrow>
    acq_step i (s, ts) (s, ts[i := (AcqWait c, h)])"
| woken: "i < length ts \<Longrightarrow> ts ! i = (AcqWait c, h) \<Longrightarrow> 0 < wake s \<Longrightarrow>
    acq_step i (s, ts) (s\<lparr>wake := wake s - 1\<rparr>, ts[i := (AcqLoop c, h)])"
| cancelled: "i < length ts \<Longrightarrow> ts ! i = (AcqWait True, h) \<Longrightarrow> acq_step i (s, ts) (s, ts[i := (Idle, h)])"

inductive try_step :: "nat \<Rightarrow> sstate \<Rightarrow> sstate \<Rightarrow> bool" where
  refuse: "i < length ts \<Longrightarrow> ts ! i = (Idle, h) \<Longrightarrow> n < 1 \<or> sem_cap s < n \<Longrightarrow> try_step i (s, ts) (s, ts)"
| call: "i < length ts \<Longrightarrow> ts ! i = (Idle, h) \<Longrightarrow> 1 \<le> n \<Longrightarrow> n \<le> sem_cap s \<Longrightarrow>
    try_step i (s, ts) (s, ts[i := (TryLoop n, h)])"
| load_few: "i < length ts \<Longrightarrow> ts ! i = (TryLoop n, h) \<Longrightarrow> avail s < n \<Longrightarrow>
    try_step i (s, ts) (s, ts[i := (Idle, h)])"
| load: "i < length ts \<Longrightarrow> ts ! i = (TryLoop n, h) \<Longrightarrow> n \<le> avail s \<Longrightarrow>
    try_step i (s, ts) (s, ts[i := (TryCas n (avail s), h)])"
| cas_ok: "i < length ts \<Longrightarrow> ts ! i = (TryCas n old, h) \<Longrightarrow> avail s = old \<Longrightarrow>
    try_step i (s, ts) (s\<lparr>avail := old - n\<rparr>, ts[i := (Idle, h + n)])"
| cas_fail: "i < length ts \<Longrightarrow> ts ! i = (TryCas n old, h) \<Longrightarrow> avail s \<noteq> old \<Longrightarrow>
    try_step i (s, ts) (s, ts[i := (TryLoop n, h)])"

text \<open>A goroutine releases permits that it holds, as the documentation asks.\<close>

inductive rel_step :: "nat \<Rightarrow> sstate \<Rightarrow> sstate \<Rightarrow> bool" where
  add: "i < length ts \<Longrightarrow> ts ! i = (Idle, h) \<Longrightarrow> 1 \<le> n \<Longrightarrow> n \<le> h \<Longrightarrow> avail s + n \<le> sem_cap s \<Longrightarrow>
    rel_step i (s, ts) (s\<lparr>avail := avail s + n\<rparr>, ts[i := (RelWake (nat n), h - n)])"
| over: "i < length ts \<Longrightarrow> ts ! i = (Idle, h) \<Longrightarrow> 1 \<le> n \<Longrightarrow> n \<le> h \<Longrightarrow> sem_cap s < avail s + n \<Longrightarrow>
    rel_step i (s, ts) (s\<lparr>avail := avail s + n\<rparr>, ts[i := (RelUndo n, h - n)])"
| undo: "i < length ts \<Longrightarrow> ts ! i = (RelUndo n, h) \<Longrightarrow>
    rel_step i (s, ts) (s\<lparr>avail := avail s - n\<rparr>, ts[i := (Panicked, h + n)])"
| send: "i < length ts \<Longrightarrow> ts ! i = (RelWake (Suc k), h) \<Longrightarrow> int (wake s) < sem_cap s \<Longrightarrow>
    rel_step i (s, ts) (s\<lparr>wake := wake s + 1\<rparr>, ts[i := (RelWake k, h)])"
| send_full: "i < length ts \<Longrightarrow> ts ! i = (RelWake (Suc k), h) \<Longrightarrow> sem_cap s \<le> int (wake s) \<Longrightarrow>
    rel_step i (s, ts) (s, ts[i := (Idle, h)])"
| done_: "i < length ts \<Longrightarrow> ts ! i = (RelWake 0, h) \<Longrightarrow> rel_step i (s, ts) (s, ts[i := (Idle, h)])"

definition sem_step :: "nat \<Rightarrow> sstate \<Rightarrow> sstate \<Rightarrow> bool" where
  "sem_step i s s' \<longleftrightarrow> acq_step i s s' \<or> try_step i s s' \<or> rel_step i s s'"

definition sem_steps :: "sstate \<Rightarrow> sstate \<Rightarrow> bool" where
  "sem_steps = (\<lambda>s s'. \<exists>i. sem_step i s s')\<^sup>*\<^sup>*"

section \<open>Permits are conserved\<close>

text \<open>What a program counter promises: the value a CAS expects covers what it will take.\<close>

fun pc_ok :: "spc \<Rightarrow> bool" where
  "pc_ok (AcqCas c old) \<longleftrightarrow> 1 \<le> old"
| "pc_ok (TryLoop n) \<longleftrightarrow> 1 \<le> n"
| "pc_ok (TryCas n old) \<longleftrightarrow> 1 \<le> n \<and> n \<le> old"
| "pc_ok (RelUndo n) \<longleftrightarrow> False"
| "pc_ok Panicked \<longleftrightarrow> False"
| "pc_ok pc \<longleftrightarrow> True"

definition held :: "(spc \<times> int) list \<Rightarrow> int" where "held ts = sum_list (map snd ts)"

definition sem_inv :: "sstate \<Rightarrow> bool" where
  "sem_inv st \<longleftrightarrow> (case st of (s, ts) \<Rightarrow>
     0 \<le> avail s \<and> avail s + held ts = sem_cap s \<and> int (wake s) \<le> sem_cap s \<and>
     (\<forall>t \<in> set ts. pc_ok (fst t) \<and> 0 \<le> snd t))"

lemma held_upd: "i < length ts \<Longrightarrow> held (ts[i := (pc, h)]) = held ts - snd (ts ! i) + h"
proof -
  assume "i < length ts"
  then have "held ts = held (take i ts) + snd (ts ! i) + held (drop (Suc i) ts)"
    using id_take_nth_drop [of i ts] by (simp add: held_def) (metis list.simps(9) map_append sum_list.Cons sum_list_append add.assoc)
  moreover have "held (ts[i := (pc, h)]) = held (take i ts) + h + held (drop (Suc i) ts)"
    using \<open>i < length ts\<close> by (simp add: held_def upd_conv_take_nth_drop)
  ultimately show ?thesis by simp
qed

lemma held_member:
  assumes "i < length ts" "\<forall>t \<in> set ts. 0 \<le> snd t" shows "snd (ts ! i) \<le> held ts"
proof -
  have "0 \<le> held ts \<and> (\<forall>t \<in> set ts. snd t \<le> held ts)"
    using assms(2) by (induction ts) (auto simp: held_def)
  then show ?thesis using assms(1) by simp
qed

lemma sem_inv_upd:
  assumes "sem_inv (s, ts)" "i < length ts" "pc_ok pc" "0 \<le> h" "0 \<le> avail s'" "avail s' + h = avail s + snd (ts ! i)"
    "sem_cap s' = sem_cap s" "int (wake s') \<le> sem_cap s"
  shows "sem_inv (s', ts[i := (pc, h)])"
  using assms by (auto simp: sem_inv_def held_upd dest!: set_update_subset_insert [THEN subsetD])

lemma sem_step_inv:
  assumes "sem_step i st st'" "sem_inv st" shows "sem_inv st'"
proof -
  obtain s ts where st: "st = (s, ts)" by (cases st)
  have t: "pc_ok (fst (ts ! i)) \<and> 0 \<le> snd (ts ! i) \<and> snd (ts ! i) \<le> held ts" if "i < length ts"
    using assms(2) that held_member [of i ts] unfolding st sem_inv_def by auto
  have s: "0 \<le> avail s" "avail s + held ts = sem_cap s" "int (wake s) \<le> sem_cap s" using assms(2) by (auto simp: st sem_inv_def)
  from assms(1) consider "acq_step i (s, ts) st'" | "try_step i (s, ts) st'" | "rel_step i (s, ts) st'"
    by (auto simp: sem_step_def st)
  then show ?thesis
  proof cases
    case 1
    then show ?thesis by cases (use assms(2) t s st in \<open>auto intro!: sem_inv_upd\<close>)
  next
    case 2
    then show ?thesis by cases (use assms(2) t s st in \<open>auto intro!: sem_inv_upd\<close>)
  next
    case 3
    then show ?thesis by cases (use assms(2) t s st in \<open>auto intro!: sem_inv_upd\<close>)
  qed
qed

lemma sem_steps_inv: "sem_steps st st' \<Longrightarrow> sem_inv st \<Longrightarrow> sem_inv st'"
  unfolding sem_steps_def by (induction rule: rtranclp_induct) (auto intro: sem_step_inv)

section \<open>Properties\<close>

text \<open>Goroutines that have not called anything yet.\<close>

definition idle :: "nat \<Rightarrow> (spc \<times> int) list" where "idle k = replicate k (Idle, 0)"

lemma idle_inv: "Sem_New n = Some s \<Longrightarrow> sem_inv (s, idle k)"
  by (auto simp: Sem_New_def sem_inv_def idle_def held_def sum_list_replicate split: if_splits)

text \<open>
  C10. In every interleaving of the atomic steps of any number of goroutines that release only what
  they hold, the permits held never exceed the capacity, the counter is exactly what is left (so
  \<open>Count\<close> and \<open>Available\<close> are exact), the wake-up channel does not overflow, and no \<open>Release\<close> panics.
\<close>

theorem semaphore_bounded:
  assumes "Sem_New n = Some s" and "sem_steps (s, idle k) (s', ts)"
  shows "held ts \<le> Sem_Cap s' \<and> Sem_Count s' = held ts \<and> Available s' = Sem_Cap s' - held ts \<and> 0 \<le> Available s' \<and>
    int (wake s') \<le> Sem_Cap s' \<and> (\<forall>t \<in> set ts. fst t \<noteq> Panicked)"
  using sem_steps_inv [OF assms(2) idle_inv [OF assms(1)]]
  by (auto simp: sem_inv_def Sem_Count_def Sem_Cap_def Available_def)

definition demo_sem :: sem where "demo_sem = \<lparr>avail = 2, wake = 0, sem_cap = 2\<rparr>"

lemma step1: "sem_steps a b \<Longrightarrow> sem_step i b c \<Longrightarrow> sem_steps a c"
  unfolding sem_steps_def by (auto intro: rtranclp.rtrancl_into_rtrancl)

lemma steps_refl: "sem_steps a a"
  by (simp add: sem_steps_def)

text \<open>Two goroutines read the same counter; the first takes a permit and the CAS of the second fails.\<close>

lemma demo_race: "sem_steps (demo_sem, idle 2) (demo_sem\<lparr>avail := 1\<rparr>, [(Idle, 1), (AcqWait False, 0)])"
proof -
  let ?l = "(AcqLoop False, 0)" and ?c = "(AcqCas False 2, 0)"
  note a = sem_step_def [THEN iffD2, OF disjI1]
  have "sem_step 0 (demo_sem, [(Idle, 0), (Idle, 0)]) (demo_sem, [?l, (Idle, 0)])"
    by (rule a, use acq_step.call [of 0 "[(Idle, 0), (Idle, 0)]" 0 demo_sem False] in simp)
  moreover have "sem_step 1 (demo_sem, [?l, (Idle, 0)]) (demo_sem, [?l, ?l])"
    by (rule a, use acq_step.call [of 1 "[?l, (Idle, 0)]" 0 demo_sem False] in simp)
  moreover have "sem_step 0 (demo_sem, [?l, ?l]) (demo_sem, [?c, ?l])"
    by (rule a, use acq_step.load_some [of 0 "[?l, ?l]" False 0 demo_sem] in \<open>simp add: demo_sem_def\<close>)
  moreover have "sem_step 1 (demo_sem, [?c, ?l]) (demo_sem, [?c, ?c])"
    by (rule a, use acq_step.load_some [of 1 "[?c, ?l]" False 0 demo_sem] in \<open>simp add: demo_sem_def\<close>)
  moreover have "sem_step 0 (demo_sem, [?c, ?c]) (demo_sem\<lparr>avail := 1\<rparr>, [(Idle, 1), ?c])"
    by (rule a, use acq_step.cas_ok [of 0 "[?c, ?c]" False 2 0 demo_sem] in \<open>simp add: demo_sem_def\<close>)
  moreover have "sem_step 1 (demo_sem\<lparr>avail := 1\<rparr>, [(Idle, 1), ?c]) (demo_sem\<lparr>avail := 1\<rparr>, [(Idle, 1), (AcqWait False, 0)])"
    by (rule a, use acq_step.cas_fail [of 1 "[(Idle, 1), ?c]" False 2 0 "demo_sem\<lparr>avail := 1\<rparr>"] in \<open>simp add: demo_sem_def\<close>)
  ultimately show ?thesis using steps_refl [of "(demo_sem, [(Idle, 0), (Idle, 0)])"]
    by (simp add: idle_def numeral_2_eq_2) (meson step1)
qed

theorem semaphore_bounded_witness: "Available (demo_sem\<lparr>avail := 1\<rparr>) = 1 \<and> Sem_Count (demo_sem\<lparr>avail := 1\<rparr>) = held [(Idle, 1), (AcqWait False, 0)]"
  using semaphore_bounded [OF _ demo_race, of 2] by (simp add: Sem_New_def demo_sem_def held_def Sem_Cap_def)

text \<open>
  C39. A failed compare-and-swap in \<open>Acquire\<close> parks the goroutine as if there were no permits: with
  capacity two and one permit held, a goroutine can be parked while a permit is free and no wake-up is
  pending. It has no step of its own, and while the holder keeps its permit nothing wakes it.
\<close>

theorem Acquire_parks_with_free_permit:
  "\<exists>s ts. Sem_New 2 = Some demo_sem \<and> sem_steps (demo_sem, idle 2) (s, ts) \<and>
     Available s = 1 \<and> held ts = 1 \<and> wake s = 0 \<and> ts ! 1 = (AcqWait False, 0) \<and> (\<forall>s'. \<not> sem_step 1 (s, ts) s') \<and>
     (\<forall>s' ts'. (acq_step 0 (s, ts) (s', ts') \<or> try_step 0 (s, ts) (s', ts')) \<longrightarrow> wake s' = 0 \<and> ts' ! 1 = (AcqWait False, 0))"
proof -
  let ?s = "demo_sem\<lparr>avail := 1\<rparr>" and ?ts = "[(Idle, 1), (AcqWait False, 0)]"
  have "\<not> sem_step 1 (?s, ?ts) s'" for s'
    by (auto simp: sem_step_def demo_sem_def elim: acq_step.cases try_step.cases rel_step.cases)
  moreover have "wake s' = 0 \<and> ts' ! 1 = (AcqWait False, 0)" if "acq_step 0 (?s, ?ts) (s', ts') \<or> try_step 0 (?s, ?ts) (s', ts')" for s' ts'
    using that by (auto simp: demo_sem_def elim: acq_step.cases try_step.cases)
  ultimately show ?thesis using demo_race
    by (intro exI [of _ ?s] exI [of _ ?ts]) (simp add: Sem_New_def demo_sem_def Available_def held_def)
qed

theorem Acquire_parks_with_free_permit_witness:
  "\<exists>s ts. sem_steps (demo_sem, idle 2) (s, ts) \<and> Available s = 1 \<and> ts ! 1 = (AcqWait False, 0) \<and> (\<nexists>s'. sem_step 1 (s, ts) s')"
  using Acquire_parks_with_free_permit by blast

text \<open>
  A goroutine alone: \<open>TryAcquire\<close> and \<open>TryAcquireN\<close> take all or nothing, \<open>Acquire\<close> returns
  exactly when a permit is free, what was taken can be given back, and giving back more than is held
  panics and leaves the counter as it was.
\<close>

theorem semaphore_sequential:
  assumes "0 \<le> avail s" "avail s \<le> sem_cap s" "1 \<le> n"
  shows "TryAcquireN n s = (if n \<le> avail s then (True, s\<lparr>avail := avail s - n\<rparr>) else (False, s)) \<and>
    TryAcquire s = TryAcquireN 1 s \<and>
    (Acquire s \<noteq> None \<longleftrightarrow> 1 \<le> avail s) \<and>
    avail (snd (ReleaseN n s)) = (if avail s + n \<le> sem_cap s then avail s + n else avail s) \<and>
    (fst (ReleaseN n s) \<longleftrightarrow> sem_cap s < avail s + n) \<and> (fst (Release s) \<longleftrightarrow> sem_cap s = avail s) \<and>
    (n \<le> avail s \<longrightarrow> \<not> fst (ReleaseN n (snd (TryAcquireN n s))) \<and> avail (snd (ReleaseN n (snd (TryAcquireN n s)))) = avail s)"
proof -
  have wl: "avail (wake_loop k t) = avail t" for k t by (induction k t rule: wake_loop.induct) auto
  have acq: "Acquire t \<noteq> None \<longleftrightarrow> 1 \<le> avail t" if "0 \<le> avail t" for t
    using that by (induction t rule: Acquire.induct) (subst Acquire.simps, auto)
  show ?thesis using assms acq [OF assms(1)]
    by (auto simp: TryAcquireN_def TryAcquire_def ReleaseN_def Release_def Let_def wl)
qed

theorem semaphore_sequential_witness:
  "TryAcquireN 3 \<lparr>avail = 2, wake = 0, sem_cap = 4\<rparr> = (False, \<lparr>avail = 2, wake = 0, sem_cap = 4\<rparr>)"
  using semaphore_sequential [of "\<lparr>avail = 2, wake = 0, sem_cap = 4\<rparr>" 3] by simp

end
