(* ===== verification/Ratelimit.thy ===== *)
theory Ratelimit
  imports Prelude
begin

text \<open>
  The token bucket of package \<open>ratelimit\<close> (src/ratelimit/ratelimit.go): tokens are refilled lazily
  from the time since the last refill. Clock readings (nanoseconds) are arguments. The operations are
  given as functions for one goroutine, and \<open>AllowN\<close> also as a step relation at the granularity of its
  atomic loads and compare-and-swaps for any number of goroutines.
\<close>

section \<open>One goroutine\<close>

record limiter =
  tokens :: int
  lastNano :: int
  rate :: int
  burst :: int
  interval :: int

definition Limiter_New :: "int \<Rightarrow> int \<Rightarrow> int \<Rightarrow> limiter" where
  "Limiter_New r b now =
     (let r = (if r \<le> 0 then 1 else r); b = (if b \<le> 0 then 1 else b)
      in \<lparr>tokens = b, lastNano = now, rate = r, burst = b, interval = 1000000000 div r\<rparr>)"

text \<open>The tokens that \<open>now\<close> adds to a bucket lst filled at \<open>lst\<close>.\<close>

definition refill :: "int \<Rightarrow> int \<Rightarrow> int \<Rightarrow> int" where
  "refill now lst iv =
     (let elapsed = swrap64 (now - lst); elapsed = (if elapsed < 0 then 0 else elapsed) in elapsed div iv)"

definition topped_up :: "int \<Rightarrow> int \<Rightarrow> int \<Rightarrow> int" where
  "topped_up tok add b = (let newTok = swrap64 (tok + add) in if b < newTok then b else newTok)"

text \<open>\<open>None\<close> is the panic of the division by a zero interval.\<close>

definition AllowN :: "int \<Rightarrow> int \<Rightarrow> limiter \<Rightarrow> (bool \<times> limiter) option" where
  "AllowN n now l =
     (let need = (if n \<le> 0 then 1 else n)
      in if burst l < need then Some (False, l)
         else if interval l = 0 then None
         else
           (let lst = lastNano l; add = refill now lst (interval l);
                l = (if 0 < add
                     then l\<lparr>lastNano := swrap64 (lst + add * interval l), tokens := topped_up (tokens l) add (burst l)\<rparr>
                     else l)
            in if tokens l < need then Some (False, l) else Some (True, l\<lparr>tokens := tokens l - need\<rparr>)))"

definition Allow :: "int \<Rightarrow> limiter \<Rightarrow> (bool \<times> limiter) option" where "Allow now l = AllowN 1 now l"

definition Tokens :: "limiter \<Rightarrow> int" where "Tokens l = tokens l"
definition Rate :: "limiter \<Rightarrow> int" where "Rate l = rate l"
definition Burst :: "limiter \<Rightarrow> int" where "Burst l = burst l"

definition Limiter_Reset :: "int \<Rightarrow> limiter \<Rightarrow> limiter" where
  "Limiter_Reset now l = l\<lparr>lastNano := now, tokens := burst l\<rparr>"

section \<open>Many goroutines\<close>

text \<open>
  Where a call of \<open>AllowN\<close> is: the tokens it needs, its clock reading, and what it has read so far.
  Every goroutine carries the number of tokens it has been granted.
\<close>

datatype lpc = LIdle | LStart int int | LLast int int int | LTryRefill int int int int
  | LRefill int int int | LRefillCas int int int int | LReread int int | LDecide int int int

type_synonym lstate = "limiter \<times> (lpc \<times> int) list"

inductive lim_step :: "int \<Rightarrow> lstate \<Rightarrow> lstate \<Rightarrow> bool" for T where
  call: "i < length ts \<Longrightarrow> ts ! i = (LIdle, g) \<Longrightarrow> 1 \<le> need \<Longrightarrow> need \<le> burst l \<Longrightarrow> 0 \<le> now \<Longrightarrow> now \<le> T \<Longrightarrow>
    lim_step T (l, ts) (l, ts[i := (LStart need now, g)])"
| load_last: "i < length ts \<Longrightarrow> ts ! i = (LStart need now, g) \<Longrightarrow>
    lim_step T (l, ts) (l, ts[i := (LLast need now (lastNano l), g)])"
| load_tokens: "i < length ts \<Longrightarrow> ts ! i = (LLast need now lst, g) \<Longrightarrow> refill now lst (interval l) \<le> 0 \<Longrightarrow>
    lim_step T (l, ts) (l, ts[i := (LDecide need now (tokens l), g)])"
| must_refill: "i < length ts \<Longrightarrow> ts ! i = (LLast need now lst, g) \<Longrightarrow> 0 < refill now lst (interval l) \<Longrightarrow>
    lim_step T (l, ts) (l, ts[i := (LTryRefill need now lst (refill now lst (interval l)), g)])"
| refill_won: "i < length ts \<Longrightarrow> ts ! i = (LTryRefill need now lst add, g) \<Longrightarrow> lastNano l = lst \<Longrightarrow>
    lim_step T (l, ts) (l\<lparr>lastNano := swrap64 (lst + add * interval l)\<rparr>, ts[i := (LRefill need now add, g)])"
| refill_lost: "i < length ts \<Longrightarrow> ts ! i = (LTryRefill need now lst add, g) \<Longrightarrow> lastNano l \<noteq> lst \<Longrightarrow>
    lim_step T (l, ts) (l, ts[i := (LReread need now, g)])"
| refill_load: "i < length ts \<Longrightarrow> ts ! i = (LRefill need now add, g) \<Longrightarrow>
    lim_step T (l, ts) (l, ts[i := (LRefillCas need now add (tokens l), g)])"
| refill_cas: "i < length ts \<Longrightarrow> ts ! i = (LRefillCas need now add tok, g) \<Longrightarrow> tokens l = tok \<Longrightarrow>
    lim_step T (l, ts) (l\<lparr>tokens := topped_up tok add (burst l)\<rparr>, ts[i := (LDecide need now (topped_up tok add (burst l)), g)])"
| refill_again: "i < length ts \<Longrightarrow> ts ! i = (LRefillCas need now add tok, g) \<Longrightarrow> tokens l \<noteq> tok \<Longrightarrow>
    lim_step T (l, ts) (l, ts[i := (LRefill need now add, g)])"
| reread: "i < length ts \<Longrightarrow> ts ! i = (LReread need now, g) \<Longrightarrow>
    lim_step T (l, ts) (l, ts[i := (LDecide need now (tokens l), g)])"
| deny: "i < length ts \<Longrightarrow> ts ! i = (LDecide need now cur, g) \<Longrightarrow> cur < need \<Longrightarrow>
    lim_step T (l, ts) (l, ts[i := (LIdle, g)])"
| take_cas: "i < length ts \<Longrightarrow> ts ! i = (LDecide need now cur, g) \<Longrightarrow> need \<le> cur \<Longrightarrow> tokens l = cur \<Longrightarrow>
    lim_step T (l, ts) (l\<lparr>tokens := cur - need\<rparr>, ts[i := (LIdle, g + need)])"
| take_again: "i < length ts \<Longrightarrow> ts ! i = (LDecide need now cur, g) \<Longrightarrow> need \<le> cur \<Longrightarrow> tokens l \<noteq> cur \<Longrightarrow>
    lim_step T (l, ts) (l, ts[i := (LStart need now, g)])"

section \<open>The budget invariant\<close>

definition granted :: "(lpc \<times> int) list \<Rightarrow> int" where "granted ts = sum_list (map snd ts)"

text \<open>Tokens whose time has been claimed by moving \<open>lastNano\<close>, but which are not in the bucket yet.\<close>

fun pending :: "lpc \<Rightarrow> int" where
  "pending (LRefill need now add) = add"
| "pending (LRefillCas need now add tok) = add"
| "pending pc = 0"

definition pendings :: "(lpc \<times> int) list \<Rightarrow> int" where "pendings ts = sum_list (map (pending \<circ> fst) ts)"

fun lpc_ok :: "int \<Rightarrow> int \<Rightarrow> lpc \<Rightarrow> bool" where
  "lpc_ok T iv LIdle \<longleftrightarrow> True"
| "lpc_ok T iv (LStart need now) \<longleftrightarrow> 1 \<le> need \<and> 0 \<le> now \<and> now \<le> T"
| "lpc_ok T iv (LLast need now lst) \<longleftrightarrow> 1 \<le> need \<and> 0 \<le> now \<and> now \<le> T \<and> 0 \<le> lst \<and> lst \<le> T"
| "lpc_ok T iv (LTryRefill need now lst add) \<longleftrightarrow> 1 \<le> need \<and> 0 \<le> now \<and> now \<le> T \<and> 0 \<le> lst \<and> 1 \<le> add \<and> lst + add * iv \<le> T"
| "lpc_ok T iv (LRefill need now add) \<longleftrightarrow> 1 \<le> need \<and> 0 \<le> now \<and> now \<le> T \<and> 1 \<le> add \<and> add \<le> T"
| "lpc_ok T iv (LRefillCas need now add tok) \<longleftrightarrow> 1 \<le> need \<and> 0 \<le> now \<and> now \<le> T \<and> 1 \<le> add \<and> add \<le> T"
| "lpc_ok T iv (LReread need now) \<longleftrightarrow> 1 \<le> need \<and> 0 \<le> now \<and> now \<le> T"
| "lpc_ok T iv (LDecide need now cur) \<longleftrightarrow> 1 \<le> need \<and> 0 \<le> now \<and> now \<le> T"

definition conf_ok :: "int \<Rightarrow> limiter \<Rightarrow> bool" where
  "conf_ok T l \<longleftrightarrow> 1 \<le> interval l \<and> 1 \<le> burst l \<and> burst l < 2 ^ 62 \<and> T < 2 ^ 62"

definition lim_inv :: "int \<Rightarrow> int \<Rightarrow> lstate \<Rightarrow> bool" where
  "lim_inv T t0 st \<longleftrightarrow> (case st of (l, ts) \<Rightarrow>
     conf_ok T l \<and> 0 \<le> tokens l \<and> tokens l \<le> burst l \<and> 0 \<le> lastNano l \<and> lastNano l \<le> T \<and>
     interval l * (granted ts + tokens l + pendings ts) \<le> interval l * burst l + (lastNano l - t0) \<and>
     (\<forall>t \<in> set ts. lpc_ok T (interval l) (fst t) \<and> 0 \<le> snd t))"

lemma sum_list_upd:
  fixes f :: "'a \<Rightarrow> int" assumes "i < length xs"
  shows "sum_list (map f (xs[i := y])) = sum_list (map f xs) - f (xs ! i) + f y"
  using assms by (induction xs arbitrary: i) (auto split: nat.split simp: nth_Cons')

lemma sums_upd:
  assumes "i < length ts"
  shows "granted (ts[i := (pc, g)]) = granted ts - snd (ts ! i) + g"
    "pendings (ts[i := (pc, g)]) = pendings ts - pending (fst (ts ! i)) + pending pc"
  using assms by (simp_all add: granted_def pendings_def sum_list_upd)

lemma refill_ok:
  assumes "0 \<le> now" "now \<le> T" "0 \<le> lst" "lst \<le> T" "T < 2 ^ 62" "1 \<le> iv" "0 < refill now lst iv"
  shows "lst + refill now lst iv * iv \<le> now"
proof -
  have "swrap64 (now - lst) = now - lst" using assms by (intro swrap64_id) auto
  then have "refill now lst iv = (now - lst) div iv" "lst \<le> now"
    using assms(7) by (auto simp: refill_def Let_def split: if_splits)
  moreover have "(now - lst) div iv * iv \<le> now - lst" 
    using assms(6) pos_mod_sign [of iv "now - lst"] by (simp add: minus_mod_eq_div_mult [symmetric])
  ultimately show ?thesis by simp
qed

lemma topped_up_eq:
  assumes "0 \<le> tok" "tok \<le> b" "1 \<le> add" "add \<le> T" "b < 2 ^ 62" "T < 2 ^ 62"
  shows "topped_up tok add b = min b (tok + add)"
proof -
  have "swrap64 (tok + add) = tok + add" using assms by (intro swrap64_id) auto
  then show ?thesis by (auto simp: topped_up_def Let_def)
qed

lemma swrap64_small: "0 \<le> x \<Longrightarrow> x \<le> T \<Longrightarrow> T < 2 ^ 62 \<Longrightarrow> swrap64 x = x"
  by (rule swrap64_id) auto

lemma le_times: "1 \<le> (add :: int) \<Longrightarrow> 1 \<le> iv \<Longrightarrow> add \<le> add * iv"
  by (simp add: mult_le_cancel_left1)

text \<open>One goroutine moves, and the budget is not exceeded.\<close>

lemma lim_inv_upd:
  assumes "lim_inv T t0 (l, ts)" "i < length ts" "lpc_ok T (interval l) pc" "0 \<le> g"
    "burst l' = burst l" "interval l' = interval l" "0 \<le> tokens l'" "tokens l' \<le> burst l" "0 \<le> lastNano l'" "lastNano l' \<le> T"
    "interval l * (g - snd (ts ! i) + (tokens l' - tokens l) + (pending pc - pending (fst (ts ! i)))) \<le> lastNano l' - lastNano l"
  shows "lim_inv T t0 (l', ts[i := (pc, g)])"
proof -
  have "interval l * (granted ts + tokens l + pendings ts) +
      interval l * (g - snd (ts ! i) + (tokens l' - tokens l) + (pending pc - pending (fst (ts ! i))))
    \<le> interval l * burst l + (lastNano l - t0) + (lastNano l' - lastNano l)"
    using assms(1,11) by (simp add: lim_inv_def)
  then have "interval l * (granted (ts[i := (pc, g)]) + tokens l' + pendings (ts[i := (pc, g)])) \<le> interval l * burst l + (lastNano l' - t0)"
    using assms(2) by (simp add: sums_upd algebra_simps)
  then show ?thesis using assms(1-10)
    by (auto simp: lim_inv_def conf_ok_def dest!: set_update_subset_insert [THEN subsetD])
qed

lemma lim_inv_keep:
  assumes "lim_inv T t0 (l, ts)" "i < length ts" "ts ! i = (p, g)" "pending pc = pending p" "0 \<le> g" "lpc_ok T (interval l) pc"
  shows "lim_inv T t0 (l, ts[i := (pc, g)])"
  by (rule lim_inv_upd [OF assms(1,2)]) (use assms in \<open>auto simp: lim_inv_def\<close>)

lemma lim_step_inv:
  assumes "lim_step T st st'" "lim_inv T t0 st" shows "lim_inv T t0 st'"
proof -
  obtain l ts where st: "st = (l, ts)" by (cases st)
  have li: "lim_inv T t0 (l, ts)" using assms(2) st by simp
  then have inv: "1 \<le> interval l" "0 \<le> tokens l" "tokens l \<le> burst l" "0 \<le> lastNano l" "lastNano l \<le> T" "burst l < 2 ^ 62" "T < 2 ^ 62"
    by (auto simp: lim_inv_def conf_ok_def)
  have pc: "lpc_ok T (interval l) p \<and> 0 \<le> g" if "i < length ts" "ts ! i = (p, g)" for i p g
    using li that nth_mem [of i ts] by (auto simp: lim_inv_def)
  from assms(1) [unfolded st] show ?thesis
  proof cases
    case (must_refill i need now lst g)
    then show ?thesis using li pc [OF must_refill(2,3)] inv refill_ok [of now T lst "interval l"]
      by (auto intro!: lim_inv_upd)
  next
    case (refill_won i need now lst add g)
    then have *: "1 \<le> add" "0 \<le> lst" "lst + add * interval l \<le> T" "0 \<le> add * interval l" "add \<le> add * interval l"
      using pc [OF refill_won(2,3)] inv le_times [of add "interval l"] by auto
    then have "add \<le> T" by linarith
    have "swrap64 (lst + add * interval l) = lst + add * interval l"
      using inv * by (intro swrap64_small [of _ T]) auto
    moreover have "lpc_ok T (interval l) (LRefill need now add)"
      using pc [OF refill_won(2,3)] \<open>add \<le> T\<close> by simp
    moreover have "lim_inv T t0 (l\<lparr>lastNano := lst + add * interval l\<rparr>, ts[i := (LRefill need now add, g)])"
      if "lpc_ok T (interval l) (LRefill need now add)"
      by (rule lim_inv_upd [OF li refill_won(2) that]) (use refill_won pc [OF refill_won(2,3)] inv * in \<open>simp_all add: mult.commute\<close>)
    ultimately show ?thesis using refill_won(1) by simp
  next
    case (refill_cas i need now add tok g)
    have "topped_up tok add (burst l) = min (burst l) (tok + add)"
      using refill_cas pc [OF refill_cas(2,3)] inv by (intro topped_up_eq [of _ _ _ T]) auto
    then show ?thesis using refill_cas li pc [OF refill_cas(2,3)] inv
      by (auto intro!: lim_inv_upd simp: min_def mult_le_0_iff)
  next
    case (take_cas i need now cur g)
    then show ?thesis using li pc [OF take_cas(2,3)] inv by (auto intro!: lim_inv_upd)
  qed (frule (1) pc, simp only:, rule lim_inv_keep [OF li], assumption, assumption, (use inv in force)+)+
qed

lemma lim_steps_inv: "(lim_step T)\<^sup>*\<^sup>* st st' \<Longrightarrow> lim_inv T t0 st \<Longrightarrow> lim_inv T t0 st'"
  by (induction rule: rtranclp_induct) (auto intro: lim_step_inv)

section \<open>One call is a sequence of steps\<close>

lemma AllowN_steps:
  assumes "AllowN n now l = Some (b, l')" "(if n \<le> 0 then 1 else n) \<le> burst l" "0 \<le> now" "now \<le> T"
  shows "(lim_step T)\<^sup>*\<^sup>* (l, [(LIdle, g)]) (l', [(LIdle, g + (if b then (if n \<le> 0 then 1 else n) else 0))])"
proof -
  define need where "need = (if n \<le> 0 then 1 else n)"
  define add where "add = refill now (lastNano l) (interval l)"
  let ?S = "(lim_step T)\<^sup>*\<^sup>*"
  have more: "?S (l, [(LIdle, g)]) (a, [x]) \<Longrightarrow> lim_step T (a, [x]) (c, [y]) \<Longrightarrow> ?S (l, [(LIdle, g)]) (c, [y])" for a x c y
    by (rule rtranclp.rtrancl_into_rtrancl)
  have "?S (l, [(LIdle, g)]) (l, [(LIdle, g)])" by simp
  then have "?S (l, [(LIdle, g)]) (l, [(LStart need now, g)])"
    by (rule more, use lim_step.call [of 0 "[(LIdle, g)]" g need l now T] assms(2-4) in \<open>auto simp: need_def\<close>)
  then have start: "?S (l, [(LIdle, g)]) (l, [(LLast need now (lastNano l), g)])"
    by (rule more, use lim_step.load_last [of 0 "[(LStart need now, g)]"] in simp)
  define m where "m = (if 0 < add then l\<lparr>lastNano := swrap64 (lastNano l + add * interval l), tokens := topped_up (tokens l) add (burst l)\<rparr> else l)"
  have decide: "?S (l, [(LIdle, g)]) (m, [(LDecide need now (tokens m), g)])"
  proof (cases "0 < add")
    case True
    let ?l = "l\<lparr>lastNano := swrap64 (lastNano l + add * interval l)\<rparr>"
    have "?S (l, [(LIdle, g)]) (l, [(LTryRefill need now (lastNano l) add, g)])"
      using start by (rule more, use lim_step.must_refill [of 0 "[(LLast need now (lastNano l), g)]"] True in \<open>simp add: add_def\<close>)
    then have "?S (l, [(LIdle, g)]) (?l, [(LRefill need now add, g)])"
      by (rule more, use lim_step.refill_won [of 0 "[(LTryRefill need now (lastNano l) add, g)]"] in simp)
    then have "?S (l, [(LIdle, g)]) (?l, [(LRefillCas need now add (tokens l), g)])"
      by (rule more, use lim_step.refill_load [of 0 "[(LRefill need now add, g)]" need now add g T ?l] in simp)
    then have "?S (l, [(LIdle, g)]) (?l\<lparr>tokens := topped_up (tokens l) add (burst l)\<rparr>, [(LDecide need now (topped_up (tokens l) add (burst l)), g)])"
      by (rule more, use lim_step.refill_cas [of 0 "[(LRefillCas need now add (tokens l), g)]" need now add "tokens l" g ?l T] in simp)
    then show ?thesis using True by (simp add: m_def)
  next
    case False
    show ?thesis
      using start by (rule more, use lim_step.load_tokens [of 0 "[(LLast need now (lastNano l), g)]"] False in \<open>simp add: add_def m_def\<close>)
  qed
  have b: "b \<longleftrightarrow> need \<le> tokens m" "l' = (if b then m\<lparr>tokens := tokens m - need\<rparr> else m)"
    using assms(1,2) by (auto simp: AllowN_def Let_def need_def [symmetric] add_def [symmetric] m_def split: if_splits)
  show ?thesis
  proof (cases b)
    case True
    show ?thesis unfolding need_def [symmetric]
      using decide by (rule more, use lim_step.take_cas [of 0 "[(LDecide need now (tokens m), g)]" need now "tokens m" g m T] True b in simp)
  next
    case False
    show ?thesis unfolding need_def [symmetric]
      using decide by (rule more, use lim_step.deny [of 0 "[(LDecide need now (tokens m), g)]" need now "tokens m" g T m] False b in simp)
  qed
qed

section \<open>Properties\<close>

lemma New_inv:
  assumes "1 \<le> interval (Limiter_New r b t0)" "b < 2 ^ 62" "0 \<le> t0" "t0 \<le> T" "T < 2 ^ 62"
  shows "lim_inv T t0 (Limiter_New r b t0, replicate k (LIdle, 0))"
proof -
  have "granted (replicate k (LIdle, 0)) = 0" "pendings (replicate k (LIdle, 0)) = 0"
    by (induction k) (simp_all add: granted_def pendings_def)
  then show ?thesis using assms by (auto simp: lim_inv_def conf_ok_def Limiter_New_def Let_def)
qed

text \<open>
  C11. The rate limit holds in every interleaving: however many goroutines call \<open>Allow\<close> and \<open>AllowN\<close>,
  and however their atomic steps and clock readings are ordered, the tokens granted until time \<open>T\<close> are
  at most the burst plus one for every interval since the limiter was made.
\<close>

theorem ratelimit_bound:
  assumes "r \<le> 1000000000" "b < 2 ^ 62" "0 \<le> t0" "t0 \<le> T" "T < 2 ^ 62"
    and "(lim_step T)\<^sup>*\<^sup>* (Limiter_New r b t0, replicate k (LIdle, 0)) (l, ts)"
  shows "granted ts \<le> burst l + (T - t0) div interval l"
proof -
  have "1 \<le> interval (Limiter_New r b t0)"
    using assms(1) pos_imp_zdiv_pos_iff [of r "1000000000"] by (auto simp: Limiter_New_def Let_def)
  from lim_steps_inv [OF assms(6) New_inv [OF this assms(2-5)]]
  have inv: "1 \<le> interval l" "0 \<le> tokens l" "lastNano l \<le> T"
      "interval l * (granted ts + tokens l + pendings ts) \<le> interval l * burst l + (lastNano l - t0)"
    and ok: "\<forall>t \<in> set ts. lpc_ok T (interval l) (fst t)"
    by (auto simp: lim_inv_def conf_ok_def)
  have "0 \<le> pending pc" if "lpc_ok T iv pc" for iv pc using that by (cases pc) auto
  then have "\<forall>t \<in> set ts. 0 \<le> pending (fst t)" using ok by blast
  then have "0 \<le> pendings ts" unfolding pendings_def by (intro sum_list_nonneg) auto
  then have "interval l * granted ts \<le> interval l * (granted ts + tokens l + pendings ts)"
    using inv(1,2) by (intro mult_left_mono) auto
  then have "(granted ts - burst l) * interval l \<le> T - t0" using inv(3,4) by (simp add: algebra_simps)
  then have "granted ts - burst l \<le> (T - t0) div interval l"
    using zdiv_mono1 [of "(granted ts - burst l) * interval l" "T - t0" "interval l"] inv(1) by simp
  then show ?thesis by simp
qed

lemma demo_lim_calls: "(lim_step 2000)\<^sup>*\<^sup>* (Limiter_New 1000000 3 1000, replicate 1 (LIdle, 0)) (Limiter_New 1000000 3 1000\<lparr>tokens := 1\<rparr>, [(LIdle, 2)])"
proof -
  have "AllowN 2 1500 (Limiter_New 1000000 3 1000) = Some (True, Limiter_New 1000000 3 1000\<lparr>tokens := 1\<rparr>)"
    by (simp add: AllowN_def Limiter_New_def refill_def swrap64_def Let_def)
  from AllowN_steps [OF this, of 2000 0] show ?thesis by (simp add: Limiter_New_def)
qed

theorem ratelimit_bound_witness: "granted [(LIdle, 2)] \<le> 3 + (2000 - 1000) div 1000"
  using ratelimit_bound [OF _ _ _ _ _ demo_lim_calls] by (simp add: Limiter_New_def Let_def)

text \<open>The tokens a full account of the elapsed time gives at time \<open>now\<close>.\<close>

definition bucket :: "limiter \<Rightarrow> int \<Rightarrow> int" where
  "bucket l now = min (burst l) (tokens l + max 0 (now - lastNano l) div interval l)"

definition lim_ok :: "limiter \<Rightarrow> bool" where
  "lim_ok l \<longleftrightarrow> 0 \<le> tokens l \<and> tokens l \<le> burst l \<and> 0 \<le> lastNano l \<and> lastNano l < 2 ^ 62 \<and> 1 \<le> burst l \<and> burst l < 2 ^ 62 \<and> 0 \<le> interval l"

text \<open>
  One call: more than the burst is refused, with a zero interval (a rate above one token per
  nanosecond) every other call panics by dividing by zero, and otherwise the call is allowed exactly when
  the bucket, topped up for the time that has passed, holds the tokens, which are then taken out. So a
  caller who waits one interval for each token is always served.
\<close>

theorem AllowN_token_bucket:
  assumes ok: "lim_ok l" and now: "0 \<le> now" "now < 2 ^ 62"
  shows "case AllowN n now l of
      None \<Rightarrow> interval l = 0 \<and> max 1 n \<le> burst l
    | Some (allowed, l') \<Rightarrow> lim_ok l' \<and>
        (burst l < max 1 n \<and> \<not> allowed \<and> l' = l \<or>
         max 1 n \<le> burst l \<and> 0 < interval l \<and> (allowed \<longleftrightarrow> max 1 n \<le> bucket l now) \<and>
         bucket l' now = bucket l now - (if allowed then max 1 n else 0) \<and>
         (max 1 n * interval l \<le> now - lastNano l \<longrightarrow> allowed))"
proof (cases "max 1 n \<le> burst l \<and> 0 < interval l")
  case False
  then show ?thesis using ok by (auto simp: AllowN_def Let_def lim_ok_def max_def)
next
  case True
  let ?iv = "interval l" and ?el = "max 0 (now - lastNano l)"
  define add where "add = refill now (lastNano l) ?iv"
  have need: "(if n \<le> 0 then 1 else n) = max 1 n" by auto
  have b: "0 \<le> tokens l" "tokens l \<le> burst l" "0 \<le> lastNano l" "lastNano l < 2 ^ 62" "burst l < 2 ^ 62" using ok by (auto simp: lim_ok_def)
  have "swrap64 (now - lastNano l) = now - lastNano l" using now b by (intro swrap64_id) auto
  then have add: "add = ?el div ?iv" by (auto simp: add_def refill_def Let_def max_def)
  have "?el = add * ?iv + ?el mod ?iv" unfolding add by simp
  moreover have "0 \<le> ?el mod ?iv" "?el mod ?iv < ?iv" using True by simp_all
  moreover have "0 \<le> add" using True by (simp add: add pos_imp_zdiv_nonneg_iff)
  ultimately have el: "0 \<le> add" "add * ?iv \<le> ?el" "?el < add * ?iv + ?iv" by linarith+
  define m where "m = (if 0 < add then l\<lparr>lastNano := swrap64 (lastNano l + add * ?iv), tokens := topped_up (tokens l) add (burst l)\<rparr> else l)"
  have m: "burst m = burst l" "interval m = ?iv" "tokens m = bucket l now" "lastNano m = lastNano l + add * ?iv"
  proof -
    have "?el < 2 ^ 62" using now b by auto
    moreover have "add \<le> add * ?iv" if "0 < add" using le_times [of add ?iv] True that by simp
    ultimately have "add \<le> 2 ^ 62 - 1" if "0 < add" using el(2) that by linarith
    then have "topped_up (tokens l) add (burst l) = min (burst l) (tokens l + add)" if "0 < add"
      using that b by (intro topped_up_eq [of _ _ _ "2 ^ 62 - 1"]) auto
    moreover have "swrap64 (lastNano l + add * ?iv) = lastNano l + add * ?iv" if "0 < add"
    proof -
      have "0 \<le> add * ?iv" using el(1) True by simp
      then show ?thesis using el(2) now b by (intro swrap64_id) auto
    qed
    ultimately show "burst m = burst l" "interval m = ?iv" "tokens m = bucket l now" "lastNano m = lastNano l + add * ?iv"
      using el(1) b by (auto simp: m_def bucket_def add [symmetric])
  qed
  have step: "AllowN n now l = (if tokens m < max 1 n then Some (False, m) else Some (True, m\<lparr>tokens := tokens m - max 1 n\<rparr>))"
    using True by (auto simp: AllowN_def Let_def need add_def [symmetric] m_def)
  have rest: "max 0 (now - lastNano m) div ?iv = 0"
  proof -
    have "max 0 (now - lastNano m) < ?iv" using el m(4) True by auto
    then show ?thesis by simp
  qed
  have mok: "lim_ok m"
    using m el(1,2) now b True ok by (auto simp: lim_ok_def bucket_def add [symmetric] intro: mult_nonneg_nonneg)
  have "max 1 n \<le> bucket l now" if "max 1 n * ?iv \<le> now - lastNano l"
  proof -
    have "max 1 n \<le> ?el div ?iv" using zdiv_mono1 [OF that, of ?iv] True zdiv_mono1 [of "now - lastNano l" ?el ?iv] by simp
    then show ?thesis using True b by (auto simp: bucket_def)
  qed
  then have served: "max 1 n * ?iv \<le> now - lastNano l \<longrightarrow> max 1 n \<le> tokens m" unfolding m(3) by blast
  have left: "bucket (m\<lparr>tokens := x\<rparr>) now = x" if "x \<le> tokens m" for x
    using rest m(1-3) that by (simp add: bucket_def)
  obtain q where q: "max 1 n = q" by simp
  show ?thesis
  proof (cases "tokens m < max 1 n")
    case True
    then have "AllowN n now l = Some (False, m)" using step by simp
    moreover have "bucket m now = tokens m" using left [of "tokens m"] by simp
    ultimately show ?thesis using mok \<open>max 1 n \<le> burst l \<and> 0 < ?iv\<close> True served
      unfolding m(3) [symmetric] q by auto
  next
    case False
    then have "AllowN n now l = Some (True, m\<lparr>tokens := tokens m - max 1 n\<rparr>)" using step by simp
    moreover have "lim_ok (m\<lparr>tokens := tokens m - max 1 n\<rparr>)" using mok False by (auto simp: lim_ok_def)
    moreover have "bucket (m\<lparr>tokens := tokens m - max 1 n\<rparr>) now = tokens m - max 1 n" by (rule left) simp
    ultimately show ?thesis using \<open>max 1 n \<le> burst l \<and> 0 < ?iv\<close> False
      unfolding m(3) [symmetric] q by auto
  qed
qed

theorem AllowN_token_bucket_witness:
  "AllowN 1 5 (Limiter_New 2000000000 1 0) = None \<and> interval (Limiter_New 2000000000 1 0) = 0"
  using AllowN_token_bucket [of "Limiter_New 2000000000 1 0" 5 1]
  by (simp add: AllowN_def Limiter_New_def Let_def lim_ok_def)

end
