(* ===== verification/Ipmap.thy ===== *)
theory Ipmap
  imports Smap Topn Ratelimit "HOL-Library.Multiset" "HOL-Library.Signed_Division"
begin

text \<open>
  The per-IP limiters of package \<open>ratelimit\<close> (src/ratelimit/ipmap.go), on top of the sharded map, the
  token bucket and the top-N selection. Entries are shared by pointer (\<open>Get\<close> hands out the
  limiter of an entry that stays in the map), so they live in a store addressed by identifiers and
  the map holds identifiers. Clock readings, the hash of the sharded map, the iteration order of Go
  maps and \<open>slices.SortFunc\<close> are parameters.
\<close>

section \<open>Entries\<close>

record ip_entry =
  lim :: limiter
  lastUsed :: int
  hits :: int
  recentMin :: int
  recentCount :: int
  prevCount :: int

definition addRecentAt :: "int \<Rightarrow> ip_entry \<Rightarrow> ip_entry" where
  "addRecentAt nowMin e =
     (let ts = recentMin e;
          e = (if nowMin \<noteq> ts then e\<lparr>recentMin := nowMin, recentCount := 0, prevCount := recentCount e\<rparr> else e)
      in e\<lparr>recentCount := swrap64 (recentCount e + 1)\<rparr>)"

text \<open>The argument is the Unix time in seconds.\<close>

definition recentHits :: "int \<Rightarrow> ip_entry \<Rightarrow> int" where
  "recentHits now e =
     (let nowMin = now sdiv 60; elapsed = now smod 60
      in if recentMin e \<noteq> nowMin then recentCount e
         else (let prev = prevCount e; cur = recentCount e in swrap64 (swrap64 (prev * (60 - elapsed)) sdiv 60 + cur)))"

section \<open>The map\<close>

record ipmap =
  im_m :: "nat smap"
  im_store :: "nat \<Rightarrow> ip_entry"
  im_next :: nat
  im_rate :: int
  im_burst :: int
  im_strict :: bool

text \<open>An entry that \<open>&ipEntry{lim: New(rate, burst)}\<close> allocates; \<open>t\<close> is the reading \<open>New\<close> takes.\<close>

definition fresh_entry :: "int \<Rightarrow> int \<Rightarrow> int \<Rightarrow> int \<Rightarrow> ip_entry" where
  "fresh_entry r b t now =
     \<lparr>lim = Limiter_New r b t, lastUsed = now, hits = 0, recentMin = 0, recentCount = 0, prevCount = 0\<rparr>"

definition NewIPMap :: "int \<Rightarrow> int \<Rightarrow> int \<Rightarrow> bool \<Rightarrow> ipmap option" where
  "NewIPMap r b shards strict =
     (let shards = (if shards \<le> 0 then 64 else shards)
      in map_option (\<lambda>m. \<lparr>im_m = m, im_store = (\<lambda>_. fresh_entry r b 0 0), im_next = 0, im_rate = r, im_burst = b, im_strict = strict\<rparr>)
           (Map_New shards))"

definition update_entry :: "nat \<Rightarrow> (ip_entry \<Rightarrow> ip_entry) \<Rightarrow> ipmap \<Rightarrow> ipmap" where
  "update_entry e f m = m\<lparr>im_store := (im_store m)(e := f (im_store m e))\<rparr>"

definition new_entry :: "int \<Rightarrow> int \<Rightarrow> ipmap \<Rightarrow> nat \<times> ipmap" where
  "new_entry t now m =
     (im_next m, m\<lparr>im_store := (im_store m)(im_next m := fresh_entry (im_rate m) (im_burst m) t now), im_next := im_next m + 1\<rparr>)"

definition add_hit :: "int \<Rightarrow> ip_entry \<Rightarrow> ip_entry" where
  "add_hit nowMin e = addRecentAt nowMin (e\<lparr>hits := swrap64 (hits e + 1)\<rparr>)"

definition set_used :: "int \<Rightarrow> ip_entry \<Rightarrow> ip_entry" where "set_used now e = e\<lparr>lastUsed := now\<rparr>"

definition getOrCreate :: "(bytes \<Rightarrow> u64) \<Rightarrow> int \<Rightarrow> int \<Rightarrow> bytes \<Rightarrow> ipmap \<Rightarrow> nat \<times> ipmap" where
  "getOrCreate h nowNano t ip m =
     (let nowMin = nowNano sdiv 60000000000
      in if im_strict m then
           (case Map_GetOrSet h (im_m m) ip (im_next m) of
              ((e, created), sm) \<Rightarrow>
                let m = (if created then snd (new_entry t nowNano m) else m)\<lparr>im_m := sm\<rparr>
                in (e, update_entry e (add_hit nowMin) (update_entry e (set_used nowNano) m)))
         else
           (case Map_Get h (im_m m) ip of
              Some e \<Rightarrow> (e, update_entry e (add_hit nowMin) (update_entry e (set_used nowNano) m))
            | None \<Rightarrow>
                (case new_entry t nowNano m of
                   (ne, m) \<Rightarrow>
                     let m = m\<lparr>im_m := Map_Set h (im_m m) ip ne\<rparr>
                     in (case Map_Get h (im_m m) ip of
                           Some e \<Rightarrow> (e, update_entry e (add_hit nowMin) m)
                         | None \<Rightarrow> (ne, update_entry ne (add_hit nowMin) m)))))"

definition maxIPKeyLen :: nat where "maxIPKeyLen = 128"

text \<open>The readings of a call: at its start, for a new limiter, and inside the limiter.\<close>

type_synonym readings = "int \<times> int \<times> int"

text \<open>The result of the limiter is \<open>None\<close> when it panics.\<close>

definition IPMap_AllowN :: "(bytes \<Rightarrow> u64) \<Rightarrow> readings \<Rightarrow> bytes \<Rightarrow> int \<Rightarrow> ipmap \<Rightarrow> bool option \<times> ipmap" where
  "IPMap_AllowN h = (\<lambda>(now, t, t') ip n m.
     if maxIPKeyLen < length ip then (Some False, m)
     else
       (case getOrCreate h now t ip m of
          (e, m) \<Rightarrow>
            (case AllowN n t' (lim (im_store m e)) of
               None \<Rightarrow> (None, m)
             | Some (b, l) \<Rightarrow> (Some b, update_entry e (\<lambda>x. x\<lparr>lim := l\<rparr>) m))))"

definition IPMap_Allow :: "(bytes \<Rightarrow> u64) \<Rightarrow> readings \<Rightarrow> bytes \<Rightarrow> ipmap \<Rightarrow> bool option \<times> ipmap" where
  "IPMap_Allow h = (\<lambda>(now, t, t') ip m.
     if maxIPKeyLen < length ip then (Some False, m)
     else
       (case getOrCreate h now t ip m of
          (e, m) \<Rightarrow>
            (case Allow t' (lim (im_store m e)) of
               None \<Rightarrow> (None, m)
             | Some (b, l) \<Rightarrow> (Some b, update_entry e (\<lambda>x. x\<lparr>lim := l\<rparr>) m))))"

text \<open>The limiter of an entry, as a pointer.\<close>

definition IPMap_Get :: "(bytes \<Rightarrow> u64) \<Rightarrow> int \<Rightarrow> int \<Rightarrow> bytes \<Rightarrow> ipmap \<Rightarrow> nat option \<times> ipmap" where
  "IPMap_Get h now t ip m =
     (if maxIPKeyLen < length ip then (None, m)
      else (case getOrCreate h now t ip m of (e, m) \<Rightarrow> (Some e, m)))"

definition delete_keys :: "(bytes \<Rightarrow> u64) \<Rightarrow> bytes list \<Rightarrow> ipmap \<Rightarrow> int \<times> ipmap" where
  "delete_keys h ks m = fold (\<lambda>ip (n, m). (n + 1, m\<lparr>im_m := Map_Del h (im_m m) ip\<rparr>)) ks (0, m)"

type_synonym orders = "(bytes \<times> nat) list \<Rightarrow> (bytes \<times> nat) list"

definition Evict :: "(bytes \<Rightarrow> u64) \<Rightarrow> orders \<Rightarrow> int \<Rightarrow> int \<Rightarrow> ipmap \<Rightarrow> int \<times> ipmap" where
  "Evict h ord now ttl m =
     (let cutoff = swrap64 (now - ttl);
          toDelete = Map_Range (map ord (sm_shards (im_m m)))
            (\<lambda>ip e ks. (True, if lastUsed (im_store m e) < cutoff then ks @ [ip] else ks)) []
      in delete_keys h toDelete m)"

definition IPMap_Len :: "ipmap \<Rightarrow> int" where "IPMap_Len m = Map_Len (im_m m)"

definition IPMap_Purge :: "(bytes \<Rightarrow> u64) \<Rightarrow> orders \<Rightarrow> ipmap \<Rightarrow> ipmap" where
  "IPMap_Purge h ord m =
     (let keys = Map_Range (map ord (sm_shards (im_m m))) (\<lambda>ip e ks. (True, ks @ [ip])) []
      in snd (delete_keys h keys m))"

record ip_stat =
  IP :: bytes
  Hits :: int
  RecentHits :: int

text \<open>\<open>clk\<close> gives the reading that \<open>recentHits\<close> takes for an address.\<close>

definition IPMap_TopN :: "((ip_stat \<Rightarrow> ip_stat \<Rightarrow> int) \<Rightarrow> ip_stat list \<Rightarrow> ip_stat list) \<Rightarrow> orders \<Rightarrow> (bytes \<Rightarrow> int) \<Rightarrow> int \<Rightarrow> ipmap \<Rightarrow> ip_stat list option" where
  "IPMap_TopN SortFunc ord clk n m =
     (if n \<le> 0 then None
      else
        (let all = Map_Range (map ord (sm_shards (im_m m)))
               (\<lambda>ip e xs. (True, xs @ [\<lparr>IP = ip, Hits = hits (im_store m e), RecentHits = recentHits (clk ip) (im_store m e)\<rparr>])) []
         in ByKey SortFunc all n Hits))"

definition IPMap_TopNRecent :: "((ip_stat \<Rightarrow> ip_stat \<Rightarrow> int) \<Rightarrow> ip_stat list \<Rightarrow> ip_stat list) \<Rightarrow> orders \<Rightarrow> (bytes \<Rightarrow> int) \<Rightarrow> int \<Rightarrow> ipmap \<Rightarrow> ip_stat list option" where
  "IPMap_TopNRecent SortFunc ord clk n m =
     (if n \<le> 0 then None
      else
        (let all = Map_Range (map ord (sm_shards (im_m m)))
               (\<lambda>ip e xs. (True, let rh = recentHits (clk ip) (im_store m e) in
                  if 0 < rh then xs @ [\<lparr>IP = ip, Hits = hits (im_store m e), RecentHits = rh\<rparr>] else xs)) []
         in ByKey SortFunc all n RecentHits))"

section \<open>The specification: one independent entry for every address\<close>

type_synonym ip_view = "bytes \<rightharpoonup> ip_entry"

datatype ip_call = CAllowN readings bytes int | CEvict int int | CPurge | CLen

datatype ip_out = OAllow "bool option" | OCount int

definition visit :: "int \<Rightarrow> int \<Rightarrow> int \<Rightarrow> int \<Rightarrow> ip_entry option \<Rightarrow> ip_entry" where
  "visit r b now t x =
     add_hit (now sdiv 60000000000) (case x of None \<Rightarrow> fresh_entry r b t now | Some e \<Rightarrow> set_used now e)"

definition stale :: "ip_view \<Rightarrow> int \<Rightarrow> bytes set" where
  "stale M cutoff = {ip. \<exists>e. M ip = Some e \<and> lastUsed e < cutoff}"

fun ip_spec :: "int \<Rightarrow> int \<Rightarrow> ip_call \<Rightarrow> ip_view \<Rightarrow> ip_out \<times> ip_view" where
  "ip_spec r b (CAllowN (now, t, t') ip n) M =
     (if 128 < length ip then (OAllow (Some False), M)
      else
        (let e = visit r b now t (M ip)
         in case AllowN n t' (lim e) of
              None \<Rightarrow> (OAllow None, M(ip \<mapsto> e))
            | Some (ok, l) \<Rightarrow> (OAllow (Some ok), M(ip \<mapsto> e\<lparr>lim := l\<rparr>))))"
| "ip_spec r b (CEvict now ttl) M =
     (OCount (int (card (stale M (swrap64 (now - ttl))))), M |` (- stale M (swrap64 (now - ttl))))"
| "ip_spec r b CPurge M = (OCount 0, Map.empty)"
| "ip_spec r b CLen M = (OCount (int (card (dom M))), M)"

fun ip_call_step :: "(bytes \<Rightarrow> u64) \<Rightarrow> orders \<Rightarrow> ip_call \<Rightarrow> ipmap \<Rightarrow> ip_out \<times> ipmap" where
  "ip_call_step h ord (CAllowN rd ip n) m = (case IPMap_AllowN h rd ip n m of (x, m) \<Rightarrow> (OAllow x, m))"
| "ip_call_step h ord (CEvict now ttl) m = (case Evict h ord now ttl m of (n, m) \<Rightarrow> (OCount n, m))"
| "ip_call_step h ord CPurge m = (OCount 0, IPMap_Purge h ord m)"
| "ip_call_step h ord CLen m = (OCount (IPMap_Len m), m)"

section \<open>The store refines it\<close>

definition view :: "(bytes \<Rightarrow> u64) \<Rightarrow> ipmap \<Rightarrow> ip_view" where
  "view h m = (\<lambda>ip. map_option (im_store m) (Map_Get h (im_m m) ip))"

definition ids_ok :: "(bytes \<rightharpoonup> nat) \<Rightarrow> nat \<Rightarrow> bool" where
  "ids_ok G n \<longleftrightarrow> (\<forall>ip e. G ip = Some e \<longrightarrow> e < n) \<and> (\<forall>ip ip' e. G ip = Some e \<longrightarrow> G ip' = Some e \<longrightarrow> ip = ip')"

definition ip_inv :: "(bytes \<Rightarrow> u64) \<Rightarrow> ipmap \<Rightarrow> bool" where
  "ip_inv h m \<longleftrightarrow> Map_inv h (im_m m) \<and> ids_ok (Map_Get h (im_m m)) (im_next m)"

lemma smap_ops:
  assumes "Map_inv h sm"
  shows "Map_inv h (Map_Set h sm k v)" "Map_Get h (Map_Set h sm k v) = (Map_Get h sm)(k \<mapsto> v)"
    "Map_inv h (Map_Del h sm k)" "Map_Get h (Map_Del h sm k) = (Map_Get h sm)(k := None)"
  using smap.put_law [OF assms refl] smap.del_law [OF assms refl] by blast+

lemma update_entry_sel [simp]:
  "im_m (update_entry e f m) = im_m m" "im_next (update_entry e f m) = im_next m" "im_rate (update_entry e f m) = im_rate m"
  "im_burst (update_entry e f m) = im_burst m" "im_strict (update_entry e f m) = im_strict m"
  "im_store (update_entry e f m) = (im_store m)(e := f (im_store m e))"
  by (simp_all add: update_entry_def)

lemma ids_ok_simps:
  "ids_ok G n \<Longrightarrow> ids_ok (G(ip \<mapsto> n)) (n + 1)" "ids_ok G n \<Longrightarrow> ids_ok (G(ip := None)) n"
  by (auto simp: ids_ok_def less_Suc_eq split: if_splits)

lemma view_update:
  assumes "ids_ok G n" "G ip = Some e"
  shows "(\<lambda>ip. map_option (st(e := x)) (G ip)) = (\<lambda>ip. map_option st (G ip))(ip \<mapsto> x)"
  using assms by (auto simp: ids_ok_def fun_eq_iff split: option.splits) (metis map_option_cong fun_upd_other)

lemma view_update_entry:
  assumes "ip_inv h m" "Map_Get h (im_m m) ip = Some e"
  shows "ip_inv h (update_entry e f m)" "view h (update_entry e f m) = (view h m)(ip \<mapsto> f (im_store m e))"
  using assms view_update [of "Map_Get h (im_m m)" "im_next m" ip e "im_store m" "f (im_store m e)"]
  by (auto simp: ip_inv_def view_def)

text \<open>A new entry under an address that had none.\<close>

lemma view_insert:
  assumes "ip_inv h m" "Map_Get h (im_m m) ip = None"
    and m': "m' = m\<lparr>im_store := (im_store m)(im_next m := x), im_next := im_next m + 1, im_m := Map_Set h (im_m m) ip (im_next m)\<rparr>"
  shows "ip_inv h m'" "view h m' = (view h m)(ip \<mapsto> x)" "Map_Get h (im_m m') ip = Some (im_next m)" "im_store m' (im_next m) = x"
proof -
  have i: "Map_inv h (im_m m)" "ids_ok (Map_Get h (im_m m)) (im_next m)" using assms(1) by (auto simp: ip_inv_def)
  show "ip_inv h m'" using i smap_ops [OF i(1)] ids_ok_simps(1) [OF i(2)] by (simp add: ip_inv_def m')
  have "map_option ((im_store m)(im_next m := x)) (Map_Get h (im_m m) k) = map_option (im_store m) (Map_Get h (im_m m) k)" for k
    using i(2) by (cases "Map_Get h (im_m m) k") (auto simp: ids_ok_def)
  then show "view h m' = (view h m)(ip \<mapsto> x)" using smap_ops(2) [OF i(1)] by (auto simp: view_def m' fun_eq_iff)
  show "Map_Get h (im_m m') ip = Some (im_next m)" "im_store m' (im_next m) = x" using smap_ops(2) [OF i(1)] by (simp_all add: m')
qed

lemma getOrCreate_ok:
  assumes "ip_inv h m" "getOrCreate h now t ip m = (e, m')"
  shows "ip_inv h m' \<and> Map_Get h (im_m m') ip = Some e \<and> im_rate m' = im_rate m \<and> im_burst m' = im_burst m \<and>
    view h m' = (view h m)(ip \<mapsto> visit (im_rate m) (im_burst m) now t (view h m ip)) \<and>
    im_store m' e = visit (im_rate m) (im_burst m) now t (view h m ip)"
proof (cases "Map_Get h (im_m m) ip")
  case (Some e')
  then have m': "e = e'" "m' = update_entry e (add_hit (now sdiv 60000000000)) (update_entry e (set_used now) m)"
    using assms(2) by (auto simp: getOrCreate_def Map_GetOrSet_def Let_def split: if_splits)
  have v: "view h m ip = Some (im_store m e)" using Some m' by (simp add: view_def)
  note u = view_update_entry [OF assms(1), of ip e "set_used now"]
  note w = view_update_entry [OF u(1), of ip e "add_hit (now sdiv 60000000000)"]
  show ?thesis using Some m' v u w by (simp add: visit_def)
next
  case None
  let ?x = "fresh_entry (im_rate m) (im_burst m) t now"
  define m1 where "m1 = m\<lparr>im_store := (im_store m)(im_next m := ?x), im_next := im_next m + 1, im_m := Map_Set h (im_m m) ip (im_next m)\<rparr>"
  note i = view_insert [OF assms(1) None m1_def]
  have v: "view h m ip = None" using None by (simp add: view_def)
  have "(e = im_next m) \<and> m' = (if im_strict m then update_entry e (add_hit (now sdiv 60000000000)) (update_entry e (set_used now) m1)
      else update_entry e (add_hit (now sdiv 60000000000)) m1)"
    using assms(2) None i(3) by (auto simp: getOrCreate_def Map_GetOrSet_def new_entry_def Let_def m1_def split: if_splits)
  moreover have "update_entry (im_next m) (set_used now) m1 = m1"
    by (simp add: update_entry_def m1_def set_used_def fresh_entry_def fun_upd_def fun_eq_iff)
  ultimately have m': "e = im_next m" "m' = update_entry e (add_hit (now sdiv 60000000000)) m1" by auto
  note w = view_update_entry [OF i(1), of ip e "add_hit (now sdiv 60000000000)"]
  show ?thesis using m' v i w by (simp add: visit_def) (simp add: m1_def)
qed

section \<open>Deleting addresses\<close>

definition orders_ok :: "orders \<Rightarrow> bool" where "orders_ok ord \<longleftrightarrow> (\<forall>s. mset (ord s) = mset s)"

text \<open>What an iteration over the map sees: every address once, with its entry.\<close>

definition visited :: "orders \<Rightarrow> ipmap \<Rightarrow> (bytes \<times> nat) list" where
  "visited ord m = concat (map ord (sm_shards (im_m m)))"

lemma visited_ok:
  assumes "orders_ok ord" "Map_inv h (im_m m)"
  shows "distinct (map fst (visited ord m))" "map_of (visited ord m) = Map_Get h (im_m m)"
proof -
  let ?c = "concat (sm_shards (im_m m))"
  have "mset (concat (map ord ss)) = mset (concat ss)" for ss
    using assms(1) by (induction ss) (auto simp: orders_ok_def)
  then have ms: "mset (visited ord m) = mset ?c" by (simp add: visited_def)
  have c: "distinct (map fst ?c)" "map_of ?c = Map_Get h (im_m m)"
    using sharded_concat [of "Map_shard h (im_m m)" "sm_shards (im_m m)"] assms(2) by (simp_all add: Map_inv_def get_sharded)
  show d: "distinct (map fst (visited ord m))" using c(1) ms by (metis mset_eq_imp_distinct_iff mset_map)
  have "set (visited ord m) = set ?c" using ms by (rule mset_eq_setD)
  then have "map_of (visited ord m) = map_of ?c" by (rule map_of_inject_set [THEN iffD2, OF d c(1)])
  then show "map_of (visited ord m) = Map_Get h (im_m m)" using c(2) by simp
qed

lemma Range_visited: "Map_Range (map ord (sm_shards (im_m m))) (\<lambda>ip e s. (True, g ip e s)) s0 = fold (\<lambda>(ip, e). g ip e) (visited ord m) s0"
  by (simp add: Map_Range_def shard_Range_iter visited_def iter_while_fold case_prod_unfold)

lemma fold_snoc_filter:
  "fold (\<lambda>(ip, e) xs. if P ip e then xs @ [f ip e] else xs) es xs = xs @ map (\<lambda>(ip, e). f ip e) (filter (\<lambda>(ip, e). P ip e) es)"
  by (induction es arbitrary: xs) auto

lemma delete_keys_ok:
  assumes "ip_inv h m" "delete_keys h ks m = (n, m')"
  shows "n = int (length ks) \<and> ip_inv h m' \<and> im_rate m' = im_rate m \<and> im_burst m' = im_burst m \<and> view h m' = view h m |` (- set ks)"
proof -
  let ?f = "\<lambda>ip (n, m). (n + 1, m\<lparr>im_m := Map_Del h (im_m m) ip\<rparr>)"
  have "fst (fold ?f ks (c, m)) = c + int (length ks) \<and>
      ip_inv h (snd (fold ?f ks (c, m))) \<and> im_rate (snd (fold ?f ks (c, m))) = im_rate m \<and> im_burst (snd (fold ?f ks (c, m))) = im_burst m \<and>
      view h (snd (fold ?f ks (c, m))) = view h m |` (- set ks)" if "ip_inv h m" for c :: int and m
    using that
  proof (induction ks arbitrary: m c)
    case (Cons k ks)
    let ?m = "m\<lparr>im_m := Map_Del h (im_m m) k\<rparr>"
    have i: "Map_inv h (im_m m)" "ids_ok (Map_Get h (im_m m)) (im_next m)" using Cons.prems by (auto simp: ip_inv_def)
    have "ip_inv h ?m" using smap_ops [OF i(1)] ids_ok_simps(2) [OF i(2)] by (simp add: ip_inv_def)
    moreover have "view h ?m = (view h m)(k := None)" using smap_ops(4) [OF i(1)] by (auto simp: view_def fun_eq_iff)
    ultimately show ?case using Cons.IH [of ?m "c + 1"] by (auto simp: fun_eq_iff restrict_map_def)
  qed (simp add: restrict_map_def)
  from this [OF assms(1), of 0] assms(2) show ?thesis by (simp add: delete_keys_def)
qed

text \<open>Deleting the visited addresses whose entries satisfy a predicate.\<close>

lemma delete_visited:
  assumes "orders_ok ord" "ip_inv h m" "delete_keys h (map fst (filter (\<lambda>(ip, e). P (im_store m e)) (visited ord m))) m = (n, m')"
  defines "S \<equiv> {ip. \<exists>e. view h m ip = Some e \<and> P e}"
  shows "n = int (card S) \<and> ip_inv h m' \<and> im_rate m' = im_rate m \<and> im_burst m' = im_burst m \<and> view h m' = view h m |` (- S)"
proof -
  let ?ks = "map fst (filter (\<lambda>(ip, e). P (im_store m e)) (visited ord m))"
  have "Map_inv h (im_m m)" using assms(2) by (simp add: ip_inv_def)
  note v = visited_ok [OF assms(1) this]
  have "distinct ?ks" using v(1) by (rule distinct_map_filter)
  have "set ?ks = S"
  proof -
    have "(ip, e) \<in> set (visited ord m) \<longleftrightarrow> Map_Get h (im_m m) ip = Some e" for ip e
      using v(1) by (simp add: v(2) [symmetric])
    then show ?thesis by (auto simp: S_def view_def image_iff split_beta)
  qed
  moreover have "length ?ks = card (set ?ks)" using \<open>distinct ?ks\<close> by (simp only: distinct_card)
  ultimately show ?thesis using delete_keys_ok [OF assms(2,3)] by simp
qed

lemma Evict_ok:
  assumes "orders_ok ord" "ip_inv h m" "Evict h ord now ttl m = (n, m')"
  shows "n = int (card (stale (view h m) (swrap64 (now - ttl)))) \<and> ip_inv h m' \<and> im_rate m' = im_rate m \<and> im_burst m' = im_burst m \<and>
    view h m' = view h m |` (- stale (view h m) (swrap64 (now - ttl)))"
  using delete_visited [OF assms(1,2), of "\<lambda>e. lastUsed e < swrap64 (now - ttl)" n m'] assms(3)
  unfolding Evict_def Let_def Range_visited fold_snoc_filter by (simp add: stale_def case_prod_unfold)

lemma Purge_ok:
  assumes "orders_ok ord" "ip_inv h m"
  shows "ip_inv h (IPMap_Purge h ord m) \<and> im_rate (IPMap_Purge h ord m) = im_rate m \<and> im_burst (IPMap_Purge h ord m) = im_burst m \<and>
    view h (IPMap_Purge h ord m) = Map.empty"
proof -
  let ?ks = "map fst (filter (\<lambda>(ip, e). True) (visited ord m))"
  have "IPMap_Purge h ord m = snd (delete_keys h ?ks m)"
    using fold_snoc_filter [of "\<lambda>_ _. True" "\<lambda>ip _. ip" "visited ord m" "[]"]
    unfolding IPMap_Purge_def Let_def Range_visited by (simp add: case_prod_unfold)
  moreover obtain n m' where "delete_keys h ?ks m = (n, m')" by fastforce
  moreover have "view h m |` (- {ip. \<exists>e. view h m ip = Some e}) = Map.empty" by (auto simp: restrict_map_def fun_eq_iff)
  ultimately show ?thesis using delete_visited [OF assms, of "\<lambda>_. True" n m'] by simp
qed

section \<open>Simulation\<close>

definition ip_rel :: "(bytes \<Rightarrow> u64) \<Rightarrow> orders \<Rightarrow> int \<Rightarrow> int \<Rightarrow> nat \<Rightarrow> ipmap \<Rightarrow> ip_view \<Rightarrow> bool" where
  "ip_rel h ord r b k m M \<longleftrightarrow> orders_ok ord \<and> ip_inv h m \<and> im_rate m = r \<and> im_burst m = b \<and> view h m = M"

lemma AllowN_sim:
  assumes "ip_inv h m" "IPMap_AllowN h (now, t, t') ip n m = (x, m')"
  shows "ip_inv h m' \<and> im_rate m' = im_rate m \<and> im_burst m' = im_burst m \<and>
    ip_spec (im_rate m) (im_burst m) (CAllowN (now, t, t') ip n) (view h m) = (OAllow x, view h m')"
proof (cases "maxIPKeyLen < length ip")
  case True
  then show ?thesis using assms by (simp add: IPMap_AllowN_def maxIPKeyLen_def)
next
  case False
  obtain e m1 where g: "getOrCreate h now t ip m = (e, m1)" by fastforce
  note ok = getOrCreate_ok [OF assms(1) g]
  show ?thesis
  proof (cases "AllowN n t' (lim (im_store m1 e))")
    case None
    then show ?thesis using False assms(2) ok g by (simp add: IPMap_AllowN_def maxIPKeyLen_def Let_def)
  next
    case (Some bl)
    obtain ok' l where "bl = (ok', l)" by (cases bl)
    then have "m' = update_entry e (\<lambda>x. x\<lparr>lim := l\<rparr>) m1" "x = Some ok'" "AllowN n t' (lim (im_store m1 e)) = Some (ok', l)"
      using False assms(2) g Some by (simp_all add: IPMap_AllowN_def)
    then show ?thesis using False ok view_update_entry [of h m1 ip e "\<lambda>x. x\<lparr>lim := l\<rparr>"] by (simp add: maxIPKeyLen_def Let_def)
  qed
qed

lemma IPMap_Len_card: "ip_inv h m \<Longrightarrow> IPMap_Len m = int (card (dom (view h m)))"
  using sharded_Len [of "Map_shard h (im_m m)" "sm_shards (im_m m)"]
  by (simp add: ip_inv_def Map_inv_def IPMap_Len_def Map_Len_def view_def get_sharded dom_def)

interpretation ips: simulation "ip_rel h ord r b" "ip_call_step h ord" "ip_spec r b" for h ord r b
proof
  fix k m M i out m'
  assume rel: "ip_rel h ord r b (Suc k) m M" and st: "ip_call_step h ord i m = (out, m')"
  then have a: "orders_ok ord" "ip_inv h m" "im_rate m = r" "im_burst m = b" "M = view h m" by (auto simp: ip_rel_def)
  show "\<exists>M'. ip_spec r b i M = (out, M') \<and> ip_rel h ord r b k m' M'"
  proof (cases i)
    case (CAllowN rd ip n)
    obtain now t t' where rd: "rd = (now, t, t')" by (cases rd)
    obtain x where "IPMap_AllowN h rd ip n m = (x, m')" "out = OAllow x" using st CAllowN by (auto split: prod.splits)
    then show ?thesis using AllowN_sim [OF a(2), of now t t' ip n x m'] a CAllowN rd by (auto simp: ip_rel_def)
  next
    case (CEvict now ttl)
    obtain c where "Evict h ord now ttl m = (c, m')" "out = OCount c" using st CEvict by (auto split: prod.splits)
    then show ?thesis using Evict_ok [OF a(1,2)] a CEvict by (auto simp: ip_rel_def)
  next
    case CPurge
    then show ?thesis using Purge_ok [OF a(1,2)] st a by (auto simp: ip_rel_def)
  next
    case CLen
    then show ?thesis using IPMap_Len_card [OF a(2)] st a by (auto simp: ip_rel_def)
  qed
qed

section \<open>Properties\<close>

lemma NewIPMap_ok:
  assumes "shards \<le> 2 ^ 62"
  shows "\<exists>m. NewIPMap r b shards strict = Some m \<and> ip_inv h m \<and> im_rate m = r \<and> im_burst m = b \<and> view h m = Map.empty"
proof -
  have le: "(if shards \<le> 0 then 64 else shards) \<le> 2 ^ 62" using assms by simp
  obtain sm :: "nat smap" where "Map_New (if shards \<le> 0 then 64 else shards) = Some sm" "Map_inv h sm" "Map_Get h sm = Map.empty"
    using Map_New_ok [OF le, where 'v = nat and h = h] by blast
  then show ?thesis by (auto simp: NewIPMap_def ip_inv_def ids_ok_def view_def Let_def)
qed

text \<open>
  C13. Addresses are independent: over every history of \<open>AllowN\<close> (also with addresses that are too long),
  \<open>Evict\<close>, \<open>Purge\<close> and \<open>Len\<close> calls, in the default and in the strict mode, whatever the hash, the order
  of iteration and the clock readings are, a new map answers as one separate token bucket for every
  address does that has been seen, of which eviction drops exactly those not used since the cutoff.
\<close>

theorem ipmap_isolates_addresses:
  assumes "shards \<le> 2 ^ 62" and "orders_ok ord"
  shows "\<exists>m. NewIPMap r b shards strict = Some m \<and>
    fst (run (ip_call_step h ord) calls m) = fst (run (ip_spec r b) calls Map.empty)"
proof -
  obtain m where m: "NewIPMap r b shards strict = Some m" "ip_inv h m" "im_rate m = r" "im_burst m = b" "view h m = Map.empty"
    using NewIPMap_ok [OF assms(1)] by blast
  then have "ip_rel h ord r b (length calls + 0) m Map.empty" using assms(2) by (simp add: ip_rel_def)
  from ips.run_sim [OF this prod.collapse [symmetric]] m(1) show ?thesis by (metis fst_conv)
qed

theorem ipmap_isolates_addresses_witness:
  "\<exists>m. NewIPMap 1 1 4 False = Some m \<and>
    fst (run (ip_call_step (\<lambda>k. of_nat (length k)) rev) [CAllowN (5, 5, 5) [1] 1, CAllowN (6, 6, 6) [2] 1, CAllowN (7, 7, 7) [1] 1, CEvict 9 3, CLen] m) =
    [OAllow (Some True), OAllow (Some True), OAllow (Some False), OCount 0, OCount 2]"
proof -
  let ?calls = "[CAllowN (5, 5, 5) [1] 1, CAllowN (6, 6, 6) [2] 1, CAllowN (7, 7, 7) [1] 1, CEvict 9 3, CLen]"
  have "orders_ok rev" by (simp add: orders_ok_def)
  moreover have "{a :: bytes. a \<noteq> [2] \<longrightarrow> a = [1]} = {[1], [2]}" by auto
  then have "fst (run (ip_spec 1 1) ?calls Map.empty) = [OAllow (Some True), OAllow (Some True), OAllow (Some False), OCount 0, OCount 2]"
    by (simp add: visit_def add_hit_def addRecentAt_def set_used_def fresh_entry_def Limiter_New_def AllowN_def refill_def swrap64_def stale_def Let_def
        restrict_map_def dom_def)
  ultimately show ?thesis
    using ipmap_isolates_addresses [where shards = 4 and ord = rev and r = 1 and b = 1 and strict = False and calls = ?calls
        and h = "\<lambda>k. of_nat (length k)"] by simp
qed

text \<open>
  \<open>TopN\<close> and \<open>TopNRecent\<close> return the best \<open>n\<close> of the addresses in the map by total and by recent hits
  (of those that have recent hits), best first, each address at most once.
\<close>

theorem ipmap_top_lists:
  assumes "orders_ok ord" "SortFunc_ok SortFunc" "ip_inv h m" "0 < n"
  shows "\<exists>all. distinct (map IP all) \<and>
    set all = {\<lparr>IP = ip, Hits = hits e, RecentHits = recentHits (clk ip) e\<rparr> | ip e. view h m ip = Some e} \<and>
    (case IPMap_TopN SortFunc ord clk n m of
       None \<Rightarrow> all = [] | Some out \<Rightarrow> best_of (\<lambda>a b. Hits a > Hits b) all (nat n) out) \<and>
    (case IPMap_TopNRecent SortFunc ord clk n m of
       None \<Rightarrow> filter (\<lambda>x. 0 < RecentHits x) all = []
     | Some out \<Rightarrow> best_of (\<lambda>a b. RecentHits a > RecentHits b) (filter (\<lambda>x. 0 < RecentHits x) all) (nat n) out)"
proof -
  let ?f = "\<lambda>(ip, e). \<lparr>IP = ip, Hits = hits (im_store m e), RecentHits = recentHits (clk ip) (im_store m e)\<rparr>"
  let ?v = "visited ord m" let ?all = "map ?f ?v"
  have "Map_inv h (im_m m)" using assms(3) by (simp add: ip_inv_def)
  note v = visited_ok [OF assms(1) this]
  have "distinct (map IP ?all)" using v(1) by (simp add: comp_def case_prod_unfold)
  moreover have "set ?all = {\<lparr>IP = ip, Hits = hits e, RecentHits = recentHits (clk ip) e\<rparr> | ip e. view h m ip = Some e}"
  proof -
    have "set ?v = {(ip, e). Map_Get h (im_m m) ip = Some e}" using v(1) by (auto simp: v(2) [symmetric])
    then show ?thesis by (auto simp: view_def image_iff split_beta)
  qed
  moreover have "IPMap_TopN SortFunc ord clk n m = ByKey SortFunc ?all n Hits"
    using assms(4) fold_snoc_filter [of "\<lambda>_ _. True" "\<lambda>ip e. ?f (ip, e)" ?v "[]"]
    unfolding IPMap_TopN_def Let_def Range_visited by (simp add: case_prod_unfold)
  moreover have "IPMap_TopNRecent SortFunc ord clk n m = ByKey SortFunc (filter (\<lambda>x. 0 < RecentHits x) ?all) n RecentHits"
    using assms(4) fold_snoc_filter [of "\<lambda>ip e. 0 < recentHits (clk ip) (im_store m e)"
      "\<lambda>ip e. \<lparr>IP = ip, Hits = hits (im_store m e), RecentHits = recentHits (clk ip) (im_store m e)\<rparr>" ?v "[]"]
    unfolding IPMap_TopNRecent_def Let_def Range_visited by (simp add: case_prod_unfold filter_map comp_def)
  ultimately show ?thesis
    using ByKey_best [OF assms(2), where src = ?all and n = n and key = Hits] ByKey_best [OF assms(2), where src = "filter (\<lambda>x. 0 < RecentHits x) ?all" and n = n and key = RecentHits] assms(4)
    by (intro exI [of _ ?all]) (auto split: option.splits)
qed

definition demo_ipmap :: ipmap where "demo_ipmap = the (NewIPMap 1 1 4 False)"

theorem ipmap_top_lists_witness:
  "\<exists>all. set all = {} \<and> (case IPMap_TopN insertion_sort rev (\<lambda>_. 0) 3 demo_ipmap of None \<Rightarrow> all = [] | Some out \<Rightarrow> best_of (\<lambda>a b. Hits a > Hits b) all (nat 3) out)"
proof -
  have "ip_inv (\<lambda>_. 0) demo_ipmap" "view (\<lambda>_. 0) demo_ipmap = Map.empty"
    using NewIPMap_ok [of 4 1 1 False "\<lambda>_. 0"] by (auto simp: demo_ipmap_def)
  then show ?thesis
    using ipmap_top_lists [OF _ insertion_sort_ok, where ord = rev and h = "\<lambda>_. 0" and m = demo_ipmap and n = 3 and clk = "\<lambda>_. 0"]
    by (auto simp: orders_ok_def)
qed

end
