(* ===== verification/Ipbudget.thy ===== *)
theory Ipbudget
  imports Ipmap
begin

text \<open>
  What the components of \<open>ratelimit.IPMap\<close> give together: a bound on the tokens that one address is
  granted by a history of calls, through the sharded map, the eviction of idle entries and the token
  bucket of each entry.
\<close>

section \<open>Histories\<close>

text \<open>The tokens granted to an address, and the clock readings of a history.\<close>

fun granted_to :: "bytes \<Rightarrow> ip_call list \<Rightarrow> ip_out list \<Rightarrow> int" where
  "granted_to ip (CAllowN rd ip' n # cs) (OAllow (Some True) # os) = (if ip' = ip then max 1 n else 0) + granted_to ip cs os"
| "granted_to ip (_ # cs) (_ # os) = granted_to ip cs os"
| "granted_to ip _ _ = 0"




section \<open>One call of the limiter\<close>


section \<open>The budget of an address\<close>







section \<open>Histories of calls\<close>







section \<open>Properties\<close>



text \<open>
  Without the condition on the time to live the bound fails: one token a second with a burst of one, and
  three tokens in two nanoseconds.
\<close>

definition early_calls :: "ip_call list" where
  "early_calls = [CAllowN (0, 0, 0) [1] 1, CEvict 1 0, CAllowN (1, 1, 1) [1] 1, CEvict 2 0, CAllowN (2, 2, 2) [1] 1]"

lemma early_evictions:
  "map_option (\<lambda>m. granted_to [1] early_calls (fst (run (ip_call_step (\<lambda>_. 0) rev) early_calls m))) (NewIPMap 1 1 4 False) = Some 3 \<and>
    burst (Limiter_New 1 1 0) + (2 - 0) div interval (Limiter_New 1 1 0) = 1"
  by code_simp

end
