(* ===== verification/Arena.thy ===== *)
theory Arena
  imports Prelude
begin

text \<open>
  Package \<open>arena\<close> (src/arena/arena.go): a bump allocator over chunks of a fixed size. Chunks are
  numbered in the order of their allocation and have an offset; what \<open>Alloc\<close> returns is
  the region of the chunk that the slice covers. The operations are functions for one goroutine, and
  \<open>Alloc\<close> and \<open>Reset\<close> are also a step relation at the granularity of the atomic accesses.
\<close>

section \<open>One goroutine\<close>

definition DefaultChunk :: int where "DefaultChunk = 64 * 1024"
definition MaxChunk :: int where "MaxChunk = 64 * 1024 * 1024"

record arena =
  cur :: nat
  offs :: "nat \<Rightarrow> int"
  csz :: int
  chunks :: nat
  alignWaste :: int

definition Arena_New :: "int \<Rightarrow> arena" where
  "Arena_New chunkSize =
     (let chunkSize = (if chunkSize \<le> 0 then DefaultChunk else chunkSize);
          chunkSize = (if MaxChunk < chunkSize then MaxChunk else chunkSize)
      in \<lparr>cur = 0, offs = (\<lambda>_. 0), csz = chunkSize, chunks = 1, alignWaste = 0\<rparr>)"

text \<open>A slice: nil, a separate \<open>make\<close>, or the bytes \<open>off .. off + len - 1\<close> of a chunk, with its capacity.\<close>

datatype region = NilSlice | Made int | Region nat int int int

definition aligned8 :: "int \<Rightarrow> int" where "aligned8 n = (n + 7) AND NOT 7"

definition new_chunk :: "arena \<Rightarrow> arena" where
  "new_chunk a = a\<lparr>cur := chunks a, offs := (offs a)(chunks a := 0), chunks := chunks a + 1\<rparr>"

partial_function (option) alloc_loop :: "int \<Rightarrow> int \<Rightarrow> arena \<Rightarrow> (region \<times> arena) option" where
  "alloc_loop n aligned a =
     (let c = cur a; off = offs a c; fin = off + aligned
      in if fin \<le> csz a
         then Some (Region c off n (fin - off),
                a\<lparr>offs := (offs a)(c := fin), alignWaste := alignWaste a + (if 0 < aligned - n then aligned - n else 0)\<rparr>)
         else alloc_loop n aligned (new_chunk a))"

declare alloc_loop.simps [code]

definition Alloc :: "int \<Rightarrow> arena \<Rightarrow> (region \<times> arena) option" where
  "Alloc n a =
     (if n \<le> 0 then Some (NilSlice, a)
      else if csz a < n then Some (Made n, a)
      else alloc_loop n (aligned8 n) a)"

definition Arena_Reset :: "arena \<Rightarrow> arena" where "Arena_Reset a = new_chunk a"

type_synonym snapshot = "nat \<times> int"

definition Snap :: "arena \<Rightarrow> snapshot" where "Snap a = (cur a, offs a (cur a))"

definition Restore :: "snapshot \<Rightarrow> arena \<Rightarrow> arena" where
  "Restore sp a = (case sp of (chk, off) \<Rightarrow> a\<lparr>offs := (offs a)(chk := off), cur := chk\<rparr>)"

record arena_stats =
  st_Chunks :: int
  st_AlignWaste :: int
  st_TailWaste :: int
  st_ChunkSize :: int

definition Arena_Stats :: "arena \<Rightarrow> arena_stats" where
  "Arena_Stats a =
     (let used = offs a (cur a); tailWaste = csz a - used; tailWaste = (if tailWaste < 0 then 0 else tailWaste)
      in \<lparr>st_Chunks = int (chunks a), st_AlignWaste = alignWaste a, st_TailWaste = tailWaste, st_ChunkSize = csz a\<rparr>)"

section \<open>Alignment\<close>

lemma and_not_mask: "x AND NOT (mask k) = push_bit k (drop_bit k x)" for x :: int
  by (rule bit_eqI) (auto simp: bit_simps not_less)

lemma aligned8_eq: "aligned8 n = (n + 7) div 8 * 8"
  using and_not_mask [of "n + 7" 3] by (simp add: aligned8_def push_bit_eq_mult drop_bit_eq_div mask_eq_exp_minus_1)

lemma aligned8_bounds: "n \<le> aligned8 n" "aligned8 n \<le> n + 7" "8 dvd aligned8 n"
  unfolding aligned8_eq by presburger+

section \<open>One allocation\<close>

definition arena_ok :: "arena \<Rightarrow> bool" where
  "arena_ok a \<longleftrightarrow> cur a < chunks a \<and> (\<forall>c. 0 \<le> offs a c \<and> offs a c \<le> csz a \<and> 8 dvd offs a c) \<and> 0 < csz a"

lemma Arena_New_ok: "arena_ok (Arena_New n)"
  by (auto simp: arena_ok_def Arena_New_def DefaultChunk_def MaxChunk_def Let_def)

text \<open>A request that fits an empty chunk is served, from the current chunk or from a new one.\<close>

lemma alloc_loop_fits:
  assumes "aligned \<le> csz a"
  shows "alloc_loop n aligned a =
    (let a' = (if offs a (cur a) + aligned \<le> csz a then a else new_chunk a); off = offs a' (cur a')
     in Some (Region (cur a') off n aligned,
          a'\<lparr>offs := (offs a')(cur a' := off + aligned), alignWaste := alignWaste a' + (if 0 < aligned - n then aligned - n else 0)\<rparr>))"
proof -
  have fit: "alloc_loop n aligned b = Some (Region (cur b) (offs b (cur b)) n aligned,
      b\<lparr>offs := (offs b)(cur b := offs b (cur b) + aligned), alignWaste := alignWaste b + (if 0 < aligned - n then aligned - n else 0)\<rparr>)"
    if "offs b (cur b) + aligned \<le> csz b" for b
    using that by (subst alloc_loop.simps) (simp add: Let_def)
  show ?thesis
  proof (cases "offs a (cur a) + aligned \<le> csz a")
    case True
    then show ?thesis using fit [OF True] by (simp add: Let_def)
  next
    case False
    then have "alloc_loop n aligned a = alloc_loop n aligned (new_chunk a)" by (subst alloc_loop.simps) (simp add: Let_def)
    then show ?thesis using fit [of "new_chunk a"] assms False by (simp add: Let_def new_chunk_def)
  qed
qed

text \<open>
  A request that is rounded up past the chunk size is never served: every round allocates another chunk.
\<close>

lemma alloc_loop_diverges:
  assumes "csz a < aligned" "0 \<le> offs a (cur a)" shows "alloc_loop n aligned a = None"
proof (rule ccontr)
  assume "alloc_loop n aligned a \<noteq> None"
  then obtain r where "alloc_loop n aligned a = Some r" by blast
  then have "csz a < aligned \<and> 0 \<le> offs a (cur a) \<longrightarrow> False"
  proof (rule alloc_loop.raw_induct [where P = "\<lambda>n aligned a r. csz a < aligned \<and> 0 \<le> offs a (cur a) \<longrightarrow> False", rotated])
    fix f n aligned r and a :: arena
    assume IH: "\<And>n aligned a r. f n aligned a = Some r \<Longrightarrow> csz a < aligned \<and> 0 \<le> offs a (cur a) \<longrightarrow> False"
      and r: "(let c = cur a; off = offs a c; fin = off + aligned
        in if fin \<le> csz a
           then Some (Region c off n (fin - off),
                  a\<lparr>offs := (offs a)(c := fin), alignWaste := alignWaste a + (if 0 < aligned - n then aligned - n else 0)\<rparr>)
           else f n aligned (new_chunk a)) = Some r"
    show "csz a < aligned \<and> 0 \<le> offs a (cur a) \<longrightarrow> False"
    proof
      assume a: "csz a < aligned \<and> 0 \<le> offs a (cur a)"
      then have "f n aligned (new_chunk a) = Some r" using r by (simp add: Let_def)
      from IH [OF this] show False using a by (simp add: new_chunk_def)
    qed
  qed
  then show False using assms by simp
qed

lemma new_chunk_sel [simp]:
  "cur (new_chunk a) = chunks a" "chunks (new_chunk a) = chunks a + 1" "csz (new_chunk a) = csz a" "alignWaste (new_chunk a) = alignWaste a"
  "offs (new_chunk a) = (offs a)(chunks a := 0)"
  by (simp_all add: new_chunk_def)

text \<open>Regions in the part of a chunk that is in use.\<close>

fun in_use :: "arena \<Rightarrow> region \<Rightarrow> bool" where
  "in_use a (Region c off len cp) \<longleftrightarrow> c < chunks a \<and> 0 \<le> off \<and> 8 dvd off \<and> 0 < len \<and> len \<le> cp \<and> cp < len + 8 \<and> off + cp \<le> offs a c"
| "in_use a _ \<longleftrightarrow> True"

fun disjoint :: "region \<Rightarrow> region \<Rightarrow> bool" where
  "disjoint (Region c off len cp) (Region c' off' len' cp') \<longleftrightarrow> c \<noteq> c' \<or> off + cp \<le> off' \<or> off' + cp' \<le> off"
| "disjoint _ _ \<longleftrightarrow> True"

lemma disjoint_sym: "disjoint x y = disjoint y x"
  by (cases x; cases y) auto

section \<open>Many goroutines\<close>

text \<open>
  Where a call of \<open>Alloc\<close> is: what it needs, the chunk it has loaded, the offset it has loaded. Every
  goroutine carries the regions it was given.
\<close>

datatype apc = AIdle | AStart int | AChunk int nat | AOff int nat int | AFull int nat | ASwitch int nat

type_synonym astate = "arena \<times> (apc \<times> region list) list"

inductive arena_step :: "astate \<Rightarrow> astate \<Rightarrow> bool" where
  call: "i < length ts \<Longrightarrow> ts ! i = (AIdle, rs) \<Longrightarrow> 0 < n \<Longrightarrow> n \<le> csz a \<Longrightarrow> arena_step (a, ts) (a, ts[i := (AStart n, rs)])"
| load_cur: "i < length ts \<Longrightarrow> ts ! i = (AStart n, rs) \<Longrightarrow> arena_step (a, ts) (a, ts[i := (AChunk n (cur a), rs)])"
| load_off: "i < length ts \<Longrightarrow> ts ! i = (AChunk n c, rs) \<Longrightarrow> arena_step (a, ts) (a, ts[i := (AOff n c (offs a c), rs)])"
| bump: "i < length ts \<Longrightarrow> ts ! i = (AOff n c off, rs) \<Longrightarrow> off + aligned8 n \<le> csz a \<Longrightarrow> offs a c = off \<Longrightarrow>
    arena_step (a, ts) (a\<lparr>offs := (offs a)(c := off + aligned8 n)\<rparr>, ts[i := (AIdle, Region c off n (aligned8 n) # rs)])"
| bump_fail: "i < length ts \<Longrightarrow> ts ! i = (AOff n c off, rs) \<Longrightarrow> off + aligned8 n \<le> csz a \<Longrightarrow> offs a c \<noteq> off \<Longrightarrow>
    arena_step (a, ts) (a, ts[i := (AStart n, rs)])"
| exhausted: "i < length ts \<Longrightarrow> ts ! i = (AOff n c off, rs) \<Longrightarrow> csz a < off + aligned8 n \<Longrightarrow>
    arena_step (a, ts) (a, ts[i := (AFull n c, rs)])"
| switched: "i < length ts \<Longrightarrow> ts ! i = (AFull n c, rs) \<Longrightarrow> cur a \<noteq> c \<Longrightarrow> arena_step (a, ts) (a, ts[i := (AStart n, rs)])"
| make: "i < length ts \<Longrightarrow> ts ! i = (AFull n c, rs) \<Longrightarrow> cur a = c \<Longrightarrow> arena_step (a, ts) (a, ts[i := (ASwitch n c, rs)])"
| switch: "i < length ts \<Longrightarrow> ts ! i = (ASwitch n c, rs) \<Longrightarrow> cur a = c \<Longrightarrow>
    arena_step (a, ts) (new_chunk a, ts[i := (AStart n, rs)])"
| switch_fail: "i < length ts \<Longrightarrow> ts ! i = (ASwitch n c, rs) \<Longrightarrow> cur a \<noteq> c \<Longrightarrow> arena_step (a, ts) (a, ts[i := (AStart n, rs)])"
| reset: "arena_step (a, ts) (Arena_Reset a, ts)"

definition handed_out :: "(apc \<times> region list) list \<Rightarrow> region list" where
  "handed_out ts = concat (map snd ts)"

fun apc_ok :: "nat \<Rightarrow> apc \<Rightarrow> bool" where
  "apc_ok m (AChunk n c) \<longleftrightarrow> 0 < n \<and> c < m"
| "apc_ok m (AOff n c off) \<longleftrightarrow> 0 < n \<and> c < m"
| "apc_ok m (AFull n c) \<longleftrightarrow> 0 < n \<and> c < m"
| "apc_ok m (ASwitch n c) \<longleftrightarrow> 0 < n \<and> c < m"
| "apc_ok m (AStart n) \<longleftrightarrow> 0 < n"
| "apc_ok m AIdle \<longleftrightarrow> True"

lemma apc_ok_mono: "apc_ok m pc \<Longrightarrow> m \<le> m' \<Longrightarrow> apc_ok m' pc"
  by (cases pc) auto

definition arena_inv :: "astate \<Rightarrow> bool" where
  "arena_inv st \<longleftrightarrow> (case st of (a, ts) \<Rightarrow> arena_ok a \<and>
     (\<forall>t \<in> set ts. apc_ok (chunks a) (fst t) \<and> (\<forall>r \<in> set (snd t). in_use a r)) \<and>
     sorted_wrt disjoint (handed_out ts))"

lemma handed_out_same: "i < length ts \<Longrightarrow> handed_out (ts[i := (pc, snd (ts ! i))]) = handed_out ts"
proof -
  assume "i < length ts"
  then have "(map snd ts)[i := snd (ts ! i)] = map snd ts" by (metis list_update_id nth_map)
  then show ?thesis by (simp add: handed_out_def map_update)
qed

lemma pairwise_insert:
  assumes "sorted_wrt disjoint (xs @ ys)" "\<forall>x \<in> set (xs @ ys). disjoint x r"
  shows "sorted_wrt disjoint (xs @ r # ys)"
  using assms by (auto simp: sorted_wrt_append disjoint_sym [of r])

lemma handed_out_new:
  assumes "i < length ts" "sorted_wrt disjoint (handed_out ts)" "\<forall>x \<in> set (handed_out ts). disjoint x r"
  shows "sorted_wrt disjoint (handed_out (ts[i := (pc, r # snd (ts ! i))]))"
proof -
  let ?l = "concat (map snd (take i ts))" and ?m = "snd (ts ! i)" and ?r = "concat (map snd (drop (Suc i) ts))"
  have "ts = take i ts @ ts ! i # drop (Suc i) ts" using assms(1) by (rule id_take_nth_drop)
  then have "handed_out ts = ?l @ ?m @ ?r" unfolding handed_out_def by (metis concat.simps(2) concat_append list.simps(9) map_append)
  moreover have "handed_out (ts[i := (pc, r # ?m)]) = ?l @ r # ?m @ ?r"
    using assms(1) by (simp add: handed_out_def upd_conv_take_nth_drop)
  ultimately show ?thesis using assms(2,3) pairwise_insert [of ?l "?m @ ?r" r] by simp
qed

text \<open>A goroutine moves without touching the arena, or the arena grows by a chunk.\<close>

lemma arena_inv_move:
  assumes "arena_inv (a, ts)" "i < length ts" "ts ! i = (pc0, rs)" "apc_ok (chunks a') pc" "a' = a \<or> a' = new_chunk a"
  shows "arena_inv (a', ts[i := (pc, rs)])"
proof -
  have "in_use a' r" if "in_use a r" for r using that assms(5) by (cases r) auto
  moreover have "arena_ok a'" using assms(1,5) by (auto simp: arena_inv_def arena_ok_def)
  moreover have "apc_ok (chunks a') p" if "apc_ok (chunks a) p" for p using that assms(5) apc_ok_mono [of "chunks a" p "chunks a'"] by auto
  moreover have "handed_out (ts[i := (pc, rs)]) = handed_out ts" using handed_out_same [OF assms(2), of pc] assms(3) by simp
  moreover have "\<forall>r \<in> set rs. in_use a r" using assms(1-3) nth_mem [of i ts] by (auto simp: arena_inv_def)
  ultimately show ?thesis using assms(1,4)
    by (auto simp: arena_inv_def dest!: set_update_subset_insert [THEN subsetD])
qed

lemma arena_step_inv:
  assumes "arena_step st st'" "arena_inv st" shows "arena_inv st'"
proof -
  obtain a ts where st: "st = (a, ts)" by (cases st)
  have inv: "arena_inv (a, ts)" "arena_ok a" using assms(2) st by (auto simp: arena_inv_def)
  have pc: "apc_ok (chunks a) p \<and> (\<forall>r \<in> set rs. in_use a r)" if "i < length ts" "ts ! i = (p, rs)" for i p rs
    using inv that nth_mem [of i ts] by (auto simp: arena_inv_def)
  from assms(1) [unfolded st] show ?thesis
  proof cases
    case (bump i n c off rs)
    let ?a = "a\<lparr>offs := (offs a)(c := off + aligned8 n)\<rparr>" and ?r = "Region c off n (aligned8 n)"
    have al: "n \<le> aligned8 n" "aligned8 n \<le> n + 7" "8 dvd aligned8 n" by (rule aligned8_bounds)+
    have c: "c < chunks a" "0 < n" using pc [OF bump(2,3)] by auto
    have ok: "0 \<le> offs a k \<and> offs a k \<le> csz a \<and> 8 dvd offs a k" for k using inv(2) by (simp add: arena_ok_def)
    have all: "\<forall>x \<in> set (handed_out ts). in_use a x" using inv(1) by (auto simp: arena_inv_def handed_out_def)
    have "disjoint x ?r" if "in_use a x" for x using that bump(5) by (cases x) auto
    then have "sorted_wrt disjoint (handed_out (ts[i := (AIdle, ?r # rs)]))"
      using handed_out_new [OF bump(2), of ?r AIdle] all bump(3) inv(1) by (simp add: arena_inv_def)
    moreover have "in_use ?a x" if "in_use a x" for x using that bump(5) al c by (cases x) auto
    moreover have "in_use ?a ?r" using c al bump(5) ok [of c] by auto
    moreover have "arena_ok ?a" using inv(2) bump(4,5) al c ok by (auto simp: arena_ok_def)
    ultimately show ?thesis using bump(1) inv(1) pc [OF bump(2,3)]
      by (auto simp: arena_inv_def dest!: set_update_subset_insert [THEN subsetD])
  next
    case reset
    have "in_use (new_chunk a) r" if "in_use a r" for r using that by (cases r) auto
    then show ?thesis using reset inv apc_ok_mono [of "chunks a" _ "chunks a + 1"]
      by (auto simp: arena_inv_def Arena_Reset_def arena_ok_def)
  qed (frule (1) pc, simp only:, rule arena_inv_move [OF inv(1)], assumption, assumption, (use inv(2) in \<open>force simp: arena_ok_def\<close>)+)+
qed

lemma arena_steps_inv: "arena_step\<^sup>*\<^sup>* st st' \<Longrightarrow> arena_inv st \<Longrightarrow> arena_inv st'"
  by (induction rule: rtranclp_induct) (auto intro: arena_step_inv)

section \<open>Properties\<close>

text \<open>
  C12. In every interleaving of \<open>Alloc\<close> and \<open>Reset\<close> calls of any number of goroutines, no two of the
  slices handed out share a byte, capacities included; all start at a multiple of eight, have the
  requested length, and lie within the part of their chunk that is in use.
\<close>

theorem arena_never_overlaps:
  assumes "arena_step\<^sup>*\<^sup>* (Arena_New sz, replicate k (AIdle, [])) (a, ts)"
  shows "sorted_wrt disjoint (handed_out ts) \<and> (\<forall>r \<in> set (handed_out ts). in_use a r) \<and> (\<forall>c. offs a c \<le> csz a)"
proof -
  have "handed_out (replicate k (AIdle, [])) = []" by (induction k) (simp_all add: handed_out_def)
  then have "arena_inv (Arena_New sz, replicate k (AIdle, []))" by (simp add: arena_inv_def Arena_New_ok)
  from arena_steps_inv [OF assms this] show ?thesis by (auto simp: arena_inv_def handed_out_def arena_ok_def)
qed

lemma alloc_steps:
  assumes "i < length ts" "ts ! i = (AIdle, rs)" "0 < n" "n \<le> csz a" "offs a (cur a) + aligned8 n \<le> csz a"
  shows "arena_step\<^sup>*\<^sup>* (a, ts) (a\<lparr>offs := (offs a)(cur a := offs a (cur a) + aligned8 n)\<rparr>,
    ts[i := (AIdle, Region (cur a) (offs a (cur a)) n (aligned8 n) # rs)])"
proof -
  have "arena_step (a, ts) (a, ts[i := (AStart n, rs)])" by (rule arena_step.call) (use assms in simp_all)
  moreover have "arena_step (a, ts[i := (AStart n, rs)]) (a, ts[i := (AChunk n (cur a), rs)])"
    using arena_step.load_cur [of i "ts[i := (AStart n, rs)]"] assms(1) by simp
  moreover have "arena_step (a, ts[i := (AChunk n (cur a), rs)]) (a, ts[i := (AOff n (cur a) (offs a (cur a)), rs)])"
    using arena_step.load_off [of i "ts[i := (AChunk n (cur a), rs)]"] assms(1) by simp
  moreover have "arena_step (a, ts[i := (AOff n (cur a) (offs a (cur a)), rs)]) (a\<lparr>offs := (offs a)(cur a := offs a (cur a) + aligned8 n)\<rparr>,
      ts[i := (AIdle, Region (cur a) (offs a (cur a)) n (aligned8 n) # rs)])"
    using arena_step.bump [of i "ts[i := (AOff n (cur a) (offs a (cur a)), rs)]"] assms(1,5) by simp
  ultimately show ?thesis by (meson converse_rtranclp_into_rtranclp rtranclp.rtrancl_refl)
qed

theorem arena_never_overlaps_witness:
  "\<exists>a ts. arena_step\<^sup>*\<^sup>* (Arena_New 100, replicate 2 (AIdle, [])) (a, ts) \<and>
     handed_out ts = [Region 0 0 5 8, Region 0 8 12 16] \<and> sorted_wrt disjoint (handed_out ts)"
proof -
  let ?a = "Arena_New 100" and ?r = "Region 0 0 5 8" and ?q = "Region 0 8 12 16"
  have al: "aligned8 5 = 8" "aligned8 12 = 16" by (simp_all add: aligned8_eq)
  have f: "cur ?a = 0" "offs ?a 0 = 0" "csz ?a = 100" by (simp_all add: Arena_New_def MaxChunk_def Let_def)
  let ?b = "?a\<lparr>offs := (offs ?a)(0 := 8)\<rparr>"
  have "arena_step\<^sup>*\<^sup>* (?a, [(AIdle, []), (AIdle, [])]) (?b, [(AIdle, [?r]), (AIdle, [])])"
    using alloc_steps [of 0 "[(AIdle, []), (AIdle, [])]" "[]" 5 ?a] by (simp add: al f)
  moreover have "arena_step\<^sup>*\<^sup>* (?b, [(AIdle, [?r]), (AIdle, [])]) (?b\<lparr>offs := (offs ?b)(0 := 24)\<rparr>, [(AIdle, [?r]), (AIdle, [?q])])"
    using alloc_steps [of 1 "[(AIdle, [?r]), (AIdle, [])]" "[]" 12 ?b] by (simp add: al f)
  ultimately have run: "arena_step\<^sup>*\<^sup>* (?a, replicate 2 (AIdle, [])) (?b\<lparr>offs := (offs ?b)(0 := 24)\<rparr>, [(AIdle, [?r]), (AIdle, [?q])])"
    by (simp add: numeral_2_eq_2)
  show ?thesis using run arena_never_overlaps [OF run]
    by (intro exI [of _ "?b\<lparr>offs := (offs ?b)(0 := 24)\<rparr>"] exI [of _ "[(AIdle, [?r]), (AIdle, [?q])]"]) (simp add: handed_out_def)
qed

text \<open>A sequence of allocations of one goroutine.\<close>

fun allocs :: "int list \<Rightarrow> arena \<Rightarrow> arena option" where
  "allocs [] a = Some a"
| "allocs (n # ns) a = Option.bind (Alloc n a) (\<lambda>(r, a). allocs ns a)"

text \<open>What \<open>Alloc\<close> returns and how it changes the arena, on every branch.\<close>

definition bumped :: "int \<Rightarrow> arena \<Rightarrow> arena" where
  "bumped n a = a\<lparr>offs := (offs a)(cur a := offs a (cur a) + aligned8 n), alignWaste := alignWaste a + (aligned8 n - n)\<rparr>"

lemma Alloc_branches:
  assumes "0 \<le> offs a (cur a)"
  shows "n \<le> 0 \<Longrightarrow> Alloc n a = Some (NilSlice, a)" "0 < n \<Longrightarrow> csz a < n \<Longrightarrow> Alloc n a = Some (Made n, a)"
    "0 < n \<Longrightarrow> n \<le> csz a \<Longrightarrow> csz a < aligned8 n \<Longrightarrow> Alloc n a = None"
    "0 < n \<Longrightarrow> offs a (cur a) + aligned8 n \<le> csz a \<Longrightarrow>
      Alloc n a = Some (Region (cur a) (offs a (cur a)) n (aligned8 n), bumped n a)"
    "0 < n \<Longrightarrow> aligned8 n \<le> csz a \<Longrightarrow> csz a < offs a (cur a) + aligned8 n \<Longrightarrow>
      Alloc n a = Some (Region (chunks a) 0 n (aligned8 n), bumped n (new_chunk a))"
  using aligned8_bounds(1) [of n] alloc_loop_diverges [of a "aligned8 n" n] alloc_loop_fits [of "aligned8 n" a n] assms
  by (auto simp: Alloc_def bumped_def Let_def)

lemma Alloc_cases:
  assumes "Alloc n a = Some (r, b)" "0 \<le> offs a (cur a)"
  obtains "b = a" | "0 < n" "offs a (cur a) + aligned8 n \<le> csz a" "b = bumped n a"
    | "0 < n" "aligned8 n \<le> csz a" "b = bumped n (new_chunk a)"
  using assms(1) Alloc_branches [OF assms(2), of n] by (cases "n \<le> 0"; cases "csz a < n"; cases "csz a < aligned8 n"; cases "csz a < offs a (cur a) + aligned8 n") auto

text \<open>Allocations touch the current chunk and chunks that they make.\<close>

definition grows :: "arena \<Rightarrow> arena \<Rightarrow> bool" where
  "grows a b \<longleftrightarrow> arena_ok b \<and> csz b = csz a \<and> chunks a \<le> chunks b \<and> (cur b = cur a \<or> chunks a \<le> cur b) \<and>
     (\<forall>c < chunks a. c \<noteq> cur a \<longrightarrow> offs b c = offs a c)"

lemma grows_trans: "grows a b \<Longrightarrow> grows b c \<Longrightarrow> grows a c"
  by (fastforce simp: grows_def)

lemma bumped_ok:
  assumes "arena_ok a" "0 < n" "offs a (cur a) + aligned8 n \<le> csz a" shows "arena_ok (bumped n a)"
  using assms aligned8_bounds [of n] by (auto simp: arena_ok_def bumped_def)

lemma Alloc_grows:
  assumes "Alloc n a = Some (r, b)" "arena_ok a" shows "grows a b"
proof -
  have off: "0 \<le> offs a (cur a)" "cur a < chunks a" using assms(2) by (simp_all add: arena_ok_def)
  have new: "arena_ok (new_chunk a)" using assms(2) by (auto simp: arena_ok_def)
  from assms(1) off(1) show ?thesis
  proof (cases rule: Alloc_cases)
    case 1
    then show ?thesis using assms(2) by (simp add: grows_def)
  next
    case 2
    then have "arena_ok b" using bumped_ok [OF assms(2)] by simp
    then show ?thesis using 2 by (simp add: grows_def bumped_def)
  next
    case 3
    then have "arena_ok b" using bumped_ok [OF new] by simp
    then show ?thesis using 3 off(2) by (simp add: grows_def bumped_def)
  qed
qed

lemma allocs_grows: "allocs ns a = Some b \<Longrightarrow> arena_ok a \<Longrightarrow> grows a b"
proof (induction ns arbitrary: a)
  case (Cons n ns)
  obtain r c where c: "Alloc n a = Some (r, c)" "allocs ns c = Some b"
    using Cons.prems(1) by (auto split: bind_splits)
  have g: "grows a c" by (rule Alloc_grows [OF c(1) Cons.prems(2)])
  then have "arena_ok c" by (simp add: grows_def)
  from grows_trans [OF g Cons.IH [OF c(2) this]] show ?case .
qed (simp add: grows_def)

text \<open>
  C35. One goroutine: \<open>Alloc\<close> returns nil for \<open>n \<le> 0\<close> and a separate slice for more than the chunk size.
  Otherwise the request is rounded up to the next multiple of eight; if that is more than a chunk
  (\<open>New(10).Alloc(10)\<close>) the call never returns; if it fits behind what is in use it is the next part of the
  current chunk, and if not the first part of a new one, which becomes current; in both cases exactly the
  rounded length is consumed and the padding is counted. After any further allocations restoring a snapshot
  gives back exactly the space taken since: the position is that of the snapshot, the chunks that existed
  are in use as they were then, and the next request gets the region that it would have got then.
\<close>

theorem Alloc_and_Restore:
  fixes n :: int
  assumes "arena_ok a"
  defines "off \<equiv> offs a (cur a)" and "al \<equiv> aligned8 n"
  shows "n \<le> al \<and> al < n + 8 \<and> 8 dvd al \<and>
    (n \<le> 0 \<longrightarrow> Alloc n a = Some (NilSlice, a)) \<and> (0 < n \<and> csz a < n \<longrightarrow> Alloc n a = Some (Made n, a)) \<and>
    (0 < n \<and> n \<le> csz a \<and> csz a < al \<longrightarrow> Alloc n a = None) \<and>
    (0 < n \<and> off + al \<le> csz a \<longrightarrow>
       Alloc n a = Some (Region (cur a) off n al, a\<lparr>offs := (offs a)(cur a := off + al), alignWaste := alignWaste a + (al - n)\<rparr>)) \<and>
    (0 < n \<and> al \<le> csz a \<and> csz a < off + al \<longrightarrow>
       Alloc n a = Some (Region (chunks a) 0 n al,
         a\<lparr>cur := chunks a, chunks := chunks a + 1, offs := (offs a)(chunks a := al), alignWaste := alignWaste a + (al - n)\<rparr>)) \<and>
    (allocs ns a = Some b \<longrightarrow> Snap (Restore (Snap a) b) = Snap a \<and> (\<forall>c < chunks a. offs (Restore (Snap a) b) c = offs a c) \<and>
       (0 < n \<and> off + al \<le> csz a \<longrightarrow> map_option fst (Alloc n (Restore (Snap a) b)) = map_option fst (Alloc n a)))"
proof (intro conjI impI allI)
  have o: "0 \<le> offs a (cur a)" using assms(1) by (simp add: arena_ok_def)
  note branches = Alloc_branches [OF o, of n]
  show "n \<le> al" "al < n + 8" "8 dvd al" using aligned8_bounds [of n] by (simp_all add: al_def)
  show "n \<le> 0 \<Longrightarrow> Alloc n a = Some (NilSlice, a)" "0 < n \<and> csz a < n \<Longrightarrow> Alloc n a = Some (Made n, a)"
    "0 < n \<and> n \<le> csz a \<and> csz a < al \<Longrightarrow> Alloc n a = None"
    "0 < n \<and> off + al \<le> csz a \<Longrightarrow>
       Alloc n a = Some (Region (cur a) off n al, a\<lparr>offs := (offs a)(cur a := off + al), alignWaste := alignWaste a + (al - n)\<rparr>)"
    "0 < n \<and> al \<le> csz a \<and> csz a < off + al \<Longrightarrow>
       Alloc n a = Some (Region (chunks a) 0 n al,
         a\<lparr>cur := chunks a, chunks := chunks a + 1, offs := (offs a)(chunks a := al), alignWaste := alignWaste a + (al - n)\<rparr>)"
    using branches by (auto simp: al_def off_def bumped_def new_chunk_def)
  assume b: "allocs ns a = Some b"
  have g: "grows a b" by (rule allocs_grows [OF b assms(1)])
  show "Snap (Restore (Snap a) b) = Snap a" by (simp add: Snap_def Restore_def)
  show "offs (Restore (Snap a) b) c = offs a c" if "c < chunks a" for c
    using g that by (simp add: grows_def Snap_def Restore_def)
  assume n: "0 < n \<and> off + al \<le> csz a"
  let ?r = "Restore (Snap a) b"
  have r: "cur ?r = cur a" "offs ?r (cur a) = off" "csz ?r = csz a" using g by (simp_all add: grows_def Snap_def Restore_def off_def)
  have "Alloc n ?r = Some (Region (cur ?r) (offs ?r (cur ?r)) n (aligned8 n), bumped n ?r)"
    by (rule Alloc_branches(4)) (use n o r in \<open>auto simp: off_def al_def\<close>)
  then show "map_option fst (Alloc n ?r) = map_option fst (Alloc n a)"
    using branches(4) n r by (simp add: off_def al_def)
qed

theorem Alloc_and_Restore_witness:
  "\<exists>a b. Alloc 5 (Arena_New 100) = Some (Region 0 0 5 8, a) \<and> offs a 0 = 8 \<and>
     allocs [12, 90] a = Some b \<and> cur b = 1 \<and> offs b 0 = 24 \<and> offs b 1 = 96 \<and>
     Snap (Restore (Snap a) b) = (0, 8) \<and> map_option fst (Alloc 12 (Restore (Snap a) b)) = Some (Region 0 8 12 16) \<and>
     Alloc 10 (Arena_New 10) = None"
proof -
  have al: "aligned8 5 = 8" "aligned8 12 = 16" "aligned8 90 = 96" "aligned8 10 = 16" by (simp_all add: aligned8_eq)
  have f: "cur (Arena_New k) = 0" "offs (Arena_New k) 0 = 0" "chunks (Arena_New k) = 1" for k by (simp_all add: Arena_New_def Let_def)
  have z: "csz (Arena_New 100) = 100" "csz (Arena_New 10) = 10" by (simp_all add: Arena_New_def MaxChunk_def Let_def)
  define a where "a = bumped 5 (Arena_New 100)"
  define b where "b = bumped 90 (new_chunk (bumped 12 a))"
  have a: "cur a = 0" "offs a 0 = 8" "csz a = 100" "chunks a = 1" by (simp_all add: a_def bumped_def f z al)
  have a5: "Alloc 5 (Arena_New 100) = Some (Region 0 0 5 8, a)"
    using Alloc_branches(4) [of "Arena_New 100" 5] by (simp add: a_def f z al)
  then have ok: "arena_ok a" using Alloc_grows [OF a5 Arena_New_ok] by (simp add: grows_def)
  have "Alloc 12 a = Some (Region 0 8 12 16, bumped 12 a)" using Alloc_branches(4) [of a 12] by (simp add: a al)
  moreover have "Alloc 90 (bumped 12 a) = Some (Region 1 0 90 96, b)"
    using Alloc_branches(5) [of "bumped 12 a" 90] by (simp add: b_def bumped_def a al)
  ultimately have b: "allocs [12, 90] a = Some b" by simp
  have "cur b = 1" "offs b 0 = 24" "offs b 1 = 96" by (simp_all add: b_def bumped_def a al)
  moreover have "Snap (Restore (Snap a) b) = (0, 8)" "map_option fst (Alloc 12 (Restore (Snap a) b)) = Some (Region 0 8 12 16)"
    using Alloc_and_Restore [OF ok, of 12 "[12, 90]" b] b by (simp_all add: a al Snap_def)
  moreover have "Alloc 10 (Arena_New 10) = None"
    using Alloc_and_Restore [OF Arena_New_ok, of 10 10] by (simp add: al z)
  ultimately show ?thesis using a5 a b by blast
qed

end
