(* ===== verification/SafeRun.thy ===== *)
theory SafeRun
  imports Main "HOL-Library.Multiset"
begin

text \<open>
  What both worker pools of package \<open>wpool\<close> share: running a task under \<open>recover\<close>
  (src/wpool/safe.go), the truncation of sizes to \<open>int32\<close>, schedules of goroutines, and sums over lists
  of them.
\<close>

text \<open>
  A task is known by its outcome: \<open>None\<close> when it returns, \<open>Some r\<close> when it panics with \<open>r\<close>. The state is
  the panic counter and the calls of the handler, which is told whether there is one and must not panic.
\<close>

definition panicSafeRun :: "'r option \<Rightarrow> bool \<Rightarrow> int \<times> 'r list \<Rightarrow> int \<times> 'r list" where
  "panicSafeRun outcome handler = (\<lambda>(count, reports).
     (case outcome of
        None \<Rightarrow> (count, reports)
      | Some r \<Rightarrow> (if \<not> handler then (count + 1, reports) else (count + 1, reports @ [r]))))"

definition swrap32 :: "int \<Rightarrow> int" where
  "swrap32 x = (x + 2 ^ 31) mod 2 ^ 32 - 2 ^ 31"

lemma swrap32_id: "- (2 ^ 31) \<le> x \<Longrightarrow> x < 2 ^ 31 \<Longrightarrow> swrap32 x = x"
  by (simp add: swrap32_def)

text \<open>The panics and the reports of a sequence of tasks that ran.\<close>

lemma fold_panicSafeRun:
  "fold (\<lambda>t. panicSafeRun (outcome t) handler) ts (n, rs) =
    (n + int (length (filter (\<lambda>t. outcome t \<noteq> None) ts)), rs @ (if handler then map (the \<circ> outcome) (filter (\<lambda>t. outcome t \<noteq> None) ts) else []))"
  by (induction ts arbitrary: n rs) (auto simp: panicSafeRun_def)

section \<open>Schedules\<close>

text \<open>
  A schedule is a list of turns; it runs as long as every turn is possible (\<open>None\<close>: the goroutine whose
  turn it is would block). What every admissible turn keeps, every schedule of such turns keeps.
\<close>

fun runs :: "('u \<Rightarrow> 's \<Rightarrow> 's option) \<Rightarrow> 'u list \<Rightarrow> 's \<Rightarrow> 's option" where
  "runs exec [] s = Some s"
| "runs exec (u # us) s = (case exec u s of None \<Rightarrow> None | Some s' \<Rightarrow> runs exec us s')"

locale machine =
  fixes exec :: "'u \<Rightarrow> 's \<Rightarrow> 's option" and ok :: "'u \<Rightarrow> bool" and inv :: "'s \<Rightarrow> bool"
  assumes keep: "exec u s = Some s' \<Longrightarrow> ok u \<Longrightarrow> inv s \<Longrightarrow> inv s'"
begin

lemma runs_keep: "runs exec us s = Some s' \<Longrightarrow> \<forall>u \<in> set us. ok u \<Longrightarrow> inv s \<Longrightarrow> inv s'"
  by (induction us arbitrary: s) (auto split: option.splits intro: keep)

end

section \<open>Sums over goroutines\<close>

text \<open>What all goroutines hold together, of a quantity that each holds according to where it is.\<close>

definition total_of :: "('pc \<Rightarrow> 'n :: comm_monoid_add) \<Rightarrow> 'pc list \<Rightarrow> 'n" where
  "total_of f xs = sum_list (map f xs)"

lemma total_of_simps [simp]:
  "total_of f [] = 0" "total_of f (x # xs) = f x + total_of f xs" "total_of f (xs @ ys) = total_of f xs + total_of f ys"
  by (simp_all add: total_of_def)

lemma total_of_map: "(\<And>x. f (g x) = f x) \<Longrightarrow> total_of f (map g xs) = total_of f xs"
  by (induction xs) simp_all

lemma total_of_zero: "total_of f xs = (0 :: nat) \<Longrightarrow> x \<in> set xs \<Longrightarrow> f x = 0"
  by (induction xs) auto

lemma total_of_ge: "x \<in> set xs \<Longrightarrow> (f x :: nat) \<le> total_of f xs"
  by (induction xs) auto

lemma total_of_pos: "0 < total_of f xs \<Longrightarrow> \<exists>x \<in> set xs. 0 < (f x :: nat)"
  by (induction xs) auto

lemma total_of_all_zero: "(\<And>x. x \<in> set xs \<Longrightarrow> f x = 0) \<Longrightarrow> total_of f xs = 0"
  by (induction xs) simp_all

text \<open>The goroutine that makes a step, and those before and after it.\<close>

lemma split_at:
  assumes "i < length xs"
  obtains ys zs where "xs = ys @ (xs ! i) # zs" "length ys = i"
  using id_take_nth_drop [OF assms] assms by (metis length_take min.absorb4)

end
