(* ===== verification/Mpsc.thy ===== *)
theory Mpsc
  imports Words SafeRun
begin

text \<open>
  Package \<open>mpsc\<close> (src/mpsc/ring.go): the multi-producer single-consumer ring of the group commit. The
  operations are step relations at the granularity of the atomic accesses and channel
  operations: a thread is one call of \<open>Enqueue\<close> followed by \<open>Wait\<close> or \<open>WaitContext\<close>; the consumer
  alternates \<open>Drain\<close> and \<open>Commit\<close>. Accesses to the plain fields of a slot are part of the step
  whose atomic access publishes or claims them.
\<close>

section \<open>The ring\<close>

datatype sstate = SFree | SFill | SReady | SDrained

text \<open>\<open>mval = None\<close> is the zero value; \<open>mdone\<close> says that the channel of capacity one holds a signal.\<close>

record ('v, 'e) mslot =
  mstate :: sstate
  mval :: "'v option"
  merr :: "'e option"
  mdone :: bool

record ('v, 'e) mring =
  mslots :: "('v, 'e) mslot list"
  mmask :: u64
  mtail :: u64
  mhead :: u64

definition Mpsc_New :: "int \<Rightarrow> ('v, 'e) mring option" where
  "Mpsc_New n =
     map_option (\<lambda>sz. let sz = (if sz < 4 then 4 else sz)
       in \<lparr>mslots = replicate (nat sz) \<lparr>mstate = SFree, mval = None, merr = None, mdone = False\<rparr>,
           mmask = of_int (sz - 1), mtail = 0, mhead = 0\<rparr>) (pow2_loop 1 n)"

definition Mpsc_Len :: "('v, 'e) mring \<Rightarrow> int" where
  "Mpsc_Len r = (let t = mtail r; h = mhead r in if h \<le> t then int (unat (t - h)) else 0)"

definition Mpsc_Cap :: "('v, 'e) mring \<Rightarrow> int" where "Mpsc_Cap r = int (length (mslots r))"

definition idx :: "('v, 'e) mring \<Rightarrow> u64 \<Rightarrow> nat" where "idx r t = unat (t AND mmask r)"

definition upd_slot :: "u64 \<Rightarrow> (('v, 'e) mslot \<Rightarrow> ('v, 'e) mslot) \<Rightarrow> ('v, 'e) mring \<Rightarrow> ('v, 'e) mring" where
  "upd_slot t f r = r\<lparr>mslots := (mslots r)[idx r t := f (mslots r ! idx r t)]\<rparr>"

section \<open>Steps\<close>

text \<open>
  A producer before it has a slot, while it owns one, and when it has its result. \<open>PBg\<close> and the flag of
  \<open>PGot\<close> are the background goroutine of a cancelled \<open>WaitContext\<close>.
\<close>

datatype ('v, 'e) ppc = PIdle | PStart 'v | PTail 'v u64 | PBoth 'v u64 u64 | PFull 'v
  | PSlot 'v u64 | PFill 'v u64 | PHave 'v u64 | PBg 'v u64 | PGot 'v u64 bool | PDone 'v u64 "'e option" | PGone

text \<open>
  The consumer: in \<open>Drain\<close> with start, position, tail and count; between; in \<open>Commit\<close> with its arguments
  and the loop counter.
\<close>

datatype 'e cpc = CIdle | CHead u64 | CDrain u64 u64 u64 nat | CDrained u64 nat | CCommit u64 nat nat "'e option"

text \<open>
  Besides the program state the configuration records the values in the order of their sequence
  numbers, the values given to the consumer's function, and the batch error of every commit.
\<close>

record ('v, 'e) conf =
  ring :: "('v, 'e) mring"
  ths :: "('v, 'e) ppc list"
  cons :: "'e cpc"
  sent :: "'v list"
  delivered :: "'v list"
  batches :: "'e option list"

inductive enq_step :: "nat \<Rightarrow> ('v, 'e) conf \<Rightarrow> ('v, 'e) conf \<Rightarrow> bool" where
  call: "i < length (ths c) \<Longrightarrow> ths c ! i = PIdle \<Longrightarrow> enq_step i c (c\<lparr>ths := (ths c)[i := PStart v]\<rparr>)"
| load_tail: "i < length (ths c) \<Longrightarrow> ths c ! i = PStart v \<Longrightarrow>
    enq_step i c (c\<lparr>ths := (ths c)[i := PTail v (mtail (ring c))]\<rparr>)"
| load_head: "i < length (ths c) \<Longrightarrow> ths c ! i = PTail v t \<Longrightarrow>
    enq_step i c (c\<lparr>ths := (ths c)[i := PBoth v t (mhead (ring c))]\<rparr>)"
| full_spin: "i < length (ths c) \<Longrightarrow> ths c ! i = PBoth v t h \<Longrightarrow> of_nat (length (mslots (ring c))) \<le> t - h \<Longrightarrow>
    enq_step i c (c\<lparr>ths := (ths c)[i := PStart v]\<rparr>)"
| full: "i < length (ths c) \<Longrightarrow> ths c ! i = PBoth v t h \<Longrightarrow> of_nat (length (mslots (ring c))) \<le> t - h \<Longrightarrow>
    enq_step i c (c\<lparr>ths := (ths c)[i := PFull v]\<rparr>)"
| cas_fail: "i < length (ths c) \<Longrightarrow> ths c ! i = PBoth v t h \<Longrightarrow> t - h < of_nat (length (mslots (ring c))) \<Longrightarrow>
    mtail (ring c) \<noteq> t \<Longrightarrow> enq_step i c (c\<lparr>ths := (ths c)[i := PStart v]\<rparr>)"
| reserve: "i < length (ths c) \<Longrightarrow> ths c ! i = PBoth v t h \<Longrightarrow> t - h < of_nat (length (mslots (ring c))) \<Longrightarrow>
    mtail (ring c) = t \<Longrightarrow>
    enq_step i c (c\<lparr>ring := (ring c)\<lparr>mtail := t + 1\<rparr>, ths := (ths c)[i := PSlot v t], sent := sent c @ [v]\<rparr>)"
| fill: "i < length (ths c) \<Longrightarrow> ths c ! i = PSlot v t \<Longrightarrow> mstate (mslots (ring c) ! idx (ring c) t) = SFree \<Longrightarrow>
    enq_step i c (c\<lparr>ring := upd_slot t (\<lambda>s. s\<lparr>mstate := SFill\<rparr>) (ring c), ths := (ths c)[i := PFill v t]\<rparr>)"
| ready: "i < length (ths c) \<Longrightarrow> ths c ! i = PFill v t \<Longrightarrow>
    enq_step i c (c\<lparr>ring := upd_slot t (\<lambda>s. s\<lparr>mval := Some v, merr := None, mdone := False, mstate := SReady\<rparr>) (ring c),
      ths := (ths c)[i := PHave v t]\<rparr>)"

inductive wait_step :: "nat \<Rightarrow> ('v, 'e) conf \<Rightarrow> ('v, 'e) conf \<Rightarrow> bool" where
  receive: "i < length (ths c) \<Longrightarrow> ths c ! i = PHave v t \<Longrightarrow> mdone (mslots (ring c) ! idx (ring c) t) \<Longrightarrow>
    wait_step i c (c\<lparr>ring := upd_slot t (\<lambda>s. s\<lparr>mdone := False\<rparr>) (ring c), ths := (ths c)[i := PGot v t False]\<rparr>)"
| free: "i < length (ths c) \<Longrightarrow> ths c ! i = PGot v t False \<Longrightarrow>
    wait_step i c (c\<lparr>ring := upd_slot t (\<lambda>s. s\<lparr>mval := None, merr := None, mstate := SFree\<rparr>) (ring c),
      ths := (ths c)[i := PDone v t (merr (mslots (ring c) ! idx (ring c) t))]\<rparr>)"

inductive cancel_step :: "nat \<Rightarrow> ('v, 'e) conf \<Rightarrow> ('v, 'e) conf \<Rightarrow> bool" where
  give_up: "i < length (ths c) \<Longrightarrow> ths c ! i = PHave v t \<Longrightarrow> cancel_step i c (c\<lparr>ths := (ths c)[i := PBg v t]\<rparr>)"
| receive: "i < length (ths c) \<Longrightarrow> ths c ! i = PBg v t \<Longrightarrow> mdone (mslots (ring c) ! idx (ring c) t) \<Longrightarrow>
    cancel_step i c (c\<lparr>ring := upd_slot t (\<lambda>s. s\<lparr>mdone := False\<rparr>) (ring c), ths := (ths c)[i := PGot v t True]\<rparr>)"
| free: "i < length (ths c) \<Longrightarrow> ths c ! i = PGot v t True \<Longrightarrow>
    cancel_step i c (c\<lparr>ring := upd_slot t (\<lambda>s. s\<lparr>mval := None, merr := None, mstate := SFree\<rparr>) (ring c),
      ths := (ths c)[i := PGone]\<rparr>)"

text \<open>\<open>fn\<close> is the consumer's function; the slot it is given holds a value.\<close>

inductive drain_step :: "('v \<Rightarrow> 'e option) \<Rightarrow> ('v, 'e) conf \<Rightarrow> ('v, 'e) conf \<Rightarrow> bool" for fn where
  load_head: "cons c = CIdle \<Longrightarrow> drain_step fn c (c\<lparr>cons := CHead (mhead (ring c))\<rparr>)"
| load_tail: "cons c = CHead h \<Longrightarrow> drain_step fn c (c\<lparr>cons := CDrain h h (mtail (ring c)) 0\<rparr>)"
| item: "cons c = CDrain start h t n \<Longrightarrow> h < t \<Longrightarrow> mstate (mslots (ring c) ! idx (ring c) h) = SReady \<Longrightarrow>
    mval (mslots (ring c) ! idx (ring c) h) = Some v \<Longrightarrow>
    drain_step fn c (c\<lparr>ring := upd_slot h (\<lambda>s. s\<lparr>merr := fn v, mstate := SDrained\<rparr>) (ring c),
      cons := CDrain start (h + 1) t (n + 1), delivered := delivered c @ [v]\<rparr>)"
| stop: "cons c = CDrain start h t n \<Longrightarrow> t \<le> h \<or> mstate (mslots (ring c) ! idx (ring c) h) \<noteq> SReady \<Longrightarrow>
    drain_step fn c (c\<lparr>ring := (ring c)\<lparr>mhead := h\<rparr>, cons := CDrained start n\<rparr>)"

inductive commit_step :: "('v, 'e) conf \<Rightarrow> ('v, 'e) conf \<Rightarrow> bool" where
  call: "cons c = CDrained start n \<Longrightarrow> commit_step c (c\<lparr>cons := CCommit start n 0 be\<rparr>)"
| signal: "cons c = CCommit start n i be \<Longrightarrow> i < n \<Longrightarrow> \<not> mdone (mslots (ring c) ! idx (ring c) (start + of_nat i)) \<Longrightarrow>
    commit_step c (c\<lparr>ring := upd_slot (start + of_nat i) (\<lambda>s. s\<lparr>merr := (case be of None \<Rightarrow> merr s | Some e \<Rightarrow> Some e), mdone := True\<rparr>) (ring c),
      cons := CCommit start n (i + 1) be, batches := batches c @ [be]\<rparr>)"
| return: "cons c = CCommit start n i be \<Longrightarrow> n \<le> i \<Longrightarrow> commit_step c (c\<lparr>cons := CIdle\<rparr>)"

definition mpsc_step :: "('v \<Rightarrow> 'e option) \<Rightarrow> ('v, 'e) conf \<Rightarrow> ('v, 'e) conf \<Rightarrow> bool" where
  "mpsc_step fn c c' \<longleftrightarrow>
     (\<exists>i. enq_step i c c' \<or> wait_step i c c' \<or> cancel_step i c c') \<or> drain_step fn c c' \<or> commit_step c c'"

section \<open>The invariant\<close>

fun holder :: "('v, 'e) ppc \<Rightarrow> nat option" where
  "holder (PFill v t) = Some (unat t)"
| "holder (PHave v t) = Some (unat t)"
| "holder (PBg v t) = Some (unat t)"
| "holder (PGot v t bg) = Some (unat t)"
| "holder _ = None"

fun waiter :: "('v, 'e) ppc \<Rightarrow> nat option" where
  "waiter (PSlot v t) = Some (unat t)"
| "waiter _ = None"

text \<open>The error a producer gets: its batch's if there is one, else what the function returned for its value.\<close>

definition outcome :: "('v \<Rightarrow> 'e option) \<Rightarrow> 'v list \<Rightarrow> 'e option list \<Rightarrow> nat \<Rightarrow> 'e option" where
  "outcome fn vs bes s = (case bes ! s of None \<Rightarrow> fn (vs ! s) | Some e \<Rightarrow> Some e)"

definition at :: "('v, 'e) mring \<Rightarrow> nat \<Rightarrow> ('v, 'e) mslot" where
  "at r s = mslots r ! (s mod length (mslots r))"

text \<open>A slot that was filled: not drained yet, or drained, with the signal given when it is committed.\<close>

definition filled :: "('v \<Rightarrow> 'e option) \<Rightarrow> ('v, 'e) mring \<Rightarrow> 'v list \<Rightarrow> nat \<Rightarrow> 'e option list \<Rightarrow> 'v \<Rightarrow> nat \<Rightarrow> bool" where
  "filled fn r vs D bes v s \<longleftrightarrow> s < length vs \<and> vs ! s = v \<and>
     (if s < D then mstate (at r s) = SDrained \<and> mdone (at r s) = (s < length bes) \<and>
        merr (at r s) = (if s < length bes then outcome fn vs bes s else fn v)
      else mstate (at r s) = SReady \<and> mval (at r s) = Some v \<and> \<not> mdone (at r s))"

fun thread_ok :: "('v \<Rightarrow> 'e option) \<Rightarrow> ('v, 'e) mring \<Rightarrow> 'v list \<Rightarrow> nat \<Rightarrow> 'e option list \<Rightarrow> ('v, 'e) ppc \<Rightarrow> bool" where
  "thread_ok fn r vs D bes (PBoth v t h) \<longleftrightarrow> unat h \<le> unat (mhead r)"
| "thread_ok fn r vs D bes (PSlot v t) \<longleftrightarrow> unat t < length vs \<and> vs ! unat t = v \<and> D \<le> unat t"
| "thread_ok fn r vs D bes (PFill v t) \<longleftrightarrow> unat t < length vs \<and> vs ! unat t = v \<and> D \<le> unat t \<and> mstate (at r (unat t)) = SFill"
| "thread_ok fn r vs D bes (PHave v t) \<longleftrightarrow> filled fn r vs D bes v (unat t)"
| "thread_ok fn r vs D bes (PBg v t) \<longleftrightarrow> filled fn r vs D bes v (unat t)"
| "thread_ok fn r vs D bes (PGot v t bg) \<longleftrightarrow> unat t < length bes \<and> vs ! unat t = v \<and>
     mstate (at r (unat t)) = SDrained \<and> \<not> mdone (at r (unat t)) \<and> merr (at r (unat t)) = outcome fn vs bes (unat t)"
| "thread_ok fn r vs D bes (PDone v t e) \<longleftrightarrow> unat t < length bes \<and> vs ! unat t = v \<and> e = outcome fn vs bes (unat t)"
| "thread_ok fn r vs D bes _ \<longleftrightarrow> True"

fun cons_ok :: "nat \<Rightarrow> nat \<Rightarrow> nat \<Rightarrow> nat \<Rightarrow> 'e cpc \<Rightarrow> bool" where
  "cons_ok T H D C CIdle \<longleftrightarrow> H = D \<and> C = D"
| "cons_ok T H D C (CHead h) \<longleftrightarrow> H = D \<and> C = D \<and> unat h = D"
| "cons_ok T H D C (CDrain start h t n) \<longleftrightarrow> H = C \<and> unat start = C \<and> unat h = D \<and> unat t \<le> T \<and> D = C + n"
| "cons_ok T H D C (CDrained start n) \<longleftrightarrow> H = D \<and> unat start = C \<and> D = C + n"
| "cons_ok T H D C (CCommit start n i be) \<longleftrightarrow> H = D \<and> unat start + i = C \<and> unat start + n = D"

definition exclusive :: "(('v, 'e) ppc \<Rightarrow> nat option) \<Rightarrow> nat \<Rightarrow> ('v, 'e) ppc list \<Rightarrow> bool" where
  "exclusive f N ps \<longleftrightarrow> (\<forall>i < length ps. \<forall>j < length ps. \<forall>s s'. i \<noteq> j \<longrightarrow> f (ps ! i) = Some s \<longrightarrow> f (ps ! j) = Some s' \<longrightarrow> s mod N \<noteq> s' mod N)"

text \<open>No sequence number is waiting for its slot and holding it.\<close>

definition apart :: "('v, 'e) ppc list \<Rightarrow> bool" where
  "apart ps \<longleftrightarrow> (\<forall>i < length ps. \<forall>j < length ps. \<forall>s. holder (ps ! i) = Some s \<longrightarrow> waiter (ps ! j) \<noteq> Some s)"

definition busy :: "('v, 'e) ppc list \<Rightarrow> nat \<Rightarrow> bool" where
  "busy ps s \<longleftrightarrow> (\<exists>j < length ps. holder (ps ! j) = Some s \<or> waiter (ps ! j) = Some s)"

definition held :: "('v, 'e) ppc list \<Rightarrow> nat \<Rightarrow> nat \<Rightarrow> bool" where
  "held ps N i \<longleftrightarrow> (\<exists>j < length ps. \<exists>s. holder (ps ! j) = Some s \<and> s mod N = i)"

definition mpsc_inv :: "('v \<Rightarrow> 'e option) \<Rightarrow> nat \<Rightarrow> ('v, 'e) conf \<Rightarrow> bool" where
  "mpsc_inv fn b c \<longleftrightarrow>
     (let r = ring c; N = length (mslots r); T = length (sent c); H = unat (mhead r); D = length (delivered c); C = length (batches c)
      in (\<exists>k \<le> 62. N = 2 ^ k \<and> mmask r = 2 ^ k - 1) \<and> T + b < 2 ^ 64 \<and> unat (mtail r) = T \<and>
         C \<le> D \<and> H \<le> D \<and> D \<le> T \<and> T \<le> H + N \<and> delivered c = take D (sent c) \<and> cons_ok T H D C (cons c) \<and>
         (\<forall>p \<in> set (ths c). thread_ok fn r (sent c) D (batches c) p) \<and>
         exclusive holder N (ths c) \<and> exclusive waiter N (ths c) \<and> apart (ths c) \<and>
         (\<forall>s. C \<le> s \<and> s < T \<longrightarrow> busy (ths c) s) \<and>
         (\<forall>i < N. mstate (mslots r ! i) \<noteq> SFree \<longrightarrow> held (ths c) N i))"

section \<open>Slots and threads\<close>

lemma idx_eq:
  assumes "length (mslots r) = 2 ^ k" "mmask r = 2 ^ k - 1" shows "idx r t = unat t mod length (mslots r)"
  using assms by (simp add: idx_def unat_and_mask)

lemma at_idx: "length (mslots r) = 2 ^ k \<Longrightarrow> mmask r = 2 ^ k - 1 \<Longrightarrow> mslots r ! idx r t = at r (unat t)"
  by (simp add: idx_eq at_def)

text \<open>\<open>r'\<close> is \<open>r\<close> with the slot of sequence number \<open>s\<close> replaced.\<close>

definition slot_changed :: "('v, 'e) mring \<Rightarrow> nat \<Rightarrow> ('v, 'e) mslot \<Rightarrow> ('v, 'e) mring \<Rightarrow> bool" where
  "slot_changed r s sl r' \<longleftrightarrow> mslots r' = (mslots r)[s mod length (mslots r) := sl] \<and>
     mmask r' = mmask r \<and> mtail r' = mtail r \<and> mhead r' = mhead r"

lemma upd_slot_changed:
  assumes "length (mslots r) = 2 ^ k" "mmask r = 2 ^ k - 1"
  shows "slot_changed r (unat t) (f (at r (unat t))) (upd_slot t f r)"
  using assms by (simp add: slot_changed_def upd_slot_def idx_eq at_def)

lemma at_changed:
  assumes "slot_changed r s sl r'" "0 < length (mslots r)"
  shows "at r' q = (if q mod length (mslots r) = s mod length (mslots r) then sl else at r q)"
  using assms by (auto simp: slot_changed_def at_def nth_list_update)

lemma thread_ok_frame:
  assumes "thread_ok fn r vs D bes p" "\<And>s. holder p = Some s \<Longrightarrow> at r' s = at r s" "unat (mhead r) \<le> unat (mhead r')"
  shows "thread_ok fn r' vs D bes p"
  using assms by (cases p) (auto simp: filled_def)

text \<open>The state of the slot a thread holds.\<close>

lemma holder_state:
  assumes "thread_ok fn r vs D bes p" "holder p = Some s"
  shows "mstate (at r s) \<noteq> SFree \<and> (mstate (at r s) = SReady \<longrightarrow> D \<le> s \<and> s < length vs \<and> (\<exists>v. p = PHave v (of_nat s) \<or> p = PBg v (of_nat s)))"
  using assms by (cases p) (auto simp: filled_def split: if_splits)

lemma exclusive_upd:
  assumes "exclusive f N ps" "i < length ps"
    "\<And>j s s'. f p = Some s \<Longrightarrow> j < length ps \<Longrightarrow> j \<noteq> i \<Longrightarrow> f (ps ! j) = Some s' \<Longrightarrow> s' mod N \<noteq> s mod N"
  shows "exclusive f N (ps[i := p])"
  unfolding exclusive_def length_list_update
proof (intro allI impI)
  fix a b s s' assume ab: "a < length ps" "b < length ps" "a \<noteq> b" "f (ps[i := p] ! a) = Some s" "f (ps[i := p] ! b) = Some s'"
  show "s mod N \<noteq> s' mod N"
  proof (cases "a = i \<or> b = i")
    case True
    then show ?thesis using ab assms(2) assms(3) [of s b s'] assms(3) [of s' a s] by auto
  next
    case False
    then show ?thesis using ab assms(1) unfolding exclusive_def by (auto simp: nth_list_update)
  qed
qed

lemma busyI: "j < length ps \<Longrightarrow> holder (ps ! j) = Some s \<or> waiter (ps ! j) = Some s \<Longrightarrow> busy ps s"
  unfolding busy_def by blast

lemma heldI: "j < length ps \<Longrightarrow> holder (ps ! j) = Some s \<Longrightarrow> s mod N = m \<Longrightarrow> held ps N m"
  unfolding held_def by blast

lemma busy_upd:
  assumes "busy ps s" "i < length ps" "holder (ps ! i) = Some s \<or> waiter (ps ! i) = Some s \<Longrightarrow> holder p = Some s \<or> waiter p = Some s"
  shows "busy (ps[i := p]) s"
proof -
  obtain j where j: "j < length ps" "holder (ps ! j) = Some s \<or> waiter (ps ! j) = Some s" using assms(1) by (auto simp: busy_def)
  show ?thesis by (rule busyI [of j]) (use j assms(2,3) in \<open>auto simp: nth_list_update\<close>)
qed

lemma held_ppc_upd:
  assumes "held ps N m" "i < length ps" "\<And>s. holder (ps ! i) = Some s \<Longrightarrow> s mod N = m \<Longrightarrow> holder p = Some s"
  shows "held (ps[i := p]) N m"
proof -
  obtain j s where j: "j < length ps" "holder (ps ! j) = Some s" "s mod N = m" using assms(1) by (auto simp: held_def)
  show ?thesis by (rule heldI [of j _ s]) (use j assms(2,3) in \<open>auto simp: nth_list_update\<close>)
qed

lemma held_new: "i < length ps \<Longrightarrow> holder p = Some s \<Longrightarrow> s mod N = m \<Longrightarrow> held (ps[i := p]) N m"
  by (rule heldI [of i _ s]) simp_all

section \<open>Moves of a producer\<close>

text \<open>A thread moves and leaves the ring alone.\<close>

lemma inv_keep:
  assumes inv: "mpsc_inv fn b c" and i: "i < length (ths c)" and h: "holder p = holder (ths c ! i)" "waiter p = waiter (ths c ! i)"
    and p: "thread_ok fn (ring c) (sent c) (length (delivered c)) (batches c) p"
  shows "mpsc_inv fn b (c\<lparr>ths := (ths c)[i := p]\<rparr>)"
proof -
  let ?N = "length (mslots (ring c))"
  have e: "exclusive holder ?N (ths c)" "exclusive waiter ?N (ths c)" "apart (ths c)" using inv by (simp_all add: mpsc_inv_def Let_def)
  have "exclusive holder ?N ((ths c)[i := p])"
    by (rule exclusive_upd [OF e(1) i]) (use e(1) i h(1) in \<open>auto simp: exclusive_def\<close>)
  moreover have "exclusive waiter ?N ((ths c)[i := p])"
    by (rule exclusive_upd [OF e(2) i]) (use e(2) i h(2) in \<open>auto simp: exclusive_def\<close>)
  moreover have "apart ((ths c)[i := p])" using e(3) i h by (auto simp: apart_def nth_list_update)
  moreover have "busy ((ths c)[i := p]) s" if "busy (ths c) s" for s by (rule busy_upd [OF that i]) (simp add: h)
  moreover have "held ((ths c)[i := p]) ?N m" if "held (ths c) ?N m" for m by (rule held_ppc_upd [OF that i]) (simp add: h)
  ultimately show ?thesis using inv p
    by (auto simp: mpsc_inv_def Let_def dest!: set_update_subset_insert [THEN subsetD])
qed

text \<open>A thread moves and replaces the slot of its sequence number, which no other thread holds.\<close>

lemma inv_slot:
  assumes inv: "mpsc_inv fn b c" and i: "i < length (ths c)" and ch: "slot_changed (ring c) s sl r'"
    and others: "\<And>j s'. j < length (ths c) \<Longrightarrow> j \<noteq> i \<Longrightarrow> holder (ths c ! j) = Some s' \<Longrightarrow> s' mod length (mslots (ring c)) \<noteq> s mod length (mslots (ring c))"
    and old: "\<And>s'. holder (ths c ! i) = Some s' \<Longrightarrow> s' = s" and hold: "holder p = Some s \<or> holder p = None \<and> mstate sl = SFree"
    and w: "waiter p = None" and hw: "\<And>j. j < length (ths c) \<Longrightarrow> j \<noteq> i \<Longrightarrow> waiter (ths c ! j) \<noteq> Some s"
    and b: "\<And>q. length (batches c) \<le> q \<Longrightarrow> holder (ths c ! i) = Some q \<or> waiter (ths c ! i) = Some q \<Longrightarrow> holder p = Some q"
    and p: "thread_ok fn r' (sent c) (length (delivered c)) (batches c) p"
  shows "mpsc_inv fn b (c\<lparr>ring := r', ths := (ths c)[i := p]\<rparr>)"
proof -
  let ?N = "length (mslots (ring c))"
  obtain k where k: "k \<le> 62" "?N = 2 ^ k" "mmask (ring c) = 2 ^ k - 1" using inv by (auto simp: mpsc_inv_def Let_def)
  have N: "0 < ?N" using k by simp
  have r': "length (mslots r') = ?N" "mmask r' = mmask (ring c)" "mtail r' = mtail (ring c)" "mhead r' = mhead (ring c)"
    using ch by (auto simp: slot_changed_def)
  have e: "exclusive holder ?N (ths c)" "exclusive waiter ?N (ths c)" "apart (ths c)"
    and ok: "\<forall>p \<in> set (ths c). thread_ok fn (ring c) (sent c) (length (delivered c)) (batches c) p"
    and bz: "\<forall>q. length (batches c) \<le> q \<and> q < length (sent c) \<longrightarrow> busy (ths c) q"
    and hd: "\<forall>m < ?N. mstate (mslots (ring c) ! m) \<noteq> SFree \<longrightarrow> held (ths c) ?N m"
    using inv by (simp_all add: mpsc_inv_def Let_def)
  have "exclusive holder ?N ((ths c)[i := p])" by (rule exclusive_upd [OF e(1) i]) (use others hold in auto)
  moreover have "exclusive waiter ?N ((ths c)[i := p])" by (rule exclusive_upd [OF e(2) i]) (simp add: w)
  moreover have "apart ((ths c)[i := p])" using e(3) i w hold hw by (auto simp: apart_def nth_list_update)
  moreover have "thread_ok fn r' (sent c) (length (delivered c)) (batches c) q" if "q \<in> set ((ths c)[i := p])" for q
  proof -
    obtain j where j: "j < length (ths c)" "q = (ths c)[i := p] ! j" using \<open>q \<in> _\<close> by (auto simp: in_set_conv_nth)
    show ?thesis
    proof (cases "j = i")
      case True
      then show ?thesis using j p by simp
    next
      case False
      then have q: "q = ths c ! j" using j by simp
      show ?thesis
      proof (rule thread_ok_frame)
        show "thread_ok fn (ring c) (sent c) (length (delivered c)) (batches c) q" using ok q j(1) by simp
        show "at r' s' = at (ring c) s'" if "holder q = Some s'" for s'
          using others [OF j(1) False] that q at_changed [OF ch N] by simp
      qed (simp add: r')
    qed
  qed
  moreover have "busy ((ths c)[i := p]) q" if "length (batches c) \<le> q" "q < length (sent c)" for q
    by (rule busy_upd [OF _ i]) (use bz that b in auto)
  moreover have "held ((ths c)[i := p]) ?N m" if "m < ?N" "mstate (mslots r' ! m) \<noteq> SFree" for m
  proof (cases "m = s mod ?N")
    case True
    then have "mstate sl \<noteq> SFree" using that ch by (simp add: slot_changed_def)
    then show ?thesis using hold held_new [OF i, of p s] True by auto
  next
    case False
    then have "mslots r' ! m = mslots (ring c) ! m" using ch by (simp add: slot_changed_def)
    then have "held (ths c) ?N m" using hd that by simp
    then show ?thesis by (rule held_ppc_upd [OF _ i]) (use old False in auto)
  qed
  ultimately show ?thesis using inv by (simp add: mpsc_inv_def Let_def r')
qed

text \<open>No other thread holds the slot of a thread that holds it.\<close>

lemma holder_alone:
  assumes "exclusive holder N ps" "i < length ps" "holder (ps ! i) = Some s" "j < length ps" "j \<noteq> i" "holder (ps ! j) = Some s'"
  shows "s' mod N \<noteq> s mod N"
  using assms by (auto simp: exclusive_def)

lemma inv_budget: "mpsc_inv fn (Suc b) c \<Longrightarrow> mpsc_inv fn b c"
  by (simp add: mpsc_inv_def Let_def)

lemma inv_facts:
  assumes "mpsc_inv fn b c"
  obtains k where "k \<le> 62" "length (mslots (ring c)) = 2 ^ k" "mmask (ring c) = 2 ^ k - 1"
    "length (sent c) + b < 2 ^ 64" "unat (mtail (ring c)) = length (sent c)"
    "length (batches c) \<le> length (delivered c)" "unat (mhead (ring c)) \<le> length (delivered c)" "length (delivered c) \<le> length (sent c)"
    "length (sent c) \<le> unat (mhead (ring c)) + length (mslots (ring c))" "delivered c = take (length (delivered c)) (sent c)"
    "cons_ok (length (sent c)) (unat (mhead (ring c))) (length (delivered c)) (length (batches c)) (cons c)"
    "exclusive holder (length (mslots (ring c))) (ths c)" "exclusive waiter (length (mslots (ring c))) (ths c)" "apart (ths c)"
  using assms by (auto simp: mpsc_inv_def Let_def)

lemma inv_thread: "mpsc_inv fn b c \<Longrightarrow> i < length (ths c) \<Longrightarrow> thread_ok fn (ring c) (sent c) (length (delivered c)) (batches c) (ths c ! i)"
  by (simp add: mpsc_inv_def Let_def)

lemma inv_busy: "mpsc_inv fn b c \<Longrightarrow> length (batches c) \<le> s \<Longrightarrow> s < length (sent c) \<Longrightarrow> busy (ths c) s"
  by (simp add: mpsc_inv_def Let_def)

lemma inv_held: "mpsc_inv fn b c \<Longrightarrow> m < length (mslots (ring c)) \<Longrightarrow> mstate (mslots (ring c) ! m) \<noteq> SFree \<Longrightarrow> held (ths c) (length (mslots (ring c))) m"
  by (simp add: mpsc_inv_def Let_def)

lemma mod_close: "s < (s' :: nat) \<Longrightarrow> s' < s + n \<Longrightarrow> s mod n \<noteq> s' mod n"
  using mod_eq_dvd_iff_nat [of s s' n] by (auto dest: dvd_imp_le)

text \<open>A holder's thread replaces its slot.\<close>

lemma inv_own_slot:
  assumes inv: "mpsc_inv fn b c" and i: "i < length (ths c)" and h: "holder (ths c ! i) = Some (unat t)"
    and hold: "holder p = Some (unat t) \<or> holder p = None \<and> mstate (f (at (ring c) (unat t))) = SFree \<and> unat t < length (batches c)"
    and w: "waiter p = None"
    and p: "thread_ok fn (upd_slot t f (ring c)) (sent c) (length (delivered c)) (batches c) p"
  shows "mpsc_inv fn b (c\<lparr>ring := upd_slot t f (ring c), ths := (ths c)[i := p]\<rparr>)"
proof -
  obtain k where k: "length (mslots (ring c)) = 2 ^ k" "mmask (ring c) = 2 ^ k - 1" "exclusive holder (length (mslots (ring c))) (ths c)" "apart (ths c)"
    by (rule inv_facts [OF inv])
  have nw: "waiter (ths c ! i) = None" using h by (cases "ths c ! i") auto
  show ?thesis
  proof (rule inv_slot [OF inv i upd_slot_changed [OF k(1,2)]])
    show "waiter (ths c ! j) \<noteq> Some (unat t)" if "j < length (ths c)" "j \<noteq> i" for j using k(4) i that h by (auto simp: apart_def)
  qed (use holder_alone [OF k(3) i h] h hold w p nw in auto)
qed

lemma unat_inc: "unat (t :: u64) + 1 < 2 ^ 64 \<Longrightarrow> unat (t + 1) = unat t + 1"
  by (simp add: unat_word_ariths)

lemma outcome_snoc: "s < length vs \<Longrightarrow> outcome fn (vs @ [v]) bes s = outcome fn vs bes s"
  by (simp add: outcome_def nth_append split: option.split)

lemma outcome_batch: "s < length bes \<Longrightarrow> outcome fn vs (bes @ [be]) s = outcome fn vs bes s"
  by (simp add: outcome_def nth_append split: option.split)

lemma thread_ok_snoc:
  assumes "thread_ok fn r vs D bes p" "length bes \<le> length vs" shows "thread_ok fn r (vs @ [v]) D bes p"
  using assms by (cases p) (auto simp: filled_def nth_append outcome_snoc split: if_splits)

lemma waiter_le: "thread_ok fn r vs D bes p \<Longrightarrow> waiter p = Some s \<Longrightarrow> D \<le> s \<and> s < length vs"
  by (cases p) auto

lemma holder_less: "thread_ok fn r vs D bes p \<Longrightarrow> holder p = Some s \<Longrightarrow> length bes \<le> length vs \<Longrightarrow> s < length vs"
  by (cases p) (auto simp: filled_def)

lemma reserve_inv:
  assumes inv: "mpsc_inv fn (Suc b) c" and i: "i < length (ths c)" "ths c ! i = PBoth v t h"
    and room: "t - h < of_nat (length (mslots (ring c)))" and t: "mtail (ring c) = t"
  shows "mpsc_inv fn b (c\<lparr>ring := (ring c)\<lparr>mtail := t + 1\<rparr>, ths := (ths c)[i := PSlot v t], sent := sent c @ [v]\<rparr>)"
proof -
  let ?N = "length (mslots (ring c))" and ?T = "length (sent c)" and ?D = "length (delivered c)"
  obtain k where k: "k \<le> 62" "?N = 2 ^ k" "mmask (ring c) = 2 ^ k - 1" "?T + Suc b < 2 ^ 64" "unat (mtail (ring c)) = ?T"
    "length (batches c) \<le> ?D" "unat (mhead (ring c)) \<le> ?D" "?D \<le> ?T" "?T \<le> unat (mhead (ring c)) + ?N" "delivered c = take ?D (sent c)"
    "cons_ok ?T (unat (mhead (ring c))) ?D (length (batches c)) (cons c)" "exclusive holder ?N (ths c)" "exclusive waiter ?N (ths c)" "apart (ths c)"
    by (rule inv_facts [OF inv])
  have T: "unat t = ?T" "unat (t + 1) = ?T + 1" using k(4,5) t unat_inc [of t] by auto
  have hH: "unat h \<le> unat (mhead (ring c))" using inv_thread [OF inv i(1)] i(2) by simp
  have "(2 :: nat) ^ k \<le> 2 ^ 62" using k(1) by (intro power_increasing) auto
  then have "unat (of_nat ?N :: u64) = ?N" using k(2) by (intro unat_of_nat_u64) simp
  moreover have "unat (t - h) = ?T - unat h" using hH k(7,8) T(1) by (simp add: unat_sub word_le_nat_alt)
  ultimately have "?T - unat h < ?N" using room by (simp add: word_less_nat_alt)
  then have lt: "?T < unat (mhead (ring c)) + ?N" using hH by linarith
  have tok: "thread_ok fn ((ring c)\<lparr>mtail := t + 1\<rparr>) (sent c @ [v]) ?D (batches c) p" if "thread_ok fn (ring c) (sent c) ?D (batches c) p" for p
    by (rule thread_ok_frame [OF thread_ok_snoc [OF that]]) (use k(6,8) in \<open>auto simp: at_def\<close>)
  have wt: "?D \<le> s \<and> s < ?T" if "j < length (ths c)" "waiter (ths c ! j) = Some s" for j s
    using waiter_le [OF inv_thread [OF inv that(1)] that(2)] .
  have hd: "s < ?T" if "j < length (ths c)" "holder (ths c ! j) = Some s" for j s
    using holder_less [OF inv_thread [OF inv that(1)] that(2)] k(6,8) by simp
  have "exclusive holder ?N ((ths c)[i := PSlot v t])" by (rule exclusive_upd [OF k(12) i(1)]) simp
  moreover have "exclusive waiter ?N ((ths c)[i := PSlot v t])"
  proof (rule exclusive_upd [OF k(13) i(1)])
    fix j s s' assume "waiter (PSlot v t) = Some s" "j < length (ths c)" "waiter (ths c ! j) = Some s'"
    then show "s' mod ?N \<noteq> s mod ?N" using wt [of j s'] T(1) lt k(7) by (intro mod_close) auto
  qed
  moreover have "apart ((ths c)[i := PSlot v t])" using k(14) i hd T(1) by (auto simp: apart_def nth_list_update split: if_splits) fastforce
  moreover have "busy ((ths c)[i := PSlot v t]) s" if "length (batches c) \<le> s" "s < ?T + 1" for s
  proof (cases "s = ?T")
    case True
    show ?thesis by (rule busyI [of i]) (use True T(1) i(1) in auto)
  next
    case False
    then have "busy (ths c) s" using inv_busy [OF inv] that by simp
    then show ?thesis by (rule busy_upd [OF _ i(1)]) (simp add: i(2))
  qed
  moreover have "held ((ths c)[i := PSlot v t]) ?N m" if "m < ?N" "mstate (mslots (ring c) ! m) \<noteq> SFree" for m
    by (rule held_ppc_upd [OF inv_held [OF inv that] i(1)]) (simp add: i(2))
  moreover have "cons_ok (?T + 1) (unat (mhead (ring c))) ?D (length (batches c)) (cons c)"
    using k(11) by (cases "cons c") auto
  moreover have "thread_ok fn ((ring c)\<lparr>mtail := t + 1\<rparr>) (sent c @ [v]) ?D (batches c) p" if "p \<in> set ((ths c)[i := PSlot v t])" for p
  proof -
    have "thread_ok fn ((ring c)\<lparr>mtail := t + 1\<rparr>) (sent c @ [v]) ?D (batches c) (PSlot v t)" using T(1) k(8) by simp
    moreover have "thread_ok fn (ring c) (sent c) ?D (batches c) q" if "q \<in> set (ths c)" for q using inv that by (simp add: mpsc_inv_def Let_def)
    ultimately show ?thesis using that tok by (auto dest!: set_update_subset_insert [THEN subsetD])
  qed
  moreover have "delivered c = take ?D (sent c @ [v])" using k(8,10) by simp
  ultimately show ?thesis using k lt T by (auto simp: mpsc_inv_def Let_def)
qed

lemma enq_inv:
  assumes inv: "mpsc_inv fn (Suc b) c" and st: "enq_step i c c'" shows "mpsc_inv fn b c'"
proof -
  note inv' = inv_budget [OF inv]
  let ?D = "length (delivered c)"
  obtain k where k: "length (mslots (ring c)) = 2 ^ k" "mmask (ring c) = 2 ^ k - 1" "exclusive waiter (length (mslots (ring c))) (ths c)"
    by (rule inv_facts [OF inv])
  have N: "0 < length (mslots (ring c))" using k by simp
  note at = at_changed [OF upd_slot_changed [OF k(1,2)] N] at_idx [OF k(1,2)]
  from st show ?thesis
  proof cases
    case (fill v t)
    let ?r = "upd_slot t (\<lambda>s. s\<lparr>mstate := SFill\<rparr>) (ring c)"
    have tk: "unat t < length (sent c) \<and> sent c ! unat t = v \<and> ?D \<le> unat t" using inv_thread [OF inv' fill(2)] fill(3) by simp
    have "mpsc_inv fn b (c\<lparr>ring := ?r, ths := (ths c)[i := PFill v t]\<rparr>)"
    proof (rule inv_slot [OF inv' fill(2) upd_slot_changed [OF k(1,2)]])
      fix j s' assume j: "j < length (ths c)" "j \<noteq> i" "holder (ths c ! j) = Some s'"
      have "mstate (at (ring c) s') \<noteq> SFree" using holder_state [OF inv_thread [OF inv' j(1)] j(3)] by simp
      then show "s' mod length (mslots (ring c)) \<noteq> unat t mod length (mslots (ring c))"
        using fill(4) at(2) [of t] by (auto simp: at_def)
    next
      fix j assume "j < length (ths c)" "j \<noteq> i"
      then show "waiter (ths c ! j) \<noteq> Some (unat t)" using k(3) fill(2,3) by (force simp: exclusive_def)
    qed (use fill tk in \<open>auto simp: at\<close>)
    then show ?thesis using fill(1) by simp
  next
    case (ready v t)
    then show ?thesis using inv_thread [OF inv' ready(2)]
      by (auto simp: at filled_def intro!: inv_own_slot [OF inv'])
  next
    case (reserve v t h)
    then show ?thesis using reserve_inv [OF inv] by simp
  qed (use inv' in \<open>auto intro!: inv_keep dest: inv_thread\<close>)
qed

lemma wait_inv:
  assumes inv: "mpsc_inv fn b c" and st: "wait_step i c c' \<or> cancel_step i c c'" shows "mpsc_inv fn b c'"
proof -
  obtain k where k: "length (mslots (ring c)) = 2 ^ k" "mmask (ring c) = 2 ^ k - 1" "length (batches c) \<le> length (delivered c)"
    by (rule inv_facts [OF inv])
  have N: "0 < length (mslots (ring c))" using k by simp
  note at = at_changed [OF upd_slot_changed [OF k(1,2)] N] at_idx [OF k(1,2)]
  have recv: "mpsc_inv fn b (c\<lparr>ring := upd_slot t (\<lambda>s. s\<lparr>mdone := False\<rparr>) (ring c), ths := (ths c)[i := PGot v t bg]\<rparr>)"
    if "i < length (ths c)" "holder (ths c ! i) = Some (unat t)" "filled fn (ring c) (sent c) (length (delivered c)) (batches c) v (unat t)"
      "mdone (mslots (ring c) ! idx (ring c) t)" for v t bg
    using that k(3) by (auto simp: at filled_def intro!: inv_own_slot [OF inv] split: if_splits)
  have release: "mpsc_inv fn b (c\<lparr>ring := upd_slot t (\<lambda>s. s\<lparr>mval := None, merr := None, mstate := SFree\<rparr>) (ring c), ths := (ths c)[i := p]\<rparr>)"
    if "i < length (ths c)" "ths c ! i = PGot v t bg" "holder p = None" "waiter p = None"
      "thread_ok fn (ring c) (sent c) (length (delivered c)) (batches c) p" for v t bg p
    by (rule inv_own_slot [OF inv that(1)])
      (use that inv_thread [OF inv that(1)] in \<open>auto intro: thread_ok_frame simp: upd_slot_def\<close>)
  from st show ?thesis
  proof
    assume "wait_step i c c'"
    then show ?thesis
    proof cases
      case (receive v t)
      then show ?thesis using recv [of t v False] inv_thread [OF inv receive(2)] by simp
    next
      case (free v t)
      then show ?thesis using release [of v t False "PDone v t (merr (mslots (ring c) ! idx (ring c) t))"] inv_thread [OF inv free(2)] at(2) [of t]
        by simp
    qed
  next
    assume "cancel_step i c c'"
    then show ?thesis
    proof cases
      case (give_up v t)
      then show ?thesis using inv_thread [OF inv give_up(2)] by (auto intro!: inv_keep [OF inv])
    next
      case (receive v t)
      then show ?thesis using recv [of t v True] inv_thread [OF inv receive(2)] by simp
    next
      case (free v t)
      then show ?thesis using release [of v t True PGone] by simp
    qed
  qed
qed

section \<open>Moves of the consumer\<close>

text \<open>The consumer replaces the slot of the thread \<open>q\<close>, which stays as it is.\<close>

lemma inv_cons:
  assumes inv: "mpsc_inv fn b c" and ch: "slot_changed (ring c) s sl r'" and j: "j < length (ths c)" "holder (ths c ! j) = Some s"
    and D: "length ds = D'" "ds = take D' (sent c)" "D' \<le> length (sent c)" "length (delivered c) \<le> D'"
    and C: "length bes = C'" "length (batches c) \<le> C'" "C' \<le> D'"
    and cp: "cons_ok (length (sent c)) (unat (mhead (ring c))) D' C' cp"
    and own: "thread_ok fn r' (sent c) D' bes (ths c ! j)"
    and rest: "\<And>i. i < length (ths c) \<Longrightarrow> i \<noteq> j \<Longrightarrow> (\<And>s'. holder (ths c ! i) = Some s' \<Longrightarrow> at r' s' = at (ring c) s' \<and> s' \<noteq> s) \<Longrightarrow>
      waiter (ths c ! i) \<noteq> Some s \<Longrightarrow> thread_ok fn (ring c) (sent c) D' bes (ths c ! i)"
  shows "mpsc_inv fn b (c\<lparr>ring := r', cons := cp, delivered := ds, batches := bes\<rparr>)"
proof -
  let ?N = "length (mslots (ring c))"
  obtain k where k: "?N = 2 ^ k" "exclusive holder ?N (ths c)" "apart (ths c)" by (rule inv_facts [OF inv])
  have N: "0 < ?N" using k by simp
  have r': "length (mslots r') = ?N" "mmask r' = mmask (ring c)" "mtail r' = mtail (ring c)" "mhead r' = mhead (ring c)"
    using ch by (auto simp: slot_changed_def)
  have "thread_ok fn r' (sent c) D' bes p" if "p \<in> set (ths c)" for p
  proof -
    obtain i where i: "i < length (ths c)" "p = ths c ! i" using \<open>p \<in> _\<close> by (auto simp: in_set_conv_nth)
    show ?thesis
    proof (cases "i = j")
      case False
      have fr: "at r' s' = at (ring c) s' \<and> s' \<noteq> s" if "holder (ths c ! i) = Some s'" for s'
        using holder_alone [OF k(2) j i(1) False that] at_changed [OF ch N] by auto
      have "waiter (ths c ! i) \<noteq> Some s" using k(3) i(1) j by (auto simp: apart_def)
      then have "thread_ok fn (ring c) (sent c) D' bes p" using rest [OF i(1) False fr] i(2) by simp
      then show ?thesis by (rule thread_ok_frame) (use fr i(2) r' in auto)
    qed (use own i in simp)
  qed
  moreover have "held (ths c) ?N m" if "m < ?N" "mstate (mslots r' ! m) \<noteq> SFree" for m
  proof (cases "m = s mod ?N")
    case True
    then show ?thesis using heldI [OF j] by simp
  next
    case False
    then have "mslots r' ! m = mslots (ring c) ! m" using ch by (simp add: slot_changed_def)
    then show ?thesis using inv_held [OF inv that(1)] that(2) by simp
  qed
  ultimately show ?thesis using inv cp D(1,3,4) C
    by (simp add: mpsc_inv_def Let_def r' D(2) [symmetric])
qed

text \<open>Who holds the slot that the consumer finds ready, or the one it commits.\<close>

lemma ready_holder:
  assumes inv: "mpsc_inv fn b c" and D: "D = length (delivered c)" and st: "mstate (at (ring c) D) = SReady"
  obtains j v where "j < length (ths c)" "ths c ! j = PHave v (of_nat D) \<or> ths c ! j = PBg v (of_nat D)" "unat (of_nat D :: u64) = D"
    "D < length (sent c)" "filled fn (ring c) (sent c) D (batches c) v D"
proof -
  let ?N = "length (mslots (ring c))"
  obtain k where k: "?N = 2 ^ k" "length (sent c) + b < 2 ^ 64" "length (sent c) \<le> unat (mhead (ring c)) + ?N" "unat (mhead (ring c)) \<le> length (delivered c)"
    by (rule inv_facts [OF inv])
  have "held (ths c) ?N (D mod ?N)" using inv_held [OF inv, of "D mod ?N"] st k(1) by (simp add: at_def)
  then obtain j s where j: "j < length (ths c)" "holder (ths c ! j) = Some s" "s mod ?N = D mod ?N" by (auto simp: held_def)
  have "at (ring c) s = at (ring c) D" using j(3) by (simp add: at_def)
  then obtain v where s: "D \<le> s" "s < length (sent c)" "ths c ! j = PHave v (of_nat s) \<or> ths c ! j = PBg v (of_nat s)"
    using holder_state [OF inv_thread [OF inv j(1)] j(2)] st D by auto
  then have "s = D" using mod_close [of D s ?N] j(3) k(3,4) D by (cases "s = D") auto
  moreover have u: "unat (of_nat s :: u64) = s" using s(2) k(2) by (intro unat_of_nat_u64) simp
  moreover have "filled fn (ring c) (sent c) D (batches c) v s" using s(3) inv_thread [OF inv j(1)] D u by auto
  ultimately show ?thesis using that j(1) s by blast
qed

lemma of_unat: "unat x = n \<Longrightarrow> x = of_nat n"
  by auto

lemma drained_holder:
  assumes inv: "mpsc_inv fn b c" and C: "C = length (batches c)" "C < length (delivered c)"
  obtains j v where "j < length (ths c)" "ths c ! j = PHave v (of_nat C) \<or> ths c ! j = PBg v (of_nat C)" "unat (of_nat C :: u64) = C"
    "filled fn (ring c) (sent c) (length (delivered c)) (batches c) v C"
proof -
  obtain k where k: "length (sent c) + b < 2 ^ 64" "length (delivered c) \<le> length (sent c)" by (rule inv_facts [OF inv])
  have "busy (ths c) C" using inv_busy [OF inv] C k by simp
  then obtain j where j: "j < length (ths c)" "holder (ths c ! j) = Some C \<or> waiter (ths c ! j) = Some C" by (auto simp: busy_def)
  have u: "unat (of_nat C :: u64) = C" using C k by (intro unat_of_nat_u64) simp
  have "\<exists>v. (ths c ! j = PHave v (of_nat C) \<or> ths c ! j = PBg v (of_nat C)) \<and> filled fn (ring c) (sent c) (length (delivered c)) (batches c) v C"
    using j(2) inv_thread [OF inv j(1)] C by (cases "ths c ! j") (auto intro: of_unat)
  then show ?thesis using that j(1) u by blast
qed

lemma drain_inv:
  assumes inv: "mpsc_inv fn b c" and st: "drain_step fn c c'" shows "mpsc_inv fn b c'"
proof -
  let ?D = "length (delivered c)"
  obtain k where k: "length (mslots (ring c)) = 2 ^ k" "mmask (ring c) = 2 ^ k - 1" "length (sent c) + b < 2 ^ 64"
    "unat (mtail (ring c)) = length (sent c)" "length (batches c) \<le> ?D" "unat (mhead (ring c)) \<le> ?D" "?D \<le> length (sent c)"
    "length (sent c) \<le> unat (mhead (ring c)) + length (mslots (ring c))" "delivered c = take ?D (sent c)"
    "cons_ok (length (sent c)) (unat (mhead (ring c))) ?D (length (batches c)) (cons c)"
    by (rule inv_facts [OF inv])
  have N: "0 < length (mslots (ring c))" using k by simp
  note at = at_changed [OF upd_slot_changed [OF k(1,2)] N] at_idx [OF k(1,2)]
  from st show ?thesis
  proof cases
    case (load_head)
    then show ?thesis using inv by (auto simp: mpsc_inv_def Let_def)
  next
    case (load_tail h)
    then show ?thesis using inv by (auto simp: mpsc_inv_def Let_def)
  next
    case (stop start h t n)
    let ?r = "(ring c)\<lparr>mhead := h\<rparr>"
    have h: "unat h = ?D" using k(10) stop(2) by simp
    have "thread_ok fn ?r (sent c) ?D (batches c) p" if "p \<in> set (ths c)" for p
    proof (rule thread_ok_frame)
      show "thread_ok fn (ring c) (sent c) ?D (batches c) p" using inv that by (simp add: mpsc_inv_def Let_def)
    qed (use h k(6) in \<open>auto simp: at_def\<close>)
    then show ?thesis using inv stop h k by (auto simp: mpsc_inv_def Let_def)
  next
    case (item start h t n v)
    have c: "unat h = ?D" "unat t \<le> length (sent c)" "unat (mhead (ring c)) = length (batches c)" "unat start = length (batches c)" "?D = length (batches c) + n"
      using k(10) item(2) by auto
    have ht: "?D < length (sent c)" using item(3) c by (simp add: word_less_nat_alt)
    then have h1: "unat (h + 1) = ?D + 1" using unat_inc [of h] c(1) k(3) by simp
    have rd: "mstate (at (ring c) ?D) = SReady" "mval (at (ring c) ?D) = Some v" using item(4,5) at(2) [of h] c(1) by simp_all
    obtain j v' where j: "j < length (ths c)" "ths c ! j = PHave v' (of_nat ?D) \<or> ths c ! j = PBg v' (of_nat ?D)" "unat (of_nat ?D :: u64) = ?D"
      "filled fn (ring c) (sent c) ?D (batches c) v' ?D"
      by (rule ready_holder [OF inv refl rd(1)])
    have hd: "holder (ths c ! j) = Some (unat h)" using j(2,3) c(1) by auto
    have v: "v = sent c ! ?D" "v' = v" using j(4) rd by (auto simp: filled_def)
    let ?r = "upd_slot h (\<lambda>s. s\<lparr>merr := fn v, mstate := SDrained\<rparr>) (ring c)"
    have "mpsc_inv fn b (c\<lparr>ring := ?r, cons := CDrain start (h + 1) t (n + 1), delivered := delivered c @ [v], batches := batches c\<rparr>)"
    proof (rule inv_cons [OF inv upd_slot_changed [OF k(1,2)] j(1) hd, where D' = "?D + 1"])
      show "delivered c @ [v] = take (?D + 1) (sent c)" using k(9) v(1) ht by (simp add: take_Suc_conv_app_nth)
      show "cons_ok (length (sent c)) (unat (mhead (ring c))) (?D + 1) (length (batches c)) (CDrain start (h + 1) t (n + 1))"
        using c h1 by simp
      have "filled fn ?r (sent c) (?D + 1) (batches c) v ?D"
        using j(4) v k(5) at(1) [of h _ ?D] c(1) by (simp add: filled_def)
      then show "thread_ok fn ?r (sent c) (?D + 1) (batches c) (ths c ! j)" using j(2,3) v(2) by auto
      fix i assume i: "i < length (ths c)" "i \<noteq> j" and ne: "\<And>s'. holder (ths c ! i) = Some s' \<Longrightarrow> at ?r s' = at (ring c) s' \<and> s' \<noteq> unat h"
        and w: "waiter (ths c ! i) \<noteq> Some (unat h)"
      show "thread_ok fn (ring c) (sent c) (?D + 1) (batches c) (ths c ! i)"
        using inv_thread [OF inv i(1)] ne w c(1) by (cases "ths c ! i") (auto simp: filled_def less_Suc_eq split: if_splits)
    qed (use ht k(5) in auto)
    then show ?thesis using item(1) by simp
  qed
qed

lemma commit_inv:
  assumes inv: "mpsc_inv fn b c" and st: "commit_step c c'" shows "mpsc_inv fn b c'"
proof -
  let ?D = "length (delivered c)" and ?C = "length (batches c)"
  obtain k where k: "length (mslots (ring c)) = 2 ^ k" "mmask (ring c) = 2 ^ k - 1" "length (sent c) + b < 2 ^ 64"
    "?C \<le> ?D" "?D \<le> length (sent c)" "delivered c = take ?D (sent c)"
    "cons_ok (length (sent c)) (unat (mhead (ring c))) ?D ?C (cons c)"
    by (rule inv_facts [OF inv])
  have N: "0 < length (mslots (ring c))" using k by simp
  note at = at_changed [OF upd_slot_changed [OF k(1,2)] N] at_idx [OF k(1,2)]
  from st show ?thesis
  proof cases
    case (call start n be)
    then show ?thesis using inv by (auto simp: mpsc_inv_def Let_def)
  next
    case (return start n i be)
    then show ?thesis using inv by (auto simp: mpsc_inv_def Let_def)
  next
    case (signal start n i be)
    have c: "unat (mhead (ring c)) = ?D" "unat start + i = ?C" "unat start + n = ?D" using k(7) signal(2) by auto
    have CD: "?C < ?D" using c signal(3) by simp
    obtain j v where j: "j < length (ths c)" "ths c ! j = PHave v (of_nat ?C) \<or> ths c ! j = PBg v (of_nat ?C)" "unat (of_nat ?C :: u64) = ?C"
      "filled fn (ring c) (sent c) ?D (batches c) v ?C"
      by (rule drained_holder [OF inv refl CD])
    have eq: "start + of_nat i = (of_nat ?C :: u64)" using arg_cong [OF c(2), of "of_nat :: nat \<Rightarrow> u64"] by simp
    have hd: "holder (ths c ! j) = Some (unat (start + of_nat i))" using j(2,3) eq by auto
    let ?f = "\<lambda>s. s\<lparr>merr := (case be of None \<Rightarrow> merr s | Some e \<Rightarrow> Some e), mdone := True\<rparr>"
    let ?r = "upd_slot (start + of_nat i) ?f (ring c)"
    have "mpsc_inv fn b (c\<lparr>ring := ?r, cons := CCommit start n (i + 1) be, delivered := delivered c, batches := batches c @ [be]\<rparr>)"
    proof (rule inv_cons [OF inv upd_slot_changed [OF k(1,2)] j(1) hd])
      show "cons_ok (length (sent c)) (unat (mhead (ring c))) ?D (?C + 1) (CCommit start n (i + 1) be)" using c by simp
      have "filled fn ?r (sent c) ?D (batches c @ [be]) v ?C"
        using j(3,4) CD at(1) [of "start + of_nat i" ?f ?C] eq by (simp add: filled_def outcome_def split: option.split)
      then show "thread_ok fn ?r (sent c) ?D (batches c @ [be]) (ths c ! j)" using j(2,3) by auto
      fix i' assume i: "i' < length (ths c)" "i' \<noteq> j"
        and ne: "\<And>s'. holder (ths c ! i') = Some s' \<Longrightarrow> at ?r s' = at (ring c) s' \<and> s' \<noteq> unat (start + of_nat i)"
      show "thread_ok fn (ring c) (sent c) ?D (batches c @ [be]) (ths c ! i')"
        using inv_thread [OF inv i(1)] ne j(3) unfolding eq
        by (cases "ths c ! i'") (auto simp: filled_def less_Suc_eq outcome_batch split: if_splits)
    qed (use k CD in auto)
    then show ?thesis using signal(1) by simp
  qed
qed

lemma mpsc_step_inv: "mpsc_inv fn (Suc b) c \<Longrightarrow> mpsc_step fn c c' \<Longrightarrow> mpsc_inv fn b c'"
proof -
  assume inv: "mpsc_inv fn (Suc b) c" and st: "mpsc_step fn c c'"
  from st consider i where "enq_step i c c'" | i where "wait_step i c c' \<or> cancel_step i c c'" | "drain_step fn c c'" | "commit_step c c'"
    unfolding mpsc_step_def by blast
  then show ?thesis
    by cases (rule enq_inv [OF inv], assumption, rule wait_inv [OF inv_budget [OF inv]], assumption,
      rule drain_inv [OF inv_budget [OF inv]], assumption, rule commit_inv [OF inv_budget [OF inv]], assumption)
qed

lemma mpsc_run_inv: "(mpsc_step fn ^^ n) c c' \<Longrightarrow> mpsc_inv fn (n + b) c \<Longrightarrow> mpsc_inv fn b c'"
proof (induction n arbitrary: c)
  case (Suc n)
  then obtain d where "mpsc_step fn c d" "(mpsc_step fn ^^ n) d c'" using relpowp_Suc_D2 [OF Suc.prems(1)] by blast
  then show ?case using Suc.IH mpsc_step_inv Suc.prems(2) by (metis add_Suc)
qed simp

section \<open>Properties\<close>

definition start_conf :: "('v, 'e) mring \<Rightarrow> nat \<Rightarrow> ('v, 'e) conf" where
  "start_conf r k = \<lparr>ring = r, ths = replicate k PIdle, cons = CIdle, sent = [], delivered = [], batches = []\<rparr>"

lemma Mpsc_New_inv:
  fixes r :: "('v, 'e) mring"
  assumes "Mpsc_New sz = Some r" "sz \<le> 2 ^ 62" "b < 2 ^ 64"
  shows "mpsc_inv fn b (start_conf r k)"
proof -
  obtain e where e: "e \<le> 62" "pow2_loop (2 ^ 0) sz = Some (2 ^ e)" using pow2_loop_Some [of 0 sz] assms(2) by auto
  define d where "d = max e 2"
  have "(if 2 ^ e < (4 :: int) then 4 else 2 ^ e) = (2 :: int) ^ d"
  proof (cases "e < 2")
    case True
    then have "e = 0 \<or> e = 1" by auto
    then show ?thesis by (auto simp: d_def)
  next
    case False
    then have "(2 :: int) ^ 2 \<le> 2 ^ e" by (intro power_increasing) auto
    then show ?thesis using False by (simp add: d_def max_def)
  qed
  then have r: "r = \<lparr>mslots = replicate (2 ^ d) \<lparr>mstate = SFree, mval = None, merr = None, mdone = False\<rparr>, mmask = 2 ^ d - 1, mtail = 0, mhead = 0\<rparr>"
    using assms(1) e(2) by (simp add: Mpsc_New_def Let_def nat_power_eq)
  have "d \<le> 62" using e(1) by (simp add: d_def)
  then show ?thesis using assms(3)
    by (auto simp: mpsc_inv_def start_conf_def r exclusive_def apart_def)
qed

text \<open>
  C4. In every interleaving of any number of producers, cancelled ones included, with the consumer, the
  function of \<open>Drain\<close> is given exactly the values enqueued, in the order of their sequence numbers and
  each once; a \<open>Wait\<close> returns only after the commit of its own value, with the error of its batch or the
  one the function returned for this value; there are never more unconsumed values than slots; and
  \<open>Commit\<close> never blocks on a signal. (A run has fewer than two to the 64 steps.)
\<close>

theorem mpsc_exactly_once:
  assumes "Mpsc_New sz = Some r" "sz \<le> 2 ^ 62" "n < 2 ^ 64" and "(mpsc_step fn ^^ n) (start_conf r k) c"
  shows "delivered c = take (length (delivered c)) (sent c) \<and>
    length (sent c) - length (delivered c) \<le> length (mslots (ring c)) \<and>
    (\<forall>i v t e. i < length (ths c) \<and> ths c ! i = PDone v t e \<longrightarrow>
       unat t < length (batches c) \<and> sent c ! unat t = v \<and> e = outcome fn (sent c) (batches c) (unat t)) \<and>
    length (batches c) \<le> length (delivered c) \<and>
    (\<forall>start m i be. cons c = CCommit start m i be \<and> i < m \<longrightarrow> \<not> mdone (mslots (ring c) ! idx (ring c) (start + of_nat i)))"
proof -
  have inv: "mpsc_inv fn 0 c" using mpsc_run_inv [OF assms(4), of 0] Mpsc_New_inv [OF assms(1,2), of n fn k] assms(3) by simp
  obtain e where k: "length (mslots (ring c)) = 2 ^ e" "mmask (ring c) = 2 ^ e - 1" "delivered c = take (length (delivered c)) (sent c)"
    "length (sent c) \<le> unat (mhead (ring c)) + length (mslots (ring c))" "unat (mhead (ring c)) \<le> length (delivered c)"
    "length (batches c) \<le> length (delivered c)"
    "cons_ok (length (sent c)) (unat (mhead (ring c))) (length (delivered c)) (length (batches c)) (cons c)"
    by (rule inv_facts [OF inv])
  have "\<not> mdone (mslots (ring c) ! idx (ring c) (start + of_nat i))" if "cons c = CCommit start m i be" "i < m" for start m i be
  proof -
    have C: "unat start + i = length (batches c)" "length (batches c) < length (delivered c)" using k(7) that by auto
    obtain j v where "filled fn (ring c) (sent c) (length (delivered c)) (batches c) v (length (batches c))" "unat (of_nat (length (batches c)) :: u64) = length (batches c)"
      by (rule drained_holder [OF inv refl C(2)])
    moreover have "start + of_nat i = (of_nat (length (batches c)) :: u64)" using arg_cong [OF C(1), of "of_nat :: nat \<Rightarrow> u64"] by simp
    ultimately show ?thesis using C(2) at_idx [OF k(1,2), of "start + of_nat i"] by (simp add: filled_def)
  qed
  moreover have "unat t < length (batches c) \<and> sent c ! unat t = v \<and> e = outcome fn (sent c) (batches c) (unat t)"
    if "i < length (ths c)" "ths c ! i = PDone v t e" for i v t e using inv_thread [OF inv that(1)] that(2) by simp
  ultimately show ?thesis using k by auto
qed

text \<open>The steps as a function of a schedule, to run the relation: \<open>be\<close> is the error a \<open>Commit\<close> is given.\<close>

datatype ('v, 'e) mturn = TEnq nat 'v | TProd nat | TCons "'e option"

fun prod_next :: "nat \<Rightarrow> ('v, 'e) ppc \<Rightarrow> ('v, 'e) conf \<Rightarrow> ('v, 'e) conf option" where
  "prod_next i (PStart v) c = Some (c\<lparr>ths := (ths c)[i := PTail v (mtail (ring c))]\<rparr>)"
| "prod_next i (PTail v t) c = Some (c\<lparr>ths := (ths c)[i := PBoth v t (mhead (ring c))]\<rparr>)"
| "prod_next i (PBoth v t h) c =
     Some (if of_nat (length (mslots (ring c))) \<le> t - h then c\<lparr>ths := (ths c)[i := PStart v]\<rparr>
           else if mtail (ring c) \<noteq> t then c\<lparr>ths := (ths c)[i := PStart v]\<rparr>
           else c\<lparr>ring := (ring c)\<lparr>mtail := t + 1\<rparr>, ths := (ths c)[i := PSlot v t], sent := sent c @ [v]\<rparr>)"
| "prod_next i (PSlot v t) c =
     (if mstate (mslots (ring c) ! idx (ring c) t) = SFree
      then Some (c\<lparr>ring := upd_slot t (\<lambda>s. s\<lparr>mstate := SFill\<rparr>) (ring c), ths := (ths c)[i := PFill v t]\<rparr>) else None)"
| "prod_next i (PFill v t) c =
     Some (c\<lparr>ring := upd_slot t (\<lambda>s. s\<lparr>mval := Some v, merr := None, mdone := False, mstate := SReady\<rparr>) (ring c),
       ths := (ths c)[i := PHave v t]\<rparr>)"
| "prod_next i (PHave v t) c =
     (if mdone (mslots (ring c) ! idx (ring c) t)
      then Some (c\<lparr>ring := upd_slot t (\<lambda>s. s\<lparr>mdone := False\<rparr>) (ring c), ths := (ths c)[i := PGot v t False]\<rparr>) else None)"
| "prod_next i (PGot v t False) c =
     Some (c\<lparr>ring := upd_slot t (\<lambda>s. s\<lparr>mval := None, merr := None, mstate := SFree\<rparr>) (ring c),
       ths := (ths c)[i := PDone v t (merr (mslots (ring c) ! idx (ring c) t))]\<rparr>)"
| "prod_next i _ c = None"

fun cons_next :: "('v \<Rightarrow> 'e option) \<Rightarrow> 'e option \<Rightarrow> 'e cpc \<Rightarrow> ('v, 'e) conf \<Rightarrow> ('v, 'e) conf option" where
  "cons_next fn be CIdle c = Some (c\<lparr>cons := CHead (mhead (ring c))\<rparr>)"
| "cons_next fn be (CHead h) c = Some (c\<lparr>cons := CDrain h h (mtail (ring c)) 0\<rparr>)"
| "cons_next fn be (CDrain start h t n) c =
     (if h < t \<and> mstate (mslots (ring c) ! idx (ring c) h) = SReady
      then map_option (\<lambda>v. c\<lparr>ring := upd_slot h (\<lambda>s. s\<lparr>merr := fn v, mstate := SDrained\<rparr>) (ring c),
          cons := CDrain start (h + 1) t (n + 1), delivered := delivered c @ [v]\<rparr>) (mval (mslots (ring c) ! idx (ring c) h))
      else Some (c\<lparr>ring := (ring c)\<lparr>mhead := h\<rparr>, cons := CDrained start n\<rparr>))"
| "cons_next fn be (CDrained start n) c = Some (c\<lparr>cons := CCommit start n 0 be\<rparr>)"
| "cons_next fn _ (CCommit start n i be) c =
     (if i < n then
        if mdone (mslots (ring c) ! idx (ring c) (start + of_nat i)) then None
        else Some (c\<lparr>ring := upd_slot (start + of_nat i) (\<lambda>s. s\<lparr>merr := (case be of None \<Rightarrow> merr s | Some e \<Rightarrow> Some e), mdone := True\<rparr>) (ring c),
          cons := CCommit start n (i + 1) be, batches := batches c @ [be]\<rparr>)
      else Some (c\<lparr>cons := CIdle\<rparr>))"

fun mpsc_exec :: "('v \<Rightarrow> 'e option) \<Rightarrow> ('v, 'e) mturn \<Rightarrow> ('v, 'e) conf \<Rightarrow> ('v, 'e) conf option" where
  "mpsc_exec fn (TEnq i v) c = (if i < length (ths c) \<and> ths c ! i = PIdle then Some (c\<lparr>ths := (ths c)[i := PStart v]\<rparr>) else None)"
| "mpsc_exec fn (TProd i) c = (if i < length (ths c) then prod_next i (ths c ! i) c else None)"
| "mpsc_exec fn (TCons be) c = cons_next fn be (cons c) c"

lemma prod_next_step:
  assumes "prod_next i (ths c ! i) c = Some c'" "i < length (ths c)"
  shows "enq_step i c c' \<or> wait_step i c c'"
  using assms
  by (cases "(i, ths c ! i, c)" rule: prod_next.cases)
    (auto intro: enq_step.full_spin enq_step.cas_fail enq_step.intros wait_step.intros simp: not_le not_less split: if_splits)

lemma cons_next_step:
  assumes "cons_next fn be (cons c) c = Some c'"
  shows "drain_step fn c c' \<or> commit_step c c'"
  using assms
  by (cases "(fn, be, cons c, c)" rule: cons_next.cases)
    (auto intro: drain_step.intros commit_step.intros simp del: One_nat_def split: if_splits)

lemma mpsc_exec_step: "mpsc_exec fn u c = Some c' \<Longrightarrow> mpsc_step fn c c'"
  by (cases u) (auto simp: mpsc_step_def split: if_splits dest: prod_next_step cons_next_step intro: enq_step.call)

lemma mpsc_exec_run: "runs (mpsc_exec fn) us c = Some c' \<Longrightarrow> (mpsc_step fn ^^ length us) c c'"
proof (induction us arbitrary: c)
  case (Cons u us)
  then obtain c1 where "mpsc_exec fn u c = Some c1" "runs (mpsc_exec fn) us c1 = Some c'" by (auto split: option.splits)
  then show ?case using Cons.IH mpsc_exec_step relpowp_Suc_I2 by (metis length_Cons)
qed simp

text \<open>Two producers, one drain and one commit of both values; the function refuses the value 8 with error 5.\<close>

definition demo_turns :: "(nat, nat) mturn list" where
  "demo_turns = TEnq 0 7 # TEnq 1 8 # replicate 5 (TProd 0) @ replicate 5 (TProd 1) @ replicate 9 (TCons None) @
     [TProd 1, TProd 1, TProd 0, TProd 0]"

definition refuse :: "nat \<Rightarrow> nat option" where "refuse v = (if v = 8 then Some 5 else None)"

definition demo_mpsc :: "(nat, nat) mring" where "demo_mpsc = the (Mpsc_New 4)"

lemma demo_new: "Mpsc_New 4 = Some demo_mpsc"
proof -
  have "pow2_loop 1 4 = Some 4" by code_simp
  then show ?thesis by (simp add: demo_mpsc_def Mpsc_New_def Let_def)
qed

lemma demo_ring: "demo_mpsc = \<lparr>mslots = replicate 4 \<lparr>mstate = SFree, mval = None, merr = None, mdone = False\<rparr>, mmask = 3, mtail = 0, mhead = 0\<rparr>"
proof -
  have "pow2_loop 1 4 = Some 4" by code_simp
  then show ?thesis by (simp add: demo_mpsc_def Mpsc_New_def Let_def)
qed

lemma demo_run:
  "map_option (\<lambda>c. (sent c, delivered c, batches c, ths c)) (runs (mpsc_exec refuse) demo_turns (start_conf demo_mpsc 2)) =
     Some ([7, 8], [7, 8], [None, None], [PDone 7 0 None, PDone 8 1 (Some 5)])"
  unfolding demo_ring by code_simp

theorem mpsc_exactly_once_witness:
  "\<exists>c. (mpsc_step refuse ^^ 25) (start_conf demo_mpsc 2) c \<and> ths c = [PDone 7 0 None, PDone 8 1 (Some 5)] \<and>
     sent c = [7, 8] \<and> delivered c = take (length (delivered c)) (sent c) \<and> length (batches c) = 2 \<and>
     Some 5 = outcome refuse (sent c) (batches c) 1"
proof -
  obtain c where c: "runs (mpsc_exec refuse) demo_turns (start_conf demo_mpsc 2) = Some c"
    "sent c = [7, 8]" "batches c = [None, None]" "ths c = [PDone 7 0 None, PDone 8 1 (Some 5)]"
    using demo_run by auto
  have "length demo_turns = 25" by (simp add: demo_turns_def)
  then have run: "(mpsc_step refuse ^^ 25) (start_conf demo_mpsc 2) c" using mpsc_exec_run [OF c(1)] by simp
  note once = mpsc_exactly_once [OF demo_new _ _ run]
  have "\<forall>i v t e. i < length (ths c) \<and> ths c ! i = PDone v t e \<longrightarrow>
      unat t < length (batches c) \<and> sent c ! unat t = v \<and> e = outcome refuse (sent c) (batches c) (unat t)"
    using once by simp
  from this [rule_format, of 1 8 1 "Some 5"] have "Some 5 = outcome refuse (sent c) (batches c) 1" by (simp add: c)
  then show ?thesis using run once c by auto
qed

end
