(* ===== verification/Bufpool.thy ===== *)
theory Bufpool
  imports Smap
begin

text \<open>
  Package \<open>bufpool\<close> (src/bufpool/pool.go): byte slices pooled in twenty size classes. A pooled slice is
  its capacity; a \<open>sync.Pool\<close> holds slices and may give back any of them or none, which the argument
  of \<open>Get\<close> decides.
\<close>

section \<open>Tiers\<close>

definition minBits :: nat where "minBits = 6"
definition maxBits :: nat where "maxBits = 25"
definition levels :: nat where "levels = maxBits - minBits + 1"
definition maxSize :: int where "maxSize = 2 ^ maxBits"

definition tier :: "int \<Rightarrow> nat" where
  "tier n =
     (if n \<le> 2 ^ minBits then 0
      else
        (let b = bits_Len (nat (n - 1)); i = int b - int minBits
         in if i < 0 then 0 else if int levels \<le> i then levels - 1 else nat i))"

section \<open>Pool\<close>

type_synonym bufpool = "int list list"

definition zero_pool :: bufpool where "zero_pool = replicate levels []"

text \<open>A slice: its length and capacity, or the panic of \<open>b[:sz]\<close> past the capacity.\<close>

datatype got = Slice int int | OutOfRange

definition reslice :: "int \<Rightarrow> int \<Rightarrow> got" where
  "reslice c sz = (if sz \<le> c then Slice sz c else OutOfRange)"

text \<open>\<open>choice\<close> is the position of the slice that \<open>sync.Pool\<close> gives back, if it gives one.\<close>

definition Pool_Get :: "nat option \<Rightarrow> int \<Rightarrow> bufpool \<Rightarrow> got \<times> bufpool" where
  "Pool_Get choice sz p =
     (let sz = (if sz \<le> 0 then 1 else sz)
      in if maxSize < sz then (Slice sz sz, p)
         else
           (let idx = tier sz
            in case choice of
                 None \<Rightarrow> (Slice sz (2 ^ (idx + minBits)), p)
               | Some j \<Rightarrow>
                   (if j < length (p ! idx)
                    then (reslice (p ! idx ! j) sz, p[idx := take j (p ! idx) @ drop (Suc j) (p ! idx)])
                    else (Slice sz (2 ^ (idx + minBits)), p))))"

definition Pool_Put :: "int \<Rightarrow> bufpool \<Rightarrow> bufpool" where
  "Pool_Put c p =
     (if c < 2 ^ minBits then p
      else if c AND (c - 1) \<noteq> 0 then p
      else (let idx = tier c in if levels \<le> idx then p else p[idx := c # (p ! idx)]))"

text \<open>\<open>Get\<close> and \<open>Put\<close> of the package, on the global pool.\<close>

definition Get :: "nat option \<Rightarrow> int \<Rightarrow> bufpool \<Rightarrow> got \<times> bufpool" where "Get choice sz global = Pool_Get choice sz global"
definition Put :: "int \<Rightarrow> bufpool \<Rightarrow> bufpool" where "Put c global = Pool_Put c global"

section \<open>Sizes and tiers\<close>

lemma bits_Len_bounds: "n < 2 ^ bits_Len n \<and> (0 < n \<longrightarrow> 2 ^ (bits_Len n - 1) \<le> n)"
proof (induction n rule: bits_Len.induct)
  case (1 n)
  show ?case
  proof (cases "n = 0")
    case False
    then have IH: "n div 2 < 2 ^ bits_Len (n div 2)" "0 < n div 2 \<longrightarrow> 2 ^ (bits_Len (n div 2) - 1) \<le> n div 2" using 1 by auto
    have L: "bits_Len n = Suc (bits_Len (n div 2))" using False by (subst bits_Len.simps) simp
    show ?thesis
    proof (cases "n div 2 = 0")
      case True
      then show ?thesis using False by (simp add: L bits_Len.simps)
    next
      case False
      then have "0 < bits_Len (n div 2)" by (subst bits_Len.simps) simp
      then obtain m where "bits_Len (n div 2) = Suc m" by (cases "bits_Len (n div 2)") auto
      then show ?thesis using IH False by (simp add: L) linarith
    qed
  qed (simp add: bits_Len.simps)
qed

lemma bits_Len_le: "n < 2 ^ k \<Longrightarrow> bits_Len n \<le> k"
proof (cases "n = 0")
  case False
  assume "n < 2 ^ k"
  moreover have "2 ^ (bits_Len n - 1) \<le> n" using bits_Len_bounds [of n] False by auto
  ultimately have "(2 :: nat) ^ (bits_Len n - 1) < 2 ^ k" by linarith
  then have "bits_Len n - 1 < k" by (rule power_less_imp_less_exp [rotated]) simp
  then show ?thesis by simp
qed (simp add: bits_Len.simps)

lemma tier_less: "tier n < levels"
  by (auto simp: tier_def levels_def minBits_def maxBits_def Let_def nat_less_iff)

text \<open>The slices of a tier are large enough for every request that is sent to it.\<close>

lemma tier_request:
  assumes "sz \<le> maxSize" shows "sz \<le> 2 ^ (tier sz + minBits)"
proof (cases "sz \<le> 2 ^ minBits")
  case True
  then show ?thesis by (simp add: tier_def)
next
  case False
  let ?m = "nat (sz - 1)"
  have "?m < 2 ^ 25" using assms False by (simp add: maxSize_def maxBits_def)
  then have b: "bits_Len ?m \<le> 25" by (rule bits_Len_le)
  then have "tier sz = (if bits_Len ?m < 6 then 0 else bits_Len ?m - 6)"
    using False by (auto simp: tier_def levels_def minBits_def maxBits_def Let_def nat_diff_distrib)
  then have "bits_Len ?m \<le> tier sz + minBits" by (simp add: minBits_def)
  then have "(2 :: nat) ^ bits_Len ?m \<le> 2 ^ (tier sz + minBits)" by (intro power_increasing) auto
  moreover have "?m < 2 ^ bits_Len ?m" using bits_Len_bounds by blast
  ultimately have "?m < 2 ^ (tier sz + minBits)" by linarith
  then have "int ?m < 2 ^ (tier sz + minBits)" by (simp add: nat_less_iff)
  then show ?thesis using False by (simp add: minBits_def)
qed

text \<open>A slice whose capacity is a power of two goes to a tier it is large enough for.\<close>

lemma pow2_of_and:
  assumes "0 < c" "c AND (c - 1) = 0" shows "\<exists>k. c = (2 :: int) ^ k"
proof -
  have "1 \<le> nat c" using assms(1) by simp
  from ex_power_ivl1 [OF order_refl this] obtain k where k: "2 ^ k \<le> nat c" "nat c < 2 ^ Suc k" by (auto simp only: Suc_eq_plus1)
  show ?thesis
  proof (cases "nat c = 2 ^ k")
    case True
    then show ?thesis using assms(1) by (metis int_nat_eq int_ops(3) of_nat_power less_imp_le of_nat_numeral)
  next
    case False
    have b: "bit x k" if "2 ^ k \<le> x" "x < 2 ^ Suc k" for x :: int
    proof -
      have "x div 2 ^ k = 1" using that by (intro int_div_pos_eq [of _ _ _ "x - 2 ^ k"]) auto
      then show ?thesis by (simp add: bit_iff_odd)
    qed
    have "int (2 ^ k) < int (nat c)" "int (nat c) < int (2 ^ Suc k)" using k False by (simp_all only: of_nat_less_iff)
    then have "bit c k" "bit (c - 1) k" using assms(1) by (auto intro: b)
    then have "bit (c AND (c - 1)) k" by (simp add: bit_simps)
    then show ?thesis using assms(2) by simp
  qed
qed

lemma tier_stored:
  assumes "2 ^ minBits \<le> c" "c AND (c - 1) = 0" shows "2 ^ (tier c + minBits) \<le> c"
proof -
  have "0 < c" using assms(1) by (rule order_less_le_trans [rotated]) simp
  then obtain k where k: "c = 2 ^ k" using pow2_of_and assms(2) by blast
  have "(2 :: int) ^ 6 \<le> 2 ^ k" using assms(1) by (simp add: k minBits_def)
  then have "6 \<le> k" by (rule power_le_imp_le_exp [rotated]) simp
  have "nat (c - 1) = 2 ^ k - 1" by (simp add: k nat_diff_distrib nat_power_eq)
  then have "bits_Len (nat (c - 1)) = k" using bits_Len_ones by simp
  then have "tier c + minBits \<le> k" using \<open>6 \<le> k\<close> by (auto simp: tier_def levels_def minBits_def maxBits_def Let_def)
  then show ?thesis unfolding k by (intro power_increasing) auto
qed

definition pool_ok :: "bufpool \<Rightarrow> bool" where
  "pool_ok p \<longleftrightarrow> length p = levels \<and> (\<forall>i < levels. \<forall>c \<in> set (p ! i). 2 ^ (i + minBits) \<le> c)"

lemma Pool_Put_ok:
  assumes "pool_ok p" shows "pool_ok (Pool_Put c p)"
proof (cases "2 ^ minBits \<le> c \<and> c AND (c - 1) = 0")
  case True
  then show ?thesis using assms tier_stored [of c] by (auto simp: pool_ok_def Pool_Put_def Let_def nth_list_update)
qed (use assms in \<open>auto simp: Pool_Put_def\<close>)

lemma Pool_Get_ok:
  assumes "pool_ok p" "Pool_Get choice sz p = (g, p')"
  shows "pool_ok p' \<and> (\<exists>c. g = Slice (max 1 sz) c \<and> max 1 sz \<le> c)"
proof -
  have sz: "(if sz \<le> 0 then 1 else sz) = max 1 sz" by auto
  define s where "s = max 1 sz"
  have small: "s \<le> 2 ^ (tier s + minBits)" if "s \<le> maxSize" using that by (rule tier_request)
  have stored: "2 ^ (tier s + minBits) \<le> p ! tier s ! j" if "j < length (p ! tier s)" for j
    using assms(1) tier_less [of s] that by (simp add: pool_ok_def)
  have less: "s \<le> p ! tier s ! j" if "s \<le> maxSize" "j < length (p ! tier s)" for j using small [OF that(1)] stored [OF that(2)] by simp
  have sub: "pool_ok (p[tier s := take j (p ! tier s) @ drop (Suc j) (p ! tier s)])" for j
    using assms(1) tier_less [of s] by (auto simp: pool_ok_def nth_list_update dest!: in_set_takeD in_set_dropD)
  from assms(2) show ?thesis
    unfolding Pool_Get_def sz Let_def s_def [symmetric]
    using assms(1) small less sub by (auto simp: reslice_def not_less split: if_splits option.splits)
qed

section \<open>Properties\<close>

datatype bcall = BGet "nat option" int | BPut int

fun pool_run :: "bcall list \<Rightarrow> bufpool \<Rightarrow> (int \<times> got) list \<times> bufpool" where
  "pool_run [] p = ([], p)"
| "pool_run (BGet ch sz # calls) p = (case Pool_Get ch sz p of (g, p) \<Rightarrow> case pool_run calls p of (gs, p) \<Rightarrow> ((sz, g) # gs, p))"
| "pool_run (BPut c # calls) p = pool_run calls (Pool_Put c p)"

text \<open>
  C38. Whatever slices callers put back (of any capacity, theirs or not) and whichever ones the pools give
  out, \<open>Get\<close> never panics: it returns a slice of exactly the length asked for, one for requests below
  one, with a capacity that covers it.
\<close>

theorem bufpool_get_fits:
  "\<forall>(sz, g) \<in> set (fst (pool_run calls zero_pool)). \<exists>c. g = Slice (max 1 sz) c \<and> max 1 sz \<le> c"
proof -
  have "pool_ok (snd (pool_run calls p)) \<and> (\<forall>(sz, g) \<in> set (fst (pool_run calls p)). \<exists>c. g = Slice (max 1 sz) c \<and> max 1 sz \<le> c)"
    if "pool_ok p" for p
    using that
  proof (induction calls p rule: pool_run.induct)
    case (2 ch sz calls p)
    obtain g q where g: "Pool_Get ch sz p = (g, q)" by fastforce
    then show ?case using 2 Pool_Get_ok [OF "2.prems" g] by (auto split: prod.splits)
  qed (auto simp: Pool_Put_ok)
  moreover have "pool_ok zero_pool" by (simp add: pool_ok_def zero_pool_def)
  ultimately show ?thesis by blast
qed

theorem bufpool_get_fits_witness:
  "\<exists>c. snd (hd (fst (pool_run [BPut 128, BPut 100, BGet (Some 0) 90] zero_pool))) = Slice 90 c \<and> 90 \<le> c"
proof -
  have "fst (pool_run [BPut 128, BPut 100, BGet (Some 0) 90] zero_pool) \<noteq> []" by (simp split: prod.splits)
  then show ?thesis using bufpool_get_fits [of "[BPut 128, BPut 100, BGet (Some 0) 90]"]
    by (auto split: prod.splits)
qed

end
