(* ===== verification/Percpu.thy ===== *)
theory Percpu
  imports Words
begin

text \<open>
  Package \<open>percpu\<close> (src/percpu/counter.go, src/percpu/gauge.go): counters spread over slots, chosen by
  Fibonacci hashing of the caller's stack address, which is an argument. \<open>Load\<close> reads the slots one by
  one while other goroutines add: it is modelled as a function and as a schedule of its reads among
  their additions. The floating-point fields of the statistics are left out.
\<close>

section \<open>Counter\<close>

definition maxSlots :: int where "maxSlots = 256"
definition fibShift :: nat where "fibShift = 56"
definition fibMul :: u64 where "fibMul = 0x9e3779b97f4a7c15"

record counter =
  slots :: "int list"
  cmask :: u64

text \<open>The size that both constructors choose.\<close>

definition slot_count :: "int \<Rightarrow> int option" where
  "slot_count procs = map_option (\<lambda>sz. let sz = (if sz < 8 then 8 else sz) in if maxSlots < sz then maxSlots else sz) (pow2_loop 1 procs)"

definition Counter_New :: "int \<Rightarrow> counter option" where
  "Counter_New procs = map_option (\<lambda>sz. \<lparr>slots = replicate (nat sz) 0, cmask = of_int (sz - 1)\<rparr>) (slot_count procs)"

definition slot_of :: "counter \<Rightarrow> u64 \<Rightarrow> nat" where
  "slot_of c addr = unat (drop_bit fibShift (addr * fibMul) AND cmask c)"

definition Counter_Add :: "u64 \<Rightarrow> int \<Rightarrow> counter \<Rightarrow> counter" where
  "Counter_Add addr delta c = (let i = slot_of c addr in c\<lparr>slots := (slots c)[i := swrap64 (slots c ! i + delta)]\<rparr>)"

definition Counter_Load :: "counter \<Rightarrow> int" where
  "Counter_Load c = fold (\<lambda>i acc. swrap64 (acc + slots c ! i)) [0..<unat (cmask c) + 1] 0"

definition Counter_Reset :: "counter \<Rightarrow> counter" where
  "Counter_Reset c = fold (\<lambda>i c. c\<lparr>slots := (slots c)[i := 0]\<rparr>) [0..<unat (cmask c) + 1] c"

record slot_stats =
  st_Slots :: nat
  st_Min :: int
  st_Max :: int
  st_total :: int

definition Counter_Stats :: "counter \<Rightarrow> slot_stats" where
  "Counter_Stats c =
     (let n = unat (cmask c) + 1
      in fold (\<lambda>i s. let v = slots c ! i
           in s\<lparr>st_Min := (if v < st_Min s then v else st_Min s), st_Max := (if st_Max s < v then v else st_Max s),
               st_total := swrap64 (st_total s + v)\<rparr>) [0..<n]
         \<lparr>st_Slots = n, st_Min = 2 ^ 63 - 1, st_Max = 0, st_total = 0\<rparr>)"

section \<open>Gauge\<close>

type_synonym gauge = counter

definition NewGauge :: "int \<Rightarrow> gauge option" where
  "NewGauge procs = map_option (\<lambda>sz. \<lparr>slots = replicate (nat sz) 0, cmask = of_int (sz - 1)\<rparr>) (slot_count procs)"

definition Gauge_Add :: "u64 \<Rightarrow> int \<Rightarrow> gauge \<Rightarrow> gauge" where
  "Gauge_Add addr delta g = (let i = slot_of g addr in g\<lparr>slots := (slots g)[i := swrap64 (slots g ! i + delta)]\<rparr>)"

definition Gauge_Sub :: "u64 \<Rightarrow> int \<Rightarrow> gauge \<Rightarrow> gauge" where
  "Gauge_Sub addr delta g = Gauge_Add addr (swrap64 (- delta)) g"

definition Gauge_Load :: "gauge \<Rightarrow> int" where
  "Gauge_Load g = fold (\<lambda>i acc. swrap64 (acc + slots g ! i)) [0..<unat (cmask g) + 1] 0"

definition Gauge_Reset :: "gauge \<Rightarrow> gauge" where
  "Gauge_Reset g = fold (\<lambda>i g. g\<lparr>slots := (slots g)[i := 0]\<rparr>) [0..<unat (cmask g) + 1] g"

definition Gauge_Stats :: "gauge \<Rightarrow> slot_stats" where
  "Gauge_Stats g =
     (let n = unat (cmask g) + 1
      in fold (\<lambda>i s. let v = slots g ! i
           in s\<lparr>st_Min := (if v < st_Min s then v else st_Min s), st_Max := (if st_Max s < v then v else st_Max s),
               st_total := swrap64 (st_total s + v)\<rparr>) [0..<n]
         \<lparr>st_Slots = n, st_Min = slots g ! 0, st_Max = slots g ! 0, st_total = 0\<rparr>)"

section \<open>A load among additions\<close>

text \<open>
  What happens while \<open>Load\<close> runs: another goroutine adds, or the load reads its next slot. The state of
  the load is the next index and the sum so far.
\<close>

datatype ev = EAdd u64 int | ERead

fun load_during :: "ev list \<Rightarrow> nat \<Rightarrow> int \<Rightarrow> counter \<Rightarrow> nat \<times> int \<times> counter" where
  "load_during [] i acc c = (i, acc, c)"
| "load_during (EAdd addr d # evs) i acc c = load_during evs i acc (Counter_Add addr d c)"
| "load_during (ERead # evs) i acc c =
     (if i < unat (cmask c) + 1 then load_during evs (i + 1) (swrap64 (acc + slots c ! i)) c
      else load_during evs i acc c)"

section \<open>Sums\<close>

definition counter_ok :: "counter \<Rightarrow> bool" where
  "counter_ok c \<longleftrightarrow> (\<exists>k \<le> 8. length (slots c) = 2 ^ k \<and> cmask c = 2 ^ k - 1)"

lemma counter_mask: "counter_ok c \<Longrightarrow> unat (cmask c) + 1 = length (slots c)"
proof -
  assume "counter_ok c"
  then obtain k where k: "k \<le> 8" "length (slots c) = 2 ^ k" "cmask c = 2 ^ k - 1" by (auto simp: counter_ok_def)
  have "(2 :: nat) ^ k \<le> 2 ^ 8" using k(1) by (intro power_increasing) auto
  have "unat (2 ^ k - 1 :: u64) = unat ((- 1) AND (2 ^ k - 1) :: u64)" by simp
  also have "\<dots> = unat (- 1 :: u64) mod 2 ^ k" by (rule unat_and_mask)
  also have "unat (- 1 :: u64) = 2 ^ 64 - 1" by (simp add: unsigned_minus_1_eq_mask mask_eq_exp_minus_1)
  also have "(2 ^ 64 - 1 :: nat) mod 2 ^ k = 2 ^ k - 1"
  proof -
    have "(2 :: nat) ^ 64 = 2 ^ k * 2 ^ (64 - k)" using k(1) by (simp flip: power_add)
    moreover have "(1 :: nat) \<le> 2 ^ k" "(1 :: nat) \<le> 2 ^ (64 - k)" by simp_all
    then have "(2 ^ k - 1) + 2 ^ k * (2 ^ (64 - k) - 1) = 2 ^ k * 2 ^ (64 - k) - (1 :: nat)" by (simp add: diff_mult_distrib2)
    ultimately have eq: "(2 ^ 64 - 1 :: nat) = (2 ^ k - 1) + 2 ^ k * (2 ^ (64 - k) - 1)" by simp
    show ?thesis unfolding eq by (simp only: mod_mult_self2) simp
  qed
  finally show ?thesis using k(2,3) by simp
qed

lemma slot_of_less: "counter_ok c \<Longrightarrow> slot_of c addr < length (slots c)"
  by (auto simp: counter_ok_def slot_of_def unat_and_mask)

lemma fold_wrap_sum: "fold (\<lambda>x s. swrap64 (s + x)) xs (swrap64 s) = swrap64 (s + sum_list xs)"
proof (induction xs arbitrary: s)
  case (Cons x xs)
  then show ?case using Cons.IH [of "s + x"] by (simp add: swrap64_add_left add.assoc)
qed simp

lemma fold_slots: "fold (\<lambda>i acc. swrap64 (acc + xs ! i)) [0..<length xs] 0 = swrap64 (sum_list xs)"
proof -
  have "fold (\<lambda>i acc. swrap64 (acc + xs ! i)) [0..<length xs] 0 = fold (\<lambda>x s. swrap64 (s + x)) (map ((!) xs) [0..<length xs]) 0"
    by (simp add: fold_map comp_def)
  also have "\<dots> = swrap64 (sum_list xs)" using fold_wrap_sum [of xs 0] by (simp add: map_nth swrap64_def)
  finally show ?thesis .
qed

lemma Load_sum: "counter_ok c \<Longrightarrow> Counter_Load c = swrap64 (sum_list (slots c))"
  using fold_slots [of "slots c"] counter_mask [of c] by (simp add: Counter_Load_def)

lemma sum_list_update_int: "i < length xs \<Longrightarrow> sum_list (xs[i := y]) = sum_list xs - xs ! i + (y :: int)"
  by (induction xs arbitrary: i) (auto split: nat.split simp: nth_Cons')

lemma swrap64_cong: "(x - y) mod 2 ^ 64 = 0 \<Longrightarrow> swrap64 x = swrap64 y"
proof -
  assume "(x - y) mod 2 ^ 64 = 0"
  then have "(x + 2 ^ 63) mod 2 ^ 64 = (y + 2 ^ 63) mod 2 ^ 64" by (simp add: mod_eq_dvd_iff dvd_eq_mod_eq_0)
  then show ?thesis by (simp add: swrap64_def)
qed

lemma swrap64_diff_self: "(x - swrap64 x) mod 2 ^ 64 = 0"
proof -
  have "x - swrap64 x = (x + 2 ^ 63) - (x + 2 ^ 63) mod 2 ^ 64" by (simp add: swrap64_def)
  then show ?thesis by (simp only: minus_mod_eq_mult_div) simp
qed

lemma Add_ok:
  assumes "counter_ok c"
  shows "counter_ok (Counter_Add addr d c)" "swrap64 (sum_list (slots (Counter_Add addr d c))) = swrap64 (sum_list (slots c) + d)"
proof -
  show "counter_ok (Counter_Add addr d c)" using assms by (simp add: counter_ok_def Counter_Add_def Let_def)
  let ?i = "slot_of c addr" let ?x = "slots c ! ?i + d"
  have "sum_list (slots c) + d - sum_list (slots (Counter_Add addr d c)) = ?x - swrap64 ?x"
    using slot_of_less [OF assms] by (simp add: Counter_Add_def Let_def sum_list_update_int)
  then show "swrap64 (sum_list (slots (Counter_Add addr d c))) = swrap64 (sum_list (slots c) + d)"
    using swrap64_diff_self [of ?x] swrap64_cong by metis
qed

lemma Counter_New_ok:
  assumes "procs \<le> 2 ^ 62"
  shows "\<exists>c. Counter_New procs = Some c \<and> counter_ok c \<and> sum_list (slots c) = 0 \<and> (\<forall>x \<in> set (slots c). x = 0) \<and>
    8 \<le> length (slots c) \<and> length (slots c) \<le> 256"
proof -
  obtain e where e: "pow2_loop (2 ^ 0) procs = Some (2 ^ e)" using pow2_loop_Some [of 0 procs] assms by auto
  define d where "d = min 8 (max e 3)"
  have "(2 :: int) ^ e < 8 \<longleftrightarrow> e < 3" using power_strict_increasing_iff [of "2 :: int" e 3] by simp
  moreover have "256 < (2 :: int) ^ e \<longleftrightarrow> 8 < e" using power_strict_increasing_iff [of "2 :: int" 8 e] by simp
  ultimately have "slot_count procs = Some (2 ^ d)" using e by (auto simp: slot_count_def maxSlots_def d_def Let_def min_def max_def)
  then have "Counter_New procs = Some \<lparr>slots = replicate (2 ^ d) 0, cmask = 2 ^ d - 1\<rparr>" by (simp add: Counter_New_def nat_power_eq)
  moreover have "3 \<le> d" "d \<le> 8" by (auto simp: d_def)
  then have "(2 :: nat) ^ 3 \<le> 2 ^ d \<and> (2 :: nat) ^ d \<le> 2 ^ 8" by (intro conjI power_increasing) simp_all
  ultimately show ?thesis using \<open>d \<le> 8\<close> by (auto simp: counter_ok_def sum_list_replicate)
qed

lemma Reset_zero:
  assumes "counter_ok c" shows "counter_ok (Counter_Reset c)" "slots (Counter_Reset c) = replicate (length (slots c)) 0"
proof -
  have "fold (\<lambda>i c. c\<lparr>slots := (slots c)[i := 0]\<rparr>) [0..<n] c = c\<lparr>slots := replicate n 0 @ drop n (slots c)\<rparr>" if "n \<le> length (slots c)" for n
    using that
  proof (induction n)
    case (Suc n)
    then have "drop n (slots c) = slots c ! n # drop (Suc n) (slots c)" by (simp add: Cons_nth_drop_Suc)
    then show ?case using Suc by (simp add: list_update_append replicate_append_same)
  qed simp
  then have "Counter_Reset c = c\<lparr>slots := replicate (length (slots c)) 0\<rparr>"
    using counter_mask [OF assms] by (simp add: Counter_Reset_def)
  then show "counter_ok (Counter_Reset c)" "slots (Counter_Reset c) = replicate (length (slots c)) 0"
    using assms by (auto simp: counter_ok_def)
qed

lemma gauge_is_counter:
  "NewGauge = Counter_New" "Gauge_Add = Counter_Add" "Gauge_Load = Counter_Load" "Gauge_Reset = Counter_Reset"
  by (auto simp: fun_eq_iff NewGauge_def Counter_New_def Gauge_Add_def Counter_Add_def Gauge_Load_def Counter_Load_def Gauge_Reset_def Counter_Reset_def)

section \<open>Properties\<close>

datatype gcall = GAdd u64 int | GSub u64 int

fun gauge_run :: "gcall list \<Rightarrow> gauge \<Rightarrow> gauge" where
  "gauge_run [] g = g"
| "gauge_run (GAdd addr d # calls) g = gauge_run calls (Gauge_Add addr d g)"
| "gauge_run (GSub addr d # calls) g = gauge_run calls (Gauge_Sub addr d g)"

fun net :: "gcall list \<Rightarrow> int" where
  "net [] = 0"
| "net (GAdd addr d # calls) = d + net calls"
| "net (GSub addr d # calls) = net calls - d"

text \<open>
  C37. No update is lost, whatever the stack addresses are: once all calls have returned, \<open>Load\<close> is the net
  sum of the additions and subtractions as a 64-bit integer, for the counter and the gauge, with between
  8 and 256 slots; after \<open>Reset\<close> it is zero.
\<close>

theorem percpu_exact_when_quiet:
  assumes "procs \<le> 2 ^ 62"
  shows "\<exists>g. NewGauge procs = Some g \<and> Counter_New procs = Some g \<and> 8 \<le> length (slots g) \<and> length (slots g) \<le> 256 \<and>
    Gauge_Load (gauge_run calls g) = swrap64 (net calls) \<and>
    Counter_Load (fold (\<lambda>(addr, d). Counter_Add addr d) adds g) = swrap64 (sum_list (map snd adds)) \<and>
    Gauge_Load (Gauge_Reset (gauge_run calls g)) = 0"
proof -
  obtain g where g: "Counter_New procs = Some g" "counter_ok g" "sum_list (slots g) = 0" "8 \<le> length (slots g)" "length (slots g) \<le> 256"
    using Counter_New_ok [OF assms] by blast
  have step: "swrap64 (sum_list (slots (Counter_Add addr d c)) + y) = swrap64 (sum_list (slots c) + (d + y))" if "counter_ok c" for addr d c y
    using Add_ok(2) [OF that, of addr d] swrap64_add_left [of "sum_list (slots (Counter_Add addr d c))" y]
      swrap64_add_left [of "sum_list (slots c) + d" y] by (simp add: add.assoc)
  have neg: "swrap64 (x + (swrap64 (- d) + y)) = swrap64 (x + (y - d))" for x y d
    using swrap64_add_left [of "- d" "x + y"] by (simp add: algebra_simps)
  have run: "counter_ok (gauge_run calls c) \<and> swrap64 (sum_list (slots (gauge_run calls c))) = swrap64 (sum_list (slots c) + net calls)"
    if "counter_ok c" for c
    using that by (induction calls c rule: gauge_run.induct) (auto simp: gauge_is_counter Gauge_Sub_def Add_ok(1) step neg)
  have adds: "counter_ok (fold (\<lambda>(addr, d). Counter_Add addr d) adds c) \<and>
      swrap64 (sum_list (slots (fold (\<lambda>(addr, d). Counter_Add addr d) adds c))) = swrap64 (sum_list (slots c) + sum_list (map snd adds))"
    if "counter_ok c" for c
    using that by (induction adds arbitrary: c) (auto simp: Add_ok(1) step)
  have z: "Gauge_Load (Gauge_Reset c) = 0" if "counter_ok c" for c
    using that Reset_zero [OF that] by (simp add: gauge_is_counter Load_sum sum_list_replicate swrap64_def)
  show ?thesis using g run [OF g(2)] adds [OF g(2)] z
    by (intro exI [of _ g]) (simp add: gauge_is_counter Load_sum)
qed

theorem percpu_exact_when_quiet_witness:
  "\<exists>g. NewGauge 4 = Some g \<and> Gauge_Load (gauge_run [GAdd 1000 5, GSub 9192 2, GAdd 77 (- 1)] g) = 2"
  using percpu_exact_when_quiet [of 4 "[GAdd 1000 5, GSub 9192 2, GAdd 77 (- 1)]" "[]"] by (auto simp: swrap64_def)

definition added :: "ev list \<Rightarrow> int" where
  "added evs = sum_list (map (\<lambda>e. case e of EAdd addr d \<Rightarrow> d | ERead \<Rightarrow> 0) evs)"

definition growing :: "ev list \<Rightarrow> bool" where
  "growing evs \<longleftrightarrow> (\<forall>e \<in> set evs. case e of EAdd addr d \<Rightarrow> 0 \<le> d | ERead \<Rightarrow> True)"

lemma part_sums_update:
  fixes xs :: "int list" assumes "j < length xs" "0 \<le> d"
  shows "sum_list (take i xs) \<le> sum_list (take i (xs[j := xs ! j + d]))" "sum_list (drop i xs) \<le> sum_list (drop i (xs[j := xs ! j + d]))"
proof -
  show "sum_list (take i xs) \<le> sum_list (take i (xs[j := xs ! j + d]))"
    using assms by (cases "j < i") (simp_all add: take_update_swap sum_list_update_int list_update_beyond)
  show "sum_list (drop i xs) \<le> sum_list (drop i (xs[j := xs ! j + d]))"
    using assms by (cases "j < i") (simp_all add: drop_update_cancel drop_update_swap sum_list_update_int)
qed

lemma load_during_bounds:
  assumes "counter_ok c" "growing evs" "\<forall>x \<in> set (slots c). 0 \<le> x" "sum_list (slots c) + added evs < 2 ^ 63"
    "0 \<le> acc" "acc \<le> sum_list (take i (slots c))" "before \<le> acc + sum_list (drop i (slots c))" "i \<le> length (slots c)"
    and r: "load_during evs i acc c = (i', acc', c')"
  shows "acc' \<le> sum_list (take i' (slots c')) \<and> before \<le> acc' + sum_list (drop i' (slots c')) \<and> i' \<le> length (slots c') \<and>
    sum_list (slots c') = sum_list (slots c) + added evs \<and> length (slots c') = length (slots c) \<and> counter_ok c'"
  using assms
proof (induction evs i acc c rule: load_during.induct)
  case (1 i acc c)
  then show ?case by (simp add: added_def)
next
  case (2 addr d evs i acc c)
  let ?j = "slot_of c addr"
  have d: "0 \<le> d" "growing evs" "0 \<le> added evs" "added (EAdd addr d # evs) = d + added evs"
  proof -
    show "growing evs" "0 \<le> d" using "2.prems"(2) by (auto simp: growing_def)
    then show "0 \<le> added evs" unfolding added_def growing_def by (intro sum_list_nonneg) (auto split: ev.splits)
    show "added (EAdd addr d # evs) = d + added evs" by (simp add: added_def)
  qed
  have j: "?j < length (slots c)" using slot_of_less "2.prems"(1) by blast
  have pos: "0 \<le> slots c ! ?j" using "2.prems"(3) j by simp
  have "slots c ! ?j \<le> sum_list (slots c)" by (rule member_le_sum_list) (use "2.prems"(3) j in auto)
  then have "swrap64 (slots c ! ?j + d) = slots c ! ?j + d"
    using pos d "2.prems"(4) by (intro swrap64_id) auto
  then have sl: "slots (Counter_Add addr d c) = (slots c)[?j := slots c ! ?j + d]" by (simp add: Counter_Add_def Let_def)
  have upd: "\<forall>x \<in> set (slots (Counter_Add addr d c)). 0 \<le> x" "sum_list (slots (Counter_Add addr d c)) = sum_list (slots c) + d"
    using "2.prems"(3) pos d(1) j by (auto simp: sl sum_list_update_int dest!: set_update_subset_insert [THEN subsetD])
  have "acc \<le> sum_list (take i (slots (Counter_Add addr d c)))" "before \<le> acc + sum_list (drop i (slots (Counter_Add addr d c)))"
    using part_sums_update [OF j d(1), of i] "2.prems"(6,7) by (simp_all add: sl)
  from "2.IH" [OF Add_ok(1) [OF "2.prems"(1)] d(2) upd(1) _ "2.prems"(5) this _ "2.prems"(9) [unfolded load_during.simps]]
  show ?case using upd(2) "2.prems"(4,8) d(4) by (simp add: sl)
next
  case (3 evs i acc c)
  have g: "growing evs" "added (ERead # evs) = added evs" using "3.prems"(2) by (auto simp: growing_def added_def)
  show ?case
  proof (cases "i < unat (cmask c) + 1")
    case True
    then have i: "i < length (slots c)" using counter_mask [OF "3.prems"(1)] by simp
    have "take (Suc i) (slots c) = take i (slots c) @ [slots c ! i]" using i by (rule take_Suc_conv_app_nth)
    moreover have "drop i (slots c) = slots c ! i # drop (Suc i) (slots c)" using i by (rule Cons_nth_drop_Suc [symmetric])
    moreover have "sum_list (take (Suc i) (slots c)) \<le> sum_list (slots c)"
    proof -
      have "0 \<le> sum_list (drop (Suc i) (slots c))" using "3.prems"(3) by (intro sum_list_nonneg) (auto dest: in_set_dropD)
      then show ?thesis by (metis append_take_drop_id le_add_same_cancel1 sum_list_append)
    qed
    moreover have "0 \<le> added evs" using g(1) unfolding added_def growing_def by (intro sum_list_nonneg) (auto split: ev.splits)
    moreover have "0 \<le> slots c ! i" using "3.prems"(3) i by simp
    moreover have "swrap64 (acc + slots c ! i) = acc + slots c ! i" using calculation "3.prems"(4-6) g(2) by (intro swrap64_id) auto
    ultimately show ?thesis using "3.IH"(1) [OF True] True i "3.prems" g by simp
  next
    case False
    then show ?thesis using "3.IH"(2) [OF False] "3.prems" g by simp
  qed
qed

text \<open>
  A \<open>Load\<close> that runs while other goroutines add (only upwards, and without overflow) returns a value
  between the sum when it started and the sum when it ended, however its reads and the additions
  interleave.
\<close>

theorem percpu_load_brackets:
  assumes "counter_ok c" "growing evs" "\<forall>x \<in> set (slots c). 0 \<le> x" "sum_list (slots c) + added evs < 2 ^ 63"
    and "load_during evs 0 0 c = (length (slots c), loaded, c')"
  shows "Counter_Load c \<le> loaded \<and> loaded \<le> Counter_Load c' \<and> Counter_Load c' = Counter_Load c + added evs"
proof -
  have b: "loaded \<le> sum_list (slots c')" "sum_list (slots c) \<le> loaded" "sum_list (slots c') = sum_list (slots c) + added evs"
    using load_during_bounds [OF assms(1-4) order_refl, of 0 "sum_list (slots c)" "length (slots c)" loaded c'] assms(5) by auto
  have ok: "counter_ok c'"
    using load_during_bounds [OF assms(1-4) order_refl, of 0 "sum_list (slots c)" "length (slots c)" loaded c'] assms(5) by auto
  have "0 \<le> sum_list (slots c)" using assms(3) by (intro sum_list_nonneg) auto
  moreover have "0 \<le> added evs" using assms(2) unfolding added_def growing_def by (intro sum_list_nonneg) (auto split: ev.splits)
  ultimately have "Counter_Load c = sum_list (slots c)" "Counter_Load c' = sum_list (slots c')"
    using Load_sum [OF assms(1)] Load_sum [OF ok] assms(4) b(3) by (simp_all add: swrap64_id)
  then show ?thesis using b by simp
qed

definition demo_counter :: counter where "demo_counter = \<lparr>slots = [4, 5], cmask = 1\<rparr>"

theorem percpu_load_brackets_witness:
  "9 \<le> fst (snd (load_during [ERead, EAdd 0 3, ERead] 0 0 demo_counter))"
proof -
  have "counter_ok demo_counter" by (auto simp: counter_ok_def demo_counter_def intro: exI [of _ 1])
  moreover obtain l c' where "load_during [ERead, EAdd 0 3, ERead] 0 0 demo_counter = (2, l, c')"
    by (simp add: demo_counter_def Counter_Add_def slot_of_def Let_def)
  moreover have "Counter_Load demo_counter = 9" by (simp add: demo_counter_def Counter_Load_def swrap64_def)
  ultimately show ?thesis using percpu_load_brackets [of demo_counter "[ERead, EAdd 0 3, ERead]" l c']
    by (simp add: demo_counter_def growing_def added_def)
qed

end
