(* ===== verification/Float64.thy ===== *)
theory Float64
  imports Floats
begin

text \<open>
  The \<open>float64\<close> arithmetic of \<open>hist\<close>: IEEE 754 with overflow to infinities, subnormal numbers and NaN. A
  finite value is the real number it stands for (both zeros are 0); an operation rounds the result on the
  reals to the nearest multiple of the spacing of its binade, ties to even, and overflows from
  \<open>2 ^ 1024\<close> on.
\<close>

section \<open>Rounding\<close>

definition spacing :: "real \<Rightarrow> real" where
  "spacing x = 2 powr of_int (max (\<lfloor>log 2 \<bar>x\<bar>\<rfloor> - 52) (- 1074))"

definition rnd :: "real \<Rightarrow> real" where
  "rnd x = (if x = 0 then 0 else of_int (round_even (x / spacing x)) * spacing x)"

lemma spacing_pos: "0 < spacing x" by (simp add: spacing_def)

lemma rnd_zero [simp]: "rnd 0 = 0" by (simp add: rnd_def)

lemma round_even_int: "round_even (of_int k) = k"
  by (simp only: round_even_def Let_def floor_of_int frac_of_int) simp

lemma round_even_mono:
  assumes "x \<le> y" shows "round_even x \<le> round_even y"
proof -
  have f: "\<lfloor>x\<rfloor> \<le> \<lfloor>y\<rfloor>" using assms by (rule floor_mono)
  show ?thesis
  proof (cases "\<lfloor>x\<rfloor> = \<lfloor>y\<rfloor>")
    case True
    then have "frac x \<le> frac y" using assms by (simp add: frac_def)
    then show ?thesis using True by (auto simp: round_even_def Let_def)
  next
    case False
    then show ?thesis using f by (auto simp: round_even_def Let_def)
  qed
qed

lemma binade:
  assumes "x \<noteq> 0" shows "2 powr of_int \<lfloor>log 2 \<bar>x\<bar>\<rfloor> \<le> \<bar>x\<bar>" "\<bar>x\<bar> < 2 powr (of_int \<lfloor>log 2 \<bar>x\<bar>\<rfloor> + 1)"
proof -
  have e: "\<bar>x\<bar> = 2 powr (log 2 \<bar>x\<bar>)" using assms by simp
  show "2 powr of_int \<lfloor>log 2 \<bar>x\<bar>\<rfloor> \<le> \<bar>x\<bar>" by (subst (2) e) (rule powr_mono; simp)
  show "\<bar>x\<bar> < 2 powr (of_int \<lfloor>log 2 \<bar>x\<bar>\<rfloor> + 1)" by (subst e) (rule powr_less_mono; linarith)
qed

text \<open>A power of two is a multiple of every smaller one.\<close>

lemma powr_multiple:
  assumes "i \<le> j" shows "2 powr real_of_int j = of_int (2 ^ nat (j - i)) * 2 powr real_of_int i"
proof -
  have "2 powr real_of_int j = 2 powr (real (nat (j - i)) + real_of_int i)" using assms by simp
  also have "\<dots> = 2 ^ nat (j - i) * 2 powr real_of_int i" by (simp only: powr_add) (simp add: powr_realpow)
  finally show ?thesis by simp
qed

text \<open>What has 53 significant bits and is not too small is exact.\<close>

lemma rnd_multiple:
  assumes "x = of_int k * 2 powr of_int j" "spacing x \<le> 2 powr of_int j" shows "rnd x = x"
proof (cases "x = 0")
  case False
  let ?m = "max (\<lfloor>log 2 \<bar>x\<bar>\<rfloor> - 52) (- 1074)"
  have "?m \<le> j" using assms(2) by (simp only: spacing_def powr_le_cancel_iff of_int_le_iff one_less_numeral_iff semiring_norm)
  then have "2 powr real_of_int j = of_int (2 ^ nat (j - ?m)) * spacing x" unfolding spacing_def by (rule powr_multiple)
  then have "of_int k * 2 powr real_of_int j = of_int (k * 2 ^ nat (j - ?m)) * spacing x" by simp
  then have "x = of_int (k * 2 ^ nat (j - ?m)) * spacing x" using assms(1) by metis
  then have "x / spacing x = of_int (k * 2 ^ nat (j - ?m))" using spacing_pos [of x] by (simp only: nonzero_divide_eq_eq less_imp_neq not_sym)
  then have "rnd x = of_int (k * 2 ^ nat (j - ?m)) * spacing x" using False by (simp only: rnd_def round_even_int if_False)
  then show ?thesis using \<open>x = of_int (k * 2 ^ nat (j - ?m)) * spacing x\<close> by simp
qed simp

lemma rnd_exact:
  assumes "\<bar>k\<bar> \<le> 2 ^ 53" "- 1074 \<le> j" shows "rnd (of_int k * 2 powr of_int j) = of_int k * 2 powr of_int j"
proof -
  have small: "rnd (of_int k * 2 powr of_int j) = of_int k * 2 powr of_int j" if k: "\<bar>k\<bar> < 2 ^ 53" and j: "- 1074 \<le> j" for k j
  proof (cases "k = 0")
    case False
    let ?x = "of_int k * 2 powr of_int j :: real"
    have "real_of_int \<bar>k\<bar> < 2 powr 53" using k by (simp add: powr_numeral)
    then have "\<bar>?x\<bar> < 2 powr 53 * 2 powr of_int j" by (simp add: abs_mult)
    also have "\<dots> = 2 powr (of_int (j + 53))" using powr_add [of "2 :: real" 53 "of_int j"] by (simp add: add.commute)
    finally have "log 2 \<bar>?x\<bar> < of_int (j + 53)" using False by (simp add: log_less_iff)
    then have "\<lfloor>log 2 \<bar>?x\<bar>\<rfloor> - 52 \<le> j" by linarith
    then have "spacing ?x \<le> 2 powr of_int j" using j by (simp add: spacing_def)
    then show ?thesis by (rule rnd_multiple [OF refl])
  qed simp
  show ?thesis
  proof (cases "\<bar>k\<bar> = 2 ^ 53")
    case True
    then have "k = 2 ^ 53 \<or> k = - (2 ^ 53)" by arith
    then have k: "k = 2 * (k div 2)" "\<bar>k div 2\<bar> < 2 ^ 53" by auto
    have "of_int k * 2 powr of_int j = (of_int (k div 2) * 2 powr of_int (j + 1) :: real)"
      using arg_cong [OF k(1), of real_of_int] by (simp add: powr_add)
    then show ?thesis using small [OF k(2), of "j + 1"] assms(2) by simp
  next
    case False
    then show ?thesis using small [of k j] assms by simp
  qed
qed

lemma rnd_int: "\<bar>k\<bar> \<le> 2 ^ 53 \<Longrightarrow> rnd (of_int k) = of_int k"
  using rnd_exact [of k 0] by simp

lemma rnd_idem: "rnd (rnd x) = rnd x"
proof (cases "x = 0")
  case False
  let ?m = "max (\<lfloor>log 2 \<bar>x\<bar>\<rfloor> - 52) (- 1074)"
  have "\<bar>x\<bar> \<le> 2 powr (of_int \<lfloor>log 2 \<bar>x\<bar>\<rfloor> + 1)" using binade(2) [OF False] by simp
  also have "\<dots> \<le> 2 powr (53 + of_int ?m)" by (rule powr_mono) (simp_all add: of_int_max)
  also have "\<dots> = of_int (2 ^ 53) * spacing x" by (simp add: powr_add powr_numeral spacing_def)
  finally have "\<bar>x\<bar> \<le> of_int (2 ^ 53) * spacing x" .
  then have "x / spacing x \<le> of_int (2 ^ 53)" "of_int (- (2 ^ 53)) \<le> x / spacing x"
    using spacing_pos [of x] by (simp_all add: divide_le_eq le_divide_eq abs_le_iff)
  from this [THEN round_even_mono] have "\<bar>round_even (x / spacing x)\<bar> \<le> 2 ^ 53" unfolding round_even_int by linarith
  then show ?thesis using rnd_exact [of "round_even (x / spacing x)" ?m] False by (simp add: rnd_def spacing_def)
qed simp

text \<open>Rounding is monotone; only nonnegative numbers are needed.\<close>

lemma rnd_nonneg: "0 \<le> x \<Longrightarrow> 0 \<le> rnd x"
  using round_even_mono [of 0 "x / spacing x"] round_even_int [of 0] spacing_pos [of x] by (simp add: rnd_def)

lemma rnd_mono:
  assumes "0 \<le> x" "x \<le> y" shows "rnd x \<le> rnd y"
proof (cases "x = 0")
  case True
  then show ?thesis using rnd_nonneg [of y] assms by simp
next
  case False
  then have pos: "0 < x" "0 < y" using assms by auto
  let ?a = "\<lfloor>log 2 \<bar>x\<bar>\<rfloor>" and ?b = "\<lfloor>log 2 \<bar>y\<bar>\<rfloor>"
  have ab: "?a \<le> ?b" using pos assms(2) by (intro floor_mono) simp
  show ?thesis
  proof (cases "spacing x = spacing y")
    case True
    have "x / spacing y \<le> y / spacing y" using assms(2) spacing_pos [of y] by (intro divide_right_mono) auto
    from round_even_mono [OF this] show ?thesis
      using True pos spacing_pos [of y] by (simp add: rnd_def mult_right_mono)
  next
    case False
    let ?B = "2 powr of_int ?b :: real"
    have "?a \<noteq> ?b" using False by (auto simp: spacing_def)
    then have b: "?a < ?b" "- 1074 < ?b - 52" using ab False by (auto simp: spacing_def max_def split: if_splits)
    have between: "x \<le> ?B" "?B \<le> y"
    proof -
      have "x < 2 powr (of_int ?a + 1)" using binade(2) [of x] pos by simp
      also have "\<dots> \<le> ?B" using b(1) by (intro powr_mono) simp_all
      finally show "x \<le> ?B" by simp
      show "?B \<le> y" using binade(1) [of y] pos by simp
    qed
    have B: "?B = of_int (2 ^ nat (?b - max (\<lfloor>log 2 \<bar>z\<bar>\<rfloor> - 52) (- 1074))) * spacing z" if "\<lfloor>log 2 \<bar>z\<bar>\<rfloor> \<le> ?b" for z
      unfolding spacing_def by (rule powr_multiple, rule max.boundedI; use that b in linarith)
    have q: "?B / spacing z = of_int (2 ^ nat (?b - max (\<lfloor>log 2 \<bar>z\<bar>\<rfloor> - 52) (- 1074)))" if "\<lfloor>log 2 \<bar>z\<bar>\<rfloor> \<le> ?b" for z
      using B [OF that] spacing_pos [of z] by (simp add: nonzero_divide_eq_eq)
    have r: "of_int (round_even (?B / spacing z)) * spacing z = ?B" if "\<lfloor>log 2 \<bar>z\<bar>\<rfloor> \<le> ?b" for z
      unfolding q [OF that] round_even_int using B [OF that] by simp
    have "round_even (x / spacing x) \<le> round_even (?B / spacing x)" "round_even (?B / spacing y) \<le> round_even (y / spacing y)"
      using between spacing_pos [of x] spacing_pos [of y] by (auto intro!: round_even_mono divide_right_mono)
    then have "rnd x \<le> of_int (round_even (?B / spacing x)) * spacing x" "of_int (round_even (?B / spacing y)) * spacing y \<le> rnd y"
      using pos spacing_pos [of x] spacing_pos [of y] by (simp_all add: rnd_def mult_right_mono)
    then show ?thesis using r [of x] r [of y] ab by simp
  qed
qed

text \<open>In the normal range it is the rounding of \<open>Floats\<close>, with its relative error.\<close>

lemma rnd_fl:
  assumes "2 powr - 1022 \<le> \<bar>x\<bar>" shows "rnd x = fl x"
proof -
  have "x \<noteq> 0" using assms by auto
  then have "- 1022 \<le> log 2 \<bar>x\<bar>" using assms by (simp add: le_log_iff)
  then have "- 1022 \<le> \<lfloor>log 2 \<bar>x\<bar>\<rfloor>" by (simp add: le_floor_iff)
  then have "max (\<lfloor>log 2 \<bar>x\<bar>\<rfloor> - 52) (- 1074) = \<lfloor>log 2 \<bar>x\<bar>\<rfloor> - 52" by (intro max_absorb1) linarith
  then have "spacing x = ulp x" by (simp only: spacing_def ulp_def)
  then show ?thesis by (simp add: rnd_def fl_def)
qed

section \<open>Values and operations\<close>

datatype 'a sample = Fin 'a | NaN | PosInf | NegInf

type_synonym f64 = "real sample"

definition huge :: real where "huge = 2 powr 1024"

definition to_f64 :: "real \<Rightarrow> f64" where
  "to_f64 x = (let r = rnd x in if huge \<le> r then PosInf else if r \<le> - huge then NegInf else Fin r)"

definition of_int64 :: "int \<Rightarrow> f64" where "of_int64 k = to_f64 (of_int k)"

fun f64_neg :: "f64 \<Rightarrow> f64" where
  "f64_neg (Fin x) = Fin (- x)"
| "f64_neg PosInf = NegInf"
| "f64_neg NegInf = PosInf"
| "f64_neg NaN = NaN"

fun f64_add :: "f64 \<Rightarrow> f64 \<Rightarrow> f64" where
  "f64_add (Fin x) (Fin y) = to_f64 (x + y)"
| "f64_add NaN y = NaN"
| "f64_add x NaN = NaN"
| "f64_add PosInf NegInf = NaN"
| "f64_add NegInf PosInf = NaN"
| "f64_add PosInf y = PosInf"
| "f64_add NegInf y = NegInf"
| "f64_add x y = y"

definition f64_sub :: "f64 \<Rightarrow> f64 \<Rightarrow> f64" where "f64_sub x y = f64_add x (f64_neg y)"

fun negative :: "f64 \<Rightarrow> bool" where
  "negative (Fin x) \<longleftrightarrow> x < 0"
| "negative NegInf \<longleftrightarrow> True"
| "negative _ \<longleftrightarrow> False"

fun f64_mul :: "f64 \<Rightarrow> f64 \<Rightarrow> f64" where
  "f64_mul (Fin x) (Fin y) = to_f64 (x * y)"
| "f64_mul x y =
     (if x = NaN \<or> y = NaN \<or> x = Fin 0 \<or> y = Fin 0 then NaN else if negative x \<noteq> negative y then NegInf else PosInf)"

text \<open>A divisor of 0 is taken to be the positive zero.\<close>

fun f64_div :: "f64 \<Rightarrow> f64 \<Rightarrow> f64" where
  "f64_div (Fin x) (Fin y) = (if y \<noteq> 0 then to_f64 (x / y) else if x = 0 then NaN else if x < 0 then NegInf else PosInf)"
| "f64_div (Fin x) y = (if y = NaN then NaN else Fin 0)"
| "f64_div NaN y = NaN"
| "f64_div x (Fin y) = (if negative x \<noteq> (y < 0) then NegInf else PosInf)"
| "f64_div x y = NaN"

fun f64_le :: "f64 \<Rightarrow> f64 \<Rightarrow> bool" where
  "f64_le (Fin x) (Fin y) \<longleftrightarrow> x \<le> y"
| "f64_le NaN y \<longleftrightarrow> False"
| "f64_le x NaN \<longleftrightarrow> False"
| "f64_le x PosInf \<longleftrightarrow> True"
| "f64_le NegInf y \<longleftrightarrow> True"
| "f64_le x y \<longleftrightarrow> False"

definition f64_less :: "f64 \<Rightarrow> f64 \<Rightarrow> bool" where "f64_less x y \<longleftrightarrow> f64_le x y \<and> \<not> f64_le y x"

lemma huge_bounds: "2 ^ 53 < huge" "rnd huge = huge"
proof -
  have "(2 :: real) powr 53 < 2 powr 1024" by (rule powr_less_mono) simp_all
  then show "2 ^ 53 < huge" by (simp add: huge_def powr_numeral)
  show "rnd huge = huge" using rnd_exact [of 1 1024] by (simp add: huge_def)
qed

lemma to_f64_fin: "0 \<le> x \<Longrightarrow> rnd x < huge \<Longrightarrow> to_f64 x = Fin (rnd x)"
  using rnd_nonneg [of x] huge_bounds(1) by (auto simp: to_f64_def Let_def)

lemma to_f64_inf: "huge \<le> x \<Longrightarrow> to_f64 x = PosInf"
  using rnd_mono [of huge x] huge_bounds by (auto simp: to_f64_def Let_def)

lemma rnd_le_int:
  assumes "0 \<le> x" "x \<le> of_int k" "k \<le> 2 ^ 53" shows "rnd x \<le> of_int k"
proof -
  have "0 \<le> k" using assms(1,2) by linarith
  then show ?thesis using rnd_mono [OF assms(1,2)] rnd_int [of k] assms(3) by simp
qed

lemma int_less_huge: "k \<le> 2 ^ 53 \<Longrightarrow> of_int k < huge"
proof -
  assume "k \<le> 2 ^ 53"
  then have "real_of_int k \<le> of_int (2 ^ 53)" by (simp only: of_int_le_iff)
  then show ?thesis using huge_bounds(1) by simp
qed

lemma of_int64_exact: "0 \<le> k \<Longrightarrow> k \<le> 2 ^ 53 \<Longrightarrow> of_int64 k = Fin (of_int k)"
  using to_f64_fin [of "of_int k"] rnd_int [of k] int_less_huge [of k] by (simp add: of_int64_def)

lemma to_f64_below:
  assumes "0 \<le> x" "x \<le> of_int k" "k \<le> 2 ^ 53" shows "to_f64 x = Fin (rnd x)"
  using to_f64_fin [OF assms(1)] rnd_le_int [OF assms] int_less_huge [OF assms(3)] by linarith

end
