(* ===== verification/Hist.thy ===== *)
theory Hist
  imports Float64 "HOL-Library.Multiset"
begin

text \<open>
  Package \<open>hist\<close> (src/hist/hist.go): equi-height histograms. Construction only compares values, so it is
  written for any linearly ordered type in place of the finite values of \<open>float64\<close> (both zeros are one
  value, as for \<open>==\<close>); NaN and the infinities are constructors. The estimates compute in \<open>float64\<close>, with
  rounding, overflow and NaN as in theory \<open>Float64\<close>.
\<close>

section \<open>Construction\<close>

definition DefaultBuckets :: int where "DefaultBuckets = 256"

record 'a bucket =
  Lo :: 'a
  Hi :: 'a
  Count :: int
  NDV :: int

record 'a hist =
  buckets :: "'a bucket list"
  total :: int
  hmin :: 'a
  hmax :: 'a

definition zero_hist :: "'a :: zero hist" where "zero_hist = \<lparr>buckets = [], total = 0, hmin = 0, hmax = 0\<rparr>"

fun clean :: "'a sample list \<Rightarrow> 'a list" where
  "clean [] = []"
| "clean (Fin v # vs) = v # clean vs"
| "clean (_ # vs) = clean vs"

fun distinct_loop :: "'a \<Rightarrow> 'a list \<Rightarrow> int \<Rightarrow> int" where
  "distinct_loop prev [] ndv = ndv"
| "distinct_loop prev (v # vs) ndv = distinct_loop v vs (if v \<noteq> prev then ndv + 1 else ndv)"

definition countDistinct :: "'a list \<Rightarrow> int" where
  "countDistinct xs = (case xs of [] \<Rightarrow> 0 | v # vs \<Rightarrow> distinct_loop v vs 1)"

text \<open>Equal values are kept in one bucket.\<close>

function extend_run :: "'a list \<Rightarrow> nat \<Rightarrow> nat" where
  "extend_run xs fin = (if fin < length xs \<and> xs ! fin = xs ! (fin - 1) then extend_run xs (fin + 1) else fin)"
  by pat_completeness auto
termination by (relation "measure (\<lambda>(xs, fin). length xs - fin)") auto

declare extend_run.simps [simp del]

lemma extend_run_ge: "fin \<le> extend_run xs fin"
  by (induction xs fin rule: extend_run.induct) (subst extend_run.simps, auto)

function bucket_loop :: "'a list \<Rightarrow> nat \<Rightarrow> nat \<Rightarrow> 'a bucket list" where
  "bucket_loop xs perBucket i =
     (if i < length xs \<and> 0 < perBucket then
        (let fin = i + perBucket; fin = (if length xs < fin then length xs else fin); fin = extend_run xs fin;
             seg = take (fin - i) (drop i xs)
         in \<lparr>Lo = xs ! i, Hi = xs ! (fin - 1), Count = int (fin - i), NDV = countDistinct seg\<rparr> # bucket_loop xs perBucket fin)
      else [])"
  by pat_completeness auto
termination
proof (relation "measure (\<lambda>(xs, perBucket, i). length xs - i)", goal_cases)
  case (2 xs perBucket i x1 x2 x3 x4)
  then have "i < x3" "x3 \<le> x3" using extend_run_ge [of x2 xs] by (auto split: if_splits)
  then show ?case using 2 by auto
qed simp

declare bucket_loop.simps [simp del]

definition Build :: "'a :: {linorder, zero} sample list \<Rightarrow> int \<Rightarrow> 'a hist" where
  "Build samples nbuckets =
     (let nbuckets = (if nbuckets \<le> 0 then DefaultBuckets else nbuckets)
      in if samples = [] then zero_hist
         else
           (let cl = clean samples
            in if cl = [] then zero_hist
               else
                 (let xs = (if sorted cl then cl else sort cl); n = length xs;
                      perBucket = int n div nbuckets; perBucket = (if perBucket < 1 then 1 else perBucket)
                  in \<lparr>buckets = bucket_loop xs (nat perBucket) 0, total = int n, hmin = xs ! 0, hmax = xs ! (n - 1)\<rparr>)))"

section \<open>Estimates\<close>

definition EstEq :: "real hist \<Rightarrow> f64 \<Rightarrow> f64" where
  "EstEq h v =
     (case v of
        Fin v \<Rightarrow>
          (if total h = 0 then Fin 0
           else (case find (\<lambda>b. Lo b \<le> v \<and> v \<le> Hi b) (buckets h) of
                   None \<Rightarrow> Fin 0
                 | Some b \<Rightarrow>
                     (if NDV b \<le> 0 then Fin 0
                      else f64_div (f64_div (of_int64 (Count b)) (of_int64 (NDV b))) (of_int64 (total h)))))
      | _ \<Rightarrow> Fin 0)"

definition range_step :: "real \<Rightarrow> real \<Rightarrow> real bucket \<Rightarrow> f64 \<Rightarrow> f64" where
  "range_step lo hi b hitCount =
     (if Hi b < lo \<or> hi < Lo b then hitCount
      else if lo \<le> Lo b \<and> Hi b \<le> hi then f64_add hitCount (of_int64 (Count b))
      else
        (let bw = f64_sub (Fin (Hi b)) (Fin (Lo b))
         in if f64_le bw (Fin 0) then f64_add hitCount (of_int64 (Count b))
            else
              (let overlapLo = (if lo < Lo b then Lo b else lo); overlapHi = (if Hi b < hi then Hi b else hi);
                   ratio = f64_div (f64_sub (Fin overlapHi) (Fin overlapLo)) bw
               in f64_add hitCount (f64_mul (of_int64 (Count b)) ratio))))"

definition EstRange :: "real hist \<Rightarrow> f64 \<Rightarrow> f64 \<Rightarrow> f64" where
  "EstRange h lo hi =
     (case (lo, hi) of
        (Fin lo, Fin hi) \<Rightarrow>
          (if total h = 0 \<or> hi < lo then Fin 0
           else
             (let sel = f64_div (fold (range_step lo hi) (buckets h) (Fin 0)) (of_int64 (total h))
              in if f64_less (Fin 1) sel then Fin 1 else sel))
      | _ \<Rightarrow> Fin 0)"

definition Hist_Buckets :: "'a hist \<Rightarrow> 'a bucket list" where "Hist_Buckets h = buckets h"
definition Hist_Total :: "'a hist \<Rightarrow> int" where "Hist_Total h = total h"
definition Hist_Min :: "'a hist \<Rightarrow> 'a" where "Hist_Min h = hmin h"
definition Hist_Max :: "'a hist \<Rightarrow> 'a" where "Hist_Max h = hmax h"
definition Hist_Len :: "'a hist \<Rightarrow> int" where "Hist_Len h = int (length (buckets h))"

section \<open>Segments\<close>

text \<open>The bucket of a segment of sorted values.\<close>

definition bucket_of :: "'a :: linorder list \<Rightarrow> 'a bucket" where
  "bucket_of seg = \<lparr>Lo = hd seg, Hi = last seg, Count = int (length seg), NDV = int (card (set seg))\<rparr>"

text \<open>Consecutive non-empty segments, each (but the last) as large as asked for, no value in two of them.\<close>

definition segments :: "nat \<Rightarrow> 'a :: linorder list list \<Rightarrow> bool" where
  "segments per segs \<longleftrightarrow> (\<forall>s \<in> set segs. s \<noteq> []) \<and> (\<forall>s \<in> set (butlast segs). per \<le> length s) \<and>
     sorted_wrt (\<lambda>s t. \<forall>x \<in> set s. \<forall>y \<in> set t. x < y) segs"

lemma distinct_loop_card:
  "sorted (v # vs) \<Longrightarrow> distinct_loop v vs n = n - 1 + int (card (set (v # vs)))"
proof (induction vs arbitrary: v n)
  case (Cons w vs)
  show ?case
  proof (cases "w = v")
    case True
    then show ?thesis using Cons by simp
  next
    case False
    then have "v \<notin> set (w # vs)" using Cons.prems by (auto dest: order_antisym)
    then show ?thesis using Cons False by simp
  qed
qed simp

lemma countDistinct_card: "sorted vs \<Longrightarrow> countDistinct vs = int (card (set vs))"
  by (cases vs) (simp_all add: countDistinct_def distinct_loop_card del: distinct_loop.simps)

lemma extend_le: "fin \<le> length xs \<Longrightarrow> extend_run xs fin \<le> length xs"
  by (induction xs fin rule: extend_run.induct) (subst extend_run.simps, auto)

lemma extend_stops: "extend_run xs fin < length xs \<Longrightarrow> xs ! extend_run xs fin \<noteq> xs ! (extend_run xs fin - 1)"
proof (induction xs fin rule: extend_run.induct)
  case (1 xs fin)
  show ?case
  proof (cases "fin < length xs \<and> xs ! fin = xs ! (fin - 1)")
    case True
    then have "extend_run xs fin = extend_run xs (fin + 1)" by (simp add: extend_run.simps [of xs fin])
    then show ?thesis using 1(1) [OF True] 1(2) by simp
  next
    case False
    then have "extend_run xs fin = fin" by (simp add: extend_run.simps)
    then show ?thesis using False 1(2) by auto
  qed
qed

lemma bucket_loop_segments:
  assumes "sorted xs" "0 < per" "i \<le> length xs"
  shows "\<exists>segs. bucket_loop xs per i = map bucket_of segs \<and> concat segs = drop i xs \<and> segments per segs"
  using assms
proof (induction xs per i rule: bucket_loop.induct)
  case (1 xs per i)
  show ?case
  proof (cases "i < length xs")
    case False
    then show ?thesis by (intro exI [of _ "[]"]) (simp add: bucket_loop.simps segments_def)
  next
    case True
    define fin0 where "fin0 = (if length xs < i + per then length xs else i + per)"
    define fin where "fin = extend_run xs fin0"
    define seg where "seg = take (fin - i) (drop i xs)"
    have f: "i < fin" "fin \<le> length xs" "fin < length xs \<longrightarrow> i + per \<le> fin"
      using True "1.prems"(2) extend_run_ge [of fin0 xs] extend_le [of fin0 xs] by (auto simp: fin_def fin0_def split: if_splits)
    obtain segs where segs: "bucket_loop xs per fin = map bucket_of segs" "concat segs = drop fin xs" "segments per segs"
      using "1.IH" [of "i + per" fin0 fin seg] True "1.prems" f(2) by (auto simp: fin_def fin0_def seg_def)
    have len: "length seg = fin - i" "seg \<noteq> []" using f by (auto simp: seg_def)
    have hl: "hd seg = xs ! i" "last seg = xs ! (fin - 1)"
      using f by (simp_all add: seg_def hd_drop_conv_nth last_conv_nth)
    have "sorted seg" using "1.prems"(1) by (simp add: seg_def sorted_wrt_take sorted_wrt_drop)
    then have "bucket_of seg = \<lparr>Lo = xs ! i, Hi = xs ! (fin - 1), Count = int (fin - i), NDV = countDistinct seg\<rparr>"
      by (simp add: bucket_of_def hl len countDistinct_card)
    then have loop: "bucket_loop xs per i = map bucket_of (seg # segs)"
      using True "1.prems"(2) segs(1) by (subst bucket_loop.simps) (simp add: Let_def fin0_def [symmetric] fin_def [symmetric] seg_def [symmetric])
    have cc: "concat (seg # segs) = drop i xs"
      using f append_take_drop_id [of "fin - i" "drop i xs"] by (simp add: seg_def segs(2))
    have "x < y" if "x \<in> set seg" "y \<in> set (concat segs)" for x y
    proof -
      obtain a where a: "i \<le> a" "a < fin" "x = xs ! a"
      proof -
        obtain j where "j < fin - i" "x = xs ! (i + j)" using \<open>x \<in> set seg\<close> f by (auto simp: seg_def in_set_conv_nth)
        then show thesis by (intro that [of "i + j"]) auto
      qed
      obtain b where b: "fin \<le> b" "b < length xs" "y = xs ! b"
      proof -
        obtain j where "j < length xs - fin" "y = xs ! (fin + j)" using \<open>y \<in> set (concat segs)\<close> f by (auto simp: segs(2) in_set_conv_nth)
        then show thesis by (intro that [of "fin + j"]) auto
      qed
      have "x \<le> xs ! (fin - 1)" "xs ! (fin - 1) \<le> xs ! fin" "xs ! fin \<le> y"
        using "1.prems"(1) a b f by (auto intro!: sorted_nth_mono)
      moreover have "xs ! fin \<noteq> xs ! (fin - 1)" using extend_stops [of xs fin0] b f(1) by (simp add: fin_def)
      ultimately show ?thesis by auto
    qed
    moreover have "per \<le> length seg" if "segs \<noteq> []"
    proof -
      have "concat segs \<noteq> []" using that segs(3) by (cases segs) (auto simp: segments_def)
      then have "fin < length xs" using segs(2) by auto
      then show ?thesis using f len by auto
    qed
    ultimately have "segments per (seg # segs)" using segs(3) len(2) by (auto simp: segments_def)
    then show ?thesis using loop cc by blast
  qed
qed

definition per_bucket :: "nat \<Rightarrow> int \<Rightarrow> nat" where
  "per_bucket n nb = (let q = int n div (if nb \<le> 0 then DefaultBuckets else nb) in nat (if q < 1 then 1 else q))"

lemma Build_loop:
  fixes samples :: "'a :: {linorder, zero} sample list"
  assumes "clean samples \<noteq> []"
  defines "xs \<equiv> sort (clean samples)"
  shows "Build samples nb = \<lparr>buckets = bucket_loop xs (per_bucket (length xs) nb) 0, total = int (length xs),
    hmin = xs ! 0, hmax = xs ! (length xs - 1)\<rparr>"
proof -
  have "samples \<noteq> []" using assms by auto
  moreover have "(if sorted (clean samples) then clean samples else sort (clean samples)) = xs"
    by (simp add: xs_def sorted_sort_id)
  ultimately show ?thesis using assms(1) by (simp add: Build_def per_bucket_def Let_def)
qed

lemma sorted_ends:
  assumes "sorted xs" "xs \<noteq> []"
  shows "xs ! 0 = Min (set xs)" "xs ! (length xs - 1) = Max (set xs)"
proof -
  have "xs ! 0 \<le> x \<and> x \<le> xs ! (length xs - 1)" if "x \<in> set xs" for x
  proof -
    obtain i where "i < length xs" "x = xs ! i" using \<open>x \<in> set xs\<close> by (auto simp: in_set_conv_nth)
    then show ?thesis using assms(1) by (auto intro: sorted_nth_mono)
  qed
  then show "xs ! 0 = Min (set xs)" "xs ! (length xs - 1) = Max (set xs)"
    using assms(2) by (auto intro!: Min_eqI [symmetric] Max_eqI [symmetric])
qed

lemma Build_segments:
  fixes samples :: "'a :: {linorder, zero} sample list"
  assumes "clean samples \<noteq> []"
  obtains segs where "buckets (Build samples nb) = map bucket_of segs" "concat segs = sort (clean samples)"
    "segments (per_bucket (length (clean samples)) nb) segs"
proof -
  have "0 < per_bucket (length (clean samples)) nb" by (simp add: per_bucket_def Let_def)
  from bucket_loop_segments [OF sorted_sort this, of 0 "clean samples"] show ?thesis
    using that by (auto simp: Build_loop [OF assms])
qed

section \<open>The histogram as a partition\<close>

text \<open>
  C32. The buckets partition the finite samples: the sorted samples are a sequence of segments, each with
  at least the target number of values except the last, no value in two of them, and the buckets hold the
  least and the greatest value, the number of values and the exact number of distinct values of the
  segments. NaN and infinite samples have no influence, and the bounds are the least and greatest sample.
\<close>

theorem Build_partitions:
  fixes samples :: "'a :: {linorder, zero} sample list"
  assumes "clean samples \<noteq> []"
  shows "\<exists>segs. Hist_Buckets (Build samples nb) = map bucket_of segs \<and> mset (concat segs) = mset (clean samples) \<and>
      sorted (concat segs) \<and> segments (per_bucket (length (clean samples)) nb) segs \<and>
      Hist_Total (Build samples nb) = int (length (clean samples)) \<and>
      Hist_Min (Build samples nb) = Min (set (clean samples)) \<and> Hist_Max (Build samples nb) = Max (set (clean samples))"
proof -
  obtain segs where segs: "buckets (Build samples nb) = map bucket_of segs" "concat segs = sort (clean samples)"
    "segments (per_bucket (length (clean samples)) nb) segs"
    by (rule Build_segments [OF assms])
  have "sort (clean samples) \<noteq> []" using assms by (metis set_empty set_sort)
  note sorted_ends [OF sorted_sort this]
  then show ?thesis
    using segs by (intro exI [of _ segs]) (auto simp: Hist_Buckets_def Hist_Total_def Hist_Min_def Hist_Max_def Build_loop [OF assms])
qed

theorem Build_partitions_witness:
  "\<exists>segs. Hist_Buckets (Build [Fin 3, NaN, Fin 1, Fin (3::nat), PosInf] 2) = map bucket_of segs \<and> mset (concat segs) = {#1, 3, 3#}"
  using Build_partitions [of "[Fin 3, NaN, Fin 1, Fin (3::nat), PosInf]" 2] by (auto simp: add_mset_commute)

section \<open>The estimate of a value\<close>

lemma bucket_bounds: "sorted s \<Longrightarrow> v \<in> set s \<Longrightarrow> Lo (bucket_of s) \<le> v \<and> v \<le> Hi (bucket_of s)"
  using sorted_ends [of s] by (cases "s = []") (auto simp: bucket_of_def hd_conv_nth last_conv_nth)

lemma find_bucket:
  "segments per segs \<Longrightarrow> sorted (concat segs) \<Longrightarrow> s \<in> set segs \<Longrightarrow> v \<in> set s \<Longrightarrow>
    find (\<lambda>b. Lo b \<le> v \<and> v \<le> Hi b) (map bucket_of segs) = Some (bucket_of s)"
proof (induction segs)
  case (Cons t segs)
  show ?case
  proof (cases "v \<in> set t")
    case True
    then have "s = t" using Cons.prems by (force simp: segments_def)
    then show ?thesis using bucket_bounds [of t v] Cons.prems by (simp add: sorted_append)
  next
    case False
    then have s: "s \<in> set segs" using Cons.prems by auto
    have "last t < v" using Cons.prems s by (auto simp: segments_def)
    then have "\<not> v \<le> Hi (bucket_of t)" by (simp add: bucket_of_def)
    moreover have "segments per segs" using Cons.prems(1) by (auto simp: segments_def split: if_splits)
    ultimately show ?thesis using Cons s by (simp add: sorted_append)
  qed
qed simp

lemma sum_segments:
  fixes f :: "'a :: linorder \<Rightarrow> real"
  shows "segments per segs \<Longrightarrow> sum f (set (concat segs)) = sum_list (map (\<lambda>s. sum f (set s)) segs)"
proof (induction segs)
  case (Cons t segs)
  have "set t \<inter> set (concat segs) = {}" using Cons.prems by (force simp: segments_def)
  moreover have "segments per segs" using Cons.prems by (auto simp: segments_def split: if_splits)
  ultimately show ?case using Cons.IH by (simp add: sum.union_disjoint)
qed simp

text \<open>The shape of a built histogram as the estimates need it.\<close>

lemma Build_real:
  fixes samples :: "real sample list"
  assumes "clean samples \<noteq> []"
  obtains segs per where "buckets (Build samples nb) = map bucket_of segs" "concat segs = sort (clean samples)" "segments per segs"
    "total (Build samples nb) = int (length (concat segs))" "concat segs \<noteq> []"
    "\<forall>s \<in> set segs. s \<noteq> [] \<and> sorted s \<and> Lo (bucket_of s) \<le> Hi (bucket_of s) \<and> 0 \<le> Count (bucket_of s)"
    "\<forall>s \<in> set segs. Min (set (clean samples)) \<le> Lo (bucket_of s) \<and> Hi (bucket_of s) \<le> Max (set (clean samples))"
proof -
  obtain segs where segs: "buckets (Build samples nb) = map bucket_of segs" "concat segs = sort (clean samples)"
    "segments (per_bucket (length (clean samples)) nb) segs"
    by (rule Build_segments [OF assms])
  have ne: "concat segs \<noteq> []" using assms segs(2) by (metis set_empty set_sort)
  have tot: "total (Build samples nb) = int (length (concat segs))" by (simp add: Build_loop [OF assms] segs(2))
  have s: "s \<noteq> [] \<and> sorted s \<and> set s \<subseteq> set (clean samples)" if "s \<in> set segs" for s
  proof -
    obtain us vs where "segs = us @ s # vs" using \<open>s \<in> set segs\<close> by (meson split_list)
    moreover have "sorted (concat segs)" "set (concat segs) = set (clean samples)" by (simp_all only: segs(2) sorted_sort set_sort)
    ultimately show ?thesis using segs(3) by (auto simp: segments_def sorted_append)
  qed
  have b: "Lo (bucket_of s) \<in> set (clean samples) \<and> Hi (bucket_of s) \<in> set (clean samples)" if "s \<in> set segs" for s
    using s [OF that] by (auto simp: bucket_of_def)
  have "t \<noteq> [] \<and> sorted t \<and> Lo (bucket_of t) \<le> Hi (bucket_of t) \<and> 0 \<le> Count (bucket_of t)" if "t \<in> set segs" for t
    using s [OF that] bucket_bounds [of t "hd t"] by (auto simp: bucket_of_def)
  moreover have "Min (set (clean samples)) \<le> Lo (bucket_of t) \<and> Hi (bucket_of t) \<le> Max (set (clean samples))" if "t \<in> set segs" for t
    using b [OF that] by simp
  ultimately show ?thesis using that [OF segs tot ne] by blast
qed

lemma EstEq_value:
  assumes "find (\<lambda>b. Lo b \<le> v \<and> v \<le> Hi b) (buckets h) = Some b" "0 < NDV b" "NDV b \<le> Count b" "Count b \<le> total h" "total h \<le> 2 ^ 53"
  defines "q \<equiv> rnd (of_int (Count b) / of_int (NDV b))"
  shows "EstEq h (Fin v) = Fin (rnd (q / of_int (total h)))" "0 \<le> rnd (q / of_int (total h))" "rnd (q / of_int (total h)) \<le> 1"
    "\<bar>rnd (q / of_int (total h)) - of_int (Count b) / of_int (NDV b) / of_int (total h)\<bar> \<le>
      of_int (Count b) / of_int (NDV b) / of_int (total h) * (3 / 2 ^ 53)"
proof -
  let ?c = "of_int (Count b) :: real" and ?n = "of_int (NDV b) :: real" and ?t = "of_int (total h) :: real"
  have pos: "1 \<le> ?n" "?n \<le> ?c" "?c \<le> ?t" "?t \<le> 2 ^ 53"
  proof -
    show "?t \<le> 2 ^ 53" using assms(5) by (metis of_int_le_numeral_power_cancel_iff)
  qed (use assms(2-4) in simp_all)
  have cn: "1 \<le> ?c / ?n" "?c / ?n \<le> ?c" using pos by (simp_all add: divide_le_eq mult_left_le_one_le mult_le_cancel_left1 le_divide_eq)
  have q: "0 \<le> q" "q \<le> ?c" using rnd_nonneg [of "?c / ?n"] rnd_le_int [of "?c / ?n" "Count b"] cn assms(3-5) by (auto simp: q_def)
  have d1: "f64_div (of_int64 (Count b)) (of_int64 (NDV b)) = Fin q"
    using to_f64_below [of "?c / ?n" "Count b"] cn assms(2-5) by (simp add: of_int64_exact q_def)
  have qt: "0 \<le> q / ?t" "q / ?t \<le> of_int 1" using q pos by (simp_all add: divide_le_eq)
  have d2: "f64_div (Fin q) (of_int64 (total h)) = Fin (rnd (q / ?t))"
    using to_f64_below [OF qt] assms(2-5) by (simp add: of_int64_exact)
  show "EstEq h (Fin v) = Fin (rnd (q / ?t))" using assms(1-5) by (simp add: EstEq_def d1 d2)
  show "0 \<le> rnd (q / ?t)" "rnd (q / ?t) \<le> 1" using rnd_nonneg [OF qt(1)] rnd_le_int [OF qt] by simp_all
  have small: "2 powr - 1022 \<le> (2 :: real) powr - 53" by (rule powr_mono) simp_all
  have p53: "(2 :: real) powr - 53 = 1 / 2 ^ 53" by (simp add: powr_minus_divide powr_numeral)
  have "2 powr - 1022 \<le> (1 :: real)" using small by (rule order_trans) (simp add: p53)
  then have "2 powr - 1022 \<le> \<bar>?c / ?n\<bar>" using cn(1) abs_ge_self [of "?c / ?n"] by linarith
  then have f1: "?c / ?n * (1 - eps) \<le> q" "q \<le> ?c / ?n * (1 + eps)" using fl_bounds [of "?c / ?n"] cn rnd_fl [of "?c / ?n"] by (auto simp: q_def)
  have "1 \<le> q" using rnd_mono [of 1 "?c / ?n"] cn(1) rnd_int [of 1] by (simp add: q_def)
  then have "1 / 2 ^ 53 \<le> q / ?t" using pos by (intro frac_le) simp_all
  then have "2 powr - 1022 \<le> \<bar>q / ?t\<bar>" using small abs_ge_self [of "q / ?t"] unfolding p53 by linarith
  then have f2: "q / ?t * (1 - eps) \<le> rnd (q / ?t)" "rnd (q / ?t) \<le> q / ?t * (1 + eps)"
    using fl_bounds [OF qt(1)] rnd_fl [of "q / ?t"] by auto
  let ?x = "?c / ?n / ?t"
  have x: "0 \<le> ?x" using cn pos by simp
  have e: "0 \<le> eps" "0 \<le> 1 - eps" "(1 + eps) * (1 + eps) \<le> 1 + 3 / 2 ^ 53" "1 - 3 / 2 ^ 53 \<le> (1 - eps) * (1 - eps)" by (simp_all add: eps_def)
  have "?x * (1 - eps) \<le> q / ?t" "q / ?t \<le> ?x * (1 + eps)" using divide_right_mono [OF f1(1), of ?t] divide_right_mono [OF f1(2), of ?t] pos
    by (simp_all add: times_divide_eq_left mult.commute)
  then have "?x * (1 - eps) * (1 - eps) \<le> q / ?t * (1 - eps)" "q / ?t * (1 + eps) \<le> ?x * (1 + eps) * (1 + eps)"
    using e by (intro mult_right_mono; simp)+
  moreover have "?x * ((1 + eps) * (1 + eps)) \<le> ?x * (1 + 3 / 2 ^ 53)" "?x * (1 - 3 / 2 ^ 53) \<le> ?x * ((1 - eps) * (1 - eps))"
    using e(3,4) x by (intro mult_left_mono; simp)+
  ultimately have "?x * (1 - 3 / 2 ^ 53) \<le> rnd (q / ?t)" "rnd (q / ?t) \<le> ?x * (1 + 3 / 2 ^ 53)" using f2 by (simp_all only: mult.assoc)
  then show "\<bar>rnd (q / ?t) - ?x\<bar> \<le> ?x * (3 / 2 ^ 53)" by (simp add: abs_le_iff algebra_simps)
qed

text \<open>The share of a value in exact arithmetic; over the distinct samples the shares sum to 1.\<close>

definition weight :: "real hist \<Rightarrow> real \<Rightarrow> real" where
  "weight h v = (case find (\<lambda>b. Lo b \<le> v \<and> v \<le> Hi b) (buckets h) of None \<Rightarrow> 0
     | Some b \<Rightarrow> of_int (Count b) / of_int (NDV b) / of_int (total h))"

lemma weight_total:
  fixes h :: "real hist"
  assumes "segments per segs" "sorted (concat segs)" "concat segs \<noteq> []" "buckets h = map bucket_of segs" "total h = int (length (concat segs))"
  shows "sum (weight h) (set (concat segs)) = 1"
proof -
  let ?n = "real (length (concat segs))"
  have "sum (weight h) (set s) = real (length s) / ?n" if s: "s \<in> set segs" for s
  proof -
    have "sum (weight h) (set s) = (\<Sum>v \<in> set s. real (length s) / real (card (set s)) / ?n)"
      by (intro sum.cong refl) (use find_bucket [OF assms(1,2) s] assms(4,5) in \<open>simp add: weight_def bucket_of_def\<close>)
    moreover have "s \<noteq> []" using assms(1) s by (auto simp: segments_def)
    ultimately show ?thesis by simp
  qed
  then have "sum (weight h) (set (concat segs)) = sum_list (map (\<lambda>s. real (length s) / ?n) segs)"
    unfolding sum_segments [OF assms(1)] by (intro arg_cong [where f = sum_list] map_cong) simp_all
  also have "\<dots> = ?n / ?n"
  proof -
    have "sum_list (map (\<lambda>s. real (length s) / x) ss) = real (length (concat ss)) / x" for ss :: "real list list" and x
      by (induction ss) (simp_all add: add_divide_distrib)
    then show ?thesis by simp
  qed
  finally show ?thesis using assms(3) by simp
qed

lemma length_le_concat: "s \<in> set segs \<Longrightarrow> length s \<le> length (concat segs)"
  by (induction segs) auto

lemma EstEq_estimates:
  fixes samples :: "real sample list" and nb :: int
  assumes "clean samples \<noteq> []" "length (clean samples) \<le> 2 ^ 53"
  defines "h \<equiv> Build samples nb"
  obtains p where "\<forall>v. EstEq h (Fin v) = Fin (p v) \<and> 0 \<le> p v \<and> p v \<le> 1 \<and> \<bar>p v - weight h v\<bar> \<le> weight h v * (3 / 2 ^ 53)"
    "sum (weight h) (set (clean samples)) = 1"
    "\<forall>v. v < Min (set (clean samples)) \<or> Max (set (clean samples)) < v \<longrightarrow> p v = 0"
proof -
  obtain segs per where b: "buckets h = map bucket_of segs" "concat segs = sort (clean samples)" "segments per segs"
    "total h = int (length (concat segs))" "concat segs \<noteq> []"
    "\<forall>s \<in> set segs. s \<noteq> [] \<and> sorted s \<and> Lo (bucket_of s) \<le> Hi (bucket_of s) \<and> 0 \<le> Count (bucket_of s)"
    "\<forall>s \<in> set segs. Min (set (clean samples)) \<le> Lo (bucket_of s) \<and> Hi (bucket_of s) \<le> Max (set (clean samples))"
    unfolding h_def by (rule Build_real [OF assms(1), where nb = nb])
  have "length (concat segs) = length (clean samples)" by (simp add: b(2))
  then have big: "total h \<le> 2 ^ 53" using assms(2) unfolding b(4) by (metis of_nat_le_iff of_nat_numeral of_nat_power)
  have some: "\<exists>s \<in> set segs. c = bucket_of s" if "find (\<lambda>b. Lo b \<le> v \<and> v \<le> Hi b) (buckets h) = Some c" for v c
    using that b(1) by (auto simp: find_Some_iff intro!: bexI [OF _ nth_mem])
  have ok: "0 < NDV (bucket_of s) \<and> NDV (bucket_of s) \<le> Count (bucket_of s) \<and> Count (bucket_of s) \<le> total h" if "s \<in> set segs" for s
    using b(6) that length_le_concat [OF that] b(4) by (auto simp: bucket_of_def card_gt_0_iff card_length)
  have "\<exists>p. EstEq h (Fin v) = Fin p \<and> 0 \<le> p \<and> p \<le> 1 \<and> \<bar>p - weight h v\<bar> \<le> weight h v * (3 / 2 ^ 53) \<and>
    (v < Min (set (clean samples)) \<or> Max (set (clean samples)) < v \<longrightarrow> p = 0)" for v
  proof (cases "find (\<lambda>b. Lo b \<le> v \<and> v \<le> Hi b) (buckets h)")
    case None
    then show ?thesis by (simp add: EstEq_def weight_def)
  next
    case (Some c)
    then obtain s where s: "s \<in> set segs" "c = bucket_of s" using some by blast
    note V = EstEq_value [OF Some _ _ _ big]
    have c: "Lo c \<le> v" "v \<le> Hi c" using Some by (auto simp: find_Some_iff)
    then have "\<not> (v < Min (set (clean samples)) \<or> Max (set (clean samples)) < v)" using b(7) s by fastforce
    then show ?thesis using V ok [OF s(1)] unfolding s(2) [symmetric] by (simp add: weight_def Some)
  qed
  then obtain p where "\<forall>v. EstEq h (Fin v) = Fin (p v) \<and> 0 \<le> p v \<and> p v \<le> 1 \<and> \<bar>p v - weight h v\<bar> \<le> weight h v * (3 / 2 ^ 53) \<and>
    (v < Min (set (clean samples)) \<or> Max (set (clean samples)) < v \<longrightarrow> p v = 0)" by metis
  moreover have "sum (weight h) (set (clean samples)) = 1"
    using weight_total [OF b(3) _ b(5,1,4)] unfolding b(2) by simp
  ultimately show ?thesis using that [of p] by blast
qed

lemma EstEq_sum:
  fixes samples :: "real sample list"
  assumes "clean samples \<noteq> []" "length (clean samples) \<le> 2 ^ 53"
  obtains p where "\<forall>v. EstEq (Build samples nb) (Fin v) = Fin (p v) \<and> 0 \<le> p v \<and> p v \<le> 1"
    "\<bar>(\<Sum>v \<in> set (clean samples). p v) - 1\<bar> \<le> 3 / 2 ^ 53"
    "\<forall>v. v < Min (set (clean samples)) \<or> Max (set (clean samples)) < v \<longrightarrow> p v = 0"
proof -
  let ?h = "Build samples nb" and ?V = "set (clean samples)"
  obtain p where p: "\<forall>v. EstEq ?h (Fin v) = Fin (p v) \<and> 0 \<le> p v \<and> p v \<le> 1 \<and> \<bar>p v - weight ?h v\<bar> \<le> weight ?h v * (3 / 2 ^ 53)"
    "sum (weight ?h) ?V = 1" "\<forall>v. v < Min ?V \<or> Max ?V < v \<longrightarrow> p v = 0"
    by (rule EstEq_estimates [OF assms, where nb = nb])
  have "\<bar>sum p ?V - 1\<bar> = \<bar>\<Sum>v \<in> ?V. p v - weight ?h v\<bar>" by (simp only: sum_subtractf p(2))
  also have "\<dots> \<le> (\<Sum>v \<in> ?V. \<bar>p v - weight ?h v\<bar>)" by (rule sum_abs)
  also have "\<dots> \<le> (\<Sum>v \<in> ?V. weight ?h v * (3 / 2 ^ 53))" using p(1) by (intro sum_mono) blast
  also have "\<dots> = 3 / 2 ^ 53" by (simp only: sum_distrib_right [symmetric] p(2))
  finally show ?thesis using that [of p] p(1,3) by blast
qed

section \<open>The estimate of a range\<close>

text \<open>The part of a range that falls on a bucket, as computed.\<close>

definition overlap :: "real \<Rightarrow> real \<Rightarrow> real bucket \<Rightarrow> real" where
  "overlap lo hi b = min hi (Hi b) - max lo (Lo b)"

definition amount :: "real \<Rightarrow> real \<Rightarrow> real bucket \<Rightarrow> real" where
  "amount lo hi b =
     (if Hi b < lo \<or> hi < Lo b then 0
      else if lo \<le> Lo b \<and> Hi b \<le> hi \<or> rnd (Hi b - Lo b) \<le> 0 then of_int (Count b)
      else rnd (of_int (Count b) * rnd (rnd (overlap lo hi b) / rnd (Hi b - Lo b))))"

text \<open>What the estimates need of a bucket: a width that does not overflow and a count that is exact.\<close>

definition plain :: "real bucket \<Rightarrow> bool" where
  "plain b \<longleftrightarrow> Lo b \<le> Hi b \<and> rnd (Hi b - Lo b) < huge \<and> 0 \<le> Count b \<and> Count b \<le> 2 ^ 53"

lemma overlap_bounds:
  assumes "lo \<le> hi" "Lo b \<le> Hi b" "\<not> (Hi b < lo \<or> hi < Lo b)"
  shows "0 \<le> overlap lo hi b" "overlap lo hi b \<le> Hi b - Lo b"
  using assms by (auto simp: overlap_def)

lemma ratio_bounds:
  assumes "lo \<le> hi" "Lo b \<le> Hi b" "\<not> (Hi b < lo \<or> hi < Lo b)" "0 < rnd (Hi b - Lo b)"
  shows "0 \<le> rnd (overlap lo hi b) / rnd (Hi b - Lo b)" "rnd (overlap lo hi b) / rnd (Hi b - Lo b) \<le> of_int 1"
  using overlap_bounds [OF assms(1-3)] rnd_nonneg [of "overlap lo hi b"] rnd_mono [of "overlap lo hi b" "Hi b - Lo b"] assms(4)
  by (simp_all add: divide_le_eq)

lemma part_bounds:
  assumes "lo \<le> hi" "Lo b \<le> Hi b" "\<not> (Hi b < lo \<or> hi < Lo b)" "0 < rnd (Hi b - Lo b)" "0 \<le> Count b"
  shows "0 \<le> of_int (Count b) * rnd (rnd (overlap lo hi b) / rnd (Hi b - Lo b))"
    "of_int (Count b) * rnd (rnd (overlap lo hi b) / rnd (Hi b - Lo b)) \<le> of_int (Count b)"
  using rnd_nonneg [OF ratio_bounds(1) [OF assms(1-4)]] rnd_le_int [OF ratio_bounds [OF assms(1-4)]] assms(5)
  by (simp_all add: mult_left_le)

lemma amount_part:
  "\<not> (Hi b < lo \<or> hi < Lo b) \<Longrightarrow> \<not> (lo \<le> Lo b \<and> Hi b \<le> hi) \<Longrightarrow> 0 < rnd (Hi b - Lo b) \<Longrightarrow>
    amount lo hi b = rnd (of_int (Count b) * rnd (rnd (overlap lo hi b) / rnd (Hi b - Lo b)))"
  by (auto simp: amount_def)

lemma amount_bounds:
  assumes "lo \<le> hi" "plain b" shows "0 \<le> amount lo hi b" "amount lo hi b \<le> of_int (Count b)"
  using assms part_bounds [OF assms(1), of b] rnd_nonneg [of "of_int (Count b) * rnd (rnd (overlap lo hi b) / rnd (Hi b - Lo b))"]
    rnd_le_int [of "of_int (Count b) * rnd (rnd (overlap lo hi b) / rnd (Hi b - Lo b))" "Count b"]
  by (auto simp: amount_def plain_def)

lemma amount_mono:
  assumes "lo \<le> hi" "lo' \<le> lo" "hi \<le> hi'" "plain b" shows "amount lo hi b \<le> amount lo' hi' b"
proof -
  have le: "lo' \<le> hi'" using assms by simp
  note B = amount_bounds [OF le assms(4)] amount_bounds [OF assms(1,4)]
  consider "Hi b < lo \<or> hi < Lo b" | "lo' \<le> Lo b \<and> Hi b \<le> hi' \<or> rnd (Hi b - Lo b) \<le> 0"
    | "\<not> (Hi b < lo \<or> hi < Lo b)" "\<not> (lo' \<le> Lo b \<and> Hi b \<le> hi')" "0 < rnd (Hi b - Lo b)" by linarith
  then show ?thesis
  proof cases
    case 1
    then show ?thesis using B(1) by (simp add: amount_def)
  next
    case 2
    then show ?thesis using B(3,4) assms by (cases "Hi b < lo \<or> hi < Lo b") (auto simp: amount_def plain_def)
  next
    case 3
    then have 4: "\<not> (Hi b < lo' \<or> hi' < Lo b)" "\<not> (lo \<le> Lo b \<and> Hi b \<le> hi)" using assms by auto
    have l: "Lo b \<le> Hi b" "0 \<le> Count b" using assms(4) by (auto simp: plain_def)
    have "overlap lo hi b \<le> overlap lo' hi' b" using assms by (auto simp: overlap_def)
    then have "rnd (overlap lo hi b) \<le> rnd (overlap lo' hi' b)" using overlap_bounds(1) [OF assms(1) l(1) 3(1)] by (intro rnd_mono)
    then have "rnd (overlap lo hi b) / rnd (Hi b - Lo b) \<le> rnd (overlap lo' hi' b) / rnd (Hi b - Lo b)"
      using 3(3) by (simp add: divide_right_mono)
    then have "rnd (rnd (overlap lo hi b) / rnd (Hi b - Lo b)) \<le> rnd (rnd (overlap lo' hi' b) / rnd (Hi b - Lo b))"
      by (intro rnd_mono ratio_bounds(1) [OF assms(1) l(1) 3(1,3)])
    then have "of_int (Count b) * rnd (rnd (overlap lo hi b) / rnd (Hi b - Lo b)) \<le> of_int (Count b) * rnd (rnd (overlap lo' hi' b) / rnd (Hi b - Lo b))"
      using l(2) by (intro mult_left_mono) simp_all
    then have "rnd (of_int (Count b) * rnd (rnd (overlap lo hi b) / rnd (Hi b - Lo b))) \<le> rnd (of_int (Count b) * rnd (rnd (overlap lo' hi' b) / rnd (Hi b - Lo b)))"
      by (intro rnd_mono part_bounds(1) [OF assms(1) l(1) 3(1,3) l(2)])
    then show ?thesis by (simp only: amount_part [OF 4(1) 3(2,3)] amount_part [OF 3(1) 4(2) 3(3)])
  qed
qed

lemma range_step_amount:
  assumes "lo \<le> hi" "plain b" "0 \<le> x" "rnd x = x" "x \<le> of_int k" "k + Count b \<le> 2 ^ 53"
  shows "range_step lo hi b (Fin x) = Fin (rnd (x + amount lo hi b))"
proof -
  have l: "Lo b \<le> Hi b" "0 \<le> Count b" "Count b \<le> 2 ^ 53" "rnd (Hi b - Lo b) < huge" using assms(2) by (auto simp: plain_def)
  have add: "f64_add (Fin x) (Fin (amount lo hi b)) = Fin (rnd (x + amount lo hi b))"
    using to_f64_below [of "x + amount lo hi b" "k + Count b"] amount_bounds [OF assms(1,2)] assms(3,5,6) by simp
  have w: "f64_sub (Fin (Hi b)) (Fin (Lo b)) = Fin (rnd (Hi b - Lo b))" using to_f64_fin [of "Hi b - Lo b"] l by (simp add: f64_sub_def)
  consider "Hi b < lo \<or> hi < Lo b" | "\<not> (Hi b < lo \<or> hi < Lo b)" "lo \<le> Lo b \<and> Hi b \<le> hi \<or> rnd (Hi b - Lo b) \<le> 0"
    | "\<not> (Hi b < lo \<or> hi < Lo b)" "\<not> (lo \<le> Lo b \<and> Hi b \<le> hi)" "0 < rnd (Hi b - Lo b)" by linarith
  then show ?thesis
  proof cases
    case 1
    then show ?thesis using assms(4) by (simp add: range_step_def amount_def)
  next
    case 2
    then have "amount lo hi b = of_int (Count b)" by (simp add: amount_def)
    then show ?thesis using 2 add l(2,3) by (auto simp: range_step_def w of_int64_exact Let_def)
  next
    case 3
    let ?o = "overlap lo hi b" and ?w = "rnd (Hi b - Lo b)"
    have o: "(if Hi b < hi then Hi b else hi) - (if lo < Lo b then Lo b else lo) = ?o" by (auto simp: overlap_def)
    have "rnd ?o < huge" using rnd_mono [OF overlap_bounds [OF assms(1) l(1) 3(1)]] l(4) by simp
    then have d: "f64_sub (Fin (if Hi b < hi then Hi b else hi)) (Fin (if lo < Lo b then Lo b else lo)) = Fin (rnd ?o)"
      using to_f64_fin [OF overlap_bounds(1) [OF assms(1) l(1) 3(1)]] by (simp only: f64_sub_def f64_neg.simps f64_add.simps diff_conv_add_uminus [symmetric] o)
    have r: "f64_div (Fin (rnd ?o)) (Fin ?w) = Fin (rnd (rnd ?o / ?w))"
      using to_f64_below [OF ratio_bounds [OF assms(1) l(1) 3(1,3)]] 3(3) by simp
    have "f64_mul (of_int64 (Count b)) (Fin (rnd (rnd ?o / ?w))) = Fin (rnd (of_int (Count b) * rnd (rnd ?o / ?w)))"
      using to_f64_below [OF part_bounds [OF assms(1) l(1) 3(1,3) l(2)] l(3)] l(2,3) by (simp add: of_int64_exact)
    then have m: "f64_mul (of_int64 (Count b)) (Fin (rnd (rnd ?o / ?w))) = Fin (amount lo hi b)" by (simp only: amount_part [OF 3])
    have "\<not> f64_le (Fin ?w) (Fin 0)" using 3(3) by simp
    then have "range_step lo hi b (Fin x) = f64_add (Fin x) (f64_mul (of_int64 (Count b)) (f64_div
        (f64_sub (Fin (if Hi b < hi then Hi b else hi)) (Fin (if lo < Lo b then Lo b else lo))) (Fin ?w)))"
      by (simp only: range_step_def w Let_def 3(1,2) if_False)
    then show ?thesis by (simp only: d r m add)
  qed
qed

text \<open>The hits of all buckets: between 0 and the number of samples, monotone in the range.\<close>

definition hits :: "real \<Rightarrow> real \<Rightarrow> real bucket list \<Rightarrow> real \<Rightarrow> real" where
  "hits lo hi bs x = fold (\<lambda>b x. rnd (x + amount lo hi b)) bs x"

definition counts :: "real bucket list \<Rightarrow> int" where "counts bs = sum_list (map Count bs)"

lemma hits_simps [simp]: "hits lo hi [] x = x" "hits lo hi (b # bs) x = hits lo hi bs (rnd (x + amount lo hi b))"
  by (simp_all add: hits_def)

lemma counts_simps [simp]: "counts [] = 0" "counts (b # bs) = Count b + counts bs"
  by (simp_all add: counts_def)

lemma counts_nonneg: "\<forall>b \<in> set bs. plain b \<Longrightarrow> 0 \<le> counts bs"
  by (induction bs) (auto simp: plain_def)

lemma hit_bounds:
  assumes "lo \<le> hi" "plain b" "0 \<le> x" "x \<le> of_int k" "k + Count b \<le> 2 ^ 53"
  shows "0 \<le> rnd (x + amount lo hi b)" "rnd (x + amount lo hi b) \<le> of_int (k + Count b)"
  using amount_bounds [OF assms(1,2)] assms(3-5) rnd_nonneg [of "x + amount lo hi b"] rnd_le_int [of "x + amount lo hi b" "k + Count b"]
  by simp_all

lemma range_fold:
  "lo \<le> hi \<Longrightarrow> \<forall>b \<in> set bs. plain b \<Longrightarrow> 0 \<le> x \<Longrightarrow> rnd x = x \<Longrightarrow> x \<le> of_int k \<Longrightarrow> k + counts bs \<le> 2 ^ 53 \<Longrightarrow>
    fold (range_step lo hi) bs (Fin x) = Fin (hits lo hi bs x) \<and> 0 \<le> hits lo hi bs x \<and> hits lo hi bs x \<le> of_int (k + counts bs)"
proof (induction bs arbitrary: x k)
  case (Cons b bs)
  have b: "plain b" "k + Count b \<le> 2 ^ 53" using Cons.prems counts_nonneg [of bs] by auto
  have "range_step lo hi b (Fin x) = Fin (rnd (x + amount lo hi b))" using range_step_amount Cons.prems b by blast
  then show ?case
    using Cons.IH [of "rnd (x + amount lo hi b)" "k + Count b"] hit_bounds [of lo hi b x k] Cons.prems b
    by (simp add: rnd_idem add.assoc)
qed simp

lemma hits_mono:
  "lo \<le> hi \<Longrightarrow> lo' \<le> lo \<Longrightarrow> hi \<le> hi' \<Longrightarrow> \<forall>b \<in> set bs. plain b \<Longrightarrow> 0 \<le> x \<Longrightarrow> x \<le> y \<Longrightarrow> hits lo hi bs x \<le> hits lo' hi' bs y"
proof (induction bs arbitrary: x y)
  case (Cons b bs)
  have b: "plain b" using Cons.prems by simp
  have "0 \<le> x + amount lo hi b" "x + amount lo hi b \<le> y + amount lo' hi' b"
    using amount_mono [of lo hi lo' hi' b] amount_bounds(1) [of lo hi b] Cons.prems by auto
  then show ?case using Cons.IH [of "rnd (x + amount lo hi b)" "rnd (y + amount lo' hi' b)"] Cons.prems
    by (simp add: rnd_mono rnd_nonneg)
qed simp

lemma hits_full:
  "\<forall>b \<in> set bs. plain b \<and> lo \<le> Lo b \<and> Hi b \<le> hi \<Longrightarrow> 0 \<le> k \<Longrightarrow> k + counts bs \<le> 2 ^ 53 \<Longrightarrow>
    hits lo hi bs (of_int k) = of_int (k + counts bs)"
proof (induction bs arbitrary: k)
  case (Cons b bs)
  have "plain b" "lo \<le> Lo b" "Hi b \<le> hi" "0 \<le> counts bs" using Cons.prems counts_nonneg [of bs] by auto
  then have "amount lo hi b = of_int (Count b)" "0 \<le> k + Count b" "k + Count b \<le> 2 ^ 53" using Cons.prems by (auto simp: amount_def plain_def)
  then have "rnd (of_int k + amount lo hi b) = of_int (k + Count b)" using rnd_int [of "k + Count b"] by simp
  then show ?case using Cons.IH [of "k + Count b"] Cons.prems \<open>0 \<le> k + Count b\<close> by (simp add: add.assoc)
qed simp

text \<open>The buckets inside a range, and those that touch it.\<close>

definition inside :: "real \<Rightarrow> real \<Rightarrow> real bucket \<Rightarrow> bool" where "inside lo hi b \<longleftrightarrow> lo \<le> Lo b \<and> Hi b \<le> hi"

definition touches :: "real \<Rightarrow> real \<Rightarrow> real bucket \<Rightarrow> bool" where "touches lo hi b \<longleftrightarrow> lo \<le> Hi b \<and> Lo b \<le> hi"

lemma rnd_ge_int: "of_int k \<le> x \<Longrightarrow> 0 \<le> k \<Longrightarrow> k \<le> 2 ^ 53 \<Longrightarrow> of_int k \<le> rnd x"
  using rnd_mono [of "of_int k" x] rnd_int [of k] by simp

lemma hits_between:
  "lo \<le> hi \<Longrightarrow> \<forall>b \<in> set bs. plain b \<Longrightarrow> 0 \<le> i \<Longrightarrow> of_int i \<le> x \<Longrightarrow> x \<le> of_int k \<Longrightarrow> k + counts bs \<le> 2 ^ 53 \<Longrightarrow>
    of_int (i + counts (filter (inside lo hi) bs)) \<le> hits lo hi bs x \<and> hits lo hi bs x \<le> of_int (k + counts (filter (touches lo hi) bs))"
proof (induction bs arbitrary: i k x)
  case (Cons b bs)
  let ?i = "if inside lo hi b then i + Count b else i" and ?k = "if touches lo hi b then k + Count b else k" and ?x = "rnd (x + amount lo hi b)"
  have b: "plain b" "k + Count b \<le> 2 ^ 53" "0 \<le> Count b" "Lo b \<le> Hi b" using Cons.prems counts_nonneg [of bs] by (auto simp: plain_def)
  note A = amount_bounds [OF Cons.prems(1) b(1)]
  have ik: "0 \<le> i" "of_int i \<le> x" "x \<le> of_int k" using Cons.prems(3-5) .
  have "of_int i \<le> real_of_int k" using ik by simp
  then have small: "0 \<le> ?i" "?i \<le> 2 ^ 53" "?k \<le> 2 ^ 53" "?k + counts bs \<le> 2 ^ 53" using ik(1) b(2,3) Cons.prems(6) by auto
  have inn: "inside lo hi b \<Longrightarrow> amount lo hi b = of_int (Count b)" using Cons.prems(1) b(4) by (auto simp: inside_def amount_def)
  have out: "\<not> touches lo hi b \<Longrightarrow> amount lo hi b = 0" by (auto simp: touches_def amount_def)
  have "of_int ?i \<le> x + amount lo hi b" using A ik inn by auto
  then have lower: "of_int ?i \<le> ?x" using small by (intro rnd_ge_int)
  have "x + amount lo hi b \<le> of_int ?k" "0 \<le> x + amount lo hi b" using A ik out by auto
  then have upper: "?x \<le> of_int ?k" using small by (intro rnd_le_int)
  show ?case using Cons.IH [OF Cons.prems(1) _ small(1) lower upper small(4)] Cons.prems(2) by (auto simp: algebra_simps)
qed simp

lemma hits_none:
  "\<forall>b \<in> set bs. Hi b < lo \<or> hi < Lo b \<Longrightarrow> rnd x = x \<Longrightarrow> hits lo hi bs x = x"
  by (induction bs) (simp_all add: amount_def)

lemma EstRange_hits:
  assumes "lo \<le> hi" "\<forall>b \<in> set (buckets h). plain b" "counts (buckets h) = total h" "0 < total h" "total h \<le> 2 ^ 53"
  shows "EstRange h (Fin lo) (Fin hi) = Fin (rnd (hits lo hi (buckets h) 0 / of_int (total h)))"
    "0 \<le> hits lo hi (buckets h) 0" "0 \<le> rnd (hits lo hi (buckets h) 0 / of_int (total h))" "rnd (hits lo hi (buckets h) 0 / of_int (total h)) \<le> 1"
proof -
  let ?x = "hits lo hi (buckets h) 0" and ?t = "of_int (total h) :: real"
  have f: "fold (range_step lo hi) (buckets h) (Fin 0) = Fin ?x" "0 \<le> ?x" "?x \<le> ?t"
    using range_fold [OF assms(1,2), of 0 0] assms(3,5) by simp_all
  have q: "0 \<le> ?x / ?t" "?x / ?t \<le> of_int 1" using f assms(4) by (simp_all add: divide_le_eq)
  show "0 \<le> ?x" "0 \<le> rnd (?x / ?t)" "rnd (?x / ?t) \<le> 1" using f(2) rnd_nonneg [OF q(1)] rnd_le_int [OF q] by simp_all
  moreover have "f64_div (Fin ?x) (of_int64 (total h)) = Fin (rnd (?x / ?t))"
    using to_f64_below [OF q] assms(4,5) by (simp add: of_int64_exact)
  ultimately show "EstRange h (Fin lo) (Fin hi) = Fin (rnd (?x / ?t))"
    using assms(1,4) by (simp add: EstRange_def f(1) Let_def f64_less_def)
qed

text \<open>A built histogram meets the conditions of the estimates, unless the width of a bucket overflows.\<close>

lemma Build_plain:
  fixes samples :: "real sample list"
  assumes "clean samples \<noteq> []" "length (clean samples) \<le> 2 ^ 53"
    "\<forall>b \<in> set (buckets (Build samples nb)). f64_sub (Fin (Hi b)) (Fin (Lo b)) \<noteq> PosInf"
  shows "\<forall>b \<in> set (buckets (Build samples nb)). plain b \<and> Min (set (clean samples)) \<le> Lo b \<and> Hi b \<le> Max (set (clean samples))"
    "counts (buckets (Build samples nb)) = total (Build samples nb)" "0 < total (Build samples nb)" "total (Build samples nb) \<le> 2 ^ 53"
proof -
  let ?h = "Build samples nb"
  obtain segs per where b: "buckets ?h = map bucket_of segs" "concat segs = sort (clean samples)" "segments per segs"
    "total ?h = int (length (concat segs))" "concat segs \<noteq> []"
    "\<forall>s \<in> set segs. s \<noteq> [] \<and> sorted s \<and> Lo (bucket_of s) \<le> Hi (bucket_of s) \<and> 0 \<le> Count (bucket_of s)"
    "\<forall>s \<in> set segs. Min (set (clean samples)) \<le> Lo (bucket_of s) \<and> Hi (bucket_of s) \<le> Max (set (clean samples))"
    by (rule Build_real [OF assms(1), where nb = nb])
  have "length (concat segs) = length (clean samples)" by (simp add: b(2))
  then show big: "total ?h \<le> 2 ^ 53" using assms(2) unfolding b(4) by (metis of_nat_le_iff of_nat_numeral of_nat_power)
  show "0 < total ?h" using b(4,5) by simp
  show "counts (buckets ?h) = total ?h" unfolding b(1,4) by (induction segs) (simp_all add: bucket_of_def)
  have "plain (bucket_of s)" if s: "s \<in> set segs" for s
  proof -
    have le: "Lo (bucket_of s) \<le> Hi (bucket_of s)" "0 \<le> Count (bucket_of s)" using b(6) s by auto
    have "f64_sub (Fin (Hi (bucket_of s))) (Fin (Lo (bucket_of s))) \<noteq> PosInf" using assms(3) s by (simp add: b(1))
    then have "rnd (Hi (bucket_of s) - Lo (bucket_of s)) < huge" by (auto simp: f64_sub_def to_f64_def Let_def split: if_splits)
    moreover have "Count (bucket_of s) \<le> 2 ^ 53" using length_le_concat [OF s] big b(4) by (simp add: bucket_of_def)
    ultimately show ?thesis using le by (simp add: plain_def)
  qed
  then show "\<forall>b \<in> set (buckets ?h). plain b \<and> Min (set (clean samples)) \<le> Lo b \<and> Hi b \<le> Max (set (clean samples))"
    using b(7) by (simp add: b(1))
qed

text \<open>The samples in a range number at least those of the buckets inside it, at most those of the buckets it touches.\<close>

lemma Count_bucket_of [simp]: "Count (bucket_of s) = int (length s)"
  by (simp add: bucket_of_def)

lemma segments_in_range:
  fixes segs :: "real list list"
  assumes "\<forall>s \<in> set segs. s \<noteq> [] \<and> sorted s"
  shows "counts (filter (inside lo hi) (map bucket_of segs)) \<le> int (length (filter (\<lambda>x. lo \<le> x \<and> x \<le> hi) (concat segs)))"
    "int (length (filter (\<lambda>x. lo \<le> x \<and> x \<le> hi) (concat segs))) \<le> counts (filter (touches lo hi) (map bucket_of segs))"
proof -
  let ?P = "\<lambda>x. lo \<le> x \<and> x \<le> hi"
  have all: "inside lo hi (bucket_of s) \<Longrightarrow> filter ?P s = s" and none: "\<not> touches lo hi (bucket_of s) \<Longrightarrow> filter ?P s = []"
    if "sorted s" for s
    using bucket_bounds [OF that] by (force simp: inside_def touches_def filter_id_conv filter_empty_conv)+
  show "counts (filter (inside lo hi) (map bucket_of segs)) \<le> int (length (filter ?P (concat segs)))"
    using assms
  proof (induction segs)
    case (Cons s segs)
    then show ?case using all [of s] by auto
  qed simp
  show "int (length (filter ?P (concat segs))) \<le> counts (filter (touches lo hi) (map bucket_of segs))"
    using assms
  proof (induction segs)
    case (Cons s segs)
    then show ?case using none [of s] by (auto intro!: add_mono)
  qed simp
qed

lemma Build_in_range:
  fixes samples :: "real sample list"
  assumes "clean samples \<noteq> []"
  shows "counts (filter (inside lo hi) (buckets (Build samples nb))) \<le> int (length (filter (\<lambda>x. lo \<le> x \<and> x \<le> hi) (clean samples)))"
    "int (length (filter (\<lambda>x. lo \<le> x \<and> x \<le> hi) (clean samples))) \<le> counts (filter (touches lo hi) (buckets (Build samples nb)))"
proof -
  obtain segs per where b: "buckets (Build samples nb) = map bucket_of segs" "concat segs = sort (clean samples)" "segments per segs"
    "total (Build samples nb) = int (length (concat segs))" "concat segs \<noteq> []"
    "\<forall>s \<in> set segs. s \<noteq> [] \<and> sorted s \<and> Lo (bucket_of s) \<le> Hi (bucket_of s) \<and> 0 \<le> Count (bucket_of s)"
    "\<forall>s \<in> set segs. Min (set (clean samples)) \<le> Lo (bucket_of s) \<and> Hi (bucket_of s) \<le> Max (set (clean samples))"
    by (rule Build_real [OF assms, where nb = nb])
  have "mset (filter P (concat segs)) = mset (filter P (clean samples))" for P by (simp add: b(2))
  then have "length (filter P (concat segs)) = length (filter P (clean samples))" for P by (metis size_mset)
  then show "counts (filter (inside lo hi) (buckets (Build samples nb))) \<le> int (length (filter (\<lambda>x. lo \<le> x \<and> x \<le> hi) (clean samples)))"
    "int (length (filter (\<lambda>x. lo \<le> x \<and> x \<le> hi) (clean samples))) \<le> counts (filter (touches lo hi) (buckets (Build samples nb)))"
    using segments_in_range [of segs lo hi] b(6) by (simp_all only: b(1)) blast+
qed

lemma EstRange_estimates:
  fixes samples :: "real sample list"
  assumes "clean samples \<noteq> []" "length (clean samples) \<le> 2 ^ 53"
    "\<forall>b \<in> set (buckets (Build samples nb)). f64_sub (Fin (Hi b)) (Fin (Lo b)) \<noteq> PosInf"
  obtains r where "\<forall>lo hi. lo \<le> hi \<longrightarrow> EstRange (Build samples nb) (Fin lo) (Fin hi) = Fin (r lo hi) \<and> 0 \<le> r lo hi \<and> r lo hi \<le> 1"
    "\<forall>lo hi. lo \<le> Min (set (clean samples)) \<and> Max (set (clean samples)) \<le> hi \<longrightarrow> r lo hi = 1"
    "\<forall>lo hi. hi < Min (set (clean samples)) \<or> Max (set (clean samples)) < lo \<longrightarrow> r lo hi = 0"
    "\<forall>lo hi lo' hi'. lo' \<le> lo \<and> lo \<le> hi \<and> hi \<le> hi' \<longrightarrow> r lo hi \<le> r lo' hi'"
    "\<forall>lo hi. lo \<le> hi \<longrightarrow> rnd (of_int (counts (filter (inside lo hi) (buckets (Build samples nb)))) / of_int (total (Build samples nb))) \<le> r lo hi \<and>
      r lo hi \<le> rnd (of_int (counts (filter (touches lo hi) (buckets (Build samples nb)))) / of_int (total (Build samples nb)))"
proof -
  let ?h = "Build samples nb" let ?bs = "buckets ?h" and ?V = "set (clean samples)"
  note P = Build_plain [OF assms]
  have plain: "\<forall>b \<in> set ?bs. plain b" using P(1) by blast
  have t: "0 < real_of_int (total ?h)" using P(3) by simp
  define r where "r lo hi = rnd (hits lo hi ?bs 0 / of_int (total ?h))" for lo hi
  have "\<forall>lo hi. lo \<le> hi \<longrightarrow> EstRange ?h (Fin lo) (Fin hi) = Fin (r lo hi) \<and> 0 \<le> r lo hi \<and> r lo hi \<le> 1"
    using EstRange_hits [OF _ plain P(2-4)] by (simp add: r_def)
  moreover have "r lo hi = 1" if "lo \<le> Min ?V" "Max ?V \<le> hi" for lo hi
  proof -
    have "\<forall>b \<in> set ?bs. plain b \<and> lo \<le> Lo b \<and> Hi b \<le> hi" using P(1) that by force
    then have "hits lo hi ?bs 0 = of_int (total ?h)" using hits_full [of ?bs lo hi 0] P(2,4) by simp
    then show ?thesis using t rnd_int [of 1] by (simp add: r_def)
  qed
  moreover have "r lo hi = 0" if "hi < Min ?V \<or> Max ?V < lo" for lo hi
  proof -
    have "\<forall>b \<in> set ?bs. Hi b < lo \<or> hi < Lo b" using P(1) that by force
    then show ?thesis by (simp add: r_def hits_none)
  qed
  moreover have "r lo hi \<le> r lo' hi'" if "lo' \<le> lo" "lo \<le> hi" "hi \<le> hi'" for lo hi lo' hi'
    unfolding r_def using hits_mono [OF that(2,1,3) plain, of 0 0] EstRange_hits(2) [OF that(2) plain P(2-4)] t
    by (intro rnd_mono) (simp_all add: divide_right_mono)
  moreover have "rnd (of_int (counts (filter (inside lo hi) ?bs)) / of_int (total ?h)) \<le> r lo hi \<and>
      r lo hi \<le> rnd (of_int (counts (filter (touches lo hi) ?bs)) / of_int (total ?h))" if "lo \<le> hi" for lo hi
  proof -
    have "0 \<le> counts (filter (inside lo hi) ?bs)" using counts_nonneg [of "filter (inside lo hi) ?bs"] plain by simp
    then show ?thesis unfolding r_def
      using hits_between [OF that plain, of 0 0 0] EstRange_hits(2) [OF that plain P(2-4)] t P(2,4)
      by (intro conjI rnd_mono) (simp_all add: divide_right_mono)
  qed
  ultimately show ?thesis using that [of r] by blast
qed

text \<open>
  C33. The estimates computed in \<open>float64\<close>, for a histogram of at most \<open>2 ^ 53\<close> finite samples: the estimate
  of a single value is a finite number between 0 and 1, 0 outside the samples, and over the distinct samples
  the estimates sum to 1 up to \<open>3 / 2 ^ 53\<close>. When the width of no bucket overflows, the estimate of a range is
  finite, between 0 and 1, exactly 1 for a range that holds every sample, 0 for one beside them, and
  monotone in the range in spite of the rounding. It lies between the rounded shares of the samples in the
  buckets inside the range and in those it touches, and so do the samples that are really in the range:
  up to rounding the estimate is off by no more than the buckets the range cuts, and exact when it cuts none.
\<close>

theorem estimates_are_frequencies:
  fixes samples :: "real sample list"
  assumes "clean samples \<noteq> []" "length (clean samples) \<le> 2 ^ 53"
  shows "(\<exists>p. (\<forall>v. EstEq (Build samples nb) (Fin v) = Fin (p v) \<and> 0 \<le> p v \<and> p v \<le> 1) \<and>
      \<bar>(\<Sum>v \<in> set (clean samples). p v) - 1\<bar> \<le> 3 / 2 ^ 53 \<and>
      (\<forall>v. v < Hist_Min (Build samples nb) \<or> Hist_Max (Build samples nb) < v \<longrightarrow> p v = 0)) \<and>
    ((\<forall>b \<in> set (Hist_Buckets (Build samples nb)). f64_sub (Fin (Hi b)) (Fin (Lo b)) \<noteq> PosInf) \<longrightarrow>
      (\<exists>r. (\<forall>lo hi. lo \<le> hi \<longrightarrow> EstRange (Build samples nb) (Fin lo) (Fin hi) = Fin (r lo hi) \<and> 0 \<le> r lo hi \<and> r lo hi \<le> 1) \<and>
        (\<forall>lo hi. lo \<le> Hist_Min (Build samples nb) \<and> Hist_Max (Build samples nb) \<le> hi \<longrightarrow> r lo hi = 1) \<and>
        (\<forall>lo hi. hi < Hist_Min (Build samples nb) \<or> Hist_Max (Build samples nb) < lo \<longrightarrow> r lo hi = 0) \<and>
        (\<forall>lo hi lo' hi'. lo' \<le> lo \<and> lo \<le> hi \<and> hi \<le> hi' \<longrightarrow> r lo hi \<le> r lo' hi') \<and>
        (\<forall>lo hi. lo \<le> hi \<longrightarrow>
          rnd (of_int (counts (filter (inside lo hi) (Hist_Buckets (Build samples nb)))) / of_int (Hist_Total (Build samples nb))) \<le> r lo hi \<and>
          r lo hi \<le> rnd (of_int (counts (filter (touches lo hi) (Hist_Buckets (Build samples nb)))) / of_int (Hist_Total (Build samples nb)))))) \<and>
    counts (filter (inside lo hi) (Hist_Buckets (Build samples nb))) \<le> int (length (filter (\<lambda>x. lo \<le> x \<and> x \<le> hi) (clean samples))) \<and>
    int (length (filter (\<lambda>x. lo \<le> x \<and> x \<le> hi) (clean samples))) \<le> counts (filter (touches lo hi) (Hist_Buckets (Build samples nb)))"
proof (intro conjI impI)
  show "counts (filter (inside lo hi) (Hist_Buckets (Build samples nb))) \<le> int (length (filter (\<lambda>x. lo \<le> x \<and> x \<le> hi) (clean samples)))"
    "int (length (filter (\<lambda>x. lo \<le> x \<and> x \<le> hi) (clean samples))) \<le> counts (filter (touches lo hi) (Hist_Buckets (Build samples nb)))"
    unfolding Hist_Buckets_def by (rule Build_in_range [OF assms(1)])+
  have "sort (clean samples) \<noteq> []" using assms by (metis set_empty set_sort)
  from sorted_ends [OF sorted_sort this]
  have m: "Hist_Min (Build samples nb) = Min (set (clean samples))" "Hist_Max (Build samples nb) = Max (set (clean samples))"
    by (simp_all add: Hist_Min_def Hist_Max_def Build_loop [OF assms(1)])
  obtain p where p: "\<forall>v. EstEq (Build samples nb) (Fin v) = Fin (p v) \<and> 0 \<le> p v \<and> p v \<le> 1"
    "\<bar>(\<Sum>v \<in> set (clean samples). p v) - 1\<bar> \<le> 3 / 2 ^ 53"
    "\<forall>v. v < Min (set (clean samples)) \<or> Max (set (clean samples)) < v \<longrightarrow> p v = 0"
    by (rule EstEq_sum [OF assms, where nb = nb])
  then show "\<exists>p. (\<forall>v. EstEq (Build samples nb) (Fin v) = Fin (p v) \<and> 0 \<le> p v \<and> p v \<le> 1) \<and>
      \<bar>(\<Sum>v \<in> set (clean samples). p v) - 1\<bar> \<le> 3 / 2 ^ 53 \<and>
      (\<forall>v. v < Hist_Min (Build samples nb) \<or> Hist_Max (Build samples nb) < v \<longrightarrow> p v = 0)"
    unfolding m by (intro exI [of _ p] conjI)
  assume w: "\<forall>b \<in> set (Hist_Buckets (Build samples nb)). f64_sub (Fin (Hi b)) (Fin (Lo b)) \<noteq> PosInf"
  obtain r where r: "\<forall>lo hi. lo \<le> hi \<longrightarrow> EstRange (Build samples nb) (Fin lo) (Fin hi) = Fin (r lo hi) \<and> 0 \<le> r lo hi \<and> r lo hi \<le> 1"
    "\<forall>lo hi. lo \<le> Min (set (clean samples)) \<and> Max (set (clean samples)) \<le> hi \<longrightarrow> r lo hi = 1"
    "\<forall>lo hi. hi < Min (set (clean samples)) \<or> Max (set (clean samples)) < lo \<longrightarrow> r lo hi = 0"
    "\<forall>lo hi lo' hi'. lo' \<le> lo \<and> lo \<le> hi \<and> hi \<le> hi' \<longrightarrow> r lo hi \<le> r lo' hi'"
    "\<forall>lo hi. lo \<le> hi \<longrightarrow> rnd (of_int (counts (filter (inside lo hi) (buckets (Build samples nb)))) / of_int (total (Build samples nb))) \<le> r lo hi \<and>
      r lo hi \<le> rnd (of_int (counts (filter (touches lo hi) (buckets (Build samples nb)))) / of_int (total (Build samples nb)))"
    by (rule EstRange_estimates [OF assms w [unfolded Hist_Buckets_def]])
  show "\<exists>r. (\<forall>lo hi. lo \<le> hi \<longrightarrow> EstRange (Build samples nb) (Fin lo) (Fin hi) = Fin (r lo hi) \<and> 0 \<le> r lo hi \<and> r lo hi \<le> 1) \<and>
        (\<forall>lo hi. lo \<le> Hist_Min (Build samples nb) \<and> Hist_Max (Build samples nb) \<le> hi \<longrightarrow> r lo hi = 1) \<and>
        (\<forall>lo hi. hi < Hist_Min (Build samples nb) \<or> Hist_Max (Build samples nb) < lo \<longrightarrow> r lo hi = 0) \<and>
        (\<forall>lo hi lo' hi'. lo' \<le> lo \<and> lo \<le> hi \<and> hi \<le> hi' \<longrightarrow> r lo hi \<le> r lo' hi') \<and>
        (\<forall>lo hi. lo \<le> hi \<longrightarrow>
          rnd (of_int (counts (filter (inside lo hi) (Hist_Buckets (Build samples nb)))) / of_int (Hist_Total (Build samples nb))) \<le> r lo hi \<and>
          r lo hi \<le> rnd (of_int (counts (filter (touches lo hi) (Hist_Buckets (Build samples nb)))) / of_int (Hist_Total (Build samples nb))))"
    unfolding m Hist_Buckets_def Hist_Total_def using r by (intro exI [of _ r] conjI)
qed

definition demo :: "real sample list" where "demo = [Fin 1, Fin 3, NaN, Fin 10, Fin 3, PosInf]"

lemma demo_hist:
  "Build demo 2 = \<lparr>buckets = [\<lparr>Lo = 1, Hi = 3, Count = 3, NDV = 2\<rparr>, \<lparr>Lo = 10, Hi = 10, Count = 1, NDV = 1\<rparr>], total = 4, hmin = 1, hmax = 10\<rparr>"
  by (simp add: demo_def Build_def bucket_loop.simps extend_run.simps countDistinct_def Let_def)

theorem estimates_are_frequencies_witness:
  "EstRange (Build demo 2) (Fin 0) (Fin 5) = Fin (rnd (3 / 4)) \<and> EstRange (Build demo 2) (Fin 1) (Fin 10) = Fin 1 \<and>
   (\<exists>p. EstEq (Build demo 2) (Fin 3) = Fin p \<and> 0 \<le> p \<and> p \<le> 1) \<and>
   (\<exists>r. EstRange (Build demo 2) (Fin 2) (Fin 12) = Fin r \<and> rnd (1 / 4) \<le> r \<and> r \<le> 1)"
proof -
  have c: "clean demo = [1, 3, 10, 3]" by (simp add: demo_def)
  have ok: "clean demo \<noteq> []" "length (clean demo) \<le> 2 ^ 53" by (simp_all add: c)
  have w: "\<forall>b \<in> set (Hist_Buckets (Build demo 2)). f64_sub (Fin (Hi b)) (Fin (Lo b)) \<noteq> PosInf"
    using to_f64_below [of 2 2] to_f64_below [of 0 0] by (simp add: demo_hist Hist_Buckets_def f64_sub_def)
  note T = estimates_are_frequencies [OF ok, where nb = 2 and lo = 0 and hi = 0]
  obtain p where p: "\<forall>v. EstEq (Build demo 2) (Fin v) = Fin (p v) \<and> 0 \<le> p v \<and> p v \<le> 1" using T [THEN conjunct1] by blast
  obtain r where r: "\<forall>lo hi. lo \<le> hi \<longrightarrow> EstRange (Build demo 2) (Fin lo) (Fin hi) = Fin (r lo hi) \<and> 0 \<le> r lo hi \<and> r lo hi \<le> 1"
    "\<forall>lo hi. lo \<le> Hist_Min (Build demo 2) \<and> Hist_Max (Build demo 2) \<le> hi \<longrightarrow> r lo hi = 1"
    "\<forall>lo hi. lo \<le> hi \<longrightarrow>
      rnd (of_int (counts (filter (inside lo hi) (Hist_Buckets (Build demo 2)))) / of_int (Hist_Total (Build demo 2))) \<le> r lo hi \<and>
      r lo hi \<le> rnd (of_int (counts (filter (touches lo hi) (Hist_Buckets (Build demo 2)))) / of_int (Hist_Total (Build demo 2)))"
    using T [THEN conjunct2, THEN conjunct1, THEN mp, OF w] by (elim exE conjE) (rule that)
  have "r 0 5 = rnd (3 / 4)" using r(3) [rule_format, of 0 5]
    by (simp add: demo_hist Hist_Buckets_def Hist_Total_def inside_def touches_def)
  moreover have "r 1 10 = 1" using r(2) [rule_format, of 1 10] by (simp add: demo_hist Hist_Min_def Hist_Max_def)
  moreover have "rnd (1 / 4) \<le> r 2 12" using r(3) [rule_format, of 2 12]
    by (simp add: demo_hist Hist_Buckets_def Hist_Total_def inside_def touches_def)
  ultimately show ?thesis using p r(1) by auto
qed

text \<open>
  The condition on the widths is needed: two samples further apart than the greatest finite number make the
  width of their bucket infinite, and a range over most of it is estimated as NaN (hist.go:162), although
  the documentation promises a value between 0 and 1.
\<close>

lemma EstRange_NaN:
  "EstRange (Build [Fin (- (3 / 4 * huge)), Fin (3 / 4 * huge)] 1) (Fin (- (1 / 2 * huge))) (Fin (3 / 4 * huge)) = NaN"
proof -
  have h: "0 < huge" by (simp add: huge_def)
  let ?h = "Build [Fin (- (3 / 4 * huge)), Fin (3 / 4 * huge)] 1"
  have b: "?h = \<lparr>buckets = [\<lparr>Lo = - (3 / 4 * huge), Hi = 3 / 4 * huge, Count = 2, NDV = 2\<rparr>], total = 2, hmin = - (3 / 4 * huge), hmax = 3 / 4 * huge\<rparr>"
    using h by (simp add: Build_def bucket_loop.simps extend_run.simps countDistinct_def Let_def)
  have w: "to_f64 (3 / 2 * huge) = PosInf" "to_f64 (5 / 4 * huge) = PosInf" using h by (auto intro!: to_f64_inf)
  have "of_int64 2 = Fin 2" using of_int64_exact [of 2] by simp
  then show ?thesis unfolding b using h w by (simp add: EstRange_def range_step_def Let_def f64_sub_def f64_less_def)
qed

end
