(* ===== verification/Cow.thy ===== *)
theory Cow
  imports Main
begin

text \<open>
  Package \<open>cow\<close> (src/cow/cow.go): a copy-on-write cell, an atomic pointer to an immutable value. A
  pointer is a number, the memory maps numbers to values, and every write allocates a fresh number, as
  the garbage collector never reuses an address that somebody still holds. \<open>Load\<close>, \<open>Ptr\<close>, \<open>Store\<close> and
  \<open>Swap\<close> are one atomic access; \<open>Update\<close> and \<open>UpdateCAS\<close> are interleaved between their accesses.
\<close>

section \<open>The operations\<close>

record 'v cow =
  ptr :: "nat option"
  mem :: "nat \<Rightarrow> 'v"
  fresh :: nat

text \<open>The zero \<open>Value\<close>, and a store of a new pointer.\<close>

definition Value :: "'v cow" where "Value = \<lparr>ptr = None, mem = \<lambda>_. undefined, fresh = 0\<rparr>"

definition Store :: "'v \<Rightarrow> 'v cow \<Rightarrow> 'v cow" where
  "Store val v = v\<lparr>ptr := Some (fresh v), mem := (mem v)(fresh v := val), fresh := fresh v + 1\<rparr>"

definition Cow_New :: "'v \<Rightarrow> 'v cow" where "Cow_New initial = Store initial Value"

definition deref :: "'v :: zero cow \<Rightarrow> nat option \<Rightarrow> 'v" where
  "deref v p = (case p of None \<Rightarrow> 0 | Some a \<Rightarrow> mem v a)"

definition Load :: "'v :: zero cow \<Rightarrow> 'v" where "Load v = deref v (ptr v)"

definition Ptr :: "'v cow \<Rightarrow> nat option" where "Ptr v = ptr v"

definition Swap :: "'v :: zero \<Rightarrow> 'v cow \<Rightarrow> 'v \<times> 'v cow" where "Swap val v = (deref v (ptr v), Store val v)"

definition Update :: "('v :: zero \<Rightarrow> 'v) \<Rightarrow> 'v cow \<Rightarrow> 'v cow" where
  "Update fn v = (let old = Load v; nv = fn old in Store nv v)"

text \<open>
  One iteration of \<open>UpdateCAS\<close> after its load: the pointer and the value that were read. Without other
  writers the first iteration returns.
\<close>

definition cas_round :: "('v \<Rightarrow> 'v) \<Rightarrow> nat option \<Rightarrow> 'v \<Rightarrow> 'v cow \<Rightarrow> bool \<times> 'v cow" where
  "cas_round fn opt old v = (let nv = fn old in if ptr v = opt then (True, Store nv v) else (False, v))"

definition UpdateCAS :: "('v :: zero \<Rightarrow> 'v) \<Rightarrow> 'v cow \<Rightarrow> 'v cow" where
  "UpdateCAS fn v = (let opt = ptr v; old = deref v opt in snd (cas_round fn opt old v))"

section \<open>Many goroutines\<close>

text \<open>
  Where a goroutine is: outside, in \<open>UpdateCAS\<close> before its load or before its compare-and-swap, or in
  \<open>Update\<close> before its store. The history lists what has taken effect, with the results returned.
\<close>

datatype 'v cpc = Outside | CasLoad "'v \<Rightarrow> 'v" | CasTry "'v \<Rightarrow> 'v" "nat option" 'v | UpdStore "'v \<Rightarrow> 'v" 'v

datatype 'v event = ELoad 'v | EStore 'v | ESwap 'v 'v | EUpdate "'v \<Rightarrow> 'v"

type_synonym 'v cstate = "'v cow \<times> 'v cpc list \<times> 'v event list"

inductive cow_step :: "'v :: zero cstate \<Rightarrow> 'v cstate \<Rightarrow> bool" where
  load: "i < length ts \<Longrightarrow> ts ! i = Outside \<Longrightarrow> cow_step (v, ts, hist) (v, ts, hist @ [ELoad (Load v)])"
| store: "i < length ts \<Longrightarrow> ts ! i = Outside \<Longrightarrow> cow_step (v, ts, hist) (Store val v, ts, hist @ [EStore val])"
| swap: "i < length ts \<Longrightarrow> ts ! i = Outside \<Longrightarrow>
    cow_step (v, ts, hist) (snd (Swap val v), ts, hist @ [ESwap val (fst (Swap val v))])"
| call: "i < length ts \<Longrightarrow> ts ! i = Outside \<Longrightarrow> cow_step (v, ts, hist) (v, ts[i := CasLoad fn], hist)"
| read: "i < length ts \<Longrightarrow> ts ! i = CasLoad fn \<Longrightarrow> cow_step (v, ts, hist) (v, ts[i := CasTry fn (ptr v) (Load v)], hist)"
| cas_ok: "i < length ts \<Longrightarrow> ts ! i = CasTry fn opt old \<Longrightarrow> cas_round fn opt old v = (True, v') \<Longrightarrow>
    cow_step (v, ts, hist) (v', ts[i := Outside], hist @ [EUpdate fn])"
| cas_fail: "i < length ts \<Longrightarrow> ts ! i = CasTry fn opt old \<Longrightarrow> cas_round fn opt old v = (False, v') \<Longrightarrow>
    cow_step (v, ts, hist) (v', ts[i := CasLoad fn], hist)"

text \<open>\<open>Update\<close> with its two accesses.\<close>

inductive update_step :: "'v :: zero cstate \<Rightarrow> 'v cstate \<Rightarrow> bool" where
  read: "i < length ts \<Longrightarrow> ts ! i = Outside \<Longrightarrow> update_step (v, ts, hist) (v, ts[i := UpdStore fn (Load v)], hist)"
| store: "i < length ts \<Longrightarrow> ts ! i = UpdStore fn old \<Longrightarrow>
    update_step (v, ts, hist) (Store (fn old) v, ts[i := Outside], hist @ [EUpdate fn])"

section \<open>Histories are sequential\<close>

text \<open>A history replayed on a plain variable; \<open>None\<close> when a result does not agree.\<close>

fun replay :: "'v event list \<Rightarrow> 'v \<Rightarrow> 'v option" where
  "replay [] x = Some x"
| "replay (ELoad y # es) x = (if y = x then replay es x else None)"
| "replay (EStore y # es) x = replay es y"
| "replay (ESwap y z # es) x = (if z = x then replay es y else None)"
| "replay (EUpdate fn # es) x = replay es (fn x)"

lemma replay_append: "replay (es @ es') x = (case replay es x of None \<Rightarrow> None | Some y \<Rightarrow> replay es' y)"
  by (induction es x rule: replay.induct) auto

text \<open>
  Allocated memory is immutable and pointers in use are below the next fresh one, so what a goroutine
  has read stays what its pointer holds, and an address cannot come back.
\<close>

definition holds :: "'v :: zero cow \<Rightarrow> nat option \<Rightarrow> 'v \<Rightarrow> bool" where
  "holds v p x \<longleftrightarrow> deref v p = x \<and> (\<forall>a. p = Some a \<longrightarrow> a < fresh v)"

fun pc_holds :: "'v :: zero cow \<Rightarrow> 'v cpc \<Rightarrow> bool" where
  "pc_holds v (CasTry fn opt old) \<longleftrightarrow> holds v opt old"
| "pc_holds v _ \<longleftrightarrow> True"

definition cow_inv :: "'v :: zero \<Rightarrow> 'v cstate \<Rightarrow> bool" where
  "cow_inv x st \<longleftrightarrow> (case st of (v, ts, hist) \<Rightarrow>
     holds v (ptr v) (Load v) \<and> (\<forall>pc \<in> set ts. pc_holds v pc) \<and> replay hist x = Some (Load v))"

lemma Load_Store [simp]: "Load (Store x v) = x"
  by (simp add: Load_def deref_def Store_def)

lemma holds_Store: "holds v p x \<Longrightarrow> holds (Store y v) p x"
  by (auto simp: holds_def Store_def deref_def split: option.splits)

lemma holds_ptr_Store: "holds (Store x v) (ptr (Store x v)) x"
  by (simp add: holds_def Store_def deref_def)

lemma pc_holds_Store: "pc_holds v pc \<Longrightarrow> pc_holds (Store y v) pc"
  by (cases pc) (auto intro: holds_Store)

lemma cow_inv_Store:
  assumes "cow_inv x (v, ts, hist)" "replay hist' x = Some y" "\<forall>pc \<in> set ts'. pc \<in> set ts \<or> pc = Outside"
  shows "cow_inv x (Store y v, ts', hist')"
proof -
  have "pc_holds (Store y v) pc" if "pc \<in> set ts'" for pc
    using assms(1,3) that by (fastforce simp: cow_inv_def intro: pc_holds_Store)
  then show ?thesis using assms(2) by (simp add: cow_inv_def holds_ptr_Store)
qed

lemma cow_step_inv: "cow_step st st' \<Longrightarrow> cow_inv x st \<Longrightarrow> cow_inv x st'"
proof (induction rule: cow_step.induct)
  case (cas_ok i ts fn opt old v v' hist)
  then have "holds v opt old" "ptr v = opt" "v' = Store (fn old) v"
    by (auto simp: cow_inv_def cas_round_def Let_def split: if_splits dest!: nth_mem)
  moreover then have "old = Load v" by (simp add: holds_def Load_def)
  ultimately show ?case using cas_ok(4)
    by (simp, intro cow_inv_Store [OF cas_ok(4)])
      (auto simp: cow_inv_def replay_append dest!: set_update_subset_insert [THEN subsetD])
next
  case (store i ts v hist val)
  then show ?case by (intro cow_inv_Store [of x v ts hist]) (auto simp: cow_inv_def replay_append)
next
  case (swap i ts v hist val)
  then show ?case unfolding Swap_def snd_conv fst_conv
    by (intro cow_inv_Store [of x v ts hist]) (auto simp: cow_inv_def replay_append Load_def [symmetric])
qed (auto simp: cow_inv_def replay_append cas_round_def Let_def split: if_splits dest!: set_update_subset_insert [THEN subsetD])

lemma cow_steps_inv: "cow_step\<^sup>*\<^sup>* st st' \<Longrightarrow> cow_inv x st \<Longrightarrow> cow_inv x st'"
  by (induction rule: rtranclp_induct) (auto intro: cow_step_inv)

text \<open>
  C9. In every interleaving of \<open>Load\<close>, \<open>Store\<close>, \<open>Swap\<close> and \<open>UpdateCAS\<close> calls of any number of goroutines,
  the operations are those of a plain variable in the order in which they take effect: no update is
  lost, every result is the value at that moment, and the cell holds the final value.
\<close>

theorem cow_linearizable:
  assumes "cow_step\<^sup>*\<^sup>* (Cow_New x, replicate k Outside, []) (v, ts, hist)"
  shows "replay hist x = Some (Load v) \<and> (\<forall>pc \<in> set ts. \<forall>fn opt old. pc = CasTry fn opt old \<and> Ptr v = opt \<longrightarrow> old = Load v)"
proof -
  have "cow_inv x (Cow_New x, replicate k Outside, [])" by (simp add: cow_inv_def Cow_New_def holds_ptr_Store)
  from cow_steps_inv [OF assms this] show ?thesis
    by (fastforce simp: cow_inv_def holds_def Ptr_def Load_def)
qed

text \<open>Two calls of \<open>UpdateCAS\<close> that read the same pointer: the second one has to try again.\<close>

theorem cow_linearizable_witness:
  "\<exists>(v :: int cow) hist. cow_step\<^sup>*\<^sup>* (Cow_New 5, [Outside, Outside], []) (v, [Outside, CasLoad ((*) 2)], hist) \<and>
     hist = [EUpdate ((+) 1)] \<and> replay hist 5 = Some (Load v)"
proof -
  let ?v = "Cow_New (5 :: int)" and ?p = "(+) (1 :: int)" and ?m = "(*) (2 :: int)"
  let ?w = "Store 6 ?v"
  have p: "ptr ?v = Some 0" "Load ?v = 5" by (simp_all add: Cow_New_def Store_def Value_def Load_def deref_def)
  have "cow_step (?v, [Outside, Outside], []) (?v, [CasLoad ?p, Outside], [])"
    using cow_step.call [of 0 "[Outside, Outside]" ?v "[]" ?p] by simp
  moreover have "cow_step (?v, [CasLoad ?p, Outside], []) (?v, [CasLoad ?p, CasLoad ?m], [])"
    using cow_step.call [of 1 "[CasLoad ?p, Outside]" ?v "[]" ?m] by simp
  moreover have "cow_step (?v, [CasLoad ?p, CasLoad ?m], []) (?v, [CasTry ?p (Some 0) 5, CasLoad ?m], [])"
    using cow_step.read [of 0 "[CasLoad ?p, CasLoad ?m]" ?p ?v "[]"] by (simp add: p)
  moreover have "cow_step (?v, [CasTry ?p (Some 0) 5, CasLoad ?m], []) (?v, [CasTry ?p (Some 0) 5, CasTry ?m (Some 0) 5], [])"
    using cow_step.read [of 1 "[CasTry ?p (Some 0) 5, CasLoad ?m]" ?m ?v "[]"] by (simp add: p)
  moreover have "cow_step (?v, [CasTry ?p (Some 0) 5, CasTry ?m (Some 0) 5], []) (?w, [Outside, CasTry ?m (Some 0) 5], [EUpdate ?p])"
    using cow_step.cas_ok [of 0 "[CasTry ?p (Some 0) 5, CasTry ?m (Some 0) 5]" ?p "Some 0" 5 ?v ?w "[]"] by (simp add: cas_round_def p)
  moreover have "cow_step (?w, [Outside, CasTry ?m (Some 0) 5], [EUpdate ?p]) (?w, [Outside, CasLoad ?m], [EUpdate ?p])"
    using cow_step.cas_fail [of 1 "[Outside, CasTry ?m (Some 0) 5]" ?m "Some 0" 5 ?w ?w "[EUpdate ?p]"]
    by (simp add: cas_round_def Cow_New_def Store_def Value_def)
  ultimately have run: "cow_step\<^sup>*\<^sup>* (?v, replicate 2 Outside, []) (?w, [Outside, CasLoad ?m], [EUpdate ?p])"
    by (simp add: numeral_2_eq_2)
  show ?thesis using cow_linearizable [OF run] run by (intro exI [of _ ?w]) (simp add: numeral_2_eq_2)
qed

text \<open>
  \<open>Update\<close> is not safe for several writers, as its comment says: of two concurrent calls one is lost.
\<close>

definition any_step :: "'v :: zero cstate \<Rightarrow> 'v cstate \<Rightarrow> bool" where
  "any_step s s' \<longleftrightarrow> cow_step s s' \<or> update_step s s'"

lemma update_any: "update_step s s' \<Longrightarrow> any_step s s'"
  by (simp add: any_step_def)

lemma Update_loses_update:
  "\<exists>(v :: int cow) hist. any_step\<^sup>*\<^sup>* (Cow_New 5, [Outside, Outside], []) (v, [Outside, Outside], hist) \<and>
     hist = [EUpdate ((+) 1), EUpdate ((*) 2)] \<and> Load v = 10 \<and> replay hist 5 = Some 12"
proof -
  let ?v = "Cow_New (5 :: int)" and ?p = "(+) (1 :: int)" and ?m = "(*) (2 :: int)"
  have l: "Load ?v = 5" by (simp add: Cow_New_def)
  have "any_step (?v, [Outside, Outside], []) (?v, [UpdStore ?p 5, Outside], [])"
    using update_any [OF update_step.read, of 0 "[Outside, Outside]" ?v "[]" ?p] by (simp add: l)
  moreover have "any_step (?v, [UpdStore ?p 5, Outside], []) (?v, [UpdStore ?p 5, UpdStore ?m 5], [])"
    using update_any [OF update_step.read, of 1 "[UpdStore ?p 5, Outside]" ?v "[]" ?m] by (simp add: l)
  moreover have "any_step (?v, [UpdStore ?p 5, UpdStore ?m 5], []) (Store 6 ?v, [Outside, UpdStore ?m 5], [EUpdate ?p])"
    using update_any [OF update_step.store, of 0 "[UpdStore ?p 5, UpdStore ?m 5]" ?p 5 ?v "[]"] by simp
  moreover have "any_step (Store 6 ?v, [Outside, UpdStore ?m 5], [EUpdate ?p]) (Store 10 (Store 6 ?v), [Outside, Outside], [EUpdate ?p, EUpdate ?m])"
    using update_any [OF update_step.store, of 1 "[Outside, UpdStore ?m 5]" ?m 5 "Store 6 ?v" "[EUpdate ?p]"] by simp
  ultimately have "any_step\<^sup>*\<^sup>* (?v, [Outside, Outside], []) (Store 10 (Store 6 ?v), [Outside, Outside], [EUpdate ?p, EUpdate ?m])"
    by (meson converse_rtranclp_into_rtranclp rtranclp.rtrancl_refl)
  then show ?thesis by (intro exI [of _ "Store 10 (Store 6 ?v)"]) simp
qed

lemma Update_single_writer: "Load (Update fn v) = fn (Load v)" "Update fn v = UpdateCAS fn v"
  by (simp_all add: Update_def UpdateCAS_def cas_round_def Let_def Load_def [symmetric]) 

end
