(* ===== verification/WStack.thy ===== *)
theory WStack
  imports SafeRun
begin

text \<open>
  Package \<open>wpool\<close>, the last-in first-out pool (src/wpool/stack.go). A worker channel is a number, \<open>chans\<close>
  holds the messages of each (\<open>None\<close> is the nil task that ends a worker). The goroutines - callers,
  workers and the cleaner - are lists of program counters; one step is one atomic access, one channel
  operation, or one section under the mutex. The mutex is explicit only between the check of a waiting
  loop and its \<open>cond.Wait\<close>, where the code can be overtaken by accesses that do not take it. Which
  channel \<open>sync.Pool\<close> returns, which waiter \<open>Signal\<close> wakes, the clock and with it the deadlines that the
  idle timeout gives are choices of the schedule.
\<close>

section \<open>State\<close>

record 'task stack =
  ready :: "nat list"
  chans :: "'task option list list"
  lastUse :: "nat \<Rightarrow> int"
  chanPool :: "nat list"
  running :: int
  maxWorkers :: int
  stopped :: bool
  closed :: bool
  locked :: bool
  panics :: "int \<times> string list"

definition NewStack :: "int \<Rightarrow> 'task stack" where
  "NewStack maxW = \<lparr>ready = [], chans = [], lastUse = (\<lambda>_. 0), chanPool = [], running = 0, maxWorkers = swrap32 maxW,
     stopped = False, closed = False, locked = False, panics = (0, [])\<rparr>"

text \<open>\<open>Submit\<close>, \<open>TrySubmit\<close> and \<open>SubmitTimeout\<close> with its timeout.\<close>

datatype mode = Block | Try | Timed int

text \<open>
  Where a caller is: in \<open>getWorker\<close> or \<open>tryGetWorker\<close> before the stack, in the loop on \<open>running\<close>, with a
  place for a new worker, about to send, and in the waiting loops (before the lock, with it, parked; the
  flag is the expired token of \<open>SubmitTimeout\<close>); or in \<open>Stop\<close>.
\<close>

datatype 'task spc = SIdle | SGet mode 'task | SLoad mode 'task | SCas mode 'task int | SSpawn 'task | SSend 'task nat
  | SWait mode 'task bool | SHeld mode 'task bool | SBlocked mode 'task bool
  | TClose | TBroadcast | TLock | TDone | TWait

datatype 'task wpc = WRecv nat | WRun nat 'task | WCheck nat | WPush nat | WExit nat | WDec | WDone | WGone

datatype kpc = KIdle | KSend "nat list" | KDone

text \<open>The history: the tasks of calls that returned true, and the tasks that have run.\<close>

record 'task world =
  stk :: "'task stack"
  subs :: "'task spc list"
  workers :: "'task wpc list"
  cleaner :: kpc
  sent :: "'task list"
  ran :: "'task list"

definition world_init :: "int \<Rightarrow> nat \<Rightarrow> 'task world" where
  "world_init maxW k = \<lparr>stk = NewStack maxW, subs = replicate k SIdle, workers = [], cleaner = KIdle, sent = [], ran = []\<rparr>"

section \<open>Operations\<close>

definition pop_ready :: "'task stack \<Rightarrow> (nat \<times> 'task stack) option" where
  "pop_ready s = (if ready s = [] then None else Some (last (ready s), s\<lparr>ready := butlast (ready s)\<rparr>))"

definition send :: "nat \<Rightarrow> 'task option \<Rightarrow> 'task stack \<Rightarrow> 'task stack" where
  "send wc m s = s\<lparr>chans := (chans s)[wc := chans s ! wc @ [m]]\<rparr>"

fun unpark :: "'task spc \<Rightarrow> 'task spc" where
  "unpark (SBlocked m t ex) = SWait m t ex"
| "unpark pc = pc"

fun parked :: "'task spc \<Rightarrow> bool" where
  "parked (SBlocked m t ex) \<longleftrightarrow> True"
| "parked pc \<longleftrightarrow> False"

definition broadcast :: "'task world \<Rightarrow> 'task world" where
  "broadcast w = w\<lparr>subs := map unpark (subs w)\<rparr>"

text \<open>\<open>Signal\<close> wakes the parked caller that the schedule names, if any is parked.\<close>

definition signal :: "nat \<Rightarrow> 'task spc list \<Rightarrow> 'task spc list option" where
  "signal j pcs = (if j < length pcs \<and> parked (pcs ! j) then Some (pcs[j := unpark (pcs ! j)])
     else if \<exists>pc \<in> set pcs. parked pc then None else Some pcs)"

definition goto :: "nat \<Rightarrow> 'task spc \<Rightarrow> 'task world \<Rightarrow> 'task world" where
  "goto i pc w = w\<lparr>subs := (subs w)[i := pc]\<rparr>"

text \<open>No worker and no room for one: \<open>Submit\<close> waits, \<open>TrySubmit\<close> gives up, \<open>SubmitTimeout\<close> waits if it has time.\<close>

fun at_limit :: "mode \<Rightarrow> 'task \<Rightarrow> 'task spc" where
  "at_limit Block t = SWait Block t False"
| "at_limit Try t = SIdle"
| "at_limit (Timed timeout) t = (if timeout \<le> 0 then SIdle else SWait (Timed timeout) t False)"

text \<open>The first check of the three calls; the caller stays idle when the call returns false.\<close>

definition call :: "nat \<Rightarrow> mode \<Rightarrow> 'task \<Rightarrow> 'task world \<Rightarrow> 'task world" where
  "call i m t w = (if stopped (stk w) then w else goto i (SGet m t) w)"

definition get_worker :: "nat \<Rightarrow> mode \<Rightarrow> 'task \<Rightarrow> 'task world \<Rightarrow> 'task world" where
  "get_worker i m t w =
     (case pop_ready (stk w) of
        Some (wc, s) \<Rightarrow> goto i (SSend t wc) (w\<lparr>stk := s\<rparr>)
      | None \<Rightarrow>
          (if m \<noteq> Block \<and> 0 < maxWorkers (stk w) \<and> maxWorkers (stk w) \<le> running (stk w) then goto i (at_limit m t) w
           else goto i (SLoad m t) w))"

definition load_running :: "nat \<Rightarrow> mode \<Rightarrow> 'task \<Rightarrow> 'task world \<Rightarrow> 'task world" where
  "load_running i m t w =
     (if 0 < maxWorkers (stk w) then
        (let cur = running (stk w) in if maxWorkers (stk w) \<le> cur then goto i (at_limit m t) w else goto i (SCas m t cur) w)
      else goto i (SSpawn t) (w\<lparr>stk := (stk w)\<lparr>running := running (stk w) + 1\<rparr>\<rparr>))"

definition cas_running :: "nat \<Rightarrow> mode \<Rightarrow> 'task \<Rightarrow> int \<Rightarrow> 'task world \<Rightarrow> 'task world" where
  "cas_running i m t cur w =
     (if running (stk w) = cur then goto i (SSpawn t) (w\<lparr>stk := (stk w)\<lparr>running := cur + 1\<rparr>\<rparr>)
      else goto i (SLoad m t) w)"

text \<open>\<open>chanPool.Get\<close> returns a pooled channel or makes a new one; then the worker starts.\<close>

definition spawn :: "nat \<Rightarrow> nat \<Rightarrow> 'task \<Rightarrow> 'task world \<Rightarrow> 'task world" where
  "spawn i c t w =
     (let s = stk w;
          (wc, s) = (if c < length (chanPool s) then (chanPool s ! c, s\<lparr>chanPool := take c (chanPool s) @ drop (Suc c) (chanPool s)\<rparr>)
                     else (length (chans s), s\<lparr>chans := chans s @ [[]]\<rparr>))
      in goto i (SSend t wc) (w\<lparr>stk := s, workers := workers w @ [WRecv wc]\<rparr>))"

text \<open>A channel has room for one message; \<open>None\<close> is a send that blocks.\<close>

definition send_task :: "nat \<Rightarrow> 'task \<Rightarrow> nat \<Rightarrow> 'task world \<Rightarrow> 'task world option" where
  "send_task i t wc w =
     (if chans (stk w) ! wc = [] then Some (goto i SIdle (w\<lparr>stk := send wc (Some t) (stk w), sent := sent w @ [t]\<rparr>)) else None)"

definition hold :: "nat \<Rightarrow> 'task spc \<Rightarrow> 'task world \<Rightarrow> 'task world" where
  "hold i pc w = goto i pc (w\<lparr>stk := (stk w)\<lparr>locked := True\<rparr>\<rparr>)"

text \<open>One round of the loop of \<open>waitForWorker\<close>, and of the loop of \<open>SubmitTimeout\<close>, up to \<open>cond.Wait\<close>.\<close>

definition wait_round :: "nat \<Rightarrow> mode \<Rightarrow> 'task \<Rightarrow> bool \<Rightarrow> 'task world \<Rightarrow> 'task world" where
  "wait_round i m t ex w =
     (if m = Block then
        (if stopped (stk w) then goto i SIdle w
         else (case pop_ready (stk w) of
                 Some (wc, s) \<Rightarrow> goto i (SSend t wc) (w\<lparr>stk := s\<rparr>)
               | None \<Rightarrow> hold i (SHeld m t ex) w))
      else
        (case pop_ready (stk w) of
           Some (wc, s) \<Rightarrow> goto i (SSend t wc) (w\<lparr>stk := s\<rparr>)
         | None \<Rightarrow> (if stopped (stk w) \<or> ex then goto i SIdle w else hold i (SHeld m t ex) w)))"

definition park :: "nat \<Rightarrow> mode \<Rightarrow> 'task \<Rightarrow> bool \<Rightarrow> 'task world \<Rightarrow> 'task world" where
  "park i m t ex w = goto i (SBlocked m t ex) (w\<lparr>stk := (stk w)\<lparr>locked := False\<rparr>\<rparr>)"

text \<open>The timer of \<open>SubmitTimeout\<close>: the token expires and all waiters are woken.\<close>

fun expire :: "'task spc \<Rightarrow> 'task spc option" where
  "expire (SWait (Timed d) t ex) = Some (SWait (Timed d) t True)"
| "expire (SHeld (Timed d) t ex) = Some (SHeld (Timed d) t True)"
| "expire (SBlocked (Timed d) t ex) = Some (SBlocked (Timed d) t True)"
| "expire pc = None"

definition fire :: "nat \<Rightarrow> 'task world \<Rightarrow> 'task world option" where
  "fire i w = (case expire (subs w ! i) of None \<Rightarrow> None | Some pc \<Rightarrow> Some (broadcast (goto i pc w)))"

text \<open>\<open>Stop\<close>: its compare-and-swap, and the section that ends the idle workers.\<close>

definition call_stop :: "nat \<Rightarrow> 'task world \<Rightarrow> 'task world" where
  "call_stop i w = (if stopped (stk w) then w else goto i TClose (w\<lparr>stk := (stk w)\<lparr>stopped := True\<rparr>\<rparr>))"

definition stop_ready :: "nat \<Rightarrow> 'task world \<Rightarrow> 'task world option" where
  "stop_ready i w =
     (if \<exists>wc \<in> set (ready (stk w)). chans (stk w) ! wc \<noteq> [] then None
      else Some (goto i TDone (w\<lparr>stk := (fold (\<lambda>wc. send wc None) (ready (stk w)) (stk w))\<lparr>ready := []\<rparr>\<rparr>)))"

definition sub_next :: "nat \<Rightarrow> nat \<Rightarrow> 'task world \<Rightarrow> 'task world option" where
  "sub_next i c w =
     (case subs w ! i of
        SIdle \<Rightarrow> None
      | SGet m t \<Rightarrow> (if locked (stk w) then None else Some (get_worker i m t w))
      | SLoad m t \<Rightarrow> Some (load_running i m t w)
      | SCas m t cur \<Rightarrow> Some (cas_running i m t cur w)
      | SSpawn t \<Rightarrow> Some (spawn i c t w)
      | SSend t wc \<Rightarrow> send_task i t wc w
      | SWait m t ex \<Rightarrow> (if locked (stk w) then None else Some (wait_round i m t ex w))
      | SHeld m t ex \<Rightarrow> Some (park i m t ex w)
      | SBlocked m t ex \<Rightarrow> None
      | TClose \<Rightarrow> Some (goto i TBroadcast (w\<lparr>stk := (stk w)\<lparr>closed := True\<rparr>\<rparr>))
      | TBroadcast \<Rightarrow> Some (goto i TLock (broadcast w))
      | TLock \<Rightarrow> (if locked (stk w) then None else stop_ready i w)
      | TDone \<Rightarrow> (if cleaner w = KDone then Some (goto i TWait w) else None)
      | TWait \<Rightarrow> (if \<forall>pc \<in> set (workers w). pc = WGone then Some (goto i SIdle w) else None))"

text \<open>A worker that ends empties its channel before the channel goes back to the pool.\<close>

fun drainChan :: "'task option list \<Rightarrow> 'task option list" where
  "drainChan (m # ms) = drainChan ms"
| "drainChan [] = []"

lemma drainChan_empty [simp]: "drainChan ms = []"
  by (induction ms) auto

text \<open>The loop of a worker. \<open>outcome\<close> tells how a task ends, \<open>handler\<close> whether there is a panic handler.\<close>

definition set_worker :: "nat \<Rightarrow> 'task wpc \<Rightarrow> 'task world \<Rightarrow> 'task world" where
  "set_worker i pc w = w\<lparr>workers := (workers w)[i := pc]\<rparr>"

definition recv :: "nat \<Rightarrow> nat \<Rightarrow> 'task world \<Rightarrow> 'task world option" where
  "recv i wc w =
     (case chans (stk w) ! wc of
        [] \<Rightarrow> None
      | m # ms \<Rightarrow> Some (set_worker i (case m of None \<Rightarrow> WExit wc | Some t \<Rightarrow> WRun wc t)
          (w\<lparr>stk := (stk w)\<lparr>chans := (chans (stk w))[wc := ms]\<rparr>\<rparr>)))"

definition safeRun :: "('task \<Rightarrow> string option) \<Rightarrow> bool \<Rightarrow> 'task \<Rightarrow> 'task world \<Rightarrow> 'task world" where
  "safeRun outcome handler t w =
     w\<lparr>stk := (stk w)\<lparr>panics := panicSafeRun (outcome t) handler (panics (stk w))\<rparr>, ran := ran w @ [t]\<rparr>"

definition push_ready :: "nat \<Rightarrow> nat \<Rightarrow> int \<Rightarrow> nat \<Rightarrow> 'task world \<Rightarrow> 'task world option" where
  "push_ready i wc now j w =
     (if stopped (stk w) then Some (set_worker i (WExit wc) w)
      else (case signal j (subs w) of
              None \<Rightarrow> None
            | Some pcs \<Rightarrow> Some (set_worker i (WRecv wc)
                (w\<lparr>stk := (stk w)\<lparr>ready := ready (stk w) @ [wc], lastUse := (lastUse (stk w))(wc := now)\<rparr>, subs := pcs\<rparr>))))"

definition worker_next :: "('task \<Rightarrow> string option) \<Rightarrow> bool \<Rightarrow> nat \<Rightarrow> int \<Rightarrow> nat \<Rightarrow> 'task world \<Rightarrow> 'task world option" where
  "worker_next outcome handler i now j w =
     (case workers w ! i of
        WRecv wc \<Rightarrow> recv i wc w
      | WRun wc t \<Rightarrow> Some (set_worker i (WCheck wc) (safeRun outcome handler t w))
      | WCheck wc \<Rightarrow> Some (set_worker i (if stopped (stk w) then WExit wc else WPush wc) w)
      | WPush wc \<Rightarrow> (if locked (stk w) then None else push_ready i wc now j w)
      | WExit wc \<Rightarrow> Some (set_worker i WDec
          (w\<lparr>stk := (stk w)\<lparr>chans := (chans (stk w))[wc := drainChan (chans (stk w) ! wc)], chanPool := chanPool (stk w) @ [wc]\<rparr>\<rparr>))
      | WDec \<Rightarrow> Some (set_worker i WDone (w\<lparr>stk := (stk w)\<lparr>running := running (stk w) - 1\<rparr>\<rparr>))
      | WDone \<Rightarrow> Some (set_worker i WGone w)
      | WGone \<Rightarrow> None)"

text \<open>The cleaner: a sweep of the stack from its bottom, the non-blocking sends, and its end.\<close>

definition cleanup :: "int \<Rightarrow> 'task world \<Rightarrow> 'task world" where
  "cleanup deadline w =
     (let s = stk w; old = takeWhile (\<lambda>wc. lastUse s wc < deadline) (ready s)
      in w\<lparr>stk := s\<lparr>ready := drop (length old) (ready s)\<rparr>, cleaner := KSend old\<rparr>)"

definition cleaner_next :: "int \<Rightarrow> 'task world \<Rightarrow> 'task world option" where
  "cleaner_next deadline w =
     (case cleaner w of
        KIdle \<Rightarrow> (if locked (stk w) then None else Some (cleanup deadline w))
      | KSend [] \<Rightarrow> Some (w\<lparr>cleaner := KIdle\<rparr>)
      | KSend (wc # wcs) \<Rightarrow>
          Some (if chans (stk w) ! wc = [] then w\<lparr>stk := send wc None (stk w), cleaner := KSend wcs\<rparr> else w\<lparr>cleaner := KSend wcs\<rparr>)
      | KDone \<Rightarrow> None)"

text \<open>
  Once \<open>stop\<close> is closed the \<open>select\<close> of the cleaner may take it, or still take a tick that is ready; which
  one is a choice of the schedule.
\<close>

definition cleaner_end :: "'task world \<Rightarrow> 'task world option" where
  "cleaner_end w = (if cleaner w = KIdle \<and> closed (stk w) then Some (w\<lparr>cleaner := KDone\<rparr>) else None)"

text \<open>A schedule names who makes the next step, and the choices of that step.\<close>

datatype 'task turn = Call nat mode 'task | CallStop nat | Sub nat nat | Fire nat | Work nat int nat | Clean int | CleanEnd

fun stack_exec :: "('task \<Rightarrow> string option) \<Rightarrow> bool \<Rightarrow> 'task turn \<Rightarrow> 'task world \<Rightarrow> 'task world option" where
  "stack_exec oc h (Call i m t) w = (if i < length (subs w) \<and> subs w ! i = SIdle then Some (call i m t w) else None)"
| "stack_exec oc h (CallStop i) w = (if i < length (subs w) \<and> subs w ! i = SIdle then Some (call_stop i w) else None)"
| "stack_exec oc h (Sub i c) w = (if i < length (subs w) then sub_next i c w else None)"
| "stack_exec oc h (Fire i) w = (if i < length (subs w) then fire i w else None)"
| "stack_exec oc h (Work i now j) w = (if i < length (workers w) then worker_next oc h i now j w else None)"
| "stack_exec oc h (Clean deadline) w = cleaner_next deadline w"
| "stack_exec oc h CleanEnd w = cleaner_end w"

abbreviation stack_run :: "('task \<Rightarrow> string option) \<Rightarrow> bool \<Rightarrow> 'task turn list \<Rightarrow> 'task world \<Rightarrow> 'task world option" where
  "stack_run oc h \<equiv> runs (stack_exec oc h)"

definition Stack_Running :: "'task stack \<Rightarrow> int" where "Stack_Running s = running s"
definition Stack_PanicCount :: "'task stack \<Rightarrow> int" where "Stack_PanicCount s = fst (panics s)"

section \<open>Who owns a worker channel\<close>

text \<open>
  What entitles somebody to the next message of channel \<open>c\<close>: an entry of the stack, a caller that is about
  to send, the cleaner, or a message that is already in the channel; and the workers of the channel.
\<close>

fun holds :: "nat \<Rightarrow> 'task spc \<Rightarrow> nat" where
  "holds c (SSend t wc) = of_bool (wc = c)"
| "holds c _ = 0"

fun keeps :: "nat \<Rightarrow> kpc \<Rightarrow> nat" where
  "keeps c (KSend wcs) = count_list wcs c"
| "keeps c _ = 0"

fun listens :: "nat \<Rightarrow> 'task wpc \<Rightarrow> nat" where
  "listens c (WRecv wc) = of_bool (wc = c)"
| "listens c _ = 0"

fun busies :: "nat \<Rightarrow> 'task wpc \<Rightarrow> nat" where
  "busies c (WRun wc t) = of_bool (wc = c)"
| "busies c (WCheck wc) = of_bool (wc = c)"
| "busies c (WPush wc) = of_bool (wc = c)"
| "busies c (WExit wc) = of_bool (wc = c)"
| "busies c _ = 0"

definition waiting :: "nat \<Rightarrow> 'task option list list \<Rightarrow> nat" where
  "waiting c cs = (if c < length cs then length (cs ! c) else 0)"

definition claims :: "nat \<Rightarrow> 'task stack \<Rightarrow> 'task spc list \<Rightarrow> kpc \<Rightarrow> nat" where
  "claims c s pcs k = count_list (ready s) c + total_of (holds c) pcs + keeps c k + waiting c (chans s)"

definition owner_inv :: "'task stack \<Rightarrow> 'task spc list \<Rightarrow> 'task wpc list \<Rightarrow> kpc \<Rightarrow> bool" where
  "owner_inv s pcs ws k \<longleftrightarrow> (\<forall>c. claims c s pcs k = total_of (listens c) ws \<and>
     total_of (listens c) ws + total_of (busies c) ws + count_list (chanPool s) c \<le> of_bool (c < length (chans s)))"

lemma owner_claims: "owner_inv s pcs ws k \<Longrightarrow> claims c s pcs k = total_of (listens c) ws"
  by (simp add: owner_inv_def)

lemma owner_one: "owner_inv s pcs ws k \<Longrightarrow>
    total_of (listens c) ws + total_of (busies c) ws + count_list (chanPool s) c \<le> of_bool (c < length (chans s))"
  by (simp add: owner_inv_def)

lemma owner_invI:
  assumes "owner_inv s pcs ws k" "\<And>c. claims c s' pcs' k' = claims c s pcs k"
    "length (chans s') = length (chans s)" "chanPool s' = chanPool s"
  shows "owner_inv s' pcs' ws k'"
  using assms by (simp add: owner_inv_def)

lemma owner_move:
  assumes "owner_inv s pcs ws k" "\<And>c. claims c s' pcs' k' + total_of (listens c) ws = claims c s pcs k + total_of (listens c) ws'"
    "\<And>c. total_of (listens c) ws' + total_of (busies c) ws' + count_list (chanPool s') c
       \<le> total_of (listens c) ws + total_of (busies c) ws + count_list (chanPool s) c"
    "length (chans s') = length (chans s)"
  shows "owner_inv s' pcs' ws' k'"
  unfolding owner_inv_def
proof (intro allI conjI)
  show "claims c s' pcs' k' = total_of (listens c) ws'" for c using assms(2) [of c] owner_claims [OF assms(1), of c] by simp
  show "total_of (listens c) ws' + total_of (busies c) ws' + count_list (chanPool s') c \<le> of_bool (c < length (chans s'))" for c
    using assms(3) [of c] owner_one [OF assms(1), of c] by (simp add: assms(4))
qed

lemma owner_goto:
  assumes "owner_inv s (ys @ pc # zs) ws k" "\<And>c. holds c pc' = holds c pc"
    "ready s' = ready s" "chans s' = chans s" "chanPool s' = chanPool s"
  shows "owner_inv s' (ys @ pc' # zs) ws k"
  by (rule owner_invI [OF assms(1)]) (simp_all add: claims_def assms(2-5))

lemma pop_ready_Some:
  assumes "pop_ready s = Some (wc, s')"
  shows "ready s = ready s' @ [wc]" "s' = s\<lparr>ready := ready s'\<rparr>"
  using assms by (auto simp: pop_ready_def split: if_splits)

lemma owner_pop:
  assumes "owner_inv s (ys @ pc # zs) ws k" "\<And>c. holds c pc = 0" "pop_ready s = Some (wc, s')"
  shows "owner_inv s' (ys @ SSend t wc # zs) ws k"
proof (rule owner_invI [OF assms(1)])
  note p = pop_ready_Some [OF assms(3)]
  have c: "chans s' = chans s" "chanPool s' = chanPool s" by (subst p(2), simp)+
  then show "length (chans s') = length (chans s)" "chanPool s' = chanPool s" by simp_all
  show "claims c s' (ys @ SSend t wc # zs) k = claims c s (ys @ pc # zs) k" for c
    by (simp add: claims_def assms(2) p(1) c)
qed

lemma waiting_send: "wc < length cs \<Longrightarrow> waiting c (cs[wc := cs ! wc @ [m]]) = waiting c cs + of_bool (wc = c)"
  by (simp add: waiting_def nth_list_update)

text \<open>Whoever may send to a channel finds it empty, with exactly one worker listening and no other claim.\<close>

lemma claimed:
  assumes "owner_inv s pcs ws k" "0 < count_list (ready s) c + total_of (holds c) pcs + keeps c k"
  shows "c < length (chans s)" "chans s ! c = []" "count_list (ready s) c + total_of (holds c) pcs + keeps c k = 1"
    "total_of (listens c) ws = 1" "total_of (busies c) ws = 0" "count_list (chanPool s) c = 0"
proof -
  have a: "count_list (ready s) c + total_of (holds c) pcs + keeps c k + waiting c (chans s) = total_of (listens c) ws"
    using owner_claims [OF assms(1), of c] by (simp add: claims_def)
  have b: "total_of (listens c) ws + total_of (busies c) ws + count_list (chanPool s) c \<le> of_bool (c < length (chans s))"
    by (rule owner_one [OF assms(1)])
  show l: "c < length (chans s)" using a b assms(2) by (cases "c < length (chans s)") auto
  then show "count_list (ready s) c + total_of (holds c) pcs + keeps c k = 1" "total_of (listens c) ws = 1"
    "total_of (busies c) ws = 0" "count_list (chanPool s) c = 0"
    using a b assms(2) by auto
  then have "waiting c (chans s) = 0" using a by simp
  then show "chans s ! c = []" using l by (simp add: waiting_def)
qed

lemma owner_send:
  assumes "owner_inv s (ys @ SSend t wc # zs) ws k"
  shows "owner_inv (send wc m s) (ys @ SIdle # zs) ws k"
proof (rule owner_invI [OF assms])
  have "wc < length (chans s)" using claimed(1) [OF assms, of wc] by simp
  then show "claims c (send wc m s) (ys @ SIdle # zs) k = claims c s (ys @ SSend t wc # zs) k" for c
    by (simp add: claims_def send_def waiting_send)
qed (simp_all add: send_def)

lemma owner_clean_send:
  assumes "owner_inv s pcs ws (KSend (wc # wcs))"
  shows "owner_inv (send wc m s) pcs ws (KSend wcs)" "chans s ! wc = []"
proof -
  have "wc < length (chans s)" using claimed(1) [OF assms, of wc] by simp
  then have "claims c (send wc m s) pcs (KSend wcs) = claims c s pcs (KSend (wc # wcs))" for c
    by (simp add: claims_def send_def waiting_send)
  then show "owner_inv (send wc m s) pcs ws (KSend wcs)" by (rule owner_invI [OF assms]) (simp_all add: send_def)
  show "chans s ! wc = []" using claimed(2) [OF assms, of wc] by simp
qed

text \<open>The section of \<open>Stop\<close> turns every entry of the stack into a message.\<close>

lemma send_fields [simp]: "ready (send wc m s) = ready s" "chanPool (send wc m s) = chanPool s" "length (chans (send wc m s)) = length (chans s)"
  "running (send wc m s) = running s" "maxWorkers (send wc m s) = maxWorkers s" "panics (send wc m s) = panics s" "stopped (send wc m s) = stopped s"
  by (simp_all add: send_def)

lemma send_all_fields [simp]:
  "ready (fold (\<lambda>wc. send wc None) wcs s) = ready s" "chanPool (fold (\<lambda>wc. send wc None) wcs s) = chanPool s"
  "length (chans (fold (\<lambda>wc. send wc None) wcs s)) = length (chans s)" "running (fold (\<lambda>wc. send wc None) wcs s) = running s"
  "maxWorkers (fold (\<lambda>wc. send wc None) wcs s) = maxWorkers s" "panics (fold (\<lambda>wc. send wc None) wcs s) = panics s"
  by (induction wcs arbitrary: s) simp_all

lemma waiting_send_all:
  "\<forall>wc \<in> set wcs. wc < length (chans s) \<Longrightarrow> waiting c (chans (fold (\<lambda>wc. send wc None) wcs s)) = waiting c (chans s) + count_list wcs c"
proof (induction wcs arbitrary: s)
  case (Cons wc wcs)
  then have "waiting c (chans (fold (\<lambda>wc. send wc None) wcs (send wc None s))) = waiting c (chans (send wc None s)) + count_list wcs c"
    by simp
  moreover have "waiting c (chans (send wc None s)) = waiting c (chans s) + of_bool (wc = c)"
    using Cons.prems by (simp add: send_def waiting_send)
  ultimately show ?case by simp
qed simp

lemma ready_claim: "owner_inv s pcs ws k \<Longrightarrow> wc \<in> set (ready s) \<Longrightarrow> wc < length (chans s) \<and> chans s ! wc = []"
  using claimed(1,2) [of s pcs ws k wc] count_list_0_iff [of "ready s" wc] by auto

lemma owner_stop:
  assumes "owner_inv s (ys @ pc # zs) ws k" "\<And>c. holds c pc = 0" "\<And>c. holds c pc' = 0"
  shows "owner_inv ((fold (\<lambda>wc. send wc None) (ready s) s)\<lparr>ready := []\<rparr>) (ys @ pc' # zs) ws k"
proof (rule owner_invI [OF assms(1)])
  have "\<forall>wc \<in> set (ready s). wc < length (chans s)" using ready_claim [OF assms(1)] by blast
  then show "claims c ((fold (\<lambda>wc. send wc None) (ready s) s)\<lparr>ready := []\<rparr>) (ys @ pc' # zs) k = claims c s (ys @ pc # zs) k" for c
    by (simp add: claims_def assms(2,3) waiting_send_all)
qed simp_all

lemma count_remove:
  assumes "n < length xs"
  shows "count_list xs x = count_list (take n xs @ drop (Suc n) xs) x + of_bool (xs ! n = x)"
  by (subst id_take_nth_drop [OF assms]) simp

lemma owner_spawn_pooled:
  assumes "owner_inv s (ys @ SSpawn t # zs) ws k" "n < length (chanPool s)"
  shows "owner_inv (s\<lparr>chanPool := take n (chanPool s) @ drop (Suc n) (chanPool s)\<rparr>)
    (ys @ SSend t (chanPool s ! n) # zs) (ws @ [WRecv (chanPool s ! n)]) k"
  by (rule owner_move [OF assms(1)]) (simp_all add: claims_def count_remove [OF assms(2)])

lemma waiting_append [simp]: "waiting c (cs @ [[]]) = waiting c cs"
  by (simp add: waiting_def nth_append less_Suc_eq)

lemma owner_spawn_new:
  assumes "owner_inv s (ys @ SSpawn t # zs) ws k"
  shows "owner_inv (s\<lparr>chans := chans s @ [[]]\<rparr>) (ys @ SSend t (length (chans s)) # zs) (ws @ [WRecv (length (chans s))]) k"
  unfolding owner_inv_def
proof (intro allI)
  fix c
  show "claims c (s\<lparr>chans := chans s @ [[]]\<rparr>) (ys @ SSend t (length (chans s)) # zs) k = total_of (listens c) (ws @ [WRecv (length (chans s))]) \<and>
    total_of (listens c) (ws @ [WRecv (length (chans s))]) + total_of (busies c) (ws @ [WRecv (length (chans s))]) +
      count_list (chanPool (s\<lparr>chans := chans s @ [[]]\<rparr>)) c
    \<le> of_bool (c < length (chans (s\<lparr>chans := chans s @ [[]]\<rparr>)))"
    using owner_claims [OF assms, of c] owner_one [OF assms, of c] by (auto simp: claims_def split: if_splits)
qed

lemma waiting_recv: "wc < length cs \<Longrightarrow> cs ! wc = m # ms \<Longrightarrow> waiting c cs = waiting c (cs[wc := ms]) + of_bool (wc = c)"
  by (auto simp: waiting_def nth_list_update)

lemma worker_chan:
  assumes "owner_inv s pcs ws k" "0 < total_of (listens wc) ws + total_of (busies wc) ws"
  shows "wc < length (chans s)"
  using owner_one [OF assms(1), of wc] assms(2) by (cases "wc < length (chans s)") auto

lemma owner_recv:
  assumes "owner_inv s pcs (us @ WRecv wc # vs) k" "chans s ! wc = m # ms" "\<And>c. listens c pc = 0" "\<And>c. busies c pc = of_bool (wc = c)"
  shows "owner_inv (s\<lparr>chans := (chans s)[wc := ms]\<rparr>) pcs (us @ pc # vs) k"
proof -
  have "wc < length (chans s)" using worker_chan [OF assms(1), of wc] by simp
  note w = waiting_recv [OF this assms(2)]
  show ?thesis by (rule owner_move [OF assms(1)]) (simp_all add: claims_def assms(3,4) w)
qed

lemma owner_worker:
  assumes "owner_inv s pcs (us @ pc # vs) k" "\<And>c. listens c pc' = listens c pc" "\<And>c. busies c pc' = busies c pc"
    "ready s' = ready s" "chans s' = chans s" "chanPool s' = chanPool s"
  shows "owner_inv s' pcs (us @ pc' # vs) k"
  using assms by (simp add: owner_inv_def claims_def)

lemma owner_push:
  assumes "owner_inv s pcs (us @ WPush wc # vs) k" "\<And>c. total_of (holds c) pcs' = total_of (holds c) pcs"
  shows "owner_inv (s\<lparr>ready := ready s @ [wc], lastUse := f\<rparr>) pcs' (us @ WRecv wc # vs) k"
  by (rule owner_move [OF assms(1)]) (simp_all add: claims_def assms(2))

text \<open>A worker that ends leaves an empty channel: \<open>drainChan\<close> has nothing to discard.\<close>

lemma busy_empty:
  assumes "owner_inv s pcs (us @ pc # vs) k" "busies wc pc = 1"
  shows "wc < length (chans s)" "chans s ! wc = []"
proof -
  show l: "wc < length (chans s)" by (rule worker_chan [OF assms(1)]) (simp add: assms(2))
  have "waiting wc (chans s) = 0"
    using owner_claims [OF assms(1), of wc] owner_one [OF assms(1), of wc] assms(2) l by (simp add: claims_def)
  then show "chans s ! wc = []" using l by (simp add: waiting_def)
qed

lemma owner_exit:
  assumes "owner_inv s pcs (us @ WExit wc # vs) k"
  shows "owner_inv (s\<lparr>chans := (chans s)[wc := []], chanPool := chanPool s @ [wc]\<rparr>) pcs (us @ WDec # vs) k"
proof -
  have "chans s ! wc = []" by (rule busy_empty [OF assms]) simp
  then have "(chans s)[wc := []] = chans s" by (metis list_update_id)
  then show ?thesis by (intro owner_move [OF assms]) (simp_all add: claims_def)
qed

lemma owner_cleanup:
  assumes "owner_inv s pcs ws KIdle" "ready s = old @ rest"
  shows "owner_inv (s\<lparr>ready := rest\<rparr>) pcs ws (KSend old)"
  by (rule owner_invI [OF assms(1)]) (simp_all add: claims_def assms(2))

section \<open>Counting workers and tasks\<close>

fun spawning :: "'task spc \<Rightarrow> int" where
  "spawning (SSpawn t) = 1"
| "spawning _ = 0"

fun alive :: "'task wpc \<Rightarrow> int" where
  "alive WDone = 0"
| "alive WGone = 0"
| "alive _ = 1"

fun working :: "'task wpc \<Rightarrow> 'task multiset" where
  "working (WRun wc t) = {#t#}"
| "working _ = {#}"

fun tasks_in :: "'task option list \<Rightarrow> 'task multiset" where
  "tasks_in [] = {#}"
| "tasks_in (None # ms) = tasks_in ms"
| "tasks_in (Some t # ms) = add_mset t (tasks_in ms)"

definition count_inv :: "'task stack \<Rightarrow> 'task spc list \<Rightarrow> 'task wpc list \<Rightarrow> bool" where
  "count_inv s pcs ws \<longleftrightarrow> running s = total_of alive ws + total_of spawning pcs \<and> (0 < maxWorkers s \<longrightarrow> running s \<le> maxWorkers s) \<and>
     (\<forall>m t cur. SCas m t cur \<in> set pcs \<longrightarrow> 0 < maxWorkers s \<longrightarrow> cur < maxWorkers s)"

definition task_inv :: "'task stack \<Rightarrow> 'task wpc list \<Rightarrow> 'task list \<Rightarrow> 'task list \<Rightarrow> bool" where
  "task_inv s ws snt fin \<longleftrightarrow> mset snt = mset fin + total_of tasks_in (chans s) + total_of working ws"

definition panic_inv :: "('task \<Rightarrow> string option) \<Rightarrow> bool \<Rightarrow> 'task stack \<Rightarrow> 'task list \<Rightarrow> bool" where
  "panic_inv oc h s fin \<longleftrightarrow> panics s = fold (\<lambda>t. panicSafeRun (oc t) h) fin (0, [])"

definition stack_inv :: "('task \<Rightarrow> string option) \<Rightarrow> bool \<Rightarrow> 'task world \<Rightarrow> bool" where
  "stack_inv oc h w \<longleftrightarrow> owner_inv (stk w) (subs w) (workers w) (cleaner w) \<and> count_inv (stk w) (subs w) (workers w) \<and>
     task_inv (stk w) (workers w) (sent w) (ran w) \<and> panic_inv oc h (stk w) (ran w)"

section \<open>The steps keep the invariant\<close>

lemma goto_at: "subs w = ys @ pc # zs \<Longrightarrow> i = length ys \<Longrightarrow> subs (goto i pc' w) = ys @ pc' # zs"
  by (simp add: goto_def)

lemma goto_fields [simp]: "stk (goto i pc w) = stk w" "workers (goto i pc w) = workers w" "cleaner (goto i pc w) = cleaner w"
  "sent (goto i pc w) = sent w" "ran (goto i pc w) = ran w" "length (subs (goto i pc w)) = length (subs w)"
  by (simp_all add: goto_def)

lemma goto_stk: "subs (w\<lparr>stk := s\<rparr>) = subs w" by simp

lemma count_goto:
  assumes "count_inv s (ys @ pc # zs) ws" "running s' + spawning pc = running s + spawning pc'" "maxWorkers s' = maxWorkers s"
    "0 < maxWorkers s \<Longrightarrow> running s' \<le> maxWorkers s" "\<And>m t cur. pc' = SCas m t cur \<Longrightarrow> 0 < maxWorkers s \<Longrightarrow> cur < maxWorkers s"
  shows "count_inv s' (ys @ pc' # zs) ws"
  using assms by (auto simp: count_inv_def)

lemma inv_goto:
  assumes "stack_inv oc h w" "subs w = ys @ pc # zs" "i = length ys" "\<And>c. holds c pc' = holds c pc"
    "ready s' = ready (stk w)" "chans s' = chans (stk w)" "chanPool s' = chanPool (stk w)" "panics s' = panics (stk w)"
    "maxWorkers s' = maxWorkers (stk w)" "running s' + spawning pc = running (stk w) + spawning pc'"
    "0 < maxWorkers (stk w) \<Longrightarrow> running s' \<le> maxWorkers (stk w)"
    "\<And>m t cur. pc' = SCas m t cur \<Longrightarrow> 0 < maxWorkers (stk w) \<Longrightarrow> cur < maxWorkers (stk w)"
  shows "stack_inv oc h (goto i pc' (w\<lparr>stk := s'\<rparr>))"
proof -
  have a: "subs (goto i pc' (w\<lparr>stk := s'\<rparr>)) = ys @ pc' # zs" by (rule goto_at) (use assms(2,3) in simp_all)
  have inv: "owner_inv (stk w) (ys @ pc # zs) (workers w) (cleaner w)" "count_inv (stk w) (ys @ pc # zs) (workers w)"
    using assms(1) unfolding stack_inv_def assms(2) by blast+
  have "owner_inv s' (ys @ pc' # zs) (workers w) (cleaner w)" by (rule owner_goto [OF inv(1) assms(4-7)])
  moreover have "count_inv s' (ys @ pc' # zs) (workers w)" by (rule count_goto [OF inv(2) assms(10,9,11,12)])
  ultimately show ?thesis using assms(1) unfolding stack_inv_def a by (simp add: task_inv_def panic_inv_def assms(6,8))
qed

lemma inv_running: "stack_inv oc h w \<Longrightarrow> 0 < maxWorkers (stk w) \<Longrightarrow> running (stk w) \<le> maxWorkers (stk w)"
  by (simp add: stack_inv_def count_inv_def)

lemma inv_goto_pc:
  assumes "stack_inv oc h w" "subs w = ys @ pc # zs" "i = length ys" "\<And>c. holds c pc' = holds c pc" "spawning pc' = spawning pc"
    "\<And>m t cur. pc' = SCas m t cur \<Longrightarrow> 0 < maxWorkers (stk w) \<Longrightarrow> cur < maxWorkers (stk w)"
  shows "stack_inv oc h (goto i pc' w)"
  using inv_goto [OF assms(1-4), of "stk w"] assms(5,6) inv_running [OF assms(1)] by simp

lemma inv_pop:
  assumes "stack_inv oc h w" "subs w = ys @ pc # zs" "i = length ys" "\<And>c. holds c pc = 0" "spawning pc = 0" "pop_ready (stk w) = Some (wc, s')"
  shows "stack_inv oc h (goto i (SSend t wc) (w\<lparr>stk := s'\<rparr>))"
proof -
  have a: "subs (goto i (SSend t wc) (w\<lparr>stk := s'\<rparr>)) = ys @ SSend t wc # zs" by (rule goto_at) (use assms(2,3) in simp_all)
  have inv: "owner_inv (stk w) (ys @ pc # zs) (workers w) (cleaner w)" "count_inv (stk w) (ys @ pc # zs) (workers w)"
    using assms(1) unfolding stack_inv_def assms(2) by blast+
  note p = pop_ready_Some(2) [OF assms(6)]
  have f: "running s' = running (stk w)" "maxWorkers s' = maxWorkers (stk w)" "chans s' = chans (stk w)" "panics s' = panics (stk w)"
    by (subst p, simp)+
  have "owner_inv s' (ys @ SSend t wc # zs) (workers w) (cleaner w)" by (rule owner_pop [OF inv(1) assms(4,6)])
  moreover have "count_inv s' (ys @ SSend t wc # zs) (workers w)"
    by (rule count_goto [OF inv(2)]) (use inv_running [OF assms(1)] assms(5) in \<open>simp_all add: f\<close>)
  ultimately show ?thesis using assms(1) unfolding stack_inv_def a by (simp add: task_inv_def panic_inv_def f)
qed

lemma at_limit_pc [simp]: "holds c (at_limit m t) = 0" "spawning (at_limit m t) = 0" "at_limit m t \<noteq> SCas m' t' cur"
  by (cases m; simp)+

lemma unpark_pc [simp]: "holds c (unpark pc) = holds c pc" "spawning (unpark pc) = spawning pc" "(unpark pc = SCas m t cur) = (pc = SCas m t cur)"
  "(SCas m t cur = unpark pc) = (pc = SCas m t cur)"
  by (cases pc; auto)+

lemma inv_subs:
  assumes "stack_inv oc h w" "\<And>c. total_of (holds c) pcs = total_of (holds c) (subs w)" "total_of spawning pcs = total_of spawning (subs w)"
    "\<And>m t cur. SCas m t cur \<in> set pcs \<Longrightarrow> SCas m t cur \<in> set (subs w)"
  shows "stack_inv oc h (w\<lparr>subs := pcs\<rparr>)"
proof -
  have "owner_inv (stk w) pcs (workers w) (cleaner w)"
    using assms(1,2) by (auto simp: stack_inv_def claims_def intro: owner_invI)
  moreover have "count_inv (stk w) pcs (workers w)" using assms(1,3,4) unfolding stack_inv_def count_inv_def by force
  ultimately show ?thesis using assms(1) by (simp add: stack_inv_def)
qed

lemma inv_broadcast: "stack_inv oc h w \<Longrightarrow> stack_inv oc h (broadcast w)"
  unfolding broadcast_def by (rule inv_subs) (auto simp: total_of_map)

lemma signal_totals:
  assumes "signal j pcs = Some pcs'"
  shows "total_of (holds c) pcs' = total_of (holds c) pcs" "total_of spawning pcs' = total_of spawning pcs"
    "SCas m t cur \<in> set pcs' \<Longrightarrow> SCas m t cur \<in> set pcs"
proof -
  have "pcs' = pcs \<or> (\<exists>ys pc zs. pcs = ys @ pc # zs \<and> pcs' = ys @ unpark pc # zs)"
    using assms id_take_nth_drop [of j pcs] by (fastforce simp: signal_def upd_conv_take_nth_drop split: if_splits)
  then show "total_of (holds c) pcs' = total_of (holds c) pcs" "total_of spawning pcs' = total_of spawning pcs"
    "SCas m t cur \<in> set pcs' \<Longrightarrow> SCas m t cur \<in> set pcs"
    by auto
qed

lemma sub_split:
  assumes "i < length (subs w)"
  obtains ys zs where "subs w = ys @ (subs w ! i) # zs" "i = length ys"
  using split_at [OF assms] by metis

lemma call_inv:
  assumes "stack_inv oc h w" "i < length (subs w)" "subs w ! i = SIdle"
  shows "stack_inv oc h (call i m t w)" "stack_inv oc h (call_stop i w)"
proof -
  obtain ys zs where d: "subs w = ys @ SIdle # zs" "i = length ys" using sub_split [OF assms(2)] assms(3) by metis
  show "stack_inv oc h (call i m t w)" unfolding call_def using assms(1) by (auto intro!: inv_goto_pc [OF _ d])
  show "stack_inv oc h (call_stop i w)"
    unfolding call_stop_def using assms(1) inv_running [OF assms(1)] by (auto intro!: inv_goto [OF _ d])
qed

lemma get_worker_inv:
  assumes "stack_inv oc h w" "subs w = ys @ SGet m t # zs" "i = length ys"
  shows "stack_inv oc h (get_worker i m t w)"
proof (cases "pop_ready (stk w)")
  case None
  then show ?thesis unfolding get_worker_def by (auto intro!: inv_goto_pc [OF assms])
next
  case (Some p)
  then show ?thesis unfolding get_worker_def by (cases p) (auto intro!: inv_pop [OF assms])
qed

lemma wait_round_inv:
  assumes "stack_inv oc h w" "subs w = ys @ SWait m t ex # zs" "i = length ys"
  shows "stack_inv oc h (wait_round i m t ex w)"
proof (cases "pop_ready (stk w)")
  case None
  then show ?thesis unfolding wait_round_def hold_def using inv_running [OF assms(1)]
    by (auto intro!: inv_goto_pc [OF assms] inv_goto [OF assms])
next
  case (Some p)
  then show ?thesis unfolding wait_round_def by (cases p) (auto intro!: inv_pop [OF assms] inv_goto_pc [OF assms])
qed

lemma cas_inv:
  assumes "stack_inv oc h w" "subs w = ys @ SCas m t cur # zs" "i = length ys"
  shows "stack_inv oc h (cas_running i m t cur w)"
proof -
  have "cur < maxWorkers (stk w)" if "0 < maxWorkers (stk w)"
    using assms(1) that unfolding stack_inv_def assms(2) count_inv_def by auto
  then show ?thesis unfolding cas_running_def by (auto intro!: inv_goto_pc [OF assms] inv_goto [OF assms])
qed

lemma tasks_in_append: "tasks_in (xs @ ys) = tasks_in xs + tasks_in ys"
  by (induction xs rule: tasks_in.induct) simp_all

lemma tasks_in_send:
  "wc < length cs \<Longrightarrow> total_of tasks_in (cs[wc := cs ! wc @ [m]]) = total_of tasks_in cs + tasks_in [m]"
  by (subst (2) id_take_nth_drop) (simp_all add: upd_conv_take_nth_drop tasks_in_append ac_simps)

lemma tasks_in_recv:
  "wc < length cs \<Longrightarrow> cs ! wc = m # ms \<Longrightarrow> total_of tasks_in cs = total_of tasks_in (cs[wc := ms]) + tasks_in [m]"
  by (subst id_take_nth_drop [of wc cs]) (simp_all add: upd_conv_take_nth_drop tasks_in_append [of "[m]" ms, simplified] ac_simps)

lemma spawn_inv:
  assumes "stack_inv oc h w" "subs w = ys @ SSpawn t # zs" "i = length ys"
  shows "stack_inv oc h (spawn i c t w)"
proof -
  have inv: "owner_inv (stk w) (ys @ SSpawn t # zs) (workers w) (cleaner w)" "count_inv (stk w) (ys @ SSpawn t # zs) (workers w)"
    using assms(1) unfolding stack_inv_def assms(2) by blast+
  have count: "count_inv s (ys @ SSend t wc # zs) (workers w @ [WRecv wc])" if "running s = running (stk w)" "maxWorkers s = maxWorkers (stk w)" for s wc
    using inv(2) that by (auto simp: count_inv_def)
  show ?thesis
  proof (cases "c < length (chanPool (stk w))")
    case True
    from owner_spawn_pooled [OF inv(1) this] show ?thesis
      using assms(1) True by (simp add: spawn_def Let_def goto_at assms(2,3) stack_inv_def task_inv_def panic_inv_def count)
  next
    case False
    from owner_spawn_new [OF inv(1)] show ?thesis
      using assms(1) False by (simp add: spawn_def Let_def goto_at assms(2,3) stack_inv_def task_inv_def panic_inv_def count)
  qed
qed

lemma send_inv:
  assumes "stack_inv oc h w" "subs w = ys @ SSend t wc # zs" "i = length ys" "send_task i t wc w = Some w'"
  shows "stack_inv oc h w'"
proof -
  have inv: "owner_inv (stk w) (ys @ SSend t wc # zs) (workers w) (cleaner w)" "count_inv (stk w) (ys @ SSend t wc # zs) (workers w)"
    using assms(1) unfolding stack_inv_def assms(2) by blast+
  have l: "wc < length (chans (stk w))" using claimed(1) [OF inv(1), of wc] by simp
  have c: "count_inv (send wc (Some t) (stk w)) (ys @ SIdle # zs) (workers w)"
    by (rule count_goto [OF inv(2)]) (use inv_running [OF assms(1)] in simp_all)
  have "w' = goto i SIdle (w\<lparr>stk := send wc (Some t) (stk w), sent := sent w @ [t]\<rparr>)"
    using assms(4) by (simp add: send_task_def split: if_splits)
  moreover have "total_of tasks_in (chans (send wc (Some t) (stk w))) = total_of tasks_in (chans (stk w)) + {#t#}"
    by (simp add: send_def tasks_in_send [OF l])
  ultimately show ?thesis using assms(1) owner_send [OF inv(1), of "Some t"] c
    by (simp add: stack_inv_def goto_at assms(2,3) task_inv_def panic_inv_def)
qed

lemma tasks_in_send_all:
  "\<forall>wc \<in> set wcs. wc < length (chans s) \<Longrightarrow> total_of tasks_in (chans (fold (\<lambda>wc. send wc None) wcs s)) = total_of tasks_in (chans s)"
  by (induction wcs arbitrary: s) (simp_all add: send_def tasks_in_send)

lemma stop_inv:
  assumes "stack_inv oc h w" "subs w = ys @ TLock # zs" "i = length ys" "stop_ready i w = Some w'"
  shows "stack_inv oc h w'"
proof -
  let ?s = "(fold (\<lambda>wc. send wc None) (ready (stk w)) (stk w))\<lparr>ready := []\<rparr>"
  have inv: "owner_inv (stk w) (ys @ TLock # zs) (workers w) (cleaner w)" "count_inv (stk w) (ys @ TLock # zs) (workers w)"
    using assms(1) unfolding stack_inv_def assms(2) by blast+
  have "\<forall>wc \<in> set (ready (stk w)). wc < length (chans (stk w))" using ready_claim [OF inv(1)] by blast
  note t = tasks_in_send_all [OF this]
  have c: "count_inv ?s (ys @ TDone # zs) (workers w)"
    by (rule count_goto [OF inv(2)]) (use inv_running [OF assms(1)] in simp_all)
  have o: "owner_inv ?s (ys @ TDone # zs) (workers w) (cleaner w)" by (rule owner_stop [OF inv(1)]) simp_all
  have "w' = goto i TDone (w\<lparr>stk := ?s\<rparr>)" using assms(4) by (simp add: stop_ready_def split: if_splits)
  then show ?thesis using assms(1) o c
    by (simp add: stack_inv_def goto_at assms(2,3) task_inv_def panic_inv_def t)
qed

lemma sub_next_inv:
  assumes "stack_inv oc h w" "i < length (subs w)" "sub_next i c w = Some w'"
  shows "stack_inv oc h w'"
proof -
  obtain ys zs where d: "subs w = ys @ (subs w ! i) # zs" "i = length ys" using sub_split [OF assms(2)] by metis
  note g = inv_goto_pc [OF assms(1) _ d(2)] and gs = inv_goto [OF assms(1) _ d(2)]
  note r = inv_running [OF assms(1)]
  show ?thesis
  proof (cases "subs w ! i")
    case (SGet m t)
    then show ?thesis using assms(3) get_worker_inv [OF assms(1) _ d(2)] d(1) by (auto simp: sub_next_def split: if_splits)
  next
    case (SLoad m t)
    then show ?thesis using assms(3) d(1) r by (auto simp: sub_next_def load_running_def Let_def split: if_splits intro!: g gs)
  next
    case (SCas m t cur)
    then show ?thesis using assms(3) d cas_inv [OF assms(1)] by (auto simp: sub_next_def)
  next
    case (SSpawn t)
    then show ?thesis using assms(3) d spawn_inv [OF assms(1)] by (auto simp: sub_next_def)
  next
    case (SSend t wc)
    then show ?thesis using assms(3) d send_inv [OF assms(1)] by (auto simp: sub_next_def)
  next
    case (SWait m t ex)
    then show ?thesis using assms(3) d wait_round_inv [OF assms(1)] by (auto simp: sub_next_def split: if_splits)
  next
    case (SHeld m t ex)
    then show ?thesis using assms(3) d(1) r by (auto simp: sub_next_def park_def intro!: gs)
  next
    case TLock
    then show ?thesis using assms(3) d stop_inv [OF assms(1)] by (auto simp: sub_next_def split: if_splits)
  next
    case TBroadcast
    then have "w' = goto i TLock (broadcast w)" using assms(3) by (simp add: sub_next_def)
    moreover have "subs (broadcast w) = map unpark ys @ TBroadcast # map unpark zs"
      using TBroadcast by (subst broadcast_def, subst d(1)) simp
    ultimately show ?thesis
      using inv_goto_pc [OF inv_broadcast [OF assms(1)], of "map unpark ys" TBroadcast "map unpark zs" i TLock] d(2) by simp
  qed (use assms(3) d(1) r in \<open>auto simp: sub_next_def split: if_splits intro!: g gs\<close>)
qed

lemma fire_inv:
  assumes "stack_inv oc h w" "i < length (subs w)" "fire i w = Some w'"
  shows "stack_inv oc h w'"
proof -
  obtain ys zs where d: "subs w = ys @ (subs w ! i) # zs" "i = length ys" using sub_split [OF assms(2)] by metis
  obtain pc where pc: "expire (subs w ! i) = Some pc" "w' = broadcast (goto i pc w)"
    using assms(3) by (auto simp: fire_def split: option.splits)
  have "(\<forall>c. holds c pc = holds c (subs w ! i)) \<and> spawning pc = spawning (subs w ! i) \<and> (\<forall>m t cur. pc \<noteq> SCas m t cur)"
    using pc(1) by (cases "subs w ! i" rule: expire.cases) auto
  then show ?thesis unfolding pc(2) by (intro inv_broadcast inv_goto_pc [OF assms(1) d]) auto
qed

lemma set_worker_at: "workers w = us @ pc # vs \<Longrightarrow> i = length us \<Longrightarrow> workers (set_worker i pc' w) = us @ pc' # vs"
  by (simp add: set_worker_def)

lemma set_worker_fields [simp]: "stk (set_worker i pc w) = stk w" "subs (set_worker i pc w) = subs w" "cleaner (set_worker i pc w) = cleaner w"
  "sent (set_worker i pc w) = sent w" "ran (set_worker i pc w) = ran w"
  by (simp_all add: set_worker_def)

lemma count_worker:
  assumes "count_inv s pcs (us @ pc # vs)" "running s' + alive pc = running s + alive pc'" "maxWorkers s' = maxWorkers s" "running s' \<le> running s"
  shows "count_inv s' pcs (us @ pc' # vs)"
  using assms by (auto simp: count_inv_def)

lemma count_same:
  assumes "count_inv s pcs ws" "running s' = running s" "maxWorkers s' = maxWorkers s" "total_of spawning pcs' = total_of spawning pcs"
    "\<And>m t cur. SCas m t cur \<in> set pcs' \<Longrightarrow> SCas m t cur \<in> set pcs" "total_of alive ws' = total_of alive ws"
  shows "count_inv s' pcs' ws'"
  using assms(1,5) unfolding count_inv_def assms(2,3,4,6) by blast

text \<open>A step of a worker that keeps its channel, and what it carries except for a task it finishes.\<close>

lemma inv_worker:
  assumes "stack_inv oc h w" "workers w = us @ pc # vs" "i = length us" "\<And>c. listens c pc' = listens c pc" "\<And>c. busies c pc' = busies c pc"
    "ready s' = ready (stk w)" "chans s' = chans (stk w)" "chanPool s' = chanPool (stk w)" "maxWorkers s' = maxWorkers (stk w)"
    "running s' + alive pc = running (stk w) + alive pc'" "running s' \<le> running (stk w)"
    "mset fin + working pc' = mset (ran w) + working pc" "panic_inv oc h s' fin"
  shows "stack_inv oc h (set_worker i pc' (w\<lparr>stk := s', ran := fin\<rparr>))"
proof -
  have a: "workers (set_worker i pc' (w\<lparr>stk := s', ran := fin\<rparr>)) = us @ pc' # vs" by (rule set_worker_at) (use assms(2,3) in simp_all)
  have inv: "owner_inv (stk w) (subs w) (us @ pc # vs) (cleaner w)" "count_inv (stk w) (subs w) (us @ pc # vs)"
    "task_inv (stk w) (us @ pc # vs) (sent w) (ran w)"
    using assms(1) unfolding stack_inv_def assms(2) by blast+
  have "owner_inv s' (subs w) (us @ pc' # vs) (cleaner w)" by (rule owner_worker [OF inv(1) assms(4-8)])
  moreover have "count_inv s' (subs w) (us @ pc' # vs)" by (rule count_worker [OF inv(2) assms(10,9,11)])
  moreover have "task_inv s' (us @ pc' # vs) (sent w) fin"
  proof -
    have "mset fin + X + (A + (working pc' + B)) = (mset fin + working pc') + X + (A + B)" for X A B by (simp add: ac_simps)
    then show ?thesis using inv(3) assms(12) by (simp add: task_inv_def assms(7) ac_simps)
  qed
  ultimately show ?thesis using assms(13) by (simp add: stack_inv_def a)
qed

lemma worker_split:
  assumes "i < length (workers w)"
  obtains us vs where "workers w = us @ (workers w ! i) # vs" "i = length us"
  using split_at [OF assms] by metis

lemma recv_inv:
  assumes "stack_inv oc h w" "workers w = us @ WRecv wc # vs" "i = length us" "recv i wc w = Some w'"
  shows "stack_inv oc h w'"
proof -
  obtain m ms where m: "chans (stk w) ! wc = m # ms" using assms(4) by (auto simp: recv_def split: list.splits)
  define pc where "pc = (case m of None \<Rightarrow> WExit wc | Some t \<Rightarrow> WRun wc t)"
  have w': "w' = set_worker i pc (w\<lparr>stk := (stk w)\<lparr>chans := (chans (stk w))[wc := ms]\<rparr>\<rparr>)" using assms(4) by (simp add: recv_def m pc_def)
  have inv: "owner_inv (stk w) (subs w) (us @ WRecv wc # vs) (cleaner w)" "count_inv (stk w) (subs w) (us @ WRecv wc # vs)"
    "task_inv (stk w) (us @ WRecv wc # vs) (sent w) (ran w)"
    using assms(1) unfolding stack_inv_def assms(2) by blast+
  have l: "wc < length (chans (stk w))" by (rule worker_chan [OF inv(1)]) simp
  have pc: "\<And>c. listens c pc = 0" "\<And>c. busies c pc = of_bool (wc = c)" "alive pc = 1" "working pc = tasks_in [m]"
    by (simp_all add: pc_def split: option.splits)
  let ?s = "(stk w)\<lparr>chans := (chans (stk w))[wc := ms]\<rparr>"
  have "owner_inv ?s (subs w) (us @ pc # vs) (cleaner w)" by (rule owner_recv [OF inv(1) m pc(1,2)])
  moreover have "count_inv ?s (subs w) (us @ pc # vs)" by (rule count_worker [OF inv(2)]) (simp_all add: pc)
  moreover have "task_inv ?s (us @ pc # vs) (sent w) (ran w)"
    using inv(3) by (simp add: task_inv_def tasks_in_recv [OF l m] pc(4) ac_simps)
  ultimately show ?thesis using assms(1) by (simp add: w' stack_inv_def set_worker_at assms(2,3) panic_inv_def)
qed

lemma push_inv:
  assumes "stack_inv oc h w" "workers w = us @ WPush wc # vs" "i = length us" "push_ready i wc now j w = Some w'"
  shows "stack_inv oc h w'"
proof (cases "stopped (stk w)")
  case True
  then have "w' = set_worker i (WExit wc) (w\<lparr>stk := stk w, ran := ran w\<rparr>)" using assms(4) by (simp add: push_ready_def)
  then show ?thesis using assms(1) by (simp only:, intro inv_worker [OF assms(1-3)]) (auto simp: stack_inv_def)
next
  case False
  then obtain pcs where pcs: "signal j (subs w) = Some pcs" using assms(4) by (auto simp: push_ready_def split: option.splits)
  let ?s = "(stk w)\<lparr>ready := ready (stk w) @ [wc], lastUse := (lastUse (stk w))(wc := now)\<rparr>"
  have w': "w' = set_worker i (WRecv wc) (w\<lparr>stk := ?s, subs := pcs\<rparr>)" using assms(4) False pcs by (simp add: push_ready_def)
  have inv: "owner_inv (stk w) (subs w) (us @ WPush wc # vs) (cleaner w)" "count_inv (stk w) (subs w) (us @ WPush wc # vs)"
    "task_inv (stk w) (us @ WPush wc # vs) (sent w) (ran w)"
    using assms(1) unfolding stack_inv_def assms(2) by blast+
  have "owner_inv ?s pcs (us @ WRecv wc # vs) (cleaner w)" by (rule owner_push [OF inv(1) signal_totals(1) [OF pcs]])
  moreover have "count_inv ?s pcs (us @ WRecv wc # vs)"
    by (rule count_same [OF inv(2)]) (simp_all add: signal_totals(2) [OF pcs] signal_totals(3) [OF pcs])
  moreover have "task_inv ?s (us @ WRecv wc # vs) (sent w) (ran w)" using inv(3) by (simp add: task_inv_def)
  ultimately show ?thesis using assms(1) by (simp add: w' stack_inv_def set_worker_at assms(2,3) panic_inv_def)
qed

lemma exit_inv:
  assumes "stack_inv oc h w" "workers w = us @ WExit wc # vs" "i = length us"
  shows "stack_inv oc h (set_worker i WDec (w\<lparr>stk := (stk w)\<lparr>chans := (chans (stk w))[wc := []], chanPool := chanPool (stk w) @ [wc]\<rparr>\<rparr>))"
proof -
  let ?s = "(stk w)\<lparr>chans := (chans (stk w))[wc := []], chanPool := chanPool (stk w) @ [wc]\<rparr>"
  have inv: "owner_inv (stk w) (subs w) (us @ WExit wc # vs) (cleaner w)" "count_inv (stk w) (subs w) (us @ WExit wc # vs)"
    "task_inv (stk w) (us @ WExit wc # vs) (sent w) (ran w)"
    using assms(1) unfolding stack_inv_def assms(2) by blast+
  have "chans (stk w) ! wc = []" by (rule busy_empty [OF inv(1)]) simp
  then have c: "chans ?s = chans (stk w)" by simp (metis list_update_id)
  have "owner_inv ?s (subs w) (us @ WDec # vs) (cleaner w)" by (rule owner_exit [OF inv(1)])
  moreover have "count_inv ?s (subs w) (us @ WDec # vs)" by (rule count_worker [OF inv(2)]) simp_all
  moreover have "task_inv ?s (us @ WDec # vs) (sent w) (ran w)" using inv(3) unfolding task_inv_def c by simp
  ultimately show ?thesis using assms(1) by (simp add: stack_inv_def set_worker_at assms(2,3) panic_inv_def)
qed

lemma worker_next_inv:
  assumes "stack_inv oc h w" "i < length (workers w)" "worker_next oc h i now j w = Some w'"
  shows "stack_inv oc h w'"
proof -
  obtain us vs where d: "workers w = us @ (workers w ! i) # vs" "i = length us" using worker_split [OF assms(2)] by metis
  have p: "panic_inv oc h (stk w) (ran w)" using assms(1) by (simp add: stack_inv_def)
  note iw = inv_worker [OF assms(1) _ d(2)]
  have same: "w\<lparr>stk := s\<rparr> = w\<lparr>stk := s, ran := ran w\<rparr>" "w = w\<lparr>stk := stk w, ran := ran w\<rparr>" for s by simp_all
  show ?thesis
  proof (cases "workers w ! i")
    case (WRecv wc)
    then show ?thesis using assms(3) d recv_inv [OF assms(1)] by (auto simp: worker_next_def)
  next
    case (WRun wc t)
    then have "w' = set_worker i (WCheck wc) (w\<lparr>stk := (stk w)\<lparr>panics := panicSafeRun (oc t) h (panics (stk w))\<rparr>, ran := ran w @ [t]\<rparr>)"
      using assms(3) by (simp add: worker_next_def safeRun_def)
    then show ?thesis using d(1) WRun p by (simp only:, intro iw) (auto simp: panic_inv_def)
  next
    case (WCheck wc)
    then have w': "w' = set_worker i (if stopped (stk w) then WExit wc else WPush wc) (w\<lparr>stk := stk w, ran := ran w\<rparr>)"
      using assms(3) by (simp add: worker_next_def)
    show ?thesis unfolding w' by (rule iw [OF d(1) [unfolded WCheck]]) (use p in auto)
  next
    case (WPush wc)
    then show ?thesis using assms(3) d push_inv [OF assms(1)] by (auto simp: worker_next_def split: if_splits)
  next
    case (WExit wc)
    then show ?thesis using assms(3) d exit_inv [OF assms(1)] by (auto simp: worker_next_def)
  next
    case WDec
    then have "w' = set_worker i WDone (w\<lparr>stk := (stk w)\<lparr>running := running (stk w) - 1\<rparr>, ran := ran w\<rparr>)"
      using assms(3) by (simp add: worker_next_def)
    then show ?thesis using d(1) WDec p by (simp only:, intro iw) (auto simp: panic_inv_def)
  next
    case WDone
    then have "w' = set_worker i WGone (w\<lparr>stk := stk w, ran := ran w\<rparr>)" using assms(3) by (simp add: worker_next_def)
    then show ?thesis using d(1) WDone p by (simp only:, intro iw) auto
  qed (use assms(3) in \<open>simp add: worker_next_def\<close>)
qed

lemma cleaner_next_inv:
  assumes "stack_inv oc h w" "cleaner_next deadline w = Some w'"
  shows "stack_inv oc h w'"
proof -
  have o: "owner_inv (stk w) (subs w) (workers w) (cleaner w)" using assms(1) by (simp add: stack_inv_def)
  have keep: "stack_inv oc h (w\<lparr>cleaner := k\<rparr>)" if "\<And>c. keeps c k = keeps c (cleaner w)" for k
    using assms(1) that owner_invI [OF o, of "stk w" "subs w" k] by (simp add: stack_inv_def claims_def)
  show ?thesis
  proof (cases "cleaner w")
    case KIdle
    define old where "old = takeWhile (\<lambda>wc. lastUse (stk w) wc < deadline) (ready (stk w))"
    have "ready (stk w) = old @ drop (length old) (ready (stk w))" by (simp add: old_def) (metis takeWhile_eq_take append_take_drop_id length_take)
    note owner_cleanup [OF o [unfolded KIdle] this]
    moreover have "count_inv ((stk w)\<lparr>ready := drop (length old) (ready (stk w))\<rparr>) (subs w) (workers w)"
      by (rule count_same [of "stk w" "subs w" "workers w"]) (use assms(1) in \<open>simp_all add: stack_inv_def\<close>)
    moreover have "cleanup deadline w = w\<lparr>stk := (stk w)\<lparr>ready := drop (length old) (ready (stk w))\<rparr>, cleaner := KSend old\<rparr>"
      by (simp add: cleanup_def Let_def old_def)
    ultimately have "stack_inv oc h (cleanup deadline w)"
      using assms(1) by (simp add: stack_inv_def task_inv_def panic_inv_def)
    then show ?thesis using assms(2) KIdle by (auto simp: cleaner_next_def split: if_splits)
  next
    case (KSend wcs)
    show ?thesis
    proof (cases wcs)
      case Nil
      then show ?thesis using assms(2) KSend keep [of KIdle] by (simp add: cleaner_next_def)
    next
      case (Cons wc rest)
      note k = KSend [unfolded Cons]
      from owner_clean_send [OF o [unfolded k]] have c: "owner_inv (send wc None (stk w)) (subs w) (workers w) (KSend rest)" "chans (stk w) ! wc = []" .
      have "wc < length (chans (stk w))" using claimed(1) [OF o, of wc] by (simp add: k)
      then have "total_of tasks_in (chans (send wc None (stk w))) = total_of tasks_in (chans (stk w))" by (simp add: send_def tasks_in_send)
      moreover have "w' = w\<lparr>stk := send wc None (stk w), cleaner := KSend rest\<rparr>" using assms(2) k c(2) by (simp add: cleaner_next_def)
      moreover have "count_inv (send wc None (stk w)) (subs w) (workers w)"
        by (rule count_same [of "stk w" "subs w" "workers w"]) (use assms(1) in \<open>simp_all add: stack_inv_def\<close>)
      ultimately show ?thesis using assms(1) c(1) by (simp add: stack_inv_def task_inv_def panic_inv_def)
    qed
  qed (use assms(2) in \<open>simp add: cleaner_next_def\<close>)
qed

lemma cleaner_end_inv:
  assumes "stack_inv oc h w" "cleaner_end w = Some w'"
  shows "stack_inv oc h w'"
proof -
  have k: "cleaner w = KIdle" "w' = w\<lparr>cleaner := KDone\<rparr>" using assms(2) by (auto simp: cleaner_end_def split: if_splits)
  have o: "owner_inv (stk w) (subs w) (workers w) (cleaner w)" using assms(1) by (simp add: stack_inv_def)
  show ?thesis using assms(1) k(1) owner_invI [OF o, of "stk w" "subs w" KDone] by (simp add: k(2) stack_inv_def claims_def)
qed

lemma stack_exec_inv: "stack_exec oc h u w = Some w' \<Longrightarrow> stack_inv oc h w \<Longrightarrow> stack_inv oc h w'"
  by (cases u) (auto split: if_splits intro: call_inv sub_next_inv fire_inv worker_next_inv cleaner_next_inv cleaner_end_inv)

interpretation stack_keep: machine "stack_exec oc h" "\<lambda>_. True" "stack_inv oc h" for oc h
  by unfold_locales (rule stack_exec_inv)

lemma stack_run_inv: "stack_run oc h us w = Some w' \<Longrightarrow> stack_inv oc h w \<Longrightarrow> stack_inv oc h w'"
  using stack_keep.runs_keep [of oc h us w w'] by simp

section \<open>Properties\<close>

lemma world_init_inv: "stack_inv oc h (world_init maxW k)"
proof -
  have h: "total_of (holds c) (replicate k SIdle) = 0" "total_of spawning (replicate k SIdle) = 0" for c
    by (induction k) simp_all
  show ?thesis
    by (simp add: stack_inv_def world_init_def NewStack_def owner_inv_def claims_def waiting_def count_inv_def task_inv_def panic_inv_def h)
qed

lemma listening: "total_of (listens c) ws = 1 \<Longrightarrow> WRecv c \<in> set ws"
proof -
  assume "total_of (listens c) ws = 1"
  then obtain pc where "pc \<in> set ws" "0 < listens c pc" using total_of_pos [of "listens c" ws] by auto
  moreover from this(2) have "pc = WRecv c" by (cases pc) (auto split: if_splits)
  ultimately show "WRecv c \<in> set ws" by simp
qed

lemma distinct_count_list: "(\<And>x. count_list xs x \<le> 1) \<Longrightarrow> distinct xs"
proof (induction xs)
  case (Cons y ys)
  have "count_list ys y = 0" using Cons.prems [of y] by simp
  moreover have "count_list ys x \<le> 1" for x using Cons.prems [of x] by (simp split: if_splits)
  ultimately show ?case using Cons.IH by (simp add: count_list_0_iff)
qed simp

lemma gone_tasks:
  assumes "stack_inv oc h w" "\<forall>pc \<in> set (workers w). pc = WGone"
  shows "mset (sent w) = mset (ran w)"
proof -
  have o: "owner_inv (stk w) (subs w) (workers w) (cleaner w)" and t: "task_inv (stk w) (workers w) (sent w) (ran w)"
    using assms(1) by (auto simp: stack_inv_def)
  have z: "total_of f (workers w) = 0" if "f WGone = 0" for f :: "'a wpc \<Rightarrow> 'n :: comm_monoid_add"
    by (rule total_of_all_zero) (use assms(2) that in auto)
  have "chans (stk w) ! c = []" if "c < length (chans (stk w))" for c
    using owner_claims [OF o, of c] z [of "listens c"] that by (simp add: claims_def waiting_def)
  then have "\<forall>ms \<in> set (chans (stk w)). ms = []" by (auto simp: in_set_conv_nth)
  then have "total_of tasks_in (chans (stk w)) = {#}" by (intro total_of_all_zero) (metis tasks_in.simps(1))
  then show ?thesis using t z [of working] by (simp add: task_inv_def)
qed

text \<open>
  C7. In every interleaving of callers, workers and the cleaner: there are never more workers than
  allowed, and \<open>Running\<close> counts those that exist or are being started; every task whose submission
  returned true is exactly once in a channel, being run, or done, a channel with a task has its worker
  listening, and once all workers are gone (when \<open>Stop\<close> returns) they have all run; a caller
  or the cleaner never blocks on a send, \<open>drainChan\<close> never discards a task, the stack lists distinct idle
  workers, and the panic counter is the number of tasks that panicked.
\<close>

theorem stack_pool_safe:
  assumes "stack_run outcome handler turns (world_init maxW k) = Some w"
  shows "(0 < maxWorkers (stk w) \<longrightarrow> Stack_Running (stk w) \<le> maxWorkers (stk w)) \<and>
    Stack_Running (stk w) = total_of alive (workers w) + total_of spawning (subs w) \<and>
    mset (sent w) = mset (ran w) + total_of tasks_in (chans (stk w)) + total_of working (workers w) \<and>
    (\<forall>c < length (chans (stk w)). chans (stk w) ! c \<noteq> [] \<longrightarrow> WRecv c \<in> set (workers w)) \<and>
    ((\<forall>pc \<in> set (workers w). pc = WGone) \<longrightarrow> mset (sent w) = mset (ran w)) \<and>
    (\<forall>t c. SSend t c \<in> set (subs w) \<longrightarrow> chans (stk w) ! c = []) \<and>
    (\<forall>c. WExit c \<in> set (workers w) \<longrightarrow> chans (stk w) ! c = []) \<and>
    distinct (ready (stk w)) \<and> (\<forall>c \<in> set (ready (stk w)). WRecv c \<in> set (workers w) \<and> chans (stk w) ! c = []) \<and>
    Stack_PanicCount (stk w) = int (length (filter (\<lambda>t. outcome t \<noteq> None) (ran w)))"
proof -
  have inv: "stack_inv outcome handler w" by (rule stack_run_inv [OF assms world_init_inv])
  then have o: "owner_inv (stk w) (subs w) (workers w) (cleaner w)" by (simp add: stack_inv_def)
  have one: "total_of (listens c) (workers w) \<le> 1" for c using owner_one [OF o, of c] by (cases "c < length (chans (stk w))") auto
  have "WRecv c \<in> set (workers w)" if "c < length (chans (stk w))" "chans (stk w) ! c \<noteq> []" for c
  proof -
    have "0 < waiting c (chans (stk w))" using that by (simp add: waiting_def)
    then have "total_of (listens c) (workers w) = 1" using owner_claims [OF o, of c] one [of c] by (simp add: claims_def)
    then show ?thesis by (rule listening)
  qed
  moreover have "chans (stk w) ! c = []" if "SSend t c \<in> set (subs w)" for t c
    using claimed(2) [OF o, of c] total_of_ge [OF that, of "holds c"] by simp
  moreover have "chans (stk w) ! c = []" if "WExit c \<in> set (workers w)" for c
  proof -
    obtain us vs where "workers w = us @ WExit c # vs" using \<open>WExit c \<in> set (workers w)\<close> by (meson split_list)
    then show ?thesis using busy_empty(2) [of "stk w" "subs w" us "WExit c" vs "cleaner w" c] o by simp
  qed
  moreover have "count_list (ready (stk w)) c \<le> 1" for c using owner_claims [OF o, of c] one [of c] by (simp add: claims_def)
  then have "distinct (ready (stk w))" by (rule distinct_count_list)
  moreover have "WRecv c \<in> set (workers w) \<and> chans (stk w) ! c = []" if "c \<in> set (ready (stk w))" for c
  proof -
    have "0 < count_list (ready (stk w)) c" using that count_list_0_iff [of "ready (stk w)" c] by simp
    then show ?thesis using claimed(2,4) [OF o, of c] listening [of c "workers w"] by simp
  qed
  ultimately show ?thesis
    using inv gone_tasks [OF inv]
    by (auto simp: stack_inv_def count_inv_def task_inv_def panic_inv_def Stack_Running_def Stack_PanicCount_def fold_panicSafeRun)
qed

section \<open>Waiting for a worker that does not come\<close>

text \<open>A schedule in which one task runs; then another is being handed to the same worker.\<close>

definition demo_turns :: "nat turn list" where
  "demo_turns = [Call 0 Block 7, Sub 0 0, Sub 0 0, Sub 0 0, Sub 0 0, Sub 0 0, Work 0 0 0, Work 0 0 0, Work 0 0 0, Work 0 1 0, Call 0 Try 8, Sub 0 0, Sub 0 0]"

theorem stack_pool_safe_witness:
  "\<exists>w. stack_run (\<lambda>t. if t = 7 then Some ''boom'' else None) True demo_turns (world_init 1 2) = Some w \<and>
     Stack_Running (stk w) \<le> 1 \<and> Stack_PanicCount (stk w) = 1 \<and> sent w = [7, 8] \<and> mset (sent w) = {#7, 8#}"
proof -
  let ?r = "stack_run (\<lambda>t. if t = 7 then Some ''boom'' else None) True demo_turns (world_init 1 2)"
  have e: "map_option sent ?r = Some [7, 8]" "map_option ran ?r = Some [7]" "map_option (\<lambda>w. maxWorkers (stk w)) ?r = Some 1" by code_simp+
  then obtain w where w: "?r = Some w" by (cases ?r) auto
  have f: "sent w = [7, 8]" "ran w = [7]" "maxWorkers (stk w) = 1" using e by (simp_all add: w)
  show ?thesis using stack_pool_safe [OF w] w by (simp add: f)
qed

text \<open>
  With one worker allowed: the idle worker is evicted while a caller of \<open>Submit\<close> finds the stack empty
  and the limit reached; the worker ends without a signal.
\<close>

definition evict_turns :: "nat turn list" where
  "evict_turns = [Call 0 Block 7, Sub 0 0, Sub 0 0, Sub 0 0, Sub 0 0, Sub 0 0, Work 0 0 0, Work 0 0 0, Work 0 0 0, Work 0 1 0,
     Clean 100, Call 0 Block 8, Sub 0 0, Sub 0 0, Sub 0 0, Sub 0 0, Clean 0, Clean 0, Work 0 0 0, Work 0 0 0, Work 0 0 0, Work 0 0 0]"

text \<open>\<open>Stop\<close> broadcasts between the check of a waiting caller and its \<open>cond.Wait\<close>.\<close>

definition stop_turns :: "nat turn list" where
  "stop_turns = [Call 0 Block 7, Sub 0 0, Sub 0 0, Sub 0 0, Sub 0 0, Sub 0 0, Work 0 0 0, Call 0 Block 8, Sub 0 0, Sub 0 0, Sub 0 0,
     CallStop 1, Sub 1 0, Sub 1 0, Sub 0 0, Sub 1 0, Work 0 0 0, Work 0 0 0, Work 0 0 0, Work 0 0 0, Work 0 0 0, CleanEnd, Sub 1 0, Sub 1 0]"

lemma evict_end:
  "map_option subs (stack_run (\<lambda>_. None) False evict_turns (world_init 1 1)) = Some [SBlocked Block 8 False]"
  "map_option workers (stack_run (\<lambda>_. None) False evict_turns (world_init 1 1)) = Some [WGone]"
  "map_option (\<lambda>w. ready (stk w)) (stack_run (\<lambda>_. None) False evict_turns (world_init 1 1)) = Some []"
  "map_option (\<lambda>w. Stack_Running (stk w)) (stack_run (\<lambda>_. None) False evict_turns (world_init 1 1)) = Some 0"
  "map_option (\<lambda>w. stopped (stk w)) (stack_run (\<lambda>_. None) False evict_turns (world_init 1 1)) = Some False"
  by code_simp+

lemma stop_end:
  "map_option subs (stack_run (\<lambda>_. None) False stop_turns (world_init 1 2)) = Some [SBlocked Block 8 False, SIdle]"
  "map_option workers (stack_run (\<lambda>_. None) False stop_turns (world_init 1 2)) = Some [WGone]"
  "map_option (\<lambda>w. stopped (stk w)) (stack_run (\<lambda>_. None) False stop_turns (world_init 1 2)) = Some True"
  by code_simp+

text \<open>Nobody is left who could wake the caller: the other callers can only be refused.\<close>

definition stuck :: "'task \<Rightarrow> 'task world \<Rightarrow> bool" where
  "stuck t w \<longleftrightarrow> workers w = [WGone] \<and>
     (subs w = [SBlocked Block t False] \<or> subs w = [SBlocked Block t False, SIdle] \<and> stopped (stk w))"

lemma stuck_exec: "stuck t w \<Longrightarrow> stack_exec oc h u w = Some w' \<Longrightarrow> stuck t w'"
  by (cases u) (auto simp: stuck_def sub_next_def fire_def worker_next_def call_def call_stop_def cleaner_next_def cleaner_end_def cleanup_def Let_def
      nth_Cons' send_def split: if_splits kpc.splits list.splits)

interpretation stack_stuck: machine "stack_exec oc h" "\<lambda>_. True" "stuck t" for oc h t
  by unfold_locales (auto intro: stuck_exec)

text \<open>
  C26. A caller of \<open>Submit\<close> can wait for ever. First, on a pool that is running: when the last idle worker
  is evicted after the caller has seen the limit reached, the pool has no worker left, room for one, and
  a caller that nothing wakes. Second, \<open>Stop\<close> can return while a caller is parked that its broadcast
  missed.
\<close>

theorem Submit_can_wait_for_ever:
  "(\<exists>w. stack_run (\<lambda>_. None) False evict_turns (world_init 1 1) = Some w \<and> Stack_Running (stk w) = 0 \<and> \<not> stopped (stk w) \<and>
      (\<forall>us w'. stack_run (\<lambda>_. None) False us w = Some w' \<longrightarrow> subs w' ! 0 = SBlocked Block 8 False)) \<and>
   (\<exists>w. stack_run (\<lambda>_. None) False stop_turns (world_init 1 2) = Some w \<and> subs w = [SBlocked Block 8 False, SIdle] \<and> stopped (stk w) \<and>
      (\<forall>us w'. stack_run (\<lambda>_. None) False us w = Some w' \<longrightarrow> subs w' ! 0 = SBlocked Block 8 False))"
proof -
  have st: "subs w' ! 0 = SBlocked Block t False" if "stuck t w'" for t and w' :: "nat world" using that by (auto simp: stuck_def)
  obtain w where w: "stack_run (\<lambda>_. None) False evict_turns (world_init 1 1) = Some w" "stuck 8 w" "Stack_Running (stk w) = 0" "\<not> stopped (stk w)"
    using evict_end by (auto simp: stuck_def)
  obtain v where v: "stack_run (\<lambda>_. None) False stop_turns (world_init 1 2) = Some v" "stuck 8 v" "subs v = [SBlocked Block 8 False, SIdle]" "stopped (stk v)"
    using stop_end by (auto simp: stuck_def)
  show ?thesis using w v st stack_stuck.runs_keep [OF _ _ w(2)] stack_stuck.runs_keep [OF _ _ v(2)] by blast
qed

theorem Submit_can_wait_for_ever_witness:
  "\<exists>w. stack_run (\<lambda>_. None) False evict_turns (world_init 1 1) = Some w \<and> Stack_Running (stk w) = 0 \<and> subs w ! 0 = SBlocked Block 8 False"
  using Submit_can_wait_for_ever runs.simps(1) by metis

end
