(* ===== verification/WPool.thy ===== *)
theory WPool
  imports SafeRun
begin

text \<open>
  Package \<open>wpool\<close>, the first-in first-out pool and its adaptive wrapper (src/wpool/pool.go). The task
  channel is a bounded list; callers and workers are lists of program counters, and one step is one
  atomic access or channel operation (one iteration of \<open>spawn\<close>, which nothing else can observe half-way,
  is one step). Which ready branch a \<open>select\<close> takes, the timers among them, is a choice of the schedule.
  The task channel is never closed. The idle timeout only decides when the timers fire.
\<close>

section \<open>State\<close>

record 'task pool =
  maxSize :: int
  running :: int
  idle :: int
  panics :: "int \<times> string list"
  tasks :: "'task list"
  qcap :: nat
  stopped :: bool
  closed :: bool
  once :: nat

text \<open>\<open>Submit\<close>, \<open>TrySubmit\<close> and \<open>SubmitTimeout\<close>.\<close>

datatype mode = Block | Try | Timed

text \<open>
  Where a caller is: in the select of a submission, in \<open>spawn\<close> with some iterations left, or in \<open>Stop\<close>
  before the store, the close, and in \<open>Wait\<close>.
\<close>

datatype 'task spc = SIdle | SSelect mode 'task | SSpawn nat | TStore | TClose | TWait

text \<open>
  Where a worker is: in a shrinking loop (before the two loads and the compare-and-swap; the flag says
  that it is the one after the idle timeout), before counting itself idle, in the select, after it with
  a task, a timeout or the stop, running a task, draining the channel, or leaving.
\<close>

datatype 'task wpc = WLoad bool | WMax bool int | WCas bool int | WArm | WSelect | WGot 'task | WTimeout | WStopping
  | WRun 'task | WDrain | WDrainRun 'task | WLeave | WDone | WGone

record 'task world =
  pool :: "'task pool"
  subs :: "'task spc list"
  workers :: "'task wpc list"
  sent :: "'task list"
  ran :: "'task list"

definition goto :: "nat \<Rightarrow> 'task spc \<Rightarrow> 'task world \<Rightarrow> 'task world" where
  "goto i pc w = w\<lparr>subs := (subs w)[i := pc]\<rparr>"

definition set_worker :: "nat \<Rightarrow> 'task wpc \<Rightarrow> 'task world \<Rightarrow> 'task world" where
  "set_worker i pc w = w\<lparr>workers := (workers w)[i := pc]\<rparr>"

definition spawn_one :: "'task world \<Rightarrow> 'task world" where
  "spawn_one w = w\<lparr>pool := (pool w)\<lparr>running := running (pool w) + 1\<rparr>, workers := workers w @ [WLoad False]\<rparr>"

text \<open>\<open>NewPool\<close> with the number of processors and of callers.\<close>

definition NewPool :: "int \<Rightarrow> int \<Rightarrow> nat \<Rightarrow> 'task world" where
  "NewPool procs sz k =
     (let sz = (if sz \<le> 0 then procs else sz);
          p = \<lparr>maxSize = swrap32 sz, running = 0, idle = 0, panics = (0, []), tasks = [], qcap = nat (sz * 4),
               stopped = False, closed = False, once = 0\<rparr>
      in (spawn_one ^^ nat sz) \<lparr>pool = p, subs = replicate k SIdle, workers = [], sent = [], ran = []\<rparr>)"

section \<open>Operations\<close>

definition submit :: "nat \<Rightarrow> mode \<Rightarrow> 'task \<Rightarrow> 'task world \<Rightarrow> 'task world" where
  "submit i m t w = (if stopped (pool w) then w else goto i (SSelect m t) w)"

definition enqueue :: "nat \<Rightarrow> 'task \<Rightarrow> 'task world \<Rightarrow> 'task world" where
  "enqueue i t w = goto i SIdle (w\<lparr>pool := (pool w)\<lparr>tasks := tasks (pool w) @ [t]\<rparr>, sent := sent w @ [t]\<rparr>)"

text \<open>The branches of the select: the send, the stop channel, and the default or the timer.\<close>

datatype branch = OnTask | OnStop | OnOther

definition Submit_select :: "nat \<Rightarrow> 'task \<Rightarrow> branch \<Rightarrow> 'task world \<Rightarrow> 'task world option" where
  "Submit_select i t b w =
     (case b of
        OnTask \<Rightarrow> (if length (tasks (pool w)) < qcap (pool w) then Some (enqueue i t w) else None)
      | OnStop \<Rightarrow> (if closed (pool w) then Some (goto i SIdle w) else None)
      | OnOther \<Rightarrow> None)"

definition TrySubmit_select :: "nat \<Rightarrow> 'task \<Rightarrow> branch \<Rightarrow> 'task world \<Rightarrow> 'task world option" where
  "TrySubmit_select i t b w =
     (let room = length (tasks (pool w)) < qcap (pool w)
      in case b of
           OnTask \<Rightarrow> (if room then Some (enqueue i t w) else None)
         | OnOther \<Rightarrow> (if \<not> room then Some (goto i SIdle w) else None)
         | OnStop \<Rightarrow> None)"

definition SubmitTimeout_select :: "nat \<Rightarrow> 'task \<Rightarrow> branch \<Rightarrow> 'task world \<Rightarrow> 'task world option" where
  "SubmitTimeout_select i t b w =
     (case b of
        OnTask \<Rightarrow> (if length (tasks (pool w)) < qcap (pool w) then Some (enqueue i t w) else None)
      | OnOther \<Rightarrow> Some (goto i SIdle w)
      | OnStop \<Rightarrow> (if closed (pool w) then Some (goto i SIdle w) else None))"

definition submit_select :: "nat \<Rightarrow> mode \<Rightarrow> 'task \<Rightarrow> branch \<Rightarrow> 'task world \<Rightarrow> 'task world option" where
  "submit_select i m t b w =
     (case m of Block \<Rightarrow> Submit_select i t b w | Try \<Rightarrow> TrySubmit_select i t b w | Timed \<Rightarrow> SubmitTimeout_select i t b w)"

lemmas choice_defs = submit_select_def Submit_select_def TrySubmit_select_def SubmitTimeout_select_def

definition Pool_Resize :: "nat \<Rightarrow> int \<Rightarrow> 'task world \<Rightarrow> 'task world" where
  "Pool_Resize i n w =
     (let n = (if n \<le> 0 then 1 else n); old = maxSize (pool w); w = w\<lparr>pool := (pool w)\<lparr>maxSize := swrap32 n\<rparr>\<rparr>
      in if old < n then goto i (SSpawn (nat (n - old))) w else w)"

definition Pool_Stop :: "nat \<Rightarrow> 'task world \<Rightarrow> 'task world option" where
  "Pool_Stop i w =
     (if once (pool w) = 0 then Some (goto i TStore (w\<lparr>pool := (pool w)\<lparr>once := 1\<rparr>\<rparr>))
      else if once (pool w) = 1 then None else Some w)"

definition sub_next :: "nat \<Rightarrow> branch \<Rightarrow> 'task world \<Rightarrow> 'task world option" where
  "sub_next i b w =
     (case subs w ! i of
        SIdle \<Rightarrow> None
      | SSelect m t \<Rightarrow> submit_select i m t b w
      | SSpawn 0 \<Rightarrow> Some (goto i SIdle w)
      | SSpawn (Suc n) \<Rightarrow> Some (goto i (SSpawn n) (spawn_one w))
      | TStore \<Rightarrow> Some (goto i TClose (w\<lparr>pool := (pool w)\<lparr>stopped := True\<rparr>\<rparr>))
      | TClose \<Rightarrow> Some (goto i TWait (w\<lparr>pool := (pool w)\<lparr>closed := True\<rparr>\<rparr>))
      | TWait \<Rightarrow> (if \<forall>pc \<in> set (workers w). pc = WGone then Some (goto i SIdle (w\<lparr>pool := (pool w)\<lparr>once := 2\<rparr>\<rparr>)) else None))"

definition add_idle :: "int \<Rightarrow> 'task world \<Rightarrow> 'task world" where
  "add_idle d w = w\<lparr>pool := (pool w)\<lparr>idle := idle (pool w) + d\<rparr>\<rparr>"

definition add_running :: "int \<Rightarrow> 'task world \<Rightarrow> 'task world" where
  "add_running d w = w\<lparr>pool := (pool w)\<lparr>running := running (pool w) + d\<rparr>\<rparr>"

definition safeRun :: "('task \<Rightarrow> string option) \<Rightarrow> bool \<Rightarrow> 'task \<Rightarrow> 'task world \<Rightarrow> 'task world" where
  "safeRun outcome handler t w =
     w\<lparr>pool := (pool w)\<lparr>panics := panicSafeRun (outcome t) handler (panics (pool w))\<rparr>, ran := ran w @ [t]\<rparr>"

definition take_task :: "nat \<Rightarrow> ('task \<Rightarrow> 'task wpc) \<Rightarrow> 'task world \<Rightarrow> 'task world option" where
  "take_task i pc w =
     (case tasks (pool w) of
        [] \<Rightarrow> None
      | t # ts \<Rightarrow> Some (set_worker i (pc t) (w\<lparr>pool := (pool w)\<lparr>tasks := ts\<rparr>\<rparr>)))"

definition worker_select :: "nat \<Rightarrow> branch \<Rightarrow> 'task world \<Rightarrow> 'task world option" where
  "worker_select i b w =
     (case b of
        OnTask \<Rightarrow> take_task i WGot w
      | OnStop \<Rightarrow> (if closed (pool w) then Some (set_worker i WStopping w) else None)
      | OnOther \<Rightarrow> Some (set_worker i WTimeout w))"

definition worker_next :: "('task \<Rightarrow> string option) \<Rightarrow> bool \<Rightarrow> nat \<Rightarrow> branch \<Rightarrow> 'task world \<Rightarrow> 'task world option" where
  "worker_next outcome handler i b w =
     (case workers w ! i of
        WLoad timeout \<Rightarrow> Some (set_worker i (WMax timeout (running (pool w))) w)
      | WMax timeout cur \<Rightarrow>
          Some (set_worker i (if cur \<le> maxSize (pool w) then if timeout then WLoad False else WArm else WCas timeout cur) w)
      | WCas timeout cur \<Rightarrow>
          Some (if running (pool w) = cur then set_worker i WDone (add_running (-1) w) else set_worker i (WLoad timeout) w)
      | WArm \<Rightarrow> Some (set_worker i WSelect (add_idle 1 w))
      | WSelect \<Rightarrow> worker_select i b w
      | WGot t \<Rightarrow> Some (set_worker i (WRun t) (add_idle (-1) w))
      | WTimeout \<Rightarrow> Some (set_worker i (WLoad True) (add_idle (-1) w))
      | WStopping \<Rightarrow> Some (set_worker i WDrain (add_idle (-1) w))
      | WRun t \<Rightarrow> Some (set_worker i (WLoad False) (safeRun outcome handler t w))
      | WDrain \<Rightarrow> (if tasks (pool w) = [] then Some (set_worker i WLeave w) else take_task i WDrainRun w)
      | WDrainRun t \<Rightarrow> Some (set_worker i WDrain (safeRun outcome handler t w))
      | WLeave \<Rightarrow> Some (set_worker i WDone (add_running (-1) w))
      | WDone \<Rightarrow> Some (set_worker i WGone w)
      | WGone \<Rightarrow> None)"

section \<open>The adaptive wrapper\<close>

record adaptive =
  amin :: int
  amax :: int

definition NewAdaptive :: "int \<Rightarrow> int \<Rightarrow> adaptive" where
  "NewAdaptive mn mx =
     (let mn = (if mn \<le> 0 then 1 else mn); mx = (if mx < mn then mn else mx) in \<lparr>amin = swrap32 mn, amax = swrap32 mx\<rparr>)"

text \<open>The size that \<open>adjust\<close> asks \<open>Resize\<close> for, if any.\<close>

definition clamp :: "adaptive \<Rightarrow> int \<Rightarrow> int" where
  "clamp a target = (let target = (if target < amin a then amin a else target) in if amax a < target then amax a else target)"

definition adjust_delta :: "int \<Rightarrow> int" where
  "adjust_delta rn = (let delta = rn div 4 in if delta < 1 then 1 else delta)"

definition adjust_target :: "adaptive \<Rightarrow> int \<Rightarrow> int \<Rightarrow> int \<Rightarrow> int \<Rightarrow> int option" where
  "adjust_target a rn idl qLen qCap =
     (if 0 < qCap \<and> qCap * 3 < qLen * 4 then
        (let target = clamp a (swrap32 (rn + adjust_delta rn)) in if target \<noteq> rn then Some target else None)
      else if 0 < rn \<and> rn < idl * 2 then
        (let target = clamp a (swrap32 (rn - adjust_delta rn)) in if target \<noteq> rn then Some target else None)
      else None)"

text \<open>\<open>adjust\<close> reads the four numbers one after the other, so they are any numbers here.\<close>

definition adjust :: "adaptive \<Rightarrow> nat \<Rightarrow> int \<times> int \<times> int \<times> int \<Rightarrow> 'task world \<Rightarrow> 'task world" where
  "adjust a i r w =
     (case r of (rn, idl, qLen, qCap) \<Rightarrow>
        (case adjust_target a rn idl qLen qCap of None \<Rightarrow> w | Some n \<Rightarrow> Pool_Resize i n w))"

section \<open>Schedules\<close>

datatype 'task turn = Submit nat mode 'task | Resize nat int | Adjust adaptive nat "int \<times> int \<times> int \<times> int" | Stop nat | Sub nat branch | Work nat branch

fun pool_exec :: "('task \<Rightarrow> string option) \<Rightarrow> bool \<Rightarrow> 'task turn \<Rightarrow> 'task world \<Rightarrow> 'task world option" where
  "pool_exec oc h (Submit i m t) w = (if i < length (subs w) \<and> subs w ! i = SIdle then Some (submit i m t w) else None)"
| "pool_exec oc h (Resize i n) w = (if i < length (subs w) \<and> subs w ! i = SIdle then Some (Pool_Resize i n w) else None)"
| "pool_exec oc h (Adjust a i r) w = (if i < length (subs w) \<and> subs w ! i = SIdle then Some (adjust a i r w) else None)"
| "pool_exec oc h (Stop i) w = (if i < length (subs w) \<and> subs w ! i = SIdle then Pool_Stop i w else None)"
| "pool_exec oc h (Sub i b) w = (if i < length (subs w) then sub_next i b w else None)"
| "pool_exec oc h (Work i b) w = (if i < length (workers w) then worker_next oc h i b w else None)"

abbreviation pool_run :: "('task \<Rightarrow> string option) \<Rightarrow> bool \<Rightarrow> 'task turn list \<Rightarrow> 'task world \<Rightarrow> 'task world option" where
  "pool_run oc h \<equiv> runs (pool_exec oc h)"

definition Pool_Running :: "'task pool \<Rightarrow> int" where "Pool_Running p = running p"
definition Pool_Idle :: "'task pool \<Rightarrow> int" where "Pool_Idle p = idle p"
definition QueueLen :: "'task pool \<Rightarrow> int" where "QueueLen p = int (length (tasks p))"
definition QueueCap :: "'task pool \<Rightarrow> int" where "QueueCap p = int (qcap p)"
definition Pool_PanicCount :: "'task pool \<Rightarrow> int" where "Pool_PanicCount p = fst (panics p)"

section \<open>The invariant\<close>

fun alive :: "'task wpc \<Rightarrow> int" where
  "alive WDone = 0"
| "alive WGone = 0"
| "alive _ = 1"

fun idling :: "'task wpc \<Rightarrow> int" where
  "idling WSelect = 1"
| "idling (WGot t) = 1"
| "idling WTimeout = 1"
| "idling WStopping = 1"
| "idling _ = 0"

fun working :: "'task wpc \<Rightarrow> 'task multiset" where
  "working (WGot t) = {#t#}"
| "working (WRun t) = {#t#}"
| "working (WDrainRun t) = {#t#}"
| "working _ = {#}"

text \<open>Before the pool is stopped no worker leaves, and one that retires leaves another one.\<close>

fun pc_ok :: "bool \<Rightarrow> 'task wpc \<Rightarrow> bool" where
  "pc_ok stp (WCas timeout cur) \<longleftrightarrow> 2 \<le> cur"
| "pc_ok stp WStopping \<longleftrightarrow> stp"
| "pc_ok stp WDrain \<longleftrightarrow> stp"
| "pc_ok stp (WDrainRun t) \<longleftrightarrow> stp"
| "pc_ok stp WLeave \<longleftrightarrow> stp"
| "pc_ok stp _ \<longleftrightarrow> True"

definition pool_inv :: "('task \<Rightarrow> string option) \<Rightarrow> bool \<Rightarrow> 'task world \<Rightarrow> bool" where
  "pool_inv oc h w \<longleftrightarrow> (let p = pool w; ws = workers w in
     running p = total_of alive ws \<and> idle p = total_of idling ws \<and>
     mset (sent w) = mset (ran w) + mset (tasks p) + total_of working ws \<and> length (tasks p) \<le> qcap p \<and>
     panics p = fold (\<lambda>t. panicSafeRun (oc t) h) (ran w) (0, []) \<and>
     1 \<le> maxSize p \<and> (\<not> closed p \<longrightarrow> 1 \<le> running p) \<and> (\<forall>pc \<in> set ws. pc_ok (closed p) pc))"

lemma spawn_one_inv:
  assumes "pool_inv oc h w"
  shows "pool_inv oc h (spawn_one w)"
  using assms by (auto simp: pool_inv_def spawn_one_def Let_def)

text \<open>A step of a caller: everything about the workers is as before.\<close>

lemma pool_inv_goto: "pool_inv oc h (goto i pc w) = pool_inv oc h w"
  by (simp add: pool_inv_def goto_def)

lemma inv_pool:
  assumes "pool_inv oc h w" "running p = running (pool w)" "idle p = idle (pool w)" "tasks p = tasks (pool w)" "qcap p = qcap (pool w)"
    "panics p = panics (pool w)" "1 \<le> maxSize p" "closed (pool w) \<longrightarrow> closed p"
  shows "pool_inv oc h (w\<lparr>pool := p\<rparr>)"
proof -
  have "pc_ok (closed p) pc" if "pc_ok (closed (pool w)) pc" for pc :: "'a wpc"
    using that assms(8) by (cases "(closed p, pc)" rule: pc_ok.cases) auto
  then show ?thesis using assms by (auto simp: pool_inv_def Let_def)
qed

lemma inv_enqueue: "pool_inv oc h w \<Longrightarrow> length (tasks (pool w)) < qcap (pool w) \<Longrightarrow> pool_inv oc h (enqueue i t w)"
  unfolding enqueue_def pool_inv_goto by (auto simp: pool_inv_def Let_def)

lemma resize_inv:
  assumes "pool_inv oc h w" "n < 2 ^ 31"
  shows "pool_inv oc h (Pool_Resize i n w)"
proof -
  let ?n = "if n \<le> 0 then 1 else n"
  have "1 \<le> swrap32 ?n" using assms(2) by (subst swrap32_id) auto
  then have "pool_inv oc h (w\<lparr>pool := (pool w)\<lparr>maxSize := swrap32 ?n\<rparr>\<rparr>)" by (intro inv_pool [OF assms(1)]) simp_all
  then show ?thesis unfolding Pool_Resize_def Let_def by (simp only: pool_inv_goto split: if_split) auto
qed

lemma pool_one: "pool_inv oc h w \<Longrightarrow> 1 \<le> maxSize (pool w)"
  by (simp add: pool_inv_def Let_def)

lemma pool_sub_inv:
  assumes "pool_inv oc h w" "sub_next i b w = Some w'"
  shows "pool_inv oc h w'"
proof (cases "subs w ! i")
  case (SSelect m t)
  then show ?thesis using assms
    by (cases m; cases b) (auto simp: sub_next_def choice_defs Let_def pool_inv_goto inv_enqueue split: if_splits)
next
  case (SSpawn n)
  then show ?thesis using assms by (cases n) (auto simp: sub_next_def pool_inv_goto intro: spawn_one_inv)
qed (use assms pool_one [OF assms(1)] in \<open>auto simp: sub_next_def pool_inv_goto split: if_splits intro!: inv_pool\<close>)

text \<open>A step of a worker, given what it does to the pool and to the tasks that have run.\<close>

lemma pool_inv_worker:
  assumes "pool_inv oc h w" "workers w = us @ pc # vs" "i = length us"
    "running p = running (pool w) - alive pc + alive pc'" "idle p = idle (pool w) - idling pc + idling pc'"
    "mset fin + mset (tasks p) + working pc' = mset (ran w) + mset (tasks (pool w)) + working pc"
    "length (tasks p) \<le> length (tasks (pool w))" "panics p = fold (\<lambda>t. panicSafeRun (oc t) h) fin (0, [])"
    "qcap p = qcap (pool w)" "maxSize p = maxSize (pool w)" "closed p = closed (pool w)"
    "pc_ok (closed (pool w)) pc'" "\<not> closed (pool w) \<Longrightarrow> 1 \<le> running p"
  shows "pool_inv oc h (set_worker i pc' (w\<lparr>pool := p, ran := fin\<rparr>))"
proof -
  have "mset fin + mset (tasks p) + (A + (working pc' + B)) = (mset fin + mset (tasks p) + working pc') + (A + B)" for A B
    by (simp add: ac_simps)
  then show ?thesis
    using assms(1) assms(4-) by (auto simp: pool_inv_def set_worker_def Let_def assms(2,3) ac_simps)
qed

lemma pool_worker_split:
  assumes "i < length (workers w)"
  obtains us vs where "workers w = us @ (workers w ! i) # vs" "i = length us"
  using split_at [OF assms] by metis

lemma pool_inv_facts:
  assumes "pool_inv oc h w"
  shows "panics (pool w) = fold (\<lambda>t. panicSafeRun (oc t) h) (ran w) (0, [])" "1 \<le> maxSize (pool w)"
    "\<not> closed (pool w) \<Longrightarrow> 1 \<le> running (pool w)" "i < length (workers w) \<Longrightarrow> pc_ok (closed (pool w)) (workers w ! i)"
  using assms by (auto simp: pool_inv_def Let_def)

lemma worker_keep:
  assumes "pool_inv oc h w" "workers w = us @ pc # vs" "i = length us" "alive pc' = alive pc" "idling pc' = idling pc" "working pc' = working pc"
    "pc_ok (closed (pool w)) pc'"
  shows "pool_inv oc h (set_worker i pc' w)"
  using pool_inv_worker [OF assms(1-3), of "pool w" pc' "ran w"] assms(4-7) pool_inv_facts(1,3) [OF assms(1)] by simp

lemma worker_idle:
  assumes "pool_inv oc h w" "workers w = us @ pc # vs" "i = length us" "alive pc' = alive pc" "idling pc' = idling pc + d" "working pc' = working pc"
    "pc_ok (closed (pool w)) pc'"
  shows "pool_inv oc h (set_worker i pc' (add_idle d w))"
  using pool_inv_worker [OF assms(1-3), of "(pool w)\<lparr>idle := idle (pool w) + d\<rparr>" pc' "ran w"] assms(4-7) pool_inv_facts(1,3) [OF assms(1)]
  by (simp add: add_idle_def)

lemma worker_leave:
  assumes "pool_inv oc h w" "workers w = us @ pc # vs" "i = length us" "alive pc = 1" "idling pc = 0" "working pc = {#}"
    "\<not> closed (pool w) \<Longrightarrow> 2 \<le> running (pool w)"
  shows "pool_inv oc h (set_worker i WDone (add_running (-1) w))"
proof -
  have "pool_inv oc h (set_worker i WDone (w\<lparr>pool := (pool w)\<lparr>running := running (pool w) - 1\<rparr>, ran := ran w\<rparr>))"
    by (rule pool_inv_worker [OF assms(1-3)]) (use assms(4-7) pool_inv_facts(1) [OF assms(1)] in auto)
  then show ?thesis by (simp add: add_running_def)
qed

lemma worker_take:
  assumes "pool_inv oc h w" "workers w = us @ pc # vs" "i = length us" "take_task i f w = Some w'"
    "\<And>t. alive (f t) = alive pc \<and> idling (f t) = idling pc \<and> working (f t) = {#t#} \<and> pc_ok (closed (pool w)) (f t)" "working pc = {#}"
  shows "pool_inv oc h w'"
proof -
  obtain t ts where t: "tasks (pool w) = t # ts" using assms(4) by (auto simp: take_task_def split: list.splits)
  then have "w' = set_worker i (f t) (w\<lparr>pool := (pool w)\<lparr>tasks := ts\<rparr>, ran := ran w\<rparr>)" using assms(4) by (simp add: take_task_def)
  then show ?thesis
    using pool_inv_worker [OF assms(1-3), of "(pool w)\<lparr>tasks := ts\<rparr>" "f t" "ran w"] assms(5) [of t] assms(6) pool_inv_facts(1,3) [OF assms(1)] t by simp
qed

lemma worker_run:
  assumes "pool_inv oc h w" "workers w = us @ pc # vs" "i = length us" "alive pc' = alive pc" "idling pc' = idling pc" "working pc = {#t#}" "working pc' = {#}"
    "pc_ok (closed (pool w)) pc'"
  shows "pool_inv oc h (set_worker i pc' (safeRun oc h t w))"
  using pool_inv_worker [OF assms(1-3), of "(pool w)\<lparr>panics := panicSafeRun (oc t) h (panics (pool w))\<rparr>" pc' "ran w @ [t]"]
    assms(4-8) pool_inv_facts(1,3) [OF assms(1)]
  by (simp add: safeRun_def)

lemma pool_worker_inv:
  assumes "pool_inv oc h w" "i < length (workers w)" "worker_next oc h i b w = Some w'"
  shows "pool_inv oc h w'"
proof -
  obtain us vs where d: "workers w = us @ (workers w ! i) # vs" "i = length us" using pool_worker_split [OF assms(2)] by metis
  note ok = pool_inv_facts(4) [OF assms(1,2)] and f = pool_inv_facts(2,3) [OF assms(1)]
  show ?thesis
  proof (cases "workers w ! i")
    case (WLoad x)
    then show ?thesis using assms(3) by (auto simp: worker_next_def intro!: worker_keep [OF assms(1) d])
  next
    case (WMax x cur)
    then show ?thesis using assms(3) f by (auto simp: worker_next_def intro!: worker_keep [OF assms(1) d])
  next
    case (WCas x cur)
    then show ?thesis using assms(3) ok by (auto simp: worker_next_def intro!: worker_keep [OF assms(1) d] worker_leave [OF assms(1) d])
  next
    case WSelect
    then show ?thesis using assms(3) worker_take [OF assms(1) d, of WGot]
      by (auto simp: worker_next_def worker_select_def split: branch.splits if_splits intro!: worker_keep [OF assms(1) d])
  next
    case WDrain
    then show ?thesis using assms(3) ok worker_take [OF assms(1) d, of WDrainRun]
      by (auto simp: worker_next_def split: if_splits intro!: worker_keep [OF assms(1) d])
  next
    case WLeave
    then show ?thesis using assms(3) ok by (auto simp: worker_next_def intro!: worker_leave [OF assms(1) d])
  next
    case (WRun t)
    then show ?thesis using assms(3) ok by (auto simp: worker_next_def intro!: worker_run [OF assms(1) d])
  next
    case (WDrainRun t)
    then show ?thesis using assms(3) ok by (auto simp: worker_next_def intro!: worker_run [OF assms(1) d])
  next
    case WDone
    then show ?thesis using assms(3) by (auto simp: worker_next_def intro!: worker_keep [OF assms(1) d])
  qed (use assms(3) ok in \<open>auto simp: worker_next_def intro!: worker_idle [OF assms(1) d]\<close>)
qed

text \<open>No size that does not fit 32 bits; the bounds of an \<open>Adaptive\<close> are \<open>int32\<close> already.\<close>

fun turn_ok :: "'task turn \<Rightarrow> bool" where
  "turn_ok (Resize i n) \<longleftrightarrow> n < 2 ^ 31"
| "turn_ok (Adjust a i r) \<longleftrightarrow> amax a < 2 ^ 31"
| "turn_ok u \<longleftrightarrow> True"

lemma adjust_inv:
  assumes "pool_inv oc h w" "amax a < 2 ^ 31"
  shows "pool_inv oc h (adjust a i r w)"
proof -
  have "clamp a x < 2 ^ 31" for x using assms(2) by (auto simp: clamp_def Let_def)
  then have "n < 2 ^ 31" if "adjust_target a rn idl qLen qCap = Some n" for rn idl qLen qCap n
    using that by (auto simp: adjust_target_def Let_def split: if_splits)
  then show ?thesis using resize_inv [OF assms(1)] assms(1) by (auto simp: adjust_def split: prod.splits option.splits)
qed

lemma pool_exec_inv: "pool_exec oc h u w = Some w' \<Longrightarrow> turn_ok u \<Longrightarrow> pool_inv oc h w \<Longrightarrow> pool_inv oc h w'"
  using pool_one [of oc h w]
  by (cases u) (auto simp: submit_def pool_inv_goto Pool_Stop_def split: if_splits intro: pool_sub_inv pool_worker_inv resize_inv adjust_inv intro!: inv_pool)

interpretation pool_keep: machine "pool_exec oc h" turn_ok "pool_inv oc h" for oc h
  by unfold_locales (rule pool_exec_inv)

section \<open>Properties\<close>

lemma spawn_many:
  "(spawn_one ^^ n) w = w\<lparr>pool := (pool w)\<lparr>running := running (pool w) + int n\<rparr>, workers := workers w @ replicate n (WLoad False)\<rparr>"
  by (induction n) (simp_all add: spawn_one_def replicate_append_same [symmetric])

lemma NewPool_inv:
  assumes "1 \<le> procs" "procs < 2 ^ 31" "sz < 2 ^ 31"
  shows "pool_inv oc h (NewPool procs sz k)"
proof -
  have r: "total_of alive (replicate n (WLoad False :: 'a wpc)) = int n" "total_of idling (replicate n (WLoad False :: 'a wpc)) = 0"
    "total_of working (replicate n (WLoad False :: 'a wpc)) = {#}" for n
    by (induction n) simp_all
  define n where "n = (if sz \<le> 0 then procs else sz)"
  have "1 \<le> n" "n < 2 ^ 31" using assms by (auto simp: n_def)
  then show ?thesis unfolding NewPool_def Let_def n_def [symmetric] spawn_many by (simp add: pool_inv_def swrap32_id r)
qed

text \<open>
  C8. In every interleaving of submissions, resizes (also those of \<open>Adaptive\<close>, whatever numbers it
  has read), \<open>Stop\<close> and the workers: \<open>Running\<close> is the number of
  workers and \<open>Idle\<close> that of those in their select; every task accepted is exactly once in the queue, with
  a worker, or done; the queue keeps to its capacity; the panic counter is the number of tasks that
  panicked; and however the pool is resized, there is at least one worker until it is stopped.
\<close>

theorem pool_accounting:
  assumes "pool_run outcome handler turns (NewPool procs sz k) = Some w" "\<forall>u \<in> set turns. turn_ok u"
    "1 \<le> procs" "procs < 2 ^ 31" "sz < 2 ^ 31"
  shows "Pool_Running (pool w) = total_of alive (workers w) \<and> Pool_Idle (pool w) = total_of idling (workers w) \<and>
    mset (sent w) = mset (ran w) + mset (tasks (pool w)) + total_of working (workers w) \<and>
    QueueLen (pool w) \<le> QueueCap (pool w) \<and>
    Pool_PanicCount (pool w) = int (length (filter (\<lambda>t. outcome t \<noteq> None) (ran w))) \<and>
    (\<not> closed (pool w) \<longrightarrow> 1 \<le> Pool_Running (pool w))"
  using pool_keep.runs_keep [OF assms(1,2) NewPool_inv [OF assms(3-5)]]
  by (auto simp: pool_inv_def Let_def Pool_Running_def Pool_Idle_def QueueLen_def QueueCap_def Pool_PanicCount_def fold_panicSafeRun)

definition demo_turns :: "nat turn list" where
  "demo_turns = [Submit 0 Block 7, Sub 0 OnTask, Submit 0 Try 8, Work 0 OnTask, Work 0 OnTask, Work 0 OnTask, Work 0 OnTask, Work 0 OnTask,
     Work 0 OnTask, Sub 0 OnTask, Work 0 OnTask, Work 0 OnTask, Work 0 OnTask,
     Adjust (NewAdaptive 1 4) 0 (1, 0, 4, 4), Sub 0 OnTask, Sub 0 OnTask]"

theorem pool_accounting_witness:
  "\<exists>w. pool_run (\<lambda>t. if t = 7 then Some ''boom'' else None) True demo_turns (NewPool 4 1 1) = Some w \<and>
     Pool_Running (pool w) = 2 \<and> Pool_Idle (pool w) = 1 \<and> Pool_PanicCount (pool w) = 1 \<and> sent w = [7, 8] \<and> ran w = [7]"
proof -
  let ?r = "pool_run (\<lambda>t. if t = 7 then Some ''boom'' else None) True demo_turns (NewPool 4 1 1)"
  have e: "map_option sent ?r = Some [7, 8]" "map_option ran ?r = Some [7]" "map_option workers ?r = Some [WSelect, WLoad False]" by code_simp+
  then obtain w where w: "?r = Some w" by (cases ?r) auto
  have f: "sent w = [7, 8]" "ran w = [7]" "workers w = [WSelect, WLoad False]" using e unfolding w by simp_all
  have "\<forall>u \<in> set demo_turns. turn_ok u" by (simp add: demo_turns_def NewAdaptive_def Let_def swrap32_def)
  from pool_accounting [OF w this] show ?thesis using w by (simp add: f)
qed

text \<open>A submission that passed its check goes through after the workers have drained the queue and left.\<close>

definition late_turns :: "nat turn list" where
  "late_turns = [Submit 0 Block 7, Stop 1, Sub 1 OnTask, Sub 1 OnTask, Work 0 OnTask, Work 0 OnTask, Work 0 OnTask, Work 0 OnStop,
     Work 0 OnTask, Work 0 OnTask, Work 0 OnTask, Work 0 OnTask, Sub 0 OnTask, Sub 1 OnTask]"

text \<open>
  A worker has read two running and at most one allowed; the pool is resized to two again, another worker
  starts and another retires, so that two are running when its compare-and-swap comes.
\<close>

definition shrink_turns :: "nat turn list" where
  "shrink_turns = [Work 0 OnTask, Resize 0 1, Work 0 OnTask, Resize 0 2, Sub 0 OnTask, Sub 0 OnTask, Work 1 OnTask, Work 1 OnTask, Work 1 OnTask, Work 0 OnTask]"

fun no_resize :: "'task turn \<Rightarrow> bool" where
  "no_resize (Resize i n) \<longleftrightarrow> False"
| "no_resize (Adjust a i r) \<longleftrightarrow> False"
| "no_resize u \<longleftrightarrow> True"

definition over :: "'task world \<Rightarrow> bool" where
  "over w \<longleftrightarrow> workers w = [WGone] \<and> subs w = [SIdle, SIdle] \<and> stopped (pool w) \<and> once (pool w) = 2"

lemma over_exec: "over w \<Longrightarrow> no_resize u \<Longrightarrow> pool_exec oc h u w = Some w' \<Longrightarrow> over w' \<and> ran w' = ran w"
  by (cases u) (auto simp: over_def submit_def Pool_Stop_def sub_next_def worker_next_def nth_Cons' split: if_splits)

interpretation pool_over: machine "pool_exec oc h" no_resize "\<lambda>w. over w \<and> ran w = ts" for oc h ts
  by unfold_locales (auto dest: over_exec)

definition settled :: "'task world \<Rightarrow> bool" where
  "settled w \<longleftrightarrow> (\<forall>n. SSpawn n \<notin> set (subs w))"

lemma settled_goto: "settled w \<Longrightarrow> (\<And>n. pc \<noteq> SSpawn n) \<Longrightarrow> settled (goto i pc w)"
  unfolding settled_def goto_def by (auto dest: set_update_subset_insert [THEN subsetD])

lemma goto_pool: "pool (goto i pc w) = pool w"
  by (simp add: goto_def)

lemma settled_pool: "settled (w\<lparr>pool := p\<rparr>) = settled w"
  by (simp add: settled_def)

lemma settled_sub:
  assumes "settled w" "i < length (subs w)" "sub_next i b w = Some w'"
  shows "settled w' \<and> running (pool w') = running (pool w)"
proof -
  have s: "settled (w\<lparr>pool := p\<rparr>)" "settled (w\<lparr>pool := p, sent := x\<rparr>)" for p x using assms(1) by (simp_all add: settled_def)
  have "subs w ! i \<noteq> SSpawn n" for n using assms(1,2) unfolding settled_def by (metis nth_mem)
  then show ?thesis using assms(1,3) s
    by (auto simp: sub_next_def choice_defs enqueue_def Let_def intro!: settled_goto split: spc.splits mode.splits branch.splits if_splits)
      (auto simp: goto_def)
qed

lemma settled_work:
  assumes "settled w" "worker_next oc h i b w = Some w'"
  shows "settled w' \<and> running (pool w') \<le> running (pool w)"
  using assms
  by (auto simp: worker_next_def worker_select_def take_task_def set_worker_def add_idle_def add_running_def safeRun_def settled_def
      split: wpc.splits branch.splits if_splits list.splits)

lemma settled_exec: "settled w \<Longrightarrow> no_resize u \<Longrightarrow> pool_exec oc h u w = Some w' \<Longrightarrow> settled w' \<and> running (pool w') \<le> running (pool w)"
proof (cases u)
  case (Sub i b)
  moreover assume "settled w" "pool_exec oc h u w = Some w'"
  ultimately show ?thesis using settled_sub [of w i b w'] by (simp split: if_splits)
next
  case (Work i b)
  moreover assume "settled w" "pool_exec oc h u w = Some w'"
  ultimately show ?thesis using settled_work [of w oc h i b w'] by (simp split: if_splits)
qed (auto simp: submit_def Pool_Stop_def goto_pool settled_pool split: if_splits intro!: settled_goto)

interpretation pool_settled: machine "pool_exec oc h" no_resize "\<lambda>w. settled w \<and> running (pool w) \<le> n" for oc h n
  by unfold_locales (meson order_trans settled_exec)

lemma late_end:
  "map_option subs (pool_run (\<lambda>_. None) False late_turns (NewPool 4 1 2)) = Some [SIdle, SIdle]"
  "map_option workers (pool_run (\<lambda>_. None) False late_turns (NewPool 4 1 2)) = Some [WGone]"
  "map_option sent (pool_run (\<lambda>_. None) False late_turns (NewPool 4 1 2)) = Some [7]"
  "map_option ran (pool_run (\<lambda>_. None) False late_turns (NewPool 4 1 2)) = Some []"
  "map_option (\<lambda>w. (stopped (pool w), once (pool w))) (pool_run (\<lambda>_. None) False late_turns (NewPool 4 1 2)) = Some (True, 2)"
  by code_simp+

lemma shrink_end:
  "map_option subs (pool_run (\<lambda>_. None) False shrink_turns (NewPool 4 2 1)) = Some [SIdle :: nat spc]"
  "map_option (\<lambda>w. (Pool_Running (pool w), maxSize (pool w), stopped (pool w))) (pool_run (\<lambda>_. None) False shrink_turns (NewPool 4 2 1)) =
    Some (1, 2, False)"
  by code_simp+

text \<open>
  C40. Two races. A submission that overlaps with \<open>Stop\<close> can return true although \<open>Stop\<close> has drained the
  queue: the task is never run (unless the stopped pool is resized). And shrinking is not exact: after a
  resize down and up again two workers can retire for one place, and the pool stays one worker short of
  its size until the next resize.
\<close>

theorem pool_races:
  "(\<exists>w. pool_run (\<lambda>_. None) False late_turns (NewPool 4 1 2) = Some w \<and> sent w = [7] \<and> subs w = [SIdle, SIdle] \<and>
      (\<forall>us w'. (\<forall>u \<in> set us. no_resize u) \<and> pool_run (\<lambda>_. None) False us w = Some w' \<longrightarrow> ran w' = [])) \<and>
   (\<exists>w. pool_run (\<lambda>_. None) False shrink_turns (NewPool 4 2 1) = Some w \<and> subs w = [SIdle :: nat spc] \<and> maxSize (pool w) = 2 \<and>
      \<not> stopped (pool w) \<and>
      (\<forall>us w'. (\<forall>u \<in> set us. no_resize u) \<and> pool_run (\<lambda>_. None) False us w = Some w' \<longrightarrow> Pool_Running (pool w') \<le> 1))"
proof -
  obtain w where w: "pool_run (\<lambda>_. None) False late_turns (NewPool 4 1 2) = Some w" "over w" "sent w = [7]" "ran w = []" "subs w = [SIdle, SIdle]"
    using late_end by (auto simp: over_def)
  obtain v where v: "pool_run (\<lambda>_. None) False shrink_turns (NewPool 4 2 1) = Some v" "subs v = [SIdle]" "maxSize (pool v) = 2"
    "\<not> stopped (pool v)" "running (pool v) = 1"
    using shrink_end by (auto simp: Pool_Running_def)
  have "settled v" by (simp add: settled_def v(2))
  then have "Pool_Running (pool v') \<le> 1" if "\<forall>u \<in> set us. no_resize u" "pool_run (\<lambda>_. None) False us v = Some v'" for us v'
    using pool_settled.runs_keep [OF that(2,1), of 1] v(5) by (simp add: Pool_Running_def)
  moreover have "ran w' = []" if "\<forall>u \<in> set us. no_resize u" "pool_run (\<lambda>_. None) False us w = Some w'" for us w'
    using pool_over.runs_keep [OF that(2,1), of "[]"] w(2,4) by simp
  ultimately show ?thesis using w v by (metis (no_types, lifting))
qed

theorem pool_races_witness:
  "\<exists>w. pool_run (\<lambda>_. None) False late_turns (NewPool 4 1 2) = Some w \<and> sent w = [7] \<and> ran w = []"
proof -
  obtain w where w: "pool_run (\<lambda>_. None) False late_turns (NewPool 4 1 2) = Some w" "sent w = [7]"
    "\<forall>us w'. (\<forall>u \<in> set us. no_resize u) \<and> pool_run (\<lambda>_. None) False us w = Some w' \<longrightarrow> ran w' = []"
    using pool_races by blast
  have "ran w = []" using w(3) [rule_format, of "[]" w] by simp
  then show ?thesis using w by blast
qed

text \<open>
  \<open>Adaptive\<close> keeps between its bounds: whatever it is created with, a change is to a size from the
  minimum to the maximum; a queue more than three quarters full makes the pool grow by a quarter as far
  as the maximum allows, more than half of the workers idle makes it shrink by a quarter as far as the
  minimum allows, and otherwise the size is left alone.
\<close>

theorem adaptive_bounds:
  assumes "mn < 2 ^ 30" "mx < 2 ^ 30" "0 \<le> rn" "rn < 2 ^ 30" "0 \<le> cap"
  defines "a \<equiv> NewAdaptive mn mx"
  shows "(case adjust_target a rn idl len cap of
      None \<Rightarrow> cap * 3 < len * 4 \<and> 0 < cap \<longrightarrow> rn = amax a
    | Some n \<Rightarrow> 1 \<le> amin a \<and> amin a \<le> n \<and> n \<le> amax a \<and> n \<noteq> rn \<and>
        (amin a \<le> rn \<and> rn \<le> amax a \<longrightarrow>
          (if 0 < cap \<and> cap * 3 < len * 4 then n = min (amax a) (rn + max 1 (rn div 4))
           else rn < 2 * idl \<and> n = max (amin a) (rn - max 1 (rn div 4))))) \<and>
    (len * 4 \<le> cap * 3 \<and> 2 * idl \<le> rn \<longrightarrow> adjust_target a rn idl len cap = None)"
proof -
  have b: "amin a = max 1 mn" "amax a = max (max 1 mn) mx"
    using assms(1,2) by (auto simp: a_def NewAdaptive_def Let_def swrap32_id max_def)
  have d: "adjust_delta rn = max 1 (rn div 4)" by (simp add: adjust_delta_def Let_def max_def)
  have q: "0 \<le> rn div 4" "rn div 4 \<le> rn" using assms(3) by simp_all
  have w: "swrap32 (rn + adjust_delta rn) = rn + max 1 (rn div 4)" "swrap32 (rn - adjust_delta rn) = rn - max 1 (rn div 4)"
    unfolding d by (subst swrap32_id; use q assms(3,4) in simp)+
  have c: "clamp a x = min (amax a) (max (amin a) x)" for x using b by (auto simp: clamp_def Let_def)
  obtain A B D where g: "amin a = A" "amax a = B" "max 1 (rn div 4) = D" "1 \<le> A" "A \<le> B" "1 \<le> D"
    using b by auto
  have up: "min B (max A (rn + D)) = rn \<Longrightarrow> rn = B" "A \<le> rn \<Longrightarrow> max A (rn + D) = rn + D"
    and down: "rn \<le> B \<Longrightarrow> min B (max A (rn - D)) = max A (rn - D)"
    and bounds: "A \<le> min B (max A x)" "min B (max A x) \<le> B" for x
    using g(4-6) by linarith+
  show ?thesis
  proof (cases "0 < cap \<and> cap * 3 < len * 4")
    case True
    then have "adjust_target a rn idl len cap = (if min B (max A (rn + D)) \<noteq> rn then Some (min B (max A (rn + D))) else None)"
      by (simp add: adjust_target_def w c Let_def g(1-3))
    then show ?thesis using True up bounds g(4) by (auto simp: g(1-3))
  next
    case False
    then have "adjust_target a rn idl len cap =
        (if 0 < rn \<and> rn < idl * 2 \<and> min B (max A (rn - D)) \<noteq> rn then Some (min B (max A (rn - D))) else None)"
      by (auto simp: adjust_target_def w c Let_def g(1-3))
    then show ?thesis using False down bounds g(4) by (auto simp: g(1-3))
  qed
qed

theorem adaptive_bounds_witness: "adjust_target (NewAdaptive 2 10) 8 0 31 32 = Some 10 \<and> adjust_target (NewAdaptive 2 10) 8 5 0 32 = Some 6"
proof -
  have "adjust_target (NewAdaptive 2 10) 8 0 31 32 \<noteq> None" "adjust_target (NewAdaptive 2 10) 8 5 0 32 \<noteq> None"
    "amin (NewAdaptive 2 10) = 2" "amax (NewAdaptive 2 10) = 10" by code_simp+
  then show ?thesis using adaptive_bounds [where mn = 2 and mx = 10 and rn = 8 and cap = 32 and idl = 0 and len = 31]
    adaptive_bounds [where mn = 2 and mx = 10 and rn = 8 and cap = 32 and idl = 5 and len = 0] by (auto split: option.splits)
qed

end
