(* ===== verification/WAdaptive.thy ===== *)
theory WAdaptive
  imports WPool
begin

text \<open>
  Package \<open>wpool\<close>, the life of an \<open>Adaptive\<close> pool (src/wpool/pool.go): the goroutine of \<open>monitor\<close> beside
  the callers and workers of \<open>WPool\<close>. The monitor is the goroutine 0 of the inner pool, the callers are the
  others. \<open>adjust\<close> reads the four numbers in four steps, and everything else may happen between them. When
  the ticker fires, and which branch of the \<open>select\<close> is taken when both are ready, are choices of the
  schedule.
\<close>

section \<open>State\<close>

text \<open>The monitor: in its select, in \<open>adjust\<close> with what it has read so far, before \<open>Resize\<close>, ended.\<close>

datatype mpc = MSelect | MRunning | MIdle int | MLen int int | MCap int int int | MResize int | MGone

text \<open>A caller of \<open>Stop\<close>: before the close of the channel, before \<open>pool.Stop\<close>, in it.\<close>

datatype apc = AIdle | AClose | APool | AWait

record 'task aworld =
  limits :: adaptive
  inner :: "'task world"
  monitor :: mpc
  callers :: "apc list"
  stopCh :: bool
  aonce :: nat

definition Adaptive_start :: "int \<Rightarrow> int \<Rightarrow> int \<Rightarrow> nat \<Rightarrow> 'task aworld" where
  "Adaptive_start procs mn mx k =
     \<lparr>limits = NewAdaptive mn mx, inner = NewPool procs (if mn \<le> 0 then 1 else mn) (Suc k), monitor = MSelect,
      callers = replicate (Suc k) AIdle, stopCh = False, aonce = 0\<rparr>"

section \<open>Operations\<close>

definition at_caller :: "nat \<Rightarrow> apc \<Rightarrow> 'task aworld \<Rightarrow> 'task aworld" where
  "at_caller i p a = a\<lparr>callers := (callers a)[i := p]\<rparr>"

definition Adaptive_Submit :: "nat \<Rightarrow> 'task \<Rightarrow> 'task aworld \<Rightarrow> 'task aworld" where
  "Adaptive_Submit i t a = a\<lparr>inner := submit i Block t (inner a)\<rparr>"

definition Adaptive_TrySubmit :: "nat \<Rightarrow> 'task \<Rightarrow> 'task aworld \<Rightarrow> 'task aworld" where
  "Adaptive_TrySubmit i t a = a\<lparr>inner := submit i Try t (inner a)\<rparr>"

definition Adaptive_Running :: "'task aworld \<Rightarrow> int" where
  "Adaptive_Running a = Pool_Running (pool (inner a))"

definition Adaptive_PanicCount :: "'task aworld \<Rightarrow> int" where
  "Adaptive_PanicCount a = Pool_PanicCount (pool (inner a))"

text \<open>\<open>once.Do\<close>: the first call runs the function, others wait until it has returned.\<close>

definition Adaptive_Stop :: "nat \<Rightarrow> 'task aworld \<Rightarrow> 'task aworld option" where
  "Adaptive_Stop i a =
     (if aonce a = 0 then Some (at_caller i AClose (a\<lparr>aonce := 1\<rparr>)) else if aonce a = 1 then None else Some a)"

definition stop_next :: "nat \<Rightarrow> branch \<Rightarrow> 'task aworld \<Rightarrow> 'task aworld option" where
  "stop_next i b a =
     (case callers a ! i of
        AClose \<Rightarrow> Some (at_caller i APool (a\<lparr>stopCh := True\<rparr>))
      | APool \<Rightarrow> map_option (\<lambda>w. at_caller i AWait (a\<lparr>inner := w\<rparr>)) (Pool_Stop i (inner a))
      | AWait \<Rightarrow>
          (if subs (inner a) ! i = SIdle then Some (at_caller i AIdle (a\<lparr>aonce := 2\<rparr>))
           else map_option (\<lambda>w. a\<lparr>inner := w\<rparr>) (sub_next i b (inner a)))
      | AIdle \<Rightarrow> map_option (\<lambda>w. a\<lparr>inner := w\<rparr>) (sub_next i b (inner a)))"

text \<open>One step of the monitor; \<open>stop\<close> says which branch its select takes.\<close>

definition monitor_next :: "bool \<Rightarrow> 'task aworld \<Rightarrow> 'task aworld option" where
  "monitor_next stop a =
     (let p = pool (inner a)
      in case monitor a of
           MSelect \<Rightarrow> (if stop then if stopCh a then Some (a\<lparr>monitor := MGone\<rparr>) else None else Some (a\<lparr>monitor := MRunning\<rparr>))
         | MRunning \<Rightarrow> Some (a\<lparr>monitor := MIdle (Pool_Running p)\<rparr>)
         | MIdle rn \<Rightarrow> Some (a\<lparr>monitor := MLen rn (Pool_Idle p)\<rparr>)
         | MLen rn idl \<Rightarrow> Some (a\<lparr>monitor := MCap rn idl (QueueLen p)\<rparr>)
         | MCap rn idl qLen \<Rightarrow>
             Some (a\<lparr>monitor := case adjust_target (limits a) rn idl qLen (QueueCap p) of None \<Rightarrow> MSelect | Some n \<Rightarrow> MResize n\<rparr>)
         | MResize n \<Rightarrow>
             (if subs (inner a) ! 0 = SIdle then Some (a\<lparr>inner := Pool_Resize 0 n (inner a), monitor := MSelect\<rparr>) else None)
         | MGone \<Rightarrow> None)"

text \<open>The iterations of \<open>spawn\<close> in the monitor's \<open>Resize\<close> come before its next turn in the select.\<close>

definition monitor_turn :: "bool \<Rightarrow> 'task aworld \<Rightarrow> 'task aworld option" where
  "monitor_turn stop a =
     (if subs (inner a) ! 0 = SIdle then monitor_next stop a
      else map_option (\<lambda>w. a\<lparr>inner := w\<rparr>) (sub_next 0 OnOther (inner a)))"

datatype 'task aturn = ASubmit nat 'task | ATry nat 'task | AStop nat | ANext nat branch | AWork nat branch | AMonitor bool

definition free_caller :: "nat \<Rightarrow> 'task aworld \<Rightarrow> bool" where
  "free_caller i a \<longleftrightarrow> 0 < i \<and> i < length (callers a) \<and> i < length (subs (inner a)) \<and> callers a ! i = AIdle \<and> subs (inner a) ! i = SIdle"

fun adaptive_exec :: "('task \<Rightarrow> string option) \<Rightarrow> bool \<Rightarrow> 'task aturn \<Rightarrow> 'task aworld \<Rightarrow> 'task aworld option" where
  "adaptive_exec oc h (ASubmit i t) a = (if free_caller i a then Some (Adaptive_Submit i t a) else None)"
| "adaptive_exec oc h (ATry i t) a = (if free_caller i a then Some (Adaptive_TrySubmit i t a) else None)"
| "adaptive_exec oc h (AStop i) a = (if free_caller i a then Adaptive_Stop i a else None)"
| "adaptive_exec oc h (ANext i b) a =
     (if 0 < i \<and> i < length (callers a) \<and> i < length (subs (inner a)) then stop_next i b a else None)"
| "adaptive_exec oc h (AWork i b) a =
     (if i < length (workers (inner a)) then map_option (\<lambda>w. a\<lparr>inner := w\<rparr>) (worker_next oc h i b (inner a)) else None)"
| "adaptive_exec oc h (AMonitor stop) a = (if 0 < length (subs (inner a)) then monitor_turn stop a else None)"

abbreviation adaptive_run :: "('task \<Rightarrow> string option) \<Rightarrow> bool \<Rightarrow> 'task aturn list \<Rightarrow> 'task aworld \<Rightarrow> 'task aworld option" where
  "adaptive_run oc h \<equiv> runs (adaptive_exec oc h)"

section \<open>The size stays within the limits\<close>

lemma maxSize_sub: "sub_next i b w = Some w' \<Longrightarrow> maxSize (pool w') = maxSize (pool w)"
  by (auto simp: sub_next_def choice_defs goto_def enqueue_def spawn_one_def Let_def
      split: spc.splits nat.splits mode.splits branch.splits if_splits)

lemma maxSize_work: "worker_next oc h i b w = Some w' \<Longrightarrow> maxSize (pool w') = maxSize (pool w)"
  by (auto simp: worker_next_def worker_select_def take_task_def set_worker_def add_idle_def add_running_def safeRun_def
      split: wpc.splits branch.splits list.splits if_splits)

lemma maxSize_other [simp]:
  "maxSize (pool (submit i m t w)) = maxSize (pool w)"
  "maxSize (pool (goto i p w)) = maxSize (pool w)"
  "0 < n \<Longrightarrow> n < 2 ^ 31 \<Longrightarrow> maxSize (pool (Pool_Resize i n w)) = n"
  by (auto simp: submit_def Pool_Stop_def Pool_Resize_def goto_def Let_def swrap32_id split: if_splits)

lemma maxSize_stop: "Pool_Stop i w = Some w' \<Longrightarrow> maxSize (pool w') = maxSize (pool w)"
  by (auto simp: Pool_Stop_def split: if_splits)

definition within :: "'task aworld \<Rightarrow> bool" where
  "within a \<longleftrightarrow> (let lo = amin (limits a); hi = amax (limits a) in
     1 \<le> lo \<and> lo \<le> hi \<and> hi < 2 ^ 31 \<and> lo \<le> maxSize (pool (inner a)) \<and> maxSize (pool (inner a)) \<le> hi \<and>
     (\<forall>n. monitor a = MResize n \<longrightarrow> lo \<le> n \<and> n \<le> hi))"

lemma target_within:
  "amin a \<le> amax a \<Longrightarrow> adjust_target a rn idl len cap = Some n \<Longrightarrow> amin a \<le> n \<and> n \<le> amax a"
  by (auto simp: adjust_target_def clamp_def Let_def split: if_splits)

lemma pool_stop_inv:
  assumes "pool_inv oc h w" "Pool_Stop i w = Some w'"
  shows "pool_inv oc h w'"
proof -
  have "pool_inv oc h (w\<lparr>pool := (pool w)\<lparr>once := 1\<rparr>\<rparr>)"
    by (rule inv_pool [OF assms(1)]) (use pool_one [OF assms(1)] in simp_all)
  then show ?thesis using assms by (auto simp: Pool_Stop_def pool_inv_goto split: if_splits)
qed

definition adaptive_inv :: "('task \<Rightarrow> string option) \<Rightarrow> bool \<Rightarrow> 'task aworld \<Rightarrow> bool" where
  "adaptive_inv oc h a \<longleftrightarrow> pool_inv oc h (inner a) \<and> within a"

lemma inv_inner:
  assumes "adaptive_inv oc h a" "pool_inv oc h w" "maxSize (pool w) = maxSize (pool (inner a))"
  shows "adaptive_inv oc h (a\<lparr>inner := w\<rparr>)"
  using assms by (simp add: adaptive_inv_def within_def)

lemma inv_caller: "adaptive_inv oc h (at_caller i p a) = adaptive_inv oc h a"
  by (simp add: adaptive_inv_def within_def at_caller_def)

lemma inv_flags: "adaptive_inv oc h (a\<lparr>stopCh := x\<rparr>) = adaptive_inv oc h a" "adaptive_inv oc h (a\<lparr>aonce := n\<rparr>) = adaptive_inv oc h a"
  by (simp_all add: adaptive_inv_def within_def)

lemma inv_sub:
  assumes "adaptive_inv oc h a" "sub_next i b (inner a) = Some w"
  shows "adaptive_inv oc h (a\<lparr>inner := w\<rparr>)"
proof (rule inv_inner [OF assms(1)])
  show "pool_inv oc h w" by (rule pool_sub_inv [OF _ assms(2)]) (use assms(1) in \<open>simp add: adaptive_inv_def\<close>)
qed (rule maxSize_sub [OF assms(2)])

lemma inv_pool_stop:
  assumes "adaptive_inv oc h a" "Pool_Stop i (inner a) = Some w"
  shows "adaptive_inv oc h (a\<lparr>inner := w\<rparr>)"
proof (rule inv_inner [OF assms(1)])
  show "pool_inv oc h w" by (rule pool_stop_inv [OF _ assms(2)]) (use assms(1) in \<open>simp add: adaptive_inv_def\<close>)
qed (rule maxSize_stop [OF assms(2)])

lemma inv_monitor:
  assumes "adaptive_inv oc h a" "monitor_next stop a = Some a'"
  shows "adaptive_inv oc h a'"
proof -
  have w: "within a" "pool_inv oc h (inner a)" using assms(1) by (simp_all add: adaptive_inv_def)
  show ?thesis
  proof (cases "monitor a")
    case (MResize n)
    then have n: "amin (limits a) \<le> n" "n \<le> amax (limits a)" "0 < n" "n < 2 ^ 31" using w(1) by (auto simp: within_def Let_def)
    then show ?thesis using assms(2) MResize w resize_inv [OF w(2) n(4)]
      by (auto simp: monitor_next_def adaptive_inv_def within_def Let_def split: if_splits)
  next
    case (MCap rn idl len)
    then have a': "a' = a\<lparr>monitor := case adjust_target (limits a) rn idl len (QueueCap (pool (inner a))) of None \<Rightarrow> MSelect | Some n \<Rightarrow> MResize n\<rparr>"
      using assms(2) by (simp add: monitor_next_def)
    have "amin (limits a) \<le> n \<and> n \<le> amax (limits a)" if "monitor a' = MResize n" for n
      using that w(1) by (intro target_within [of "limits a" rn idl len "QueueCap (pool (inner a))"])
        (auto simp: a' within_def Let_def split: option.splits)
    then show ?thesis using w by (simp add: a' adaptive_inv_def within_def Let_def)
  qed (use assms(2) w in \<open>auto simp: monitor_next_def adaptive_inv_def within_def Let_def split: if_splits\<close>)
qed

interpretation adaptive_keep: machine "adaptive_exec oc h" "\<lambda>_. True" "adaptive_inv oc h" for oc h
proof
  fix u and a a' :: "'a aworld"
  assume e: "adaptive_exec oc h u a = Some a'" and inv: "adaptive_inv oc h a"
  then have p: "pool_inv oc h (inner a)" by (simp add: adaptive_inv_def)
  show "adaptive_inv oc h a'"
  proof (cases u)
    case (ANext i b)
    then have "stop_next i b a = Some a'" using e by (simp split: if_splits)
    then consider "a' = at_caller i APool (a\<lparr>stopCh := True\<rparr>)" | "a' = at_caller i AIdle (a\<lparr>aonce := 2\<rparr>)"
      | w where "Pool_Stop i (inner a) = Some w" "a' = at_caller i AWait (a\<lparr>inner := w\<rparr>)"
      | w where "sub_next i b (inner a) = Some w" "a' = a\<lparr>inner := w\<rparr>"
      by (cases "callers a ! i") (auto simp: stop_next_def split: if_splits)
    then show ?thesis
      by cases (simp_all add: inv_caller inv_flags inv inv_sub [OF inv] inv_pool_stop [OF inv])
  next
    case (AWork i b)
    then show ?thesis using e maxSize_work pool_worker_inv [OF p] by (auto split: if_splits intro!: inv_inner [OF inv])
  next
    case (AMonitor stop)
    then show ?thesis using e inv_monitor [OF inv] inv_sub [OF inv] by (auto simp: monitor_turn_def split: if_splits)
  qed (use e inv p in \<open>auto simp: Adaptive_Submit_def Adaptive_TrySubmit_def Adaptive_Stop_def inv_caller inv_flags submit_def pool_inv_goto
      split: if_splits intro!: inv_inner [OF inv]\<close>)
qed

section \<open>What the limits do not bound\<close>

definition put_tasks :: "nat list \<Rightarrow> nat aturn list" where
  "put_tasks ts = concat (map (\<lambda>t. [ASubmit 1 t, ANext 1 OnTask]) ts)"

abbreviation works :: "nat \<Rightarrow> nat \<Rightarrow> nat aturn list" where
  "works n i \<equiv> replicate n (AWork i OnTask)"

abbreviation monitors :: "nat \<Rightarrow> nat aturn list" where
  "monitors n \<equiv> replicate n (AMonitor False)"

text \<open>
  Between 1 and 4 workers: two growths to three workers, which then are all idle, so that the size is
  reduced to two; before one of them retires all three take a task, the queue fills, and the growth to the
  maximum starts two more.
\<close>

definition exceed_turns :: "nat aturn list" where
  "exceed_turns = put_tasks [1, 2, 3, 4] @ monitors 8 @ monitors 8 @ works 27 0 @ works 3 1 @ works 3 2 @ monitors 6 @
     put_tasks [5, 6, 7] @ works 2 0 @ works 2 1 @ works 2 2 @ put_tasks [8, 9, 10, 11] @ monitors 9"

text \<open>\<open>Stop\<close> from beginning to end while the monitor is before its call of \<open>Resize\<close>.\<close>

definition outlive_turns :: "nat aturn list" where
  "outlive_turns = put_tasks [1, 2, 3, 4] @ monitors 5 @ AStop 1 # replicate 4 (ANext 1 OnOther) @
     replicate 16 (AWork 0 OnStop) @ replicate 2 (ANext 1 OnOther) @ monitors 2"

lemma exceed_end:
  "map_option (\<lambda>a. (Adaptive_Running a, amax (limits a), maxSize (pool (inner a)))) (adaptive_run (\<lambda>_. None) False exceed_turns (Adaptive_start 1 1 4 1)) =
     Some (5, 4, 4)"
  by code_simp

lemma outlive_end:
  "map_option (\<lambda>a. (aonce a, callers a, Adaptive_Running a)) (adaptive_run (\<lambda>_. None) False outlive_turns (Adaptive_start 1 1 2 1)) =
     Some (2, [AIdle, AIdle], 1)"
  by code_simp

text \<open>Once the monitor has ended nothing changes the size.\<close>

interpretation monitor_ended: machine "adaptive_exec oc h" "\<lambda>_. True" "\<lambda>a. monitor a = MGone \<and> maxSize (pool (inner a)) = M" for oc h M
proof
  fix u and a a' :: "'a aworld"
  assume e: "adaptive_exec oc h u a = Some a'" and g: "monitor a = MGone \<and> maxSize (pool (inner a)) = M"
  have "monitor a' = monitor a \<and> maxSize (pool (inner a')) = maxSize (pool (inner a))"
  proof (cases u)
    case (ANext i b)
    then have "stop_next i b a = Some a'" using e by (simp split: if_splits)
    then show ?thesis
      by (cases "callers a ! i") (auto simp: stop_next_def at_caller_def dest: maxSize_sub maxSize_stop split: if_splits)
  next
    case (AMonitor stop)
    then show ?thesis using e g by (auto simp: monitor_turn_def monitor_next_def dest: maxSize_sub split: if_splits)
  qed (use e in \<open>auto simp: Adaptive_Submit_def Adaptive_TrySubmit_def Adaptive_Stop_def at_caller_def dest: maxSize_work split: if_splits\<close>)
  then show "monitor a' = MGone \<and> maxSize (pool (inner a')) = M" using g by simp
qed

lemma start_limits:
  assumes "mn < 2 ^ 31" "mx < 2 ^ 31"
  shows "amin (NewAdaptive mn mx) = max 1 mn" "amax (NewAdaptive mn mx) = max (max 1 mn) mx"
  using assms by (auto simp: NewAdaptive_def Let_def swrap32_id max_def)

lemma start_inv:
  assumes "1 \<le> procs" "procs < 2 ^ 31" "mn < 2 ^ 31" "mx < 2 ^ 31"
  shows "adaptive_inv oc h (Adaptive_start procs mn mx k)"
proof -
  let ?n = "if mn \<le> 0 then 1 else mn"
  have "pool_inv oc h (NewPool procs ?n (Suc k))" using assms by (intro NewPool_inv) auto
  moreover have "maxSize (pool (NewPool procs ?n (Suc k) :: 'a world)) = max 1 mn"
    using assms(3) by (auto simp: NewPool_def spawn_many Let_def swrap32_id)
  ultimately show ?thesis
    using assms(3,4) by (auto simp: adaptive_inv_def within_def Adaptive_start_def start_limits Let_def)
qed

lemma limits_fixed: "adaptive_exec oc h u a = Some a' \<Longrightarrow> limits a' = limits a"
  by (cases u) (auto simp: Adaptive_Submit_def Adaptive_TrySubmit_def Adaptive_Stop_def stop_next_def monitor_turn_def monitor_next_def
      at_caller_def Let_def split: if_splits apc.splits mpc.splits)

interpretation limits_fixed: machine "adaptive_exec oc h" "\<lambda>_. True" "\<lambda>a. limits a = l" for oc h l
  by unfold_locales (simp add: limits_fixed)

section \<open>Properties\<close>

text \<open>
  C19. Whatever is submitted, by whom, and whenever the monitor samples the load, with anything happening
  between its four readings: the size it sets is within the limits at every moment, \<open>Running\<close> is the number
  of workers, every accepted task is once in the queue, with a worker or done, there is a worker until the
  pool is stopped, and once the monitor has ended the size does not change. But the limits bound the size
  that is aimed at, not the workers: shrinking only asks workers to leave, and growing again starts new ones
  beside them, so that more workers than the maximum can run. And \<open>Stop\<close> does not wait for the monitor: a
  \<open>Resize\<close> that was due starts a worker after \<open>Stop\<close> has returned.
\<close>

theorem adaptive_pool:
  assumes "adaptive_run oc h us (Adaptive_start procs mn mx k) = Some a"
    and "1 \<le> procs" "procs < 2 ^ 31" "mn < 2 ^ 31" "mx < 2 ^ 31"
  defines "w \<equiv> inner a"
  shows "max 1 mn \<le> maxSize (pool w) \<and> maxSize (pool w) \<le> max (max 1 mn) mx \<and>
    Adaptive_Running a = total_of alive (workers w) \<and>
    mset (sent w) = mset (ran w) + mset (tasks (pool w)) + total_of working (workers w) \<and>
    (closed (pool w) \<or> 1 \<le> Adaptive_Running a) \<and>
    (\<forall>us' a'. monitor a = MGone \<and> adaptive_run oc h us' a = Some a' \<longrightarrow> maxSize (pool (inner a')) = maxSize (pool w)) \<and>
    (\<exists>a'. adaptive_run (\<lambda>_. None) False exceed_turns (Adaptive_start 1 1 4 1) = Some a' \<and> amax (limits a') < Adaptive_Running a') \<and>
    (\<exists>a'. adaptive_run (\<lambda>_. None) False outlive_turns (Adaptive_start 1 1 2 1) = Some a' \<and>
       aonce a' = 2 \<and> set (callers a') = {AIdle} \<and> 1 \<le> Adaptive_Running a')"
proof (intro conjI allI impI)
  have inv: "adaptive_inv oc h a" by (rule adaptive_keep.runs_keep [OF assms(1)]) (use start_inv [OF assms(2-5)] in auto)
  have lim: "limits a = NewAdaptive mn mx"
    by (rule limits_fixed.runs_keep [OF assms(1)]) (auto simp: Adaptive_start_def)
  show "max 1 mn \<le> maxSize (pool w)" "maxSize (pool w) \<le> max (max 1 mn) mx"
    using inv start_limits [OF assms(4,5)] by (simp_all add: adaptive_inv_def within_def lim w_def Let_def)
  have p: "pool_inv oc h w" using inv by (simp add: adaptive_inv_def w_def)
  then show "Adaptive_Running a = total_of alive (workers w)"
    "mset (sent w) = mset (ran w) + mset (tasks (pool w)) + total_of working (workers w)"
    "closed (pool w) \<or> 1 \<le> Adaptive_Running a"
    by (auto simp: pool_inv_def Let_def Adaptive_Running_def Pool_Running_def w_def)
  show "maxSize (pool (inner a')) = maxSize (pool w)" if "monitor a = MGone \<and> adaptive_run oc h us' a = Some a'" for us' a'
    using monitor_ended.runs_keep [OF that [THEN conjunct2]] that by (simp add: w_def)
qed (use exceed_end outlive_end in auto)

theorem adaptive_pool_witness:
  "\<exists>a. adaptive_run (\<lambda>_. None) False exceed_turns (Adaptive_start 1 1 4 1) = Some a \<and> maxSize (pool (inner a)) \<le> 4 \<and>
     mset (sent (inner a)) = mset (ran (inner a)) + mset (tasks (pool (inner a))) + total_of working (workers (inner a))"
proof -
  obtain a where "adaptive_run (\<lambda>_. None) False exceed_turns (Adaptive_start 1 1 4 1) = Some a" using exceed_end by auto
  from this adaptive_pool [OF this] show ?thesis by simp
qed

end
