(* ===== verification/WToken.thy ===== *)
theory WToken
  imports SafeRun "HOL-Library.Word"
begin

text \<open>
  Package \<open>wpool\<close>, the recycled timeout tokens of \<open>Stack.SubmitTimeout\<close> (src/wpool/stack.go). A token is
  a number, a timer the callback of one \<open>AfterFunc\<close> with the token and the generation it captured. One
  step is one atomic access, one operation on \<open>tokenPool\<close>, or the start or stop of a timer. When a timer
  is due, which object \<open>sync.Pool\<close> returns, and when the waiting loop looks at the token or finds a
  worker are choices of the schedule; the loop itself is modelled in \<open>WStack\<close>.
\<close>

section \<open>State\<close>

record timeoutToken =
  expired :: bool
  gen :: "32 word"

text \<open>
  A call of \<open>SubmitTimeout\<close> that has found no worker: before it clears the flag, before it reads the
  generation, before \<open>AfterFunc\<close>, in the waiting loop, and in its deferred function before \<open>t.Stop\<close>,
  \<open>gen.Add\<close> and \<open>tokenPool.Put\<close>.
\<close>

datatype cpc = CIdle | CClear nat | CLoad nat | CArm nat "32 word" | CWait nat nat | CStop nat nat | CBump nat nat | CPut nat

text \<open>The callback: not due yet, before its check of the generation, before its store, finished.\<close>

datatype tpc = Armed | Due | Store | Ended

datatype timer = Timer (tok: nat) (curGen: "32 word") (pc: tpc)

text \<open>
  \<open>late\<close> is history: the tokens that were given back while a callback was between its check and its
  store. \<open>timeouts\<close> lists the calls that returned false because of their token, with their timer.
\<close>

record tworld =
  tokens :: "timeoutToken list"
  tokenPool :: "nat list"
  calls :: "cpc list"
  timers :: "timer list"
  late :: "nat set"
  timeouts :: "nat list"

definition tokens_init :: "nat \<Rightarrow> tworld" where
  "tokens_init k = \<lparr>tokens = [], tokenPool = [], calls = replicate k CIdle, timers = [], late = {}, timeouts = []\<rparr>"

section \<open>Steps\<close>

definition at_call :: "nat \<Rightarrow> cpc \<Rightarrow> tworld \<Rightarrow> tworld" where
  "at_call i p w = w\<lparr>calls := (calls w)[i := p]\<rparr>"

text \<open>\<open>tokenPool.Get\<close>: the pooled token that the schedule names, or a new one.\<close>

definition get_token :: "nat \<Rightarrow> nat \<Rightarrow> tworld \<Rightarrow> tworld" where
  "get_token i c w =
     (if c < length (tokenPool w)
      then at_call i (CClear (tokenPool w ! c)) (w\<lparr>tokenPool := take c (tokenPool w) @ drop (Suc c) (tokenPool w)\<rparr>)
      else at_call i (CClear (length (tokens w))) (w\<lparr>tokens := tokens w @ [\<lparr>expired = False, gen = 0\<rparr>]\<rparr>))"

definition set_token :: "nat \<Rightarrow> (timeoutToken \<Rightarrow> timeoutToken) \<Rightarrow> tworld \<Rightarrow> tworld" where
  "set_token t f w = w\<lparr>tokens := (tokens w)[t := f (tokens w ! t)]\<rparr>"

definition set_timer :: "nat \<Rightarrow> tpc \<Rightarrow> tworld \<Rightarrow> tworld" where
  "set_timer tm p w = w\<lparr>timers := (timers w)[tm := Timer (tok (timers w ! tm)) (curGen (timers w ! tm)) p]\<rparr>"

definition storing :: "nat \<Rightarrow> tworld \<Rightarrow> bool" where
  "storing t w \<longleftrightarrow> (\<exists>x \<in> set (timers w). tok x = t \<and> pc x = Store)"

fun call_next :: "nat \<Rightarrow> cpc \<Rightarrow> tworld \<Rightarrow> tworld option" where
  "call_next i CIdle w = None"
| "call_next i (CClear t) w = Some (at_call i (CLoad t) (set_token t (\<lambda>k. k\<lparr>expired := False\<rparr>) w))"
| "call_next i (CLoad t) w = Some (at_call i (CArm t (gen (tokens w ! t))) w)"
| "call_next i (CArm t g) w = Some (at_call i (CWait t (length (timers w))) (w\<lparr>timers := timers w @ [Timer t g Armed]\<rparr>))"
| "call_next i (CWait t tm) w =
     (if expired (tokens w ! t) then Some (at_call i (CStop t tm) (w\<lparr>timeouts := timeouts w @ [tm]\<rparr>)) else Some w)"
| "call_next i (CStop t tm) w =
     Some (at_call i (CBump t tm) (if pc (timers w ! tm) = Armed then set_timer tm Ended w else w))"
| "call_next i (CBump t tm) w =
     Some (at_call i (CPut t) (set_token t (\<lambda>k. k\<lparr>gen := gen k + 1\<rparr>) (if storing t w then w\<lparr>late := insert t (late w)\<rparr> else w)))"
| "call_next i (CPut t) w = Some (at_call i CIdle (w\<lparr>tokenPool := tokenPool w @ [t]\<rparr>))"

fun leave_next :: "nat \<Rightarrow> cpc \<Rightarrow> tworld \<Rightarrow> tworld option" where
  "leave_next i (CWait t tm) w = Some (at_call i (CStop t tm) w)"
| "leave_next i _ w = None"

definition timer_next :: "nat \<Rightarrow> tworld \<Rightarrow> tworld option" where
  "timer_next tm w =
     (let x = timers w ! tm
      in case pc x of
           Armed \<Rightarrow> Some (set_timer tm Due w)
         | Due \<Rightarrow> Some (set_timer tm (if gen (tokens w ! tok x) = curGen x then Store else Ended) w)
         | Store \<Rightarrow> Some (set_timer tm Ended (set_token (tok x) (\<lambda>k. k\<lparr>expired := True\<rparr>) w))
         | Ended \<Rightarrow> None)"

text \<open>
  A turn: a call starts, makes its next step, or leaves the loop with a worker or because the pool has
  stopped; a callback makes its next step.
\<close>

datatype tturn = Take nat nat | Next nat | Leave nat | Tick nat

fun token_exec :: "tturn \<Rightarrow> tworld \<Rightarrow> tworld option" where
  "token_exec (Take i c) w = (if i < length (calls w) \<and> calls w ! i = CIdle then Some (get_token i c w) else None)"
| "token_exec (Next i) w = (if i < length (calls w) then call_next i (calls w ! i) w else None)"
| "token_exec (Leave i) w = (if i < length (calls w) then leave_next i (calls w ! i) w else None)"
| "token_exec (Tick tm) w = (if tm < length (timers w) then timer_next tm w else None)"

section \<open>Who holds a token\<close>

fun holding :: "nat \<Rightarrow> cpc \<Rightarrow> nat" where
  "holding t CIdle = 0"
| "holding t (CClear t') = of_bool (t = t')"
| "holding t (CLoad t') = of_bool (t = t')"
| "holding t (CArm t' g) = of_bool (t = t')"
| "holding t (CWait t' tm) = of_bool (t = t')"
| "holding t (CStop t' tm) = of_bool (t = t')"
| "holding t (CBump t' tm) = of_bool (t = t')"
| "holding t (CPut t') = of_bool (t = t')"

definition one_holder :: "tworld \<Rightarrow> bool" where
  "one_holder w \<longleftrightarrow> (\<forall>t. total_of (holding t) (calls w) + count_list (tokenPool w) t \<le> of_bool (t < length (tokens w)))"

text \<open>The callers whose timer is the given one.\<close>

fun uses :: "nat \<Rightarrow> nat \<Rightarrow> cpc \<Rightarrow> bool" where
  "uses t tm (CWait t' tm') \<longleftrightarrow> t = t' \<and> tm = tm'"
| "uses t tm (CStop t' tm') \<longleftrightarrow> t = t' \<and> tm = tm'"
| "uses t tm (CBump t' tm') \<longleftrightarrow> t = t' \<and> tm = tm'"
| "uses t tm _ \<longleftrightarrow> False"

text \<open>
  A callback has a generation of its token that is not newer than the current one, and the current one
  only while its own call holds the token; it is about to store only under the current generation.
\<close>

definition timer_ok :: "tworld \<Rightarrow> nat \<Rightarrow> timer \<Rightarrow> bool" where
  "timer_ok w tm x \<longleftrightarrow> tok x < length (tokens w) \<and> curGen x \<le> gen (tokens w ! tok x) \<and>
     (curGen x = gen (tokens w ! tok x) \<longrightarrow> (\<exists>p \<in> set (calls w). uses (tok x) tm p)) \<and>
     (pc x = Store \<and> tok x \<notin> late w \<longrightarrow> curGen x = gen (tokens w ! tok x))"

text \<open>The flag of a token in use is clear until its own callback is due.\<close>

fun call_ok :: "tworld \<Rightarrow> cpc \<Rightarrow> bool" where
  "call_ok w (CLoad t) \<longleftrightarrow> t \<notin> late w \<longrightarrow> \<not> expired (tokens w ! t)"
| "call_ok w (CArm t g) \<longleftrightarrow> g = gen (tokens w ! t) \<and> (t \<notin> late w \<longrightarrow> \<not> expired (tokens w ! t))"
| "call_ok w (CWait t tm) \<longleftrightarrow> tm < length (timers w) \<and> tok (timers w ! tm) = t \<and>
     (t \<notin> late w \<and> pc (timers w ! tm) = Armed \<longrightarrow> \<not> expired (tokens w ! t))"
| "call_ok w (CStop t tm) \<longleftrightarrow> tm < length (timers w)"
| "call_ok w _ \<longleftrightarrow> True"

definition token_inv :: "nat \<Rightarrow> tworld \<Rightarrow> bool" where
  "token_inv n w \<longleftrightarrow> one_holder w \<and> (\<forall>k \<in> set (tokens w). unat (gen k) \<le> n) \<and>
     (\<forall>tm < length (timers w). timer_ok w tm (timers w ! tm)) \<and> (\<forall>p \<in> set (calls w). call_ok w p)"

lemma holder:
  assumes "one_holder w" "calls w = ys @ p # zs" "holding t p = 1"
  shows "t < length (tokens w)" "t \<notin> set (tokenPool w)" "q \<in> set ys \<union> set zs \<Longrightarrow> holding t q = 0"
proof -
  have "total_of (holding t) ys + 1 + total_of (holding t) zs + count_list (tokenPool w) t \<le> of_bool (t < length (tokens w))"
    using assms(1) unfolding one_holder_def assms(2) by (metis assms(3) total_of_simps(2,3) add.assoc)
  then have *: "t < length (tokens w)" "total_of (holding t) ys = 0" "total_of (holding t) zs = 0" "count_list (tokenPool w) t = 0"
    by (auto split: if_splits simp: of_bool_def)
  then show "t < length (tokens w)" "t \<notin> set (tokenPool w)" by (auto simp: count_list_0_iff)
  show "holding t q = 0" if "q \<in> set ys \<union> set zs" using that *(2,3) by (auto dest: total_of_zero)
qed

lemma held_token: "one_holder w \<Longrightarrow> q \<in> set (calls w) \<Longrightarrow> holding t q \<noteq> 0 \<Longrightarrow> t < length (tokens w)"
  using total_of_ge [of q "calls w" "holding t"] by (auto simp: one_holder_def of_bool_def split: if_splits)

text \<open>A goroutine keeps its part of the invariant when the tokens it holds and its timer are left alone.\<close>

lemma call_ok_frame:
  assumes "call_ok w q" "\<And>t. holding t q = 1 \<Longrightarrow> tokens w' ! t = tokens w ! t" "late w \<subseteq> late w'"
    "\<And>tm. tm < length (timers w) \<Longrightarrow> tm < length (timers w') \<and> tok (timers w' ! tm) = tok (timers w ! tm) \<and>
       (pc (timers w' ! tm) = Armed \<longrightarrow> pc (timers w ! tm) = Armed)"
  shows "call_ok w' q"
  using assms(1) assms(2) [of "case q of CLoad t \<Rightarrow> t | CArm t g \<Rightarrow> t | CWait t tm \<Rightarrow> t"] assms(3)
    assms(4) [of "case q of CWait t tm \<Rightarrow> tm | CStop t tm \<Rightarrow> tm"]
  by (cases q) auto

lemma timer_ok_frame:
  assumes "timer_ok w tm x" "length (tokens w) \<le> length (tokens w')" "late w \<subseteq> late w'"
    "gen (tokens w' ! tok x) = gen (tokens w ! tok x)"
    "\<And>p. p \<in> set (calls w) \<Longrightarrow> uses (tok x) tm p \<Longrightarrow> \<exists>p' \<in> set (calls w'). uses (tok x) tm p'"
    "tok x' = tok x" "curGen x' = curGen x"
    "pc x' = Store \<Longrightarrow> pc x = Store \<or> curGen x = gen (tokens w ! tok x)"
  shows "timer_ok w' tm x'"
  using assms unfolding timer_ok_def by (auto simp del: not_less)

text \<open>A step of a call that leaves the generations and the timers alone.\<close>

lemma token_invI:
  assumes inv: "token_inv n w" and c: "calls w = ys @ p # zs" "calls w' = ys @ p' # zs"
    and one: "one_holder w'" and len: "length (tokens w) \<le> length (tokens w')" and late: "late w \<subseteq> late w'"
    and gens: "\<And>t. t < length (tokens w) \<Longrightarrow> gen (tokens w' ! t) = gen (tokens w ! t)"
    and bound: "\<forall>k \<in> set (tokens w'). unat (gen k) \<le> m"
    and others: "\<And>q t. q \<in> set ys \<union> set zs \<Longrightarrow> holding t q = 1 \<Longrightarrow> t < length (tokens w) \<Longrightarrow> tokens w' ! t = tokens w ! t"
    and tms: "timers w' = timers w" and uses: "\<And>t tm. uses t tm p \<Longrightarrow> uses t tm p'" and ok: "call_ok w' p'"
  shows "token_inv m w'"
proof -
  have "timer_ok w' tm (timers w' ! tm)" if "tm < length (timers w')" for tm
  proof (rule timer_ok_frame [where w = w and x = "timers w ! tm"])
    show "timer_ok w tm (timers w ! tm)" using inv that by (simp add: token_inv_def tms)
    then show "gen (tokens w' ! tok (timers w ! tm)) = gen (tokens w ! tok (timers w ! tm))" by (simp add: timer_ok_def gens)
  qed (use len late c uses in \<open>auto simp: tms\<close>)
  moreover have "call_ok w' q" if "q \<in> set ys \<union> set zs" for q
  proof (rule call_ok_frame [where w = w])
    show "call_ok w q" using inv that by (auto simp: token_inv_def c)
    show "tokens w' ! t = tokens w ! t" if "holding t q = 1" for t
      using inv \<open>q \<in> _\<close> that by (intro others held_token [of w q]) (auto simp: token_inv_def c)
  qed (use late in \<open>auto simp: tms\<close>)
  ultimately show ?thesis using one bound ok by (auto simp: token_inv_def c)
qed

lemma holder_move:
  assumes "one_holder w" "calls w = ys @ p # zs" "calls w' = ys @ p' # zs" "\<And>t. holding t p' = holding t p"
    "tokenPool w' = tokenPool w" "length (tokens w') = length (tokens w)"
  shows "one_holder w'"
  using assms unfolding one_holder_def by (simp add: assms(2,3))

section \<open>Every step keeps the invariant\<close>

lemma count_list_out:
  assumes "c < length xs" shows "count_list xs x = count_list (take c xs @ drop (Suc c) xs) x + of_bool (x = xs ! c)"
  by (subst id_take_nth_drop [OF assms]) simp

lemma token_bound: "token_inv n w \<Longrightarrow> t < length (tokens w) \<Longrightarrow> unat (gen (tokens w ! t)) \<le> Suc n"
  by (auto simp: token_inv_def intro: le_SucI)

lemma token_take:
  assumes inv: "token_inv n w" and c: "calls w = ys @ CIdle # zs"
  shows "token_inv (Suc n) (get_token (length ys) d w)"
proof (cases "d < length (tokenPool w)")
  case True
  let ?t = "tokenPool w ! d"
  have g: "get_token (length ys) d w =
    w\<lparr>tokenPool := take d (tokenPool w) @ drop (Suc d) (tokenPool w), calls := ys @ CClear ?t # zs\<rparr>"
    using True by (simp add: get_token_def at_call_def c)
  have "one_holder (get_token (length ys) d w)"
    using inv unfolding token_inv_def one_holder_def g count_list_out [OF True] by (simp add: c add_ac)
  then show ?thesis using inv unfolding g by (intro token_invI [OF inv c, where p' = "CClear ?t"]) (auto simp: token_inv_def)
next
  case False
  let ?t = "length (tokens w)"
  have g: "get_token (length ys) d w = w\<lparr>tokens := tokens w @ [\<lparr>expired = False, gen = 0\<rparr>], calls := ys @ CClear ?t # zs\<rparr>"
    using False by (simp add: get_token_def at_call_def c)
  have "total_of (holding t) (ys @ CClear ?t # zs) + count_list (tokenPool w) t \<le> of_bool (t < Suc ?t)" for t
  proof -
    have "total_of (holding t) (ys @ CIdle # zs) + count_list (tokenPool w) t \<le> of_bool (t < ?t)"
      using inv by (simp add: token_inv_def one_holder_def c)
    then show ?thesis by (auto simp: of_bool_def split: if_splits)
  qed
  then have "one_holder (get_token (length ys) d w)" by (simp add: one_holder_def g)
  then show ?thesis using inv unfolding g
    by (intro token_invI [OF inv c, where p' = "CClear ?t"]) (auto simp: token_inv_def nth_append)
qed

lemma token_clear:
  assumes inv: "token_inv n w" and c: "calls w = ys @ CClear t # zs"
  shows "token_inv (Suc n) (at_call (length ys) (CLoad t) (set_token t (\<lambda>k. k\<lparr>expired := False\<rparr>) w))" (is "token_inv _ ?w")
proof -
  have one: "one_holder w" using inv by (simp add: token_inv_def)
  note h = holder [OF one c, of t, simplified]
  show ?thesis
  proof (rule token_invI [OF inv c, where p' = "CLoad t"])
    show "one_holder ?w" by (rule holder_move [OF one c, of _ "CLoad t"]) (simp_all add: at_call_def set_token_def c)
    show "\<forall>k \<in> set (tokens ?w). unat (gen k) \<le> Suc n"
      using token_bound [OF inv] h(1) by (auto simp: at_call_def set_token_def in_set_conv_nth nth_list_update)
    show "tokens ?w ! t' = tokens w ! t'" if "q \<in> set ys \<union> set zs" "holding t' q = 1" for q t'
    proof -
      have "t' \<noteq> t" using h(3) [of q] that by auto
      then show ?thesis by (simp add: at_call_def set_token_def)
    qed
  qed (use h(1) in \<open>auto simp: at_call_def set_token_def c nth_list_update\<close>)
qed

lemma token_keep_inv:
  assumes inv: "token_inv n w" and c: "calls w = ys @ p # zs" and h: "\<And>t. holding t p' = holding t p"
    and u: "\<And>t tm. uses t tm p \<Longrightarrow> uses t tm p'" and ok: "call_ok w p'"
  shows "token_inv n (at_call (length ys) p' w)" "token_inv n (at_call (length ys) p' (w\<lparr>timeouts := ts\<rparr>))"
proof -
  have one: "one_holder w" using inv by (simp add: token_inv_def)
  have k: "call_ok w' p'" if "tokens w' = tokens w" "timers w' = timers w" "late w' = late w" for w'
    using ok that by (cases p') auto
  have b: "\<forall>k \<in> set (tokens w). unat (gen k) \<le> n" using inv by (simp add: token_inv_def)
  have "token_inv n (at_call (length ys) p' w')" if w': "w' = w \<or> w' = w\<lparr>timeouts := ts\<rparr>" for w'
  proof (rule token_invI [OF inv c, where p' = p'])
    show "one_holder (at_call (length ys) p' w')"
      by (rule holder_move [OF one c, of _ p']) (use w' in \<open>auto simp: at_call_def c h\<close>)
  qed (use w' b u in \<open>auto simp: at_call_def c k\<close>)
  then show "token_inv n (at_call (length ys) p' w)" "token_inv n (at_call (length ys) p' (w\<lparr>timeouts := ts\<rparr>))"
    by blast+
qed

lemma token_put:
  assumes inv: "token_inv n w" and c: "calls w = ys @ CPut t # zs"
  shows "token_inv (Suc n) (at_call (length ys) CIdle (w\<lparr>tokenPool := tokenPool w @ [t]\<rparr>))" (is "token_inv _ ?w")
proof (rule token_invI [OF inv c, where p' = CIdle])
  have "total_of (holding x) (ys @ CIdle # zs) + count_list (tokenPool w @ [t]) x =
    total_of (holding x) (ys @ CPut t # zs) + count_list (tokenPool w) x" for x by simp
  moreover have "calls ?w = ys @ CIdle # zs" "tokenPool ?w = tokenPool w @ [t]" "tokens ?w = tokens w" by (simp_all add: at_call_def c)
  ultimately show "one_holder ?w" using inv unfolding token_inv_def one_holder_def c by presburger
qed (use inv in \<open>auto simp: at_call_def c token_inv_def intro: le_SucI\<close>)

text \<open>Only the holder of a token can have a callback of its current generation.\<close>

lemma no_current_timer:
  assumes inv: "token_inv n w" and c: "calls w = ys @ p # zs" and h: "holding t p = 1" and u: "\<And>tm. \<not> uses t tm p"
    and tm: "tm < length (timers w)" "tok (timers w ! tm) = t"
  shows "curGen (timers w ! tm) < gen (tokens w ! t)"
proof -
  have one: "one_holder w" using inv by (simp add: token_inv_def)
  have no: "\<not> uses t tm q" if "q \<in> set (calls w)" for q
  proof
    assume q: "uses t tm q"
    then have "q \<in> set ys \<union> set zs" using that u c by auto
    then have "holding t q = 0" by (rule holder(3) [OF one c h])
    then show False using q by (cases q) auto
  qed
  have "timer_ok w tm (timers w ! tm)" using inv tm by (simp add: token_inv_def)
  then show ?thesis using no tm by (auto simp: timer_ok_def order_le_less)
qed

lemma token_arm:
  assumes inv: "token_inv n w" and c: "calls w = ys @ CArm t g # zs"
  shows "token_inv (Suc n) (at_call (length ys) (CWait t (length (timers w))) (w\<lparr>timers := timers w @ [Timer t g Armed]\<rparr>))" (is "token_inv _ ?w")
proof -
  have one: "one_holder w" using inv by (simp add: token_inv_def)
  note h = holder [OF one c, of t, simplified]
  have g: "g = gen (tokens w ! t)" "t \<notin> late w \<longrightarrow> \<not> expired (tokens w ! t)" using inv c by (auto simp: token_inv_def)
  have tm: "timer_ok ?w tm (timers ?w ! tm)" if "tm < length (timers w)" for tm
  proof (rule timer_ok_frame [where w = w and x = "timers w ! tm"])
    show "timer_ok w tm (timers w ! tm)" using inv that by (simp add: token_inv_def)
  qed (use that c in \<open>auto simp: at_call_def nth_append\<close>)
  moreover have "timer_ok ?w (length (timers w)) (Timer t g Armed)" using h(1) g by (auto simp: timer_ok_def at_call_def c)
  ultimately have "timer_ok ?w tm (timers ?w ! tm)" if "tm < length (timers ?w)" for tm
    using that by (cases "tm = length (timers w)") (auto simp: at_call_def)
  moreover have "call_ok ?w q" if "q \<in> set ys \<union> set zs" for q
    by (rule call_ok_frame [where w = w]) (use inv that in \<open>auto simp: token_inv_def c at_call_def nth_append\<close>)
  moreover have "one_holder ?w" by (rule holder_move [OF one c, of _ "CWait t (length (timers w))"]) (simp_all add: at_call_def c)
  ultimately show ?thesis using token_bound [OF inv] g(2) by (auto simp: token_inv_def at_call_def c in_set_conv_nth nth_append)
qed

text \<open>A callback moves on: its own call keeps its part, and no other call has this callback.\<close>

lemma token_timer:
  assumes inv: "token_inv n w" and tm: "tm < length (timers w)" and p: "p = Store \<Longrightarrow> curGen (timers w ! tm) = gen (tokens w ! tok (timers w ! tm))"
    and arm: "p \<noteq> Armed"
  shows "token_inv n (set_timer tm p w)"
proof -
  have "timer_ok (set_timer tm p w) i (timers (set_timer tm p w) ! i)" if "i < length (timers w)" for i
  proof (rule timer_ok_frame [where w = w and x = "timers w ! i"])
    show "timer_ok w i (timers w ! i)" using inv that by (simp add: token_inv_def)
  qed (use that p tm in \<open>auto simp: set_timer_def nth_list_update split: if_splits\<close>)
  moreover have "call_ok (set_timer tm p w) q" if "q \<in> set (calls w)" for q
    by (rule call_ok_frame [where w = w]) (use inv that tm arm in \<open>auto simp: token_inv_def set_timer_def nth_list_update\<close>)
  ultimately show ?thesis using inv by (auto simp: token_inv_def set_timer_def one_holder_def)
qed

lemma token_stop:
  assumes inv: "token_inv n w" and c: "calls w = ys @ CStop t tm # zs"
  shows "token_inv n (at_call (length ys) (CBump t tm) (if pc (timers w ! tm) = Armed then set_timer tm Ended w else w))"
proof -
  have tm: "tm < length (timers w)" using inv c by (auto simp: token_inv_def)
  have "token_inv n (set_timer tm Ended w)" "calls (set_timer tm Ended w) = ys @ CStop t tm # zs"
    using token_timer [OF inv tm, of Ended] c by (simp_all add: set_timer_def)
  then show ?thesis using inv c by (auto intro!: token_keep_inv(1) [where p = "CStop t tm"])
qed

lemma token_bump:
  assumes inv: "token_inv n w" and c: "calls w = ys @ CBump t tm # zs" and n: "Suc n < 2 ^ 32"
  shows "token_inv (Suc n) (at_call (length ys) (CPut t)
    (set_token t (\<lambda>k. k\<lparr>gen := gen k + 1\<rparr>) (if storing t w then w\<lparr>late := insert t (late w)\<rparr> else w)))" (is "token_inv _ ?w")
proof -
  have one: "one_holder w" using inv by (simp add: token_inv_def)
  note h = holder [OF one c, of t, simplified]
  let ?g = "gen (tokens w ! t)"
  have "unat ?g \<le> n" using inv h(1) by (simp add: token_inv_def)
  then have g: "unat (?g + 1) = Suc (unat ?g)" using n by (simp add: unat_word_ariths)
  then have less: "?g < ?g + 1" by (simp add: word_less_nat_alt)
  have w: "calls ?w = ys @ CPut t # zs" "timers ?w = timers w" "tokenPool ?w = tokenPool w"
    "tokens ?w = (tokens w)[t := (tokens w ! t)\<lparr>gen := ?g + 1\<rparr>]" "late w \<subseteq> late ?w" "storing t w \<Longrightarrow> t \<in> late ?w"
    by (auto simp: at_call_def set_token_def c)
  have "timer_ok ?w i (timers w ! i)" if i: "i < length (timers w)" for i
  proof (cases "tok (timers w ! i) = t")
    case True
    have "timer_ok w i (timers w ! i)" using inv i by (simp add: token_inv_def)
    then have "curGen (timers w ! i) < ?g + 1" using True less by (auto simp: timer_ok_def)
    moreover have "t \<in> late ?w" if "pc (timers w ! i) = Store" using w(6) True that i by (auto simp: storing_def)
    ultimately show ?thesis using True h(1) by (auto simp: timer_ok_def w(4))
  next
    case False
    show ?thesis
    proof (rule timer_ok_frame [where w = w and x = "timers w ! i"])
      show "timer_ok w i (timers w ! i)" using inv i by (simp add: token_inv_def)
    qed (use w(5) False c in \<open>auto simp: w(1,4)\<close>)
  qed
  moreover have "call_ok ?w q" if "q \<in> set ys \<union> set zs" for q
  proof (rule call_ok_frame [where w = w])
    show "tokens ?w ! t' = tokens w ! t'" if "holding t' q = 1" for t'
    proof -
      have "t' \<noteq> t" using h(3) [of q] that \<open>q \<in> _\<close> by auto
      then show ?thesis by (simp add: w(4))
    qed
  qed (use inv that w(5) in \<open>auto simp: token_inv_def c w(2)\<close>)
  moreover have "one_holder ?w" by (rule holder_move [OF one c w(1)]) (simp_all add: w)
  moreover have "unat (gen k) \<le> Suc n" if k: "k \<in> set (tokens ?w)" for k
  proof -
    obtain i where i: "i < length (tokens w)" "k = (tokens w)[t := (tokens w ! t)\<lparr>gen := ?g + 1\<rparr>] ! i"
      using k unfolding w(4) in_set_conv_nth by auto
    show ?thesis
    proof (cases "i = t")
      case True
      then show ?thesis using i h(1) g \<open>unat ?g \<le> n\<close> by simp
    next
      case False
      then show ?thesis using i token_bound [OF inv i(1)] by simp
    qed
  qed
  ultimately show ?thesis by (auto simp: token_inv_def w(1,2))
qed

lemma token_store:
  assumes inv: "token_inv n w" and tm: "tm < length (timers w)" and s: "pc (timers w ! tm) = Store"
  shows "token_inv (Suc n) (set_timer tm Ended (set_token (tok (timers w ! tm)) (\<lambda>k. k\<lparr>expired := True\<rparr>) w))" (is "token_inv _ ?w")
proof -
  have one: "one_holder w" using inv by (simp add: token_inv_def)
  let ?t = "tok (timers w ! tm)"
  have ok: "timer_ok w tm (timers w ! tm)" using inv tm by (simp add: token_inv_def)
  have w: "calls ?w = calls w" "tokenPool ?w = tokenPool w" "late ?w = late w" "length (tokens ?w) = length (tokens w)"
    "tokens ?w = (tokens w)[?t := (tokens w ! ?t)\<lparr>expired := True\<rparr>]"
    "timers ?w = (timers w)[tm := Timer ?t (curGen (timers w ! tm)) Ended]"
    by (simp_all add: set_timer_def set_token_def)
  have gen: "gen (tokens ?w ! t) = gen (tokens w ! t)" for t
    using ok by (cases "t = ?t") (auto simp: w(5) timer_ok_def)
  have "timer_ok ?w i (timers ?w ! i)" if "i < length (timers w)" for i
  proof (rule timer_ok_frame [where w = w and x = "timers w ! i"])
    show "timer_ok w i (timers w ! i)" using inv that by (simp add: token_inv_def)
  qed (use that tm in \<open>auto simp: w(1,3,4,6) gen nth_list_update split: if_splits\<close>)
  moreover have "call_ok ?w q" if q: "q \<in> set (calls w)" for q
  proof (cases "?t \<in> late w \<or> holding ?t q = 0")
    case True
    have "call_ok w q" using inv q by (simp add: token_inv_def)
    moreover have "tokens ?w ! t = tokens w ! t" if "t \<notin> late w" "holding t q \<noteq> 0" for t
      using True that by (cases "t = ?t") (auto simp: w(5))
    ultimately show ?thesis using tm gen by (cases q) (auto simp: w(3,6) nth_list_update)
  next
    case False
    then have "curGen (timers w ! tm) = gen (tokens w ! ?t)" using ok s by (simp add: timer_ok_def)
    then obtain p where p: "p \<in> set (calls w)" "uses ?t tm p" using ok by (auto simp: timer_ok_def)
    obtain ys zs where yz: "calls w = ys @ p # zs" using p(1) by (auto simp: in_set_conv_decomp)
    have "holding ?t p = 1" using p(2) by (cases p) auto
    then have "q = p" using holder(3) [OF one yz] q False yz by auto
    then show ?thesis using p(2) tm by (cases p) (auto simp: w(3,6))
  qed
  moreover have "one_holder ?w" using one by (simp add: one_holder_def w)
  moreover have "unat (gen k) \<le> Suc n" if "k \<in> set (tokens ?w)" for k
    using that token_bound [OF inv] by (auto simp: w(4) in_set_conv_nth gen)
  ultimately show ?thesis by (auto simp: token_inv_def w(1,6))
qed

lemma token_inv_mono: "token_inv n w \<Longrightarrow> token_inv (Suc n) w"
  by (auto simp: token_inv_def intro: le_SucI)

lemma token_load:
  assumes inv: "token_inv n w" and c: "calls w = ys @ CLoad t # zs"
  shows "token_inv n (at_call (length ys) (CArm t (gen (tokens w ! t))) w)"
  using inv c by (intro token_keep_inv(1) [OF inv c]) (auto simp: token_inv_def)

lemma token_wait:
  assumes inv: "token_inv n w" and c: "calls w = ys @ CWait t tm # zs"
  shows "token_inv n (at_call (length ys) (CStop t tm) w)" "token_inv n (at_call (length ys) (CStop t tm) (w\<lparr>timeouts := ts\<rparr>))"
  using inv c by (intro token_keep_inv [OF inv c]; auto simp: token_inv_def)+

lemma token_call_step:
  assumes inv: "token_inv n w" and n: "Suc n < 2 ^ 32" and c: "calls w = ys @ p # zs"
    and e: "call_next (length ys) p w = Some w' \<or> leave_next (length ys) p w = Some w'"
  shows "token_inv (Suc n) w'"
proof (cases p)
  case (CClear t) then show ?thesis using e token_clear [OF inv, of ys t zs] c by simp
next
  case (CLoad t) then show ?thesis using e token_inv_mono [OF token_load [OF inv, of ys t zs]] c by simp
next
  case (CArm t g) then show ?thesis using e token_arm [OF inv, of ys t g zs] c by simp
next
  case (CWait t tm) then show ?thesis
    using e token_inv_mono [OF token_wait(1) [OF inv, of ys t tm zs]] token_inv_mono [OF token_wait(2) [OF inv, of ys t tm zs]] token_inv_mono [OF inv] c
    by (auto split: if_splits)
next
  case (CStop t tm) then show ?thesis using e token_inv_mono [OF token_stop [OF inv, of ys t tm zs]] c by simp
next
  case (CBump t tm) then show ?thesis using e token_bump [OF inv _ n, of ys t tm zs] c by simp
next
  case (CPut t) then show ?thesis using e token_put [OF inv, of ys t zs] c by simp
qed (use e in simp)

lemma token_timer_step:
  assumes inv: "token_inv n w" and tm: "tm < length (timers w)" and e: "timer_next tm w = Some w'"
  shows "token_inv (Suc n) w'"
  using e by (auto simp: timer_next_def Let_def split: tpc.splits if_splits intro!: token_store token_inv_mono [OF token_timer] inv tm)

lemma token_step:
  assumes inv: "token_inv n w" and n: "Suc n < 2 ^ 32" and e: "token_exec u w = Some w'"
  shows "token_inv (Suc n) w'"
proof (cases u)
  case (Take i d)
  then have i: "i < length (calls w)" "calls w ! i = CIdle" "w' = get_token i d w" using e by (auto split: if_splits)
  obtain ys zs where "calls w = ys @ (calls w ! i) # zs" "length ys = i" by (rule split_at [OF i(1)])
  then show ?thesis using token_take [OF inv, of ys zs d] i by simp
next
  case (Next i)
  then have i: "i < length (calls w)" "call_next i (calls w ! i) w = Some w'" using e by (auto split: if_splits)
  obtain ys zs where "calls w = ys @ (calls w ! i) # zs" "length ys = i" by (rule split_at [OF i(1)])
  then show ?thesis using token_call_step [OF inv n, of ys "calls w ! i" zs] i by simp
next
  case (Leave i)
  then have i: "i < length (calls w)" "leave_next i (calls w ! i) w = Some w'" using e by (auto split: if_splits)
  obtain ys zs where "calls w = ys @ (calls w ! i) # zs" "length ys = i" by (rule split_at [OF i(1)])
  then show ?thesis using token_call_step [OF inv n, of ys "calls w ! i" zs] i by simp
next
  case (Tick tm)
  then show ?thesis using e token_timer_step [OF inv] by (auto split: if_splits)
qed

lemma token_runs:
  "token_inv n w \<Longrightarrow> runs token_exec us w = Some w' \<Longrightarrow> n + length us < 2 ^ 32 \<Longrightarrow> token_inv (n + length us) w'"
proof (induction us arbitrary: n w)
  case (Cons u us)
  then obtain w1 where w1: "token_exec u w = Some w1" "runs token_exec us w1 = Some w'" by (auto split: option.splits)
  have "token_inv (Suc n) w1" using Cons.prems(1,3) w1(1) by (intro token_step) simp_all
  then show ?case using Cons.IH [OF _ w1(2), of "Suc n"] Cons.prems(3) by simp
qed simp

lemma token_init_inv: "token_inv 0 (tokens_init k)"
  by (auto simp: token_inv_def tokens_init_def one_holder_def total_of_def sum_list_replicate)

section \<open>Properties\<close>

text \<open>
  C18. As long as no callback is caught between its check of the generation and its store when its token is
  given back, the token of a waiting call is set only when the timer of that call is due: the clearing,
  the generation and the order of the deferred function suffice. But the two accesses of the callback are
  not one: a callback that has passed the check expires the token of the next call that gets it, which
  then returns false although its own timer is not due.
\<close>

theorem token_expires_with_own_timer:
  assumes "runs token_exec us (tokens_init k) = Some w" and "length us < 2 ^ 32"
  shows "(\<forall>i < length (calls w). \<forall>t tm. calls w ! i = CWait t tm \<and> t \<notin> late w \<and> expired (tokens w ! t) \<longrightarrow>
      tm < length (timers w) \<and> tok (timers w ! tm) = t \<and> pc (timers w ! tm) \<noteq> Armed) \<and>
    (\<exists>us' w'. runs token_exec us' (tokens_init 2) = Some w' \<and> timeouts w' = [1] \<and> pc (timers w' ! 1) = Armed)"
proof
  have "token_inv (length us) w" using token_runs [OF token_init_inv assms(1)] assms(2) by simp
  then have ok: "call_ok w (calls w ! i)" if "i < length (calls w)" for i using that by (simp add: token_inv_def)
  show "\<forall>i < length (calls w). \<forall>t tm. calls w ! i = CWait t tm \<and> t \<notin> late w \<and> expired (tokens w ! t) \<longrightarrow>
      tm < length (timers w) \<and> tok (timers w ! tm) = t \<and> pc (timers w ! tm) \<noteq> Armed"
    using ok by (metis call_ok.simps(3))
  let ?us = "[Take 0 0, Next 0, Next 0, Next 0, Tick 0, Tick 0, Leave 0, Next 0, Next 0, Next 0,
    Take 1 0, Next 1, Next 1, Next 1, Tick 0, Next 1]"
  have "map_option (\<lambda>w. (timeouts w, pc (timers w ! 1))) (runs token_exec ?us (tokens_init 2)) = Some ([1], Armed)"
    by code_simp
  then show "\<exists>us' w'. runs token_exec us' (tokens_init 2) = Some w' \<and> timeouts w' = [1] \<and> pc (timers w' ! 1) = Armed"
    by (auto simp del: runs.simps)
qed

theorem token_expires_with_own_timer_witness:
  "\<exists>w. runs token_exec [Take 0 0, Next 0, Next 0, Next 0, Tick 0, Tick 0, Tick 0] (tokens_init 1) = Some w \<and>
     expired (tokens w ! 0) \<and> pc (timers w ! 0) \<noteq> Armed"
proof -
  let ?us = "[Take 0 0, Next 0, Next 0, Next 0, Tick 0, Tick 0, Tick 0]"
  have "map_option (\<lambda>w. (calls w, 0 \<in> late w, expired (tokens w ! 0))) (runs token_exec ?us (tokens_init 1)) = Some ([CWait 0 0], False, True)"
    by code_simp
  then obtain w where "runs token_exec ?us (tokens_init 1) = Some w" "calls w = [CWait 0 0]" "0 \<notin> late w" "expired (tokens w ! 0)"
    by (auto simp del: runs.simps)
  then show ?thesis using token_expires_with_own_timer [of ?us 1 w] by (auto simp del: runs.simps)
qed

end
