(* ===== verification/Coarsetime.thy ===== *)
theory Coarsetime
  imports SafeRun
begin

text \<open>
  Package \<open>coarsetime\<close> (src/coarsetime/coarsetime.go): a clock that a background goroutine updates on
  the ticks of a timer until \<open>Stop\<close>. The times of the ticks, and which ready branch the \<open>select\<close> takes, are
  choices of the schedule. Times are \<open>int64\<close> nanoseconds and are only stored.
\<close>

record clock =
  nanotime :: int
  stopOnce :: bool
  stopCh :: bool
  looping :: bool

text \<open>\<open>init\<close> with its reading of the clock.\<close>

definition clock_init :: "int \<Rightarrow> clock" where
  "clock_init now = \<lparr>nanotime = now, stopOnce = False, stopCh = False, looping = True\<rparr>"

datatype tick_branch = OnTick int | OnStop

text \<open>One round of the loop of \<open>tick\<close>; \<open>None\<close>: the branch is not ready.\<close>

definition tick_round :: "tick_branch \<Rightarrow> clock \<Rightarrow> clock option" where
  "tick_round b c =
     (if \<not> looping c then None
      else case b of
             OnTick now \<Rightarrow> Some (c\<lparr>nanotime := now\<rparr>)
           | OnStop \<Rightarrow> (if stopCh c then Some (c\<lparr>looping := False\<rparr>) else None))"

definition Stop :: "clock \<Rightarrow> clock" where
  "Stop c = (if stopOnce c then c else c\<lparr>stopOnce := True, stopCh := True\<rparr>)"

definition NowNano :: "clock \<Rightarrow> int" where "NowNano c = nanotime c"

text \<open>\<open>time.Unix(0, n)\<close>: seconds and nanoseconds below one second.\<close>

definition Now :: "clock \<Rightarrow> int \<times> int" where
  "Now c = (nanotime c div 10 ^ 9, nanotime c mod 10 ^ 9)"

datatype clock_turn = Round tick_branch | CallStop

fun clock_exec :: "clock_turn \<Rightarrow> clock \<Rightarrow> clock option" where
  "clock_exec (Round b) c = tick_round b c"
| "clock_exec CallStop c = Some (Stop c)"

fun tick_times :: "clock_turn list \<Rightarrow> int list" where
  "tick_times (Round (OnTick now) # us) = now # tick_times us"
| "tick_times (_ # us) = tick_times us"
| "tick_times [] = []"

lemma sorted_le_last: "sorted xs \<Longrightarrow> x \<in> set xs \<Longrightarrow> x \<le> (last xs :: int)"
  by (induction xs) auto

lemma clock_last: "runs clock_exec us c = Some c' \<Longrightarrow> nanotime c' = last (nanotime c # tick_times us)"
proof (induction us arbitrary: c)
  case (Cons u us)
  then obtain c1 where c1: "clock_exec u c = Some c1" "runs clock_exec us c1 = Some c'" by (auto split: option.splits)
  note IH = Cons.IH [OF c1(2)]
  show ?case
  proof (cases u)
    case (Round b)
    then show ?thesis using c1(1) IH by (cases b) (auto simp: tick_round_def split: if_splits)
  qed (use c1(1) IH in \<open>auto simp: Stop_def split: if_splits\<close>)
qed simp

interpretation clock: machine clock_exec "\<lambda>_. True" "\<lambda>c. (\<not> looping c \<longrightarrow> stopCh c) \<and> stopOnce c = stopCh c"
proof
  fix u and c c' :: clock
  assume "clock_exec u c = Some c'" "(\<not> looping c \<longrightarrow> stopCh c) \<and> stopOnce c = stopCh c"
  then show "(\<not> looping c' \<longrightarrow> stopCh c') \<and> stopOnce c' = stopCh c'"
    by (cases "(u, c)" rule: clock_exec.cases) (auto simp: tick_round_def Stop_def split: if_splits tick_branch.splits)
qed

lemma loop_ended:
  assumes "\<not> looping c" "runs clock_exec us c = Some c'" shows "\<not> looping c' \<and> tick_times us = []"
  using assms
proof (induction us arbitrary: c)
  case (Cons u us)
  then obtain c1 where c1: "clock_exec u c = Some c1" "runs clock_exec us c1 = Some c'" by (auto split: option.splits)
  then have "u = CallStop" "\<not> looping c1" using Cons.prems(1) by (cases u; auto simp: tick_round_def Stop_def split: if_splits)+
  then show ?case using Cons.IH [OF _ c1(2)] by simp
qed simp

text \<open>
  A reading is the time of the last tick, or of \<open>init\<close>, so readings do not go back while the ticks do not.
  Once the loop has ended, which takes a call of \<open>Stop\<close>, readings never change again, and a second \<open>Stop\<close>
  has no effect. But \<open>Stop\<close> only closes a channel: a tick that is ready at the same time as the channel can
  still be taken, and stored, after \<open>Stop\<close> has returned.
\<close>

theorem coarse_clock:
  assumes "runs clock_exec us (clock_init t0) = Some c"
  shows "NowNano c = last (t0 # tick_times us) \<and> Now c = (NowNano c div 10 ^ 9, NowNano c mod 10 ^ 9) \<and>
    (sorted (t0 # tick_times us) \<longrightarrow> (\<forall>t \<in> set (t0 # tick_times us). t \<le> NowNano c)) \<and>
    Stop (Stop c) = Stop c \<and>
    (\<not> looping c \<longrightarrow> stopCh c \<and> (\<forall>us' c'. runs clock_exec us' c = Some c' \<longrightarrow> NowNano c' = NowNano c)) \<and>
    (\<exists>us' c'. runs clock_exec us' (Stop (clock_init 0)) = Some c' \<and> NowNano c' \<noteq> NowNano (Stop (clock_init 0)))"
proof (intro conjI impI allI)
  note l = clock_last [OF assms]
  then show n: "NowNano c = last (t0 # tick_times us)" by (simp add: NowNano_def clock_init_def)
  show "Now c = (NowNano c div 10 ^ 9, NowNano c mod 10 ^ 9)" by (simp add: Now_def NowNano_def)
  show "\<forall>t \<in> set (t0 # tick_times us). t \<le> NowNano c" if "sorted (t0 # tick_times us)"
    unfolding n using sorted_le_last [OF that] by blast
  show "Stop (Stop c) = Stop c" by (simp add: Stop_def)
  show "stopCh c" if "\<not> looping c"
    using clock.runs_keep [OF assms] that by (simp add: clock_init_def)
  show "NowNano c' = NowNano c" if "\<not> looping c" "runs clock_exec us' c = Some c'" for us' c'
    using clock_last [OF that(2)] loop_ended [OF that] by (simp add: NowNano_def)
  have "map_option NowNano (runs clock_exec [Round (OnTick 7)] (Stop (clock_init 0))) = Some 7" and z: "NowNano (Stop (clock_init 0)) = 0"
    by code_simp+
  then obtain c' where "runs clock_exec [Round (OnTick 7)] (Stop (clock_init 0)) = Some c'" "NowNano c' = 7"
    by (auto simp del: runs.simps)
  then show "\<exists>us' c'. runs clock_exec us' (Stop (clock_init 0)) = Some c' \<and> NowNano c' \<noteq> NowNano (Stop (clock_init 0))"
    unfolding z by (intro exI conjI) (assumption, simp)
qed

theorem coarse_clock_witness:
  "map_option NowNano (runs clock_exec [Round (OnTick 5), CallStop, Round OnStop, CallStop] (clock_init 3)) = Some 5"
proof -
  have "map_option looping (runs clock_exec [Round (OnTick 5), CallStop, Round OnStop, CallStop] (clock_init 3)) = Some False" by code_simp
  then obtain c where "runs clock_exec [Round (OnTick 5), CallStop, Round OnStop, CallStop] (clock_init 3) = Some c" by fastforce
  from coarse_clock [OF this] this show ?thesis by (simp add: clock_init_def)
qed

end
