(* ===== verification/ArtCode.thy ===== *)
theory ArtCode
  imports ArtIter
begin

text \<open>
  The functions of src/art/tree.go that exist once per container. \<open>ArtTree\<close> writes the descent once and
  goes through the operations of \<open>body\<close> where the containers differ; here each Go function is translated as
  it stands, its loops included, and shown to be what the descent does on a node of its container; so the
  functions of the source insert, remove and visit the bindings of the map below a node.
\<close>

section \<open>Insertion\<close>

text \<open>The key ends at the node: its leaf is overwritten or made.\<close>

definition put_end :: "'v inner \<Rightarrow> 'v node body \<Rightarrow> bytes \<Rightarrow> 'v \<Rightarrow> mem \<Rightarrow> 'v option \<times> 'v node \<times> mem" where
  "put_end hdr nd key val m =
     (case ileaf hdr of
        Some lf \<Rightarrow> (Some (lval lf), Nd (Inner (pfx hdr) (Some (MkLeaf (lkey lf) val))) nd, m)
      | None \<Rightarrow> (case allocLeaf key val m of (lf, m) \<Rightarrow> (None, Nd (Inner (pfx hdr) (Some lf)) nd, m)))"

definition putInner4 :: "'v inner \<Rightarrow> 'v node narr \<Rightarrow> bytes \<Rightarrow> 'v \<Rightarrow> nat \<Rightarrow> mem \<Rightarrow> 'v option \<times> 'v node \<times> mem" where
  "putInner4 hdr nd key val depth m =
     (let mismatch = prefixMismatch hdr key depth
      in if mismatch < length (pfx hdr) then splitNode hdr (B4 nd) key val depth mismatch m
         else let depth = depth + length (pfx hdr)
              in if depth = length key then put_end hdr (B4 nd) key val m
                 else let c = key ! depth
                      in case key_slot c (keys nd) (num nd) of
                           Some i \<Rightarrow>
                             (case put (nth_opt (children nd) i) key val (depth + 1) m of
                                (old, ch, m) \<Rightarrow> (old, Nd hdr (B4 (NArr (num nd) (keys nd) ((children nd)[i := Some ch]))), m))
                         | None \<Rightarrow>
                             (case allocLeaf key val m of
                                (lf, m) \<Rightarrow>
                                  (if num nd < 4 then (None, Nd hdr (B4 (addChild_arr nd c (Some (Leaf lf)))), m)
                                   else let n16 = grow4 nd in (None, Nd hdr (B16 (addChild_arr n16 c (Some (Leaf lf)))), m))))"

definition putInner16 :: "'v inner \<Rightarrow> 'v node narr \<Rightarrow> bytes \<Rightarrow> 'v \<Rightarrow> nat \<Rightarrow> mem \<Rightarrow> 'v option \<times> 'v node \<times> mem" where
  "putInner16 hdr nd key val depth m =
     (let mismatch = prefixMismatch hdr key depth
      in if mismatch < length (pfx hdr) then splitNode hdr (B16 nd) key val depth mismatch m
         else let depth = depth + length (pfx hdr)
              in if depth = length key then put_end hdr (B16 nd) key val m
                 else let c = key ! depth
                      in case key_slot c (keys nd) (num nd) of
                           Some i \<Rightarrow>
                             (case put (nth_opt (children nd) i) key val (depth + 1) m of
                                (old, ch, m) \<Rightarrow> (old, Nd hdr (B16 (NArr (num nd) (keys nd) ((children nd)[i := Some ch]))), m))
                         | None \<Rightarrow>
                             (case allocLeaf key val m of
                                (lf, m) \<Rightarrow>
                                  (if num nd < 16 then (None, Nd hdr (B16 (addChild_arr nd c (Some (Leaf lf)))), m)
                                   else let n48 = grow16 nd in (None, Nd hdr (B48 (addChild48 n48 c (Some (Leaf lf)))), m))))"

definition putInner48 :: "'v inner \<Rightarrow> 'v node node48 \<Rightarrow> bytes \<Rightarrow> 'v \<Rightarrow> nat \<Rightarrow> mem \<Rightarrow> 'v option \<times> 'v node \<times> mem" where
  "putInner48 hdr nd key val depth m =
     (let mismatch = prefixMismatch hdr key depth
      in if mismatch < length (pfx hdr) then splitNode hdr (B48 nd) key val depth mismatch m
         else let depth = depth + length (pfx hdr)
              in if depth = length key then put_end hdr (B48 nd) key val m
                 else let c = key ! depth; idx = index48 nd ! unat c
                      in if idx \<noteq> 0 then
                           (case put (nth_opt (children48 nd) (idx - 1)) key val (depth + 1) m of
                              (old, ch, m) \<Rightarrow>
                                (old, Nd hdr (B48 (Node48 (num48 nd) (free48 nd) (sorted48 nd) (index48 nd) ((children48 nd)[idx - 1 := Some ch]))), m))
                         else
                           (case allocLeaf key val m of
                              (lf, m) \<Rightarrow>
                                (if num48 nd < 48 then (None, Nd hdr (B48 (addChild48 nd c (Some (Leaf lf)))), m)
                                 else let n256 = grow48 nd in (None, Nd hdr (B256 (addChild256 n256 c (Some (Leaf lf)))), m))))"

definition putInner256 :: "'v inner \<Rightarrow> 'v node node256 \<Rightarrow> bytes \<Rightarrow> 'v \<Rightarrow> nat \<Rightarrow> mem \<Rightarrow> 'v option \<times> 'v node \<times> mem" where
  "putInner256 hdr nd key val depth m =
     (let mismatch = prefixMismatch hdr key depth
      in if mismatch < length (pfx hdr) then splitNode hdr (B256 nd) key val depth mismatch m
         else let depth = depth + length (pfx hdr)
              in if depth = length key then put_end hdr (B256 nd) key val m
                 else let c = key ! depth
                      in if nth_opt (children256 nd) (unat c) = None then
                           (case allocLeaf key val m of
                              (lf, m) \<Rightarrow>
                                (None, Nd hdr (B256 (Node256 (num256 nd + 1) (present_set (present nd) c)
                                   ((children256 nd)[unat c := Some (Leaf lf)]))), m))
                         else
                           (case put (nth_opt (children256 nd) (unat c)) key val (depth + 1) m of
                              (old, ch, m) \<Rightarrow>
                                (old, Nd hdr (B256 (Node256 (num256 nd) (present nd) ((children256 nd)[unat c := Some ch]))), m)))"

lemmas put_container = put_end_def putInner4_def putInner16_def putInner48_def putInner256_def

lemma put_dispatch:
  "put (Some (Nd hdr b)) key val depth m =
     (case b of
        B4 nd \<Rightarrow> putInner4 hdr nd key val depth m | B16 nd \<Rightarrow> putInner16 hdr nd key val depth m
      | B48 nd \<Rightarrow> putInner48 hdr nd key val depth m | B256 nd \<Rightarrow> putInner256 hdr nd key val depth m)"
  by (cases b; simp add: put_container Let_def slot_arr_def slot48_def slot256_def child_arr_def child48_def child256_def
      set_arr_def set48_def set256_def addChild256_def split: option.split prod.split)

section \<open>Deletion\<close>

definition delInner4 :: "'v inner \<Rightarrow> 'v node narr \<Rightarrow> bytes \<Rightarrow> nat \<Rightarrow> mem \<Rightarrow> 'v option \<times> 'v node option \<times> mem" where
  "delInner4 hdr nd key depth m =
     (if \<not> checkPrefix hdr key depth then (None, Some (Nd hdr (B4 nd)), m)
      else let depth = depth + length (pfx hdr)
           in if depth = length key then
                (case ileaf hdr of
                   None \<Rightarrow> (None, Some (Nd hdr (B4 nd)), m)
                 | Some lf \<Rightarrow> (Some (lval lf), shrinkAfterDelete4 (Inner (pfx hdr) None) nd m))
              else let c = key ! depth
                   in case key_slot c (keys nd) (num nd) of
                        None \<Rightarrow> (None, Some (Nd hdr (B4 nd)), m)
                      | Some i \<Rightarrow>
                          (case del (nth_opt (children nd) i) key (depth + 1) m of
                             (old, ch, m) \<Rightarrow>
                               let nd = NArr (num nd) (keys nd) ((children nd)[i := ch])
                               in if old = None then (None, Some (Nd hdr (B4 nd)), m)
                                  else if ch = None then (old, shrinkAfterDelete4 hdr (removeChildAt nd i) m)
                                  else (old, Some (Nd hdr (B4 nd)), m)))"

definition delInner16 :: "'v inner \<Rightarrow> 'v node narr \<Rightarrow> bytes \<Rightarrow> nat \<Rightarrow> mem \<Rightarrow> 'v option \<times> 'v node option \<times> mem" where
  "delInner16 hdr nd key depth m =
     (if \<not> checkPrefix hdr key depth then (None, Some (Nd hdr (B16 nd)), m)
      else let depth = depth + length (pfx hdr)
           in if depth = length key then
                (case ileaf hdr of
                   None \<Rightarrow> (None, Some (Nd hdr (B16 nd)), m)
                 | Some lf \<Rightarrow> (Some (lval lf), Some (Nd (Inner (pfx hdr) None) (B16 nd)), m))
              else let c = key ! depth
                   in case key_slot c (keys nd) (num nd) of
                        None \<Rightarrow> (None, Some (Nd hdr (B16 nd)), m)
                      | Some i \<Rightarrow>
                          (case del (nth_opt (children nd) i) key (depth + 1) m of
                             (old, ch, m) \<Rightarrow>
                               let nd = NArr (num nd) (keys nd) ((children nd)[i := ch])
                               in if old = None then (None, Some (Nd hdr (B16 nd)), m)
                                  else if ch = None then
                                    (let nd = removeChildAt nd i
                                     in if num nd \<le> 4 then (old, Some (Nd hdr (B4 (shrink16 nd))), m)
                                        else (old, Some (Nd hdr (B16 nd)), m))
                                  else (old, Some (Nd hdr (B16 nd)), m)))"

definition delInner48 :: "'v inner \<Rightarrow> 'v node node48 \<Rightarrow> bytes \<Rightarrow> nat \<Rightarrow> mem \<Rightarrow> 'v option \<times> 'v node option \<times> mem" where
  "delInner48 hdr nd key depth m =
     (if \<not> checkPrefix hdr key depth then (None, Some (Nd hdr (B48 nd)), m)
      else let depth = depth + length (pfx hdr)
           in if depth = length key then
                (case ileaf hdr of
                   None \<Rightarrow> (None, Some (Nd hdr (B48 nd)), m)
                 | Some lf \<Rightarrow> (Some (lval lf), Some (Nd (Inner (pfx hdr) None) (B48 nd)), m))
              else let c = key ! depth; idx = index48 nd ! unat c
                   in if idx = 0 then (None, Some (Nd hdr (B48 nd)), m)
                      else
                        (case del (nth_opt (children48 nd) (idx - 1)) key (depth + 1) m of
                           (old, ch, m) \<Rightarrow>
                             let nd = Node48 (num48 nd) (free48 nd) (sorted48 nd) (index48 nd) ((children48 nd)[idx - 1 := ch])
                             in if old = None then (None, Some (Nd hdr (B48 nd)), m)
                                else if ch = None then
                                  (let n = num48 nd;
                                       srt = (case key_slot c (sorted48 nd) n of
                                                Some i \<Rightarrow> (shift_down (sorted48 nd) i (n - 1))[n - 1 := 0]
                                              | None \<Rightarrow> sorted48 nd);
                                       nd = Node48 (n - 1) (set_bit (idx - 1) (free48 nd)) srt ((index48 nd)[unat c := 0]) (children48 nd)
                                   in if num48 nd \<le> 16 then (old, Some (Nd hdr (B16 (shrink48 nd))), m)
                                      else (old, Some (Nd hdr (B48 nd)), m))
                                else (old, Some (Nd hdr (B48 nd)), m)))"

definition delInner256 :: "'v inner \<Rightarrow> 'v node node256 \<Rightarrow> bytes \<Rightarrow> nat \<Rightarrow> mem \<Rightarrow> 'v option \<times> 'v node option \<times> mem" where
  "delInner256 hdr nd key depth m =
     (if \<not> checkPrefix hdr key depth then (None, Some (Nd hdr (B256 nd)), m)
      else let depth = depth + length (pfx hdr)
           in if depth = length key then
                (case ileaf hdr of
                   None \<Rightarrow> (None, Some (Nd hdr (B256 nd)), m)
                 | Some lf \<Rightarrow> (Some (lval lf), Some (Nd (Inner (pfx hdr) None) (B256 nd)), m))
              else let c = key ! depth
                   in if nth_opt (children256 nd) (unat c) = None then (None, Some (Nd hdr (B256 nd)), m)
                      else
                        (case del (nth_opt (children256 nd) (unat c)) key (depth + 1) m of
                           (old, ch, m) \<Rightarrow>
                             let nd = Node256 (num256 nd) (present nd) ((children256 nd)[unat c := ch])
                             in if old = None then (None, Some (Nd hdr (B256 nd)), m)
                                else if ch = None then
                                  (let nd = Node256 (num256 nd - 1) (present_clear (present nd) c) (children256 nd)
                                   in if num256 nd \<le> 48 then (old, Some (Nd hdr (B48 (shrink256 nd))), m)
                                      else (old, Some (Nd hdr (B256 nd)), m))
                                else (old, Some (Nd hdr (B256 nd)), m)))"

lemmas del_container = delInner4_def delInner16_def delInner48_def delInner256_def

lemma del_dispatch:
  "del (Some (Nd hdr b)) key depth m =
     (case b of
        B4 nd \<Rightarrow> delInner4 hdr nd key depth m | B16 nd \<Rightarrow> delInner16 hdr nd key depth m
      | B48 nd \<Rightarrow> delInner48 hdr nd key depth m | B256 nd \<Rightarrow> delInner256 hdr nd key depth m)"
proof -
  note d = del_container Let_def after_delete_def after_remove_def
  note c = slot_arr_def slot48_def slot256_def child_arr_def child48_def child256_def set_arr_def set48_def set256_def
    removeChild48_def removeChild256_def
  let ?stop = "depth + length (pfx hdr)"
  consider "\<not> checkPrefix hdr key depth" | "checkPrefix hdr key depth" "?stop = length key"
    | "checkPrefix hdr key depth" "?stop \<noteq> length key" "slot b (key ! ?stop) = None"
    | i where "checkPrefix hdr key depth" "?stop \<noteq> length key" "slot b (key ! ?stop) = Some i" by blast
  then show ?thesis
  proof cases
    case (4 i)
    obtain old ch m' where r: "del (child_at b i) key (?stop + 1) m = (old, ch, m')" by (metis prod_cases3)
    show ?thesis
      using 4 r by (cases b; cases old; cases ch) (auto simp: d c split: if_splits)
  qed (cases b; auto simp: d c split: option.split if_splits)+
qed

section \<open>Iteration from a key\<close>

text \<open>The loops over all children: the arrays, the sorted bytes with their index, the four bitmap words.\<close>

definition each_arr :: "('v, 's) callback \<Rightarrow> 'v node narr \<Rightarrow> 's \<Rightarrow> bool \<times> 's" where
  "each_arr fn nd = iter_while (\<lambda>ch. forEach fn ch) (take (num nd) (children nd))"

definition each48 :: "('v, 's) callback \<Rightarrow> 'v node node48 \<Rightarrow> 's \<Rightarrow> bool \<times> 's" where
  "each48 fn nd = iter_while (\<lambda>b. forEach fn (nth_opt (children48 nd) (index48 nd ! unat b - 1))) (take (num48 nd) (sorted48 nd))"

definition each256 :: "('v, 's) callback \<Rightarrow> 'v node node256 \<Rightarrow> 's \<Rightarrow> bool \<times> 's" where
  "each256 fn nd =
     iter_while (\<lambda>w. iter_while (\<lambda>bit.
       let b = of_nat (w * 64 + bit) :: byte in forEach fn (nth_opt (children256 nd) (unat b))) (bits_asc (present nd ! w))) [0..<4]"

definition seekInner :: "('v, 's) callback \<Rightarrow> 'v inner \<Rightarrow> 'v node narr \<Rightarrow> bytes \<Rightarrow> nat \<Rightarrow> 's \<Rightarrow> bool \<times> 's" where
  "seekInner fn hdr nd start depth s =
     (let cmp = comparePrefixRange (pfx hdr) start depth
      in if cmp > 0 then and_then (emit_leaf fn (\<lambda>_. True) (ileaf hdr) s) (each_arr fn nd)
         else if cmp < 0 then (True, s)
         else let depth = depth + length (pfx hdr)
              in if depth \<ge> length start then and_then (emit_leaf fn (\<lambda>lf. lkey lf > start) (ileaf hdr) s) (each_arr fn nd)
                 else let target = start ! depth
                      in and_then (emit_leaf fn (\<lambda>lf. lkey lf > start) (ileaf hdr) s)
                           (iter_while (\<lambda>(k, ch) s.
                              if k < target then (True, s)
                              else if k = target then seek fn ch start (depth + 1) s
                              else forEach fn ch s) (zip (take (num nd) (keys nd)) (take (num nd) (children nd)))))"

definition seekNode48 :: "('v, 's) callback \<Rightarrow> 'v inner \<Rightarrow> 'v node node48 \<Rightarrow> bytes \<Rightarrow> nat \<Rightarrow> 's \<Rightarrow> bool \<times> 's" where
  "seekNode48 fn hdr nd start depth s =
     (let cmp = comparePrefixRange (pfx hdr) start depth
      in if cmp > 0 then and_then (emit_leaf fn (\<lambda>_. True) (ileaf hdr) s) (each48 fn nd)
         else if cmp < 0 then (True, s)
         else let depth = depth + length (pfx hdr)
              in if depth \<ge> length start then and_then (emit_leaf fn (\<lambda>lf. lkey lf > start) (ileaf hdr) s) (each48 fn nd)
                 else let target = start ! depth
                      in and_then (emit_leaf fn (\<lambda>lf. lkey lf > start) (ileaf hdr) s)
                           (iter_while (\<lambda>b s.
                              if b < target then (True, s)
                              else let ch = nth_opt (children48 nd) (index48 nd ! unat b - 1)
                                   in if b = target then seek fn ch start (depth + 1) s else forEach fn ch s)
                              (take (num48 nd) (sorted48 nd))))"

definition seekNode256 :: "('v, 's) callback \<Rightarrow> 'v inner \<Rightarrow> 'v node node256 \<Rightarrow> bytes \<Rightarrow> nat \<Rightarrow> 's \<Rightarrow> bool \<times> 's" where
  "seekNode256 fn hdr nd start depth s =
     (let cmp = comparePrefixRange (pfx hdr) start depth
      in if cmp > 0 then and_then (emit_leaf fn (\<lambda>_. True) (ileaf hdr) s) (each256 fn nd)
         else if cmp < 0 then (True, s)
         else let depth = depth + length (pfx hdr)
              in if depth \<ge> length start then and_then (emit_leaf fn (\<lambda>lf. lkey lf > start) (ileaf hdr) s) (each256 fn nd)
                 else let target = start ! depth; startWord = unat target div 64
                      in and_then (emit_leaf fn (\<lambda>lf. lkey lf > start) (ileaf hdr) s)
                           (iter_while (\<lambda>w.
                              let word = present nd ! w;
                                  word = (if w = startWord then word AND NOT (mask (unat target mod 64)) else word)
                              in iter_while (\<lambda>bit s.
                                   let b = of_nat (w * 64 + bit); ch = nth_opt (children256 nd) (unat (b :: byte))
                                   in if b = target then seek fn ch start (depth + 1) s else forEach fn ch s) (bits_asc word))
                              [startWord..<4]))"

lemma iter_while_map: "iter_while f (map g xs) s = iter_while (\<lambda>x. f (g x)) xs s"
  by (induction xs arbitrary: s) (auto split: prod.splits bool.splits)

lemma iter_while_filter: "iter_while f (filter P xs) s = iter_while (\<lambda>x s. if P x then f x s else (True, s)) xs s"
  by (induction xs arbitrary: s) (auto split: prod.splits bool.splits)

lemma iter_while_nested: "iter_while (\<lambda>w. iter_while f (h w)) xs s = iter_while f (concat (map h xs)) s"
  by (rule iter_while_concat) simp

lemma each_arr_kids: 
  assumes "length (keys nd) = length (children nd)"
  shows "each_arr fn nd s = iter_while (\<lambda>x s. forEach fn (snd x) s) (range_arr nd) s"
proof -
  have "take (num nd) (children nd) = map snd (range_arr nd)" using assms by (simp add: range_arr_def)
  then show ?thesis by (simp add: each_arr_def iter_while_map)
qed

lemma each48_kids: "each48 fn nd s = iter_while (\<lambda>x s. forEach fn (snd x) s) (range48 nd) s"
  by (simp add: each48_def range48_def iter_while_map)

lemma each256_kids: "each256 fn nd s = iter_while (\<lambda>x s. forEach fn (snd x) s) (range256 nd) s"
proof -
  have "each256 fn nd s = iter_while (\<lambda>w. iter_while (\<lambda>b. forEach fn (nth_opt (children256 nd) (unat b)))
      (map (\<lambda>bit. of_nat (w * 64 + bit) :: byte) (bits_asc (present nd ! w)))) [0..<4] s"
    unfolding each256_def Let_def by (intro iter_while_cong refl) (simp add: iter_while_map)
  then show ?thesis by (simp add: iter_while_nested range256_def present_bytes_def iter_while_map)
qed

definition array_dims :: "'c body \<Rightarrow> bool" where
  "array_dims b \<longleftrightarrow> (case b of B4 nd \<Rightarrow> length (keys nd) = length (children nd) | B16 nd \<Rightarrow> length (keys nd) = length (children nd) | _ \<Rightarrow> True)"

definition each :: "('v, 's) callback \<Rightarrow> 'v node body \<Rightarrow> 's \<Rightarrow> bool \<times> 's" where
  "each fn b = (case b of B4 nd \<Rightarrow> each_arr fn nd | B16 nd \<Rightarrow> each_arr fn nd | B48 nd \<Rightarrow> each48 fn nd | B256 nd \<Rightarrow> each256 fn nd)"

lemma emit_all_each: "array_dims b \<Longrightarrow> emit_all fn hdr b P s = and_then (emit_leaf fn P (ileaf hdr) s) (each fn b)"
  unfolding emit_all_def
  by (rule arg_cong [where f = "and_then _"], rule ext)
    (cases b; simp add: each_def array_dims_def each_arr_kids each48_kids each256_kids)

lemma emit_all_of:
  "array_dims (B4 nd) \<Longrightarrow> emit_all fn hdr (B4 nd) P s = and_then (emit_leaf fn P (ileaf hdr) s) (each_arr fn nd)"
  "array_dims (B16 nd) \<Longrightarrow> emit_all fn hdr (B16 nd) P s = and_then (emit_leaf fn P (ileaf hdr) s) (each_arr fn nd)"
  "emit_all fn hdr (B48 nd48) P s = and_then (emit_leaf fn P (ileaf hdr) s) (each48 fn nd48)"
  "emit_all fn hdr (B256 nd256) P s = and_then (emit_leaf fn P (ileaf hdr) s) (each256 fn nd256)"
  by (simp_all add: emit_all_each each_def) (simp_all add: emit_all_each each_def array_dims_def)

lemma seek_dispatch:
  assumes "array_dims b"
  shows "seek fn (Some (Nd hdr b)) start depth s =
     (case b of
        B4 nd \<Rightarrow> seekInner fn hdr nd start depth s | B16 nd \<Rightarrow> seekInner fn hdr nd start depth s
      | B48 nd \<Rightarrow> seekNode48 fn hdr nd start depth s | B256 nd \<Rightarrow> seekNode256 fn hdr nd start depth s)"
proof -
  let ?stop = "depth + length (pfx hdr)"
  let ?f = "\<lambda>x s. if fst x = start ! ?stop then seek fn (snd x) start (?stop + 1) s else forEach fn (snd x) s"
  have arr: "iter_while ?f (filter (\<lambda>(c, ch). \<not> c < t) (range_arr nd)) s =
      iter_while (\<lambda>(k, ch) s. if k < t then (True, s) else if k = start ! ?stop then seek fn ch start (?stop + 1) s else forEach fn ch s)
        (zip (take (num nd) (keys nd)) (take (num nd) (children nd))) s" for nd t s
    unfolding iter_while_filter range_arr_def by (intro iter_while_cong refl) auto
  have n48: "iter_while ?f (filter (\<lambda>(c, ch). \<not> c < t) (range48 nd)) s =
      iter_while (\<lambda>b s. if b < t then (True, s)
        else let ch = nth_opt (children48 nd) (index48 nd ! unat b - 1)
             in if b = start ! ?stop then seek fn ch start (?stop + 1) s else forEach fn ch s) (take (num48 nd) (sorted48 nd)) s" for nd t s
    unfolding iter_while_filter range48_def iter_while_map by (intro iter_while_cong refl) (auto simp: Let_def)
  have n256: "iter_while ?f (map (\<lambda>b. (b, nth_opt (children256 nd) (unat b))) (present_from (present nd) t)) s =
      iter_while (\<lambda>w.
        let word = present nd ! w; word = (if w = unat t div 64 then word AND NOT (mask (unat t mod 64)) else word)
        in iter_while (\<lambda>bit s.
             let b = of_nat (w * 64 + bit); ch = nth_opt (children256 nd) (unat (b :: byte))
             in if b = start ! ?stop then seek fn ch start (?stop + 1) s else forEach fn ch s) (bits_asc word)) [unat t div 64..<4] s" for nd t s
    unfolding present_from_def Let_def iter_while_map iter_while_nested [symmetric] by (intro iter_while_cong refl) (simp add: iter_while_map)
  consider "comparePrefixRange (pfx hdr) start depth > 0" | "comparePrefixRange (pfx hdr) start depth < 0"
    | "comparePrefixRange (pfx hdr) start depth = 0" "length start \<le> ?stop" | "comparePrefixRange (pfx hdr) start depth = 0" "\<not> length start \<le> ?stop"
    by linarith
  then show ?thesis
  proof cases
    case 4
    note fs = arr [THEN ext] n48 [THEN ext] n256 [unfolded Let_def, THEN ext]
    from 4 show ?thesis
      by (cases b) (simp_all add: seekInner_def seekNode48_def seekNode256_def Let_def seek_range_def fs del: of_nat_add of_nat_mult)
  qed (use assms in \<open>cases b; simp add: emit_all_of seekInner_def seekNode48_def seekNode256_def Let_def\<close>)+
qed

section \<open>Iteration over a prefix\<close>

definition scanPrefixInner :: "('v, 's) callback \<Rightarrow> 'v inner \<Rightarrow> 'v node narr \<Rightarrow> bytes \<Rightarrow> nat \<Rightarrow> 's \<Rightarrow> bool \<times> 's" where
  "scanPrefixInner fn hdr nd query depth s =
     (case scan_from (pfx hdr) query depth 0 of
        Exhausted \<Rightarrow> and_then (emit_leaf fn (\<lambda>_. True) (ileaf hdr) s) (each_arr fn nd)
      | Disagrees \<Rightarrow> (True, s)
      | Covered \<Rightarrow>
          let depth = depth + length (pfx hdr)
          in if depth \<ge> length query then and_then (emit_leaf fn (\<lambda>_. True) (ileaf hdr) s) (each_arr fn nd)
             else let target = query ! depth
                  in (case key_slot target (keys nd) (num nd) of
                        Some i \<Rightarrow> scanPrefix fn (nth_opt (children nd) i) query (depth + 1) s
                      | None \<Rightarrow> (True, s)))"

definition scanPrefixNode48 :: "('v, 's) callback \<Rightarrow> 'v inner \<Rightarrow> 'v node node48 \<Rightarrow> bytes \<Rightarrow> nat \<Rightarrow> 's \<Rightarrow> bool \<times> 's" where
  "scanPrefixNode48 fn hdr nd query depth s =
     (case scan_from (pfx hdr) query depth 0 of
        Exhausted \<Rightarrow> and_then (emit_leaf fn (\<lambda>_. True) (ileaf hdr) s) (each48 fn nd)
      | Disagrees \<Rightarrow> (True, s)
      | Covered \<Rightarrow>
          let depth = depth + length (pfx hdr)
          in if depth \<ge> length query then and_then (emit_leaf fn (\<lambda>_. True) (ileaf hdr) s) (each48 fn nd)
             else let target = query ! depth; idx = index48 nd ! unat target
                  in if idx = 0 then (True, s) else scanPrefix fn (nth_opt (children48 nd) (idx - 1)) query (depth + 1) s)"

definition scanPrefixNode256 :: "('v, 's) callback \<Rightarrow> 'v inner \<Rightarrow> 'v node node256 \<Rightarrow> bytes \<Rightarrow> nat \<Rightarrow> 's \<Rightarrow> bool \<times> 's" where
  "scanPrefixNode256 fn hdr nd query depth s =
     (case scan_from (pfx hdr) query depth 0 of
        Exhausted \<Rightarrow> and_then (emit_leaf fn (\<lambda>_. True) (ileaf hdr) s) (each256 fn nd)
      | Disagrees \<Rightarrow> (True, s)
      | Covered \<Rightarrow>
          let depth = depth + length (pfx hdr)
          in if depth \<ge> length query then and_then (emit_leaf fn (\<lambda>_. True) (ileaf hdr) s) (each256 fn nd)
             else let target = query ! depth
                  in if \<not> bit (present nd ! (unat target div 64)) (unat target mod 64) then (True, s)
                     else scanPrefix fn (nth_opt (children256 nd) (unat target)) query (depth + 1) s)"

lemma scan_dispatch:
  assumes "array_dims b"
  shows "scanPrefix fn (Some (Nd hdr b)) query depth s =
     (case b of
        B4 nd \<Rightarrow> scanPrefixInner fn hdr nd query depth s | B16 nd \<Rightarrow> scanPrefixInner fn hdr nd query depth s
      | B48 nd \<Rightarrow> scanPrefixNode48 fn hdr nd query depth s | B256 nd \<Rightarrow> scanPrefixNode256 fn hdr nd query depth s)"
  using assms
  by (cases b; cases "scan_from (pfx hdr) query depth 0")
    (auto simp: emit_all_of scanPrefixInner_def scanPrefixNode48_def scanPrefixNode256_def
      Let_def scan_child_def slot_arr_def slot48_def child_arr_def child48_def has_def split: option.split)

section \<open>The dispatch on the type of a node\<close>

definition put_case :: "'v node option \<Rightarrow> bytes \<Rightarrow> 'v \<Rightarrow> nat \<Rightarrow> mem \<Rightarrow> 'v option \<times> 'v node \<times> mem" where
  "put_case n key val depth m =
     (case n of
        None \<Rightarrow> (case allocLeaf key val m of (lf, m) \<Rightarrow> (None, Leaf lf, m))
      | Some (Leaf lf) \<Rightarrow>
          (if lkey lf = key then (Some (lval lf), Leaf (MkLeaf (lkey lf) val), m) else splitLeaf lf key val depth m)
      | Some (Nd hdr (B4 nd)) \<Rightarrow> putInner4 hdr nd key val depth m
      | Some (Nd hdr (B16 nd)) \<Rightarrow> putInner16 hdr nd key val depth m
      | Some (Nd hdr (B48 nd)) \<Rightarrow> putInner48 hdr nd key val depth m
      | Some (Nd hdr (B256 nd)) \<Rightarrow> putInner256 hdr nd key val depth m)"

definition del_case :: "'v node option \<Rightarrow> bytes \<Rightarrow> nat \<Rightarrow> mem \<Rightarrow> 'v option \<times> 'v node option \<times> mem" where
  "del_case n key depth m =
     (case n of
        Some (Leaf lf) \<Rightarrow> (if lkey lf = key then (Some (lval lf), None, m) else (None, Some (Leaf lf), m))
      | Some (Nd hdr (B4 nd)) \<Rightarrow> delInner4 hdr nd key depth m
      | Some (Nd hdr (B16 nd)) \<Rightarrow> delInner16 hdr nd key depth m
      | Some (Nd hdr (B48 nd)) \<Rightarrow> delInner48 hdr nd key depth m
      | Some (Nd hdr (B256 nd)) \<Rightarrow> delInner256 hdr nd key depth m
      | None \<Rightarrow> (None, None, m))"

definition seek_case :: "('v, 's) callback \<Rightarrow> 'v node option \<Rightarrow> bytes \<Rightarrow> nat \<Rightarrow> 's \<Rightarrow> bool \<times> 's" where
  "seek_case fn n start depth s =
     (case n of
        Some (Leaf lf) \<Rightarrow> (if lkey lf > start then fn (lkey lf) (lval lf) s else (True, s))
      | Some (Nd hdr (B4 nd)) \<Rightarrow> seekInner fn hdr nd start depth s
      | Some (Nd hdr (B16 nd)) \<Rightarrow> seekInner fn hdr nd start depth s
      | Some (Nd hdr (B48 nd)) \<Rightarrow> seekNode48 fn hdr nd start depth s
      | Some (Nd hdr (B256 nd)) \<Rightarrow> seekNode256 fn hdr nd start depth s
      | None \<Rightarrow> (True, s))"

definition scan_case :: "('v, 's) callback \<Rightarrow> 'v node option \<Rightarrow> bytes \<Rightarrow> nat \<Rightarrow> 's \<Rightarrow> bool \<times> 's" where
  "scan_case fn n query depth s =
     (case n of
        Some (Leaf lf) \<Rightarrow>
          (if length (lkey lf) \<ge> length query \<and> take (length query) (lkey lf) = query
           then fn (lkey lf) (lval lf) s else (True, s))
      | Some (Nd hdr (B4 nd)) \<Rightarrow> scanPrefixInner fn hdr nd query depth s
      | Some (Nd hdr (B16 nd)) \<Rightarrow> scanPrefixInner fn hdr nd query depth s
      | Some (Nd hdr (B48 nd)) \<Rightarrow> scanPrefixNode48 fn hdr nd query depth s
      | Some (Nd hdr (B256 nd)) \<Rightarrow> scanPrefixNode256 fn hdr nd query depth s
      | None \<Rightarrow> (True, s))"

section \<open>Properties\<close>

definition node_dims :: "'v node option \<Rightarrow> bool" where
  "node_dims n \<longleftrightarrow> (case n of Some (Nd hdr b) \<Rightarrow> array_dims b | _ \<Rightarrow> True)"

lemma body_inv_dims: "body_inv b \<Longrightarrow> array_dims b"
  by (cases b) (auto simp: array_dims_def narr_inv_def)

text \<open>
  The shared descents are the code: \<open>put\<close>, \<open>del\<close>, \<open>seek\<close> and \<open>scanPrefix\<close> satisfy the equations of the Go
  functions of these names, which dispatch on the type of the node to one function per container, with
  the loops and bit operations of each; for the iterations, the arrays of keys and of children must be
  of the same length, as they are in the code and under the invariant of the tree (\<open>body_inv_dims\<close>).
\<close>

lemma descents_are_the_code:
  "put n key val depth m = put_case n key val depth m \<and>
   del n key depth m = del_case n key depth m \<and>
   (node_dims n \<longrightarrow> seek fn n start depth s = seek_case fn n start depth s \<and> scanPrefix fn n start depth s = scan_case fn n start depth s)"
proof (cases n)
  case None
  then show ?thesis by (simp add: put_case_def del_case_def seek_case_def scan_case_def)
next
  case (Some x)
  show ?thesis
  proof (cases x)
    case (Leaf lf)
    then show ?thesis using Some by (simp add: put_case_def del_case_def seek_case_def scan_case_def)
  next
    case (Nd hdr b)
    note n = Some Nd
    have "put n key val depth m = put_case n key val depth m" unfolding n put_case_def put_dispatch by (simp split: body.split)
    moreover have "del n key depth m = del_case n key depth m" unfolding n del_case_def del_dispatch by (simp split: body.split)
    moreover have "seek fn n start depth s = seek_case fn n start depth s" "scanPrefix fn n start depth s = scan_case fn n start depth s" if "node_dims n"
    proof -
      have b: "array_dims b" using that by (simp add: node_dims_def n)
      show "seek fn n start depth s = seek_case fn n start depth s" unfolding n seek_case_def seek_dispatch [OF b] by (simp split: body.split)
      show "scanPrefix fn n start depth s = scan_case fn n start depth s" unfolding n scan_case_def scan_dispatch [OF b] by (simp split: body.split)
    qed
    ultimately show ?thesis by blast
  qed
qed

lemma wf_dims: "n = None \<or> art_wf p n \<Longrightarrow> node_dims n"
  by (cases "(p, n)" rule: art_wf.cases) (auto simp: node_dims_def art_wf_node node_ok_def body_inv_dims)

text \<open>
  C17. The functions of the source, which dispatch on the type of the node to one function for each kind of
  container, on any node whose keys extend \<open>p\<close>: \<open>put\<close> returns the old value and a well-formed node whose
  bindings are the old ones with the key bound to the value, whether the leaf is overwritten, the prefix or a
  leaf split, a child entered, added, or the container grown; \<open>del\<close> returns the old value and removes
  exactly the binding of the key, with shrinking and merging; \<open>seek\<close> and \<open>scanPrefix\<close> visit exactly the bindings
  after the key and those that extend it, in key order, until the callback returns false.
\<close>

theorem container_functions_are_a_map:
  assumes "n = None \<or> art_wf p n" "starts p key"
  shows "(\<exists>n' m'. put_case n key val (length p) m = (map_of (entries n) key, n', m') \<and> art_wf p (Some n') \<and>
      map_of (entries (Some n')) = (map_of (entries n))(key \<mapsto> val)) \<and>
    (\<exists>n' m'. del_case n key (length p) m = (map_of (entries n) key, n', m') \<and> (n' = None \<or> art_wf p n') \<and>
      map_of (entries n') = (map_of (entries n))(key := None)) \<and>
    ksorted (entries n) \<and>
    seek_case fn n key (length p) s = iter_while (visit fn) (filter (\<lambda>e. key < fst e) (entries n)) s \<and>
    scan_case fn n key (length p) s = iter_while (visit fn) (filter (\<lambda>e. starts key (fst e)) (entries n)) s"
proof (intro conjI)
  note code = descents_are_the_code [where n = n and key = key and depth = "length p" and m = m and val = val
      and fn = fn and start = key and s = s]
  have c: "put_case n key val (length p) m = put n key val (length p) m" "del_case n key (length p) m = del n key (length p) m"
    "seek_case fn n key (length p) s = seek fn n key (length p) s" "scan_case fn n key (length p) s = scanPrefix fn n key (length p) s"
    using code wf_dims [OF assms(1)] by auto
  show "\<exists>n' m'. put_case n key val (length p) m = (map_of (entries n) key, n', m') \<and> art_wf p (Some n') \<and>
      map_of (entries (Some n')) = (map_of (entries n))(key \<mapsto> val)"
    using put_ok [OF assms(2,1), of val m] unfolding c by (cases "put n key val (length p) m") (auto simp: put_post_def)
  show "\<exists>n' m'. del_case n key (length p) m = (map_of (entries n) key, n', m') \<and> (n' = None \<or> art_wf p n') \<and>
      map_of (entries n') = (map_of (entries n))(key := None)"
  proof (cases n)
    case (Some x)
    then have "art_wf p n" using assms(1) by simp
    then show ?thesis using del_ok [OF assms(2), of n m] unfolding c by (cases "del n key (length p) m") (auto simp: del_post_def)
  qed (simp add: del_case_def fun_eq_iff)
  show "ksorted (entries n)" using assms(1) entries_sorted by (auto simp: ksorted_def)
  show "seek_case fn n key (length p) s = iter_while (visit fn) (filter (\<lambda>e. key < fst e) (entries n)) s"
    unfolding c using assms(1) seek_entries [OF assms(2)] by auto
  show "scan_case fn n key (length p) s = iter_while (visit fn) (filter (\<lambda>e. starts key (fst e)) (entries n)) s"
    unfolding c by (rule scanPrefix_entries [OF assms(2,1)])
qed

text \<open>A node4 with four children, which grows to a node16.\<close>

definition full_tree :: "nat tree" where
  "full_tree = snd (mrun Put Delete Get [MPut [9, 1] 10, MPut [9, 2] 20, MPut [9, 4] 40, MPut [9, 5, 6] 50] zero_tree)"

lemma full_tree_ok: "root full_tree = None \<or> art_wf [] (root full_tree)"
  using art.refines [OF zero_tree_ok(1) prod.collapse [symmetric]] unfolding full_tree_def art_inv_def by blast

fun is_node16 :: "'v node \<Rightarrow> bool" where
  "is_node16 (Nd hdr (B16 nd)) \<longleftrightarrow> True"
| "is_node16 _ \<longleftrightarrow> False"

theorem container_functions_are_a_map_witness:
  "\<exists>n m. put_case (root full_tree) [9, 3] 30 0 (tmem full_tree) = (None, n, m) \<and> is_node16 n \<and> art_wf [] (Some n) \<and>
     map_of (entries (Some n)) = (map_of (entries (root full_tree)))([9, 3] \<mapsto> 30) \<and>
     seek_case (\<lambda>k v s. (True, s @ [v])) (root full_tree) [9, 3] 0 [] = (True, [40, 50])"
proof -
  let ?fn = "\<lambda>k v s. (True, s @ [v])"
  note t = container_functions_are_a_map [OF full_tree_ok starts_Nil, of "[9, 3]" 30 "tmem full_tree" ?fn "[]"]
  have "fst (put_case (root full_tree) [9, 3] 30 0 (tmem full_tree)) = None" "is_node16 (fst (snd (put_case (root full_tree) [9, 3] 30 0 (tmem full_tree))))"
    "filter (\<lambda>e. [9, 3] < fst e) (entries (root full_tree)) = [([9, 4], 40), ([9, 5, 6], 50)]"
    by code_simp+
  then show ?thesis using t by (auto simp del: entries.simps)
qed

end
