(* ===== verification/Spec2Isabelle.thy ===== *)
theory Spec2Isabelle
  imports Swar Fold Yakutil RingBuffer ArtIter Lru Wheel Spsc Smap Itable Backoff Topn Sketch Hll Semaphore Ratelimit
    Ipmap Ipbudget Arena Mpsc Bufpool Percpu Hist Cow WStack WPool WAdaptive WToken Coarsetime ArtCode
begin

text \<open>
  A verification library for yakutil, a collection of Go packages of data structures and concurrency
  primitives. The packages are independent of each other except for a few calls: \<open>fold\<close> and \<open>swar\<close> scan
  words, \<open>sketch\<close>, \<open>hll\<close>, \<open>lru\<close> and \<open>smap\<close> hash with package \<open>hash\<close>, \<open>ratelimit.IPMap\<close> is built on \<open>smap.Map\<close>,
  the token bucket and \<open>topn\<close>, and the constructors of rings, maps, caches and counters share the loop that
  doubles a size up to a power of two.

  \<^bold>\<open>Theories.\<close> A definition has the name of the Go function it translates, prefixed where two packages
  use the same name; a struct is a record, a method a function from and to that record.

  \<^item> \<open>Prelude\<close>, \<open>Words\<close>: Go's machine integers, the doubling loop, slices and circular buffers, bytes of
    words, trailing zeros. \<open>Interfaces\<close>: the contracts \<open>fifo\<close>, \<open>dictionary\<close>, \<open>simulation\<close>, \<open>io_writer\<close> and
    \<open>io_reader\<close> as locales, each interpreted in the theories of the components that provide it.
    \<open>SortedAL\<close>: sorted association lists. \<open>Floats\<close>: rounding to 64-bit floats and its error; \<open>Float64\<close>: the
    values and operations of \<open>float64\<close> with subnormal numbers, overflow and NaN. \<open>Dll\<close>: the circular linked
    lists of \<open>lru\<close> and \<open>wheel\<close> at the level of pointer assignments. \<open>SafeRun\<close>: what the worker pools share, with the contract \<open>machine\<close>.
  \<^item> \<open>Swar\<close> (swar/swar.go), \<open>Fold\<close> (fold/fold.go), \<open>Yakutil\<close> (yakutil.go, hash/hash.go): word tricks against
    byte-by-byte reference definitions.
  \<^item> \<open>RingBuffer\<close> (ring/ring.go): the growing byte ring with 64-bit wrapping positions; \<open>contents\<close> is what it
    holds, and every operation is an operation on that list.
  \<^item> \<open>ArtNode\<close>, \<open>ArtBody\<close> (art/node.go), \<open>ArtTree\<close> (art/tree.go), \<open>ArtMap\<close>, \<open>ArtIter\<close>: the adaptive radix tree.
    The four containers are interpretations of one contract (\<open>art_node\<close>), a sorted map from bytes to
    children; the tree is a map (\<open>art_abs\<close>) under the invariant \<open>art_inv\<close>, and the traversals are filtered
    lists of its entries. The descents are written once over the contract; \<open>ArtCode\<close> translates the functions
    that the source has once per container and shows that these functions, too, update, delete, seek and
    scan the map of a node.
  \<^item> \<open>Lru\<close> (lru/lru.go), \<open>Wheel\<close> (wheel/wheel.go): linked structures that refine recency lists with expiry
    and lists of timers. \<open>Smap\<close> (smap/smap.go), \<open>Itable\<close> (itable/itable.go), \<open>Ipmap\<close> (ratelimit/ipmap.go):
    partitioned maps that refine one map. \<open>Ipbudget\<close>: what map, eviction and buckets together grant one
    address.
  \<^item> \<open>Ratelimit\<close> (ratelimit/ratelimit.go), \<open>Semaphore\<close> (semaphore/semaphore.go), \<open>Arena\<close> (arena/arena.go),
    \<open>Spsc\<close> (spsc/ring.go), \<open>Mpsc\<close> (mpsc/ring.go), \<open>Cow\<close> (cow/cow.go), \<open>Percpu\<close> (percpu/counter.go,
    percpu/gauge.go), \<open>WStack\<close> (wpool/stack.go, wpool/safe.go), \<open>WToken\<close> (the
    recycled timeout tokens of wpool/stack.go), \<open>WPool\<close>, \<open>WAdaptive\<close> (wpool/pool.go), \<open>Coarsetime\<close>
    (coarsetime/coarsetime.go): sequential operations and the interleaving of goroutines.
  \<^item> \<open>Topn\<close> (topn/topn.go), \<open>Sketch\<close> (sketch/sketch.go, hash/hash_maphash.go), \<open>Hll\<close> (hll/hll.go), \<open>Hist\<close>
    (hist/hist.go), \<open>Bufpool\<close> (bufpool/pool.go), \<open>Backoff\<close> (backoff/backoff.go).

  \<^bold>\<open>Interleavings.\<close> A goroutine is a program counter with the values it has read; one step is one atomic
  access, one channel operation or one section under a mutex. Atomics are sequentially consistent, as the
  memory model of Go promises. \<open>Semaphore\<close>, \<open>Ratelimit\<close>, \<open>Arena\<close>, \<open>Spsc\<close>, \<open>Mpsc\<close>, \<open>Cow\<close> and \<open>Smap.GetOrSet\<close> are
  step relations, the worker pools and the clock executable machines that run a schedule, in which every choice the
  runtime makes (a ready branch of a select, the waiter a signal wakes, the object \<open>sync.Pool\<close> returns, a
  timer that fires) is an argument. All safety properties hold for any number of goroutines. Where each
  operation of a package is one critical section (\<open>lru\<close>, \<open>wheel\<close>, the other operations of \<open>smap\<close>) or one
  access per key (\<open>itable\<close>) histories of calls are enough.

  \<^bold>\<open>Integers and loops.\<close> Words are \<open>8 word\<close>, \<open>32 word\<close> and \<open>64 word\<close>; \<open>int\<close> and \<open>int64\<close> are integers with
  \<open>swrap64\<close> written where they can overflow, \<open>int32\<close> in \<open>wpool\<close> with \<open>swrap32\<close>. There is no fuel: loops that
  may not end are partial functions into options, and \<open>None\<close> is the call that does not return - the
  doubling loop of the constructors (which returns up to \<open>2 ^ 62\<close>), \<open>arena.Alloc\<close> when the aligned
  length exceeds the chunk, \<open>lru.RangeLimit\<close>, \<open>ring.ReadFrom\<close> on a reader that makes no progress. Panics are
  values as well. All other loops are total functions. The hypotheses bound sizes and times below
  \<open>2 ^ 62\<close> and runs below \<open>2 ^ 64\<close> steps where a counter would wrap.

  \<^bold>\<open>Parameters.\<close> Not defined here because it is not in the repository: the seeded maphash (any function),
  \<open>slices.SortFunc\<close> (a sorted permutation for a strict weak order), the iteration order of Go maps (any
  permutation), clock readings, readers and writers that keep the contract of package \<open>io\<close>, what
  \<open>sync.Pool\<close> returns, stack addresses in \<open>percpu\<close>, callbacks and tasks (by their results or panics),
  \<open>math.Log\<close> (any function within a relative error of \<open>2 ^ -50\<close> of the logarithm, \<open>log_ok\<close>), and the byte order of
  the processor.

  \<^bold>\<open>What the properties show.\<close> Refinement of an abstract data type over every history (radix tree, cache,
  wheel, maps, per-address limiter); safety in every interleaving (no value lost, repeated
  or reordered in the queues, permits, tokens and workers never above their limits, memory handed out
  never overlaps, every accepted task accounted for); equivalence of optimised code with its reference
  (word-wise scanning and folding, sketches as functions of the multiset or set of keys, selection of the
  best elements); bounds, round trips and termination; what survives the rounding of \<open>float64\<close> (the
  parameters of \<open>sketch\<close>, small counts of \<open>hll\<close>, the estimates of \<open>hist\<close>). The limit of \<open>IPMap\<close> needs a time
  to live that fills a bucket, and the guarantee of \<open>NewFromError\<close> counts the placements of a key: no
  probability is defined here. Where the code falls short of its documentation
  a property states exactly what it does instead: \<open>EqualBytes\<close> on high bytes, \<open>UnreadByte\<close> and
  \<open>WritableSegments\<close> after operations that do not reset the state, \<open>RangeLimit\<close>, delays of whole
  revolutions of the wheel, the parking of \<open>Acquire\<close>, a rate above one token per nanosecond, \<open>Alloc\<close> of a
  length that only exceeds the chunk when aligned, callers that wait for ever and tasks that are lost in
  the worker pools, a timeout that comes from the timer of an earlier call, more workers than the maximum of
  \<open>Adaptive\<close>, workers started after its \<open>Stop\<close>, a tick stored after \<open>coarsetime.Stop\<close>, a NaN from
  \<open>EstRange\<close> when the width of a bucket overflows.

  \<^bold>\<open>Not modelled.\<close> The recycling of the timers of \<open>wpool.Pool\<close> (a timer is a choice of the schedule);
  the options that only store a clock or a handler (the clock readings and the handler are parameters);
  memory layout, alignment, cache effects and allocation counts; memory is unlimited, so \<open>make\<close> never fails
  (\<open>hist.Build\<close> with a huge number of buckets, \<open>bufpool.Get\<close> of a huge size). The arithmetic of \<open>sketch\<close>
  and \<open>hll\<close> is rounded without overflow and subnormal numbers, which the ranges of their theorems exclude, and the constant \<open>alpha\<close>
  of \<open>hll\<close> is rounded once. Among the interleavings, \<open>Ratelimit\<close> has no \<open>Reset\<close>, \<open>Arena\<close> counts chunks in the
  step that switches them and leaves the count of padding to the sequential \<open>Alloc\<close>, and in \<open>Semaphore\<close> a
  goroutine releases only permits it holds. In package \<open>yakutil\<close> the types without
  behaviour (\<open>NoCopy\<close>, \<open>Pad\<close>). The unaligned loads of \<open>swar\<close> and \<open>fold\<close> are explicitly little-endian in
  the source; \<open>art\<close> loads the keys of a node16 in the order of the processor, which is taken to be
  little-endian. \<open>WStack\<close> and \<open>WToken\<close> are two machines for one file: in the
  first the token of a call is its own, so it shows what the pool does with timely timeouts, and the second
  says when a token is timely.
\<close>

end
